(* ===== verification/Prelude.thy ===== *)
theory Prelude
  imports Main "HOL-Library.Word" "HOL-Library.List_Lexorder" "HOL-Library.Char_ord"
begin

text \<open>
  What the components share: the machine integer types of \<open>interface/protocol.hpp\<close>, the ways
  a run of the C++ code can go wrong, sequencing of computations that can go wrong, and the two
  standard containers the program keeps its state in.

  \<^item> \<open>std::unordered_map\<close> is an association list with distinct keys (\<open>um_emplace\<close>,
    \<open>um_assign\<close>, \<open>um_erase\<close>). The order of the list stands for the iteration order of the
    container, which C++ leaves open: theorems about loops over such a container speak about the
    set of what is done, never about the order.
  \<^item> \<open>std::map\<close> is an association list with strictly ascending keys (\<open>om_emplace\<close>,
    \<open>om_assign\<close>, \<open>om_erase\<close>); here the iteration order is the key order and is part of
    the behaviour. \<open>std::string\<close> keys are compared as the code compares them, lexicographically
    by unsigned character code (\<open>List_Lexorder\<close> over \<open>Char_ord\<close>).

  Both offer the interface \<open>dict\<close>, whose consequences are proved once.
\<close>

section \<open>Machine integers\<close>

type_synonym u8 = "8 word"
type_synonym u16 = "16 word"
type_synonym u32 = "32 word"
type_synonym u64 = "64 word"

named_theorems dict_simps \<open>lookup laws of the two container models\<close>
named_theorems handler_defs \<open>definitions of the message handlers\<close>
named_theorems codec_intros \<open>lawfulness of the codecs, one rule per message type\<close>

section \<open>Faults\<close>

text \<open>
  A run of the code can fail in a way the code does not handle. Undefined behaviour is given a
  constructor of its own, so that its absence is a theorem: \<open>NullDeref\<close> is a call through an
  empty \<open>shared_ptr\<close>, \<open>EndDeref\<close> the dereference of an \<open>end()\<close> iterator or the first
  element of an empty vector, \<open>Dangling\<close> the use of an object that has been destroyed,
  \<open>BufferOverflow\<close> a write behind a fixed array, \<open>Diverges\<close> a loop that does not end.
  \<open>Thrown\<close> is a C++ exception that leaves the modelled function.
\<close>

datatype fault = NullDeref | EndDeref | Dangling | BufferOverflow | Diverges | Thrown string

fun bindR :: "'e + 'a \<Rightarrow> ('a \<Rightarrow> 'e + 'b) \<Rightarrow> 'e + 'b" where
  "bindR (Inl e) f = Inl e"
| "bindR (Inr x) f = f x"

lemma bindR_eq_Inr [simp]: "(bindR x f = Inr z) = (\<exists>y. x = Inr y \<and> f y = Inr z)"
  by (cases x) auto

lemma bindR_eq_Inl [simp]: "(bindR x f = Inl e) = (x = Inl e \<or> (\<exists>y. x = Inr y \<and> f y = Inl e))"
  by (cases x) auto

lemma bindR_assoc: "bindR (bindR x f) g = bindR x (\<lambda>y. bindR (f y) g)"
  by (cases x) auto

section \<open>Containers\<close>

text \<open>
  \<open>emplace\<close> inserts unless the key is present, \<open>assign\<close> is \<open>operator[]\<close> followed by an
  assignment, \<open>erase\<close> removes a key and does nothing where it is absent.
\<close>

definition um_emplace :: "'k \<Rightarrow> 'v \<Rightarrow> ('k \<times> 'v) list \<Rightarrow> ('k \<times> 'v) list" where
  "um_emplace k v m = (case map_of m k of None \<Rightarrow> m @ [(k, v)] | Some _ \<Rightarrow> m)"

fun um_assign :: "'k \<Rightarrow> 'v \<Rightarrow> ('k \<times> 'v) list \<Rightarrow> ('k \<times> 'v) list" where
  "um_assign k v [] = [(k, v)]"
| "um_assign k v (p # m) = (if fst p = k then (k, v) # m else p # um_assign k v m)"

definition um_erase :: "'k \<Rightarrow> ('k \<times> 'v) list \<Rightarrow> ('k \<times> 'v) list" where
  "um_erase k m = filter (\<lambda>p. fst p \<noteq> k) m"

definition um_wf :: "('k \<times> 'v) list \<Rightarrow> bool" where
  "um_wf m = distinct (map fst m)"

fun om_emplace :: "'k::linorder \<Rightarrow> 'v \<Rightarrow> ('k \<times> 'v) list \<Rightarrow> ('k \<times> 'v) list" where
  "om_emplace k v [] = [(k, v)]"
| "om_emplace k v (p # m) =
     (if k < fst p then (k, v) # p # m else if k = fst p then p # m else p # om_emplace k v m)"

fun om_assign :: "'k::linorder \<Rightarrow> 'v \<Rightarrow> ('k \<times> 'v) list \<Rightarrow> ('k \<times> 'v) list" where
  "om_assign k v [] = [(k, v)]"
| "om_assign k v (p # m) =
     (if k < fst p then (k, v) # p # m else if k = fst p then (k, v) # m else p # om_assign k v m)"

definition om_erase :: "'k::linorder \<Rightarrow> ('k \<times> 'v) list \<Rightarrow> ('k \<times> 'v) list" where
  "om_erase k m = filter (\<lambda>p. fst p \<noteq> k) m"

definition om_wf :: "('k::linorder \<times> 'v) list \<Rightarrow> bool" where
  "om_wf m = sorted_wrt (<) (map fst m)"

section \<open>The dictionary interface\<close>

locale dict =
  fixes find :: "'m \<Rightarrow> 'k \<Rightarrow> 'v option"
    and emplace :: "'k \<Rightarrow> 'v \<Rightarrow> 'm \<Rightarrow> 'm"
    and assign :: "'k \<Rightarrow> 'v \<Rightarrow> 'm \<Rightarrow> 'm"
    and erase :: "'k \<Rightarrow> 'm \<Rightarrow> 'm"
    and items :: "'m \<Rightarrow> ('k \<times> 'v) list"
    and wf :: "'m \<Rightarrow> bool"
  assumes find_emplace: "wf m \<Longrightarrow> find (emplace k v m) =
      (case find m k of None \<Rightarrow> (find m)(k \<mapsto> v) | Some _ \<Rightarrow> find m)"
    and find_assign: "wf m \<Longrightarrow> find (assign k v m) = (find m)(k \<mapsto> v)"
    and find_erase: "wf m \<Longrightarrow> find (erase k m) = (find m)(k := None)"
    and wf_emplace: "wf m \<Longrightarrow> wf (emplace k v m)"
    and wf_assign: "wf m \<Longrightarrow> wf (assign k v m)"
    and wf_erase: "wf m \<Longrightarrow> wf (erase k m)"
    and items_find: "wf m \<Longrightarrow> (k, v) \<in> set (items m) \<longleftrightarrow> find m k = Some v"
begin

lemma find_emplace_fresh: "wf m \<Longrightarrow> find m k = None \<Longrightarrow> find (emplace k v m) = (find m)(k \<mapsto> v)"
  by (simp add: find_emplace)

lemma find_emplace_present: "wf m \<Longrightarrow> find m k = Some w \<Longrightarrow> find (emplace k v m) = find m"
  by (simp add: find_emplace)

lemma dom_emplace: "wf m \<Longrightarrow> dom (find (emplace k v m)) = insert k (dom (find m))"
  by (auto simp: find_emplace split: option.splits)

lemma erase_emplace_fresh:
  "wf m \<Longrightarrow> find m k = None \<Longrightarrow> find (erase k (emplace k v m)) = find m"
  by (auto simp: find_erase find_emplace wf_emplace)

lemma items_empty: "wf m \<Longrightarrow> items m = [] \<longleftrightarrow> find m = Map.empty"
proof -
  assume wf: "wf m"
  have "items m = [] \<longleftrightarrow> (\<forall>k v. (k, v) \<notin> set (items m))"
    by (metis empty_iff list.set(1) list.set_intros(1) neq_Nil_conv surj_pair)
  with wf show ?thesis
    by (auto simp: items_find fun_eq_iff intro: option.exhaust)
qed

end

lemma map_of_filter_key: "map_of (filter (\<lambda>p. fst p \<noteq> k) m) = (map_of m)(k := None)"
  by (induction m) (auto simp: fun_eq_iff)

lemma map_of_um_assign: "map_of (um_assign k v m) = (map_of m)(k \<mapsto> v)"
  by (induction m) (auto simp: fun_eq_iff)

lemma map_of_um_emplace:
  "map_of (um_emplace k v m) = (case map_of m k of None \<Rightarrow> (map_of m)(k \<mapsto> v) | Some _ \<Rightarrow> map_of m)"
  by (auto simp: um_emplace_def map_add_def fun_eq_iff split: option.splits)

lemma keys_um_assign: "set (map fst (um_assign k v m)) = insert k (set (map fst m))"
  by (induction m) auto

lemma um_wf_assign: "um_wf m \<Longrightarrow> um_wf (um_assign k v m)"
proof (induction m)
  case (Cons p m)
  then show ?case
    using keys_um_assign [of k v m] by (auto simp: um_wf_def)
qed (simp add: um_wf_def)

lemma um_wf_emplace: "um_wf m \<Longrightarrow> um_wf (um_emplace k v m)"
  by (auto simp: um_wf_def um_emplace_def map_of_eq_None_iff split: option.splits)

lemma um_wf_erase: "um_wf m \<Longrightarrow> um_wf (um_erase k m)"
  by (auto simp: um_wf_def um_erase_def distinct_map_filter)

interpretation um: dict map_of um_emplace um_assign um_erase id um_wf
proof (unfold_locales, goal_cases)
  case (3 m k) show ?case by (simp add: um_erase_def map_of_filter_key)
next
  case (7 m k v) then show ?case by (simp add: um_wf_def)
qed (auto simp: map_of_um_emplace map_of_um_assign um_wf_emplace um_wf_assign um_wf_erase)

lemma om_wf_Cons: "om_wf (p # m) \<longleftrightarrow> (\<forall>q\<in>set m. fst p < fst q) \<and> om_wf m"
  by (simp add: om_wf_def)

lemma om_wf_distinct: "om_wf m \<Longrightarrow> distinct (map fst m)"
  by (simp add: om_wf_def strict_sorted_iff)

lemma map_of_om_emplace: "om_wf m \<Longrightarrow> map_of (om_emplace k v m) =
    (case map_of m k of None \<Rightarrow> (map_of m)(k \<mapsto> v) | Some _ \<Rightarrow> map_of m)"
proof (induction m)
  case (Cons p m)
  then have "k < fst p \<Longrightarrow> map_of m k = None"
    by (force simp: om_wf_Cons map_of_eq_None_iff)
  with Cons show ?case
    by (auto simp: om_wf_Cons fun_eq_iff split: option.splits)
qed auto

lemma map_of_om_assign: "om_wf m \<Longrightarrow> map_of (om_assign k v m) = (map_of m)(k \<mapsto> v)"
  by (induction m) (auto simp: om_wf_Cons fun_eq_iff)

lemma keys_om_emplace: "fst ` set (om_emplace k v m) = insert k (fst ` set m)"
  by (induction m) auto

lemma keys_om_assign: "fst ` set (om_assign k v m) = insert k (fst ` set m)"
  by (induction m) auto

lemma om_wf_keys: "om_wf (p # m) \<longleftrightarrow> (\<forall>k\<in>fst ` set m. fst p < k) \<and> om_wf m"
  by (simp add: om_wf_def)

text \<open>A map in key order is determined by what it maps its keys to.\<close>

lemma om_unique:
  fixes a :: "('k::linorder \<times> 'v) list"
  assumes "om_wf a" "om_wf b" "map_of a = map_of b"
  shows "a = b"
proof -
  have items: "map (\<lambda>k. (k, the (map_of m k))) (map fst m) = m" if "om_wf m" for m :: "('k \<times> 'v) list"
    using om_wf_distinct [OF that] by (auto intro!: map_idI)
  have "set (map fst a) = set (map fst b)" using arg_cong [OF assms(3), of dom] by (simp add: dom_map_of_conv_image_fst)
  then have "map fst a = map fst b" using assms(1,2) unfolding om_wf_def by (metis strict_sorted_equal)
  then show ?thesis using items [OF assms(1)] items [OF assms(2)] assms(3) by metis
qed

lemma om_wf_emplace: "om_wf m \<Longrightarrow> om_wf (om_emplace k v m)"
  by (induction m) (auto simp: om_wf_keys keys_om_emplace om_wf_def)

lemma om_wf_assign: "om_wf m \<Longrightarrow> om_wf (om_assign k v m)"
  by (induction m) (auto simp: om_wf_keys keys_om_assign om_wf_def)

lemma om_wf_erase: "om_wf m \<Longrightarrow> om_wf (om_erase k m)"
  by (induction m) (auto simp: om_wf_Cons om_erase_def)

interpretation om: dict map_of om_emplace om_assign om_erase id om_wf
proof (unfold_locales, goal_cases)
  case (3 m k) show ?case by (simp add: om_erase_def map_of_filter_key)
next
  case (7 m k v) then show ?case by (auto dest: om_wf_distinct)
qed (auto simp: map_of_om_emplace map_of_om_assign om_wf_emplace om_wf_assign om_wf_erase)

lemma um_find_erase: "map_of (um_erase k m) = (map_of m)(k := None)"
  by (simp add: um_erase_def map_of_filter_key)

lemma om_find_erase: "map_of (om_erase k m) = (map_of m)(k := None)"
  by (simp add: om_erase_def map_of_filter_key)

lemmas dict_laws [dict_simps] =
  map_of_um_emplace map_of_um_assign um_find_erase om_find_erase
  um_wf_emplace um_wf_assign um_wf_erase om_wf_emplace om_wf_assign om_wf_erase

lemma um_wf_Nil [simp]: "um_wf []" and om_wf_Nil [simp]: "om_wf []"
  by (simp_all add: um_wf_def om_wf_def)

lemma fresh_head_disjoint:
  "A \<inter> B = {} \<Longrightarrow> x \<notin> A' \<Longrightarrow> A = insert x A' \<Longrightarrow> S \<subseteq> A' \<Longrightarrow> T \<subseteq> B \<Longrightarrow>
     x \<notin> S \<and> x \<notin> T \<and> S \<inter> T = {}"
  by blast

section \<open>Counters\<close>

text \<open>A post-incremented counter that has not reached its last value does not wrap.\<close>

lemma unat_inc_u32: "unat (c :: u32) < 2 ^ 32 - 1 \<Longrightarrow> unat (c + 1) = unat c + 1"
  by (simp add: unat_word_ariths)

lemma unat_ucast_u32_u64 [simp]: "unat (ucast (c :: u32) :: u64) = unat c"
  by transfer (simp add: take_bit_nat_def flip: nat_take_bit_eq)

section \<open>Integers in memory\<close>

text \<open>
  The code copies integers to and from byte buffers with \<open>memcpy\<close> and placement \<open>new\<close>, in the
  byte order of the machine. The model is of a little-endian machine (x86, ARM as deployed).
\<close>

fun le_nat :: "u8 list \<Rightarrow> nat" where
  "le_nat [] = 0"
| "le_nat (b # bs) = unat b + 256 * le_nat bs"

fun le_bytes :: "nat \<Rightarrow> nat \<Rightarrow> u8 list" where
  "le_bytes 0 x = []"
| "le_bytes (Suc n) x = of_nat (x mod 256) # le_bytes n (x div 256)"

lemma length_le_bytes [simp]: "length (le_bytes n x) = n"
  by (induction n arbitrary: x) auto

lemma le_nat_le_bytes: "le_nat (le_bytes n x) = x mod 256 ^ n"
proof (induction n arbitrary: x)
  case (Suc n)
  have "unat (of_nat (x mod 256) :: u8) = x mod 256"
    by (simp add: unat_of_nat)
  then show ?case
    by (simp add: Suc mod_mult2_eq)
qed simp

lemma unat_lt2p_u8: "unat (b :: u8) < 256"
proof -
  have "unat b < 2 ^ LENGTH(8)" by (rule unsigned_less)
  then show ?thesis by simp
qed

lemma le_nat_bound: "le_nat bs < 256 ^ length bs"
proof (induction bs)
  case (Cons b bs)
  with unat_lt2p_u8 [of b] show ?case by simp
qed simp

section \<open>Numbers as text\<close>

text \<open>What \<open>std::to_string\<close> and \<open><<\<close> make of a number.\<close>

fun decimal :: "nat \<Rightarrow> string" where
  "decimal n = (if n < 10 then [char_of (48 + n)] else decimal (n div 10) @ [char_of (48 + n mod 10)])"

declare decimal.simps [simp del]

end
