(* ===== verification/Framing.thy ===== *)
theory Framing
  imports Prelude
begin

text \<open>
  The read loops of the two programs: \<open>ConnectionSession::handleRead\<close> of the server and
  \<open>Client::handleRead\<close>. Both are called by the reactor when bytes are there, call \<open>read\<close> once, and
  build frames: two bytes with the size of the body, then the body. They have the same state and
  differ in the capacity of the buffer and in what they do on errors.

  The bytes \<open>read\<close> returned are an argument: \<open>None\<close> is the return value -1, \<open>Some []\<close> the return
  value 0. What both loops have in common is the interface \<open>framed_reader\<close>: from its laws it
  follows that any stream of frames is delivered frame by frame, however \<open>read\<close> splits the bodies.
\<close>

section \<open>State\<close>

datatype ReadState = WAIT_HEADER | WAIT_REMAINING

record ReadBuffer =
  mBuff :: "u8 list"
  mBuffIdx :: u16
  mReadState :: ReadState
  mExpectedReadSize :: int

text \<open>The buffer is not initialised by the constructors: \<open>junk\<close> is what is in it.\<close>

definition init_ReadBuffer :: "u8 list \<Rightarrow> ReadBuffer" where
  "init_ReadBuffer junk = \<lparr>mBuff = junk, mBuffIdx = 0, mReadState = WAIT_HEADER, mExpectedReadSize = 0\<rparr>"

text \<open>How many bytes \<open>read\<close> is asked for.\<close>

definition readSize :: "ReadBuffer \<Rightarrow> int" where
  "readSize s = (case mReadState s of
     WAIT_HEADER \<Rightarrow> 2
   | WAIT_REMAINING \<Rightarrow> mExpectedReadSize s - int (unat (mBuffIdx s)))"

datatype read_result = Pending | Delivered "u8 list" | Closed

section \<open>The loops\<close>

text \<open>\<open>read\<close> stores what it returns at \<open>mBuff + mBuffIdx\<close>.\<close>

definition store :: "u8 list \<Rightarrow> ReadBuffer \<Rightarrow> fault + ReadBuffer" where
  "store bs s =
     (let i = unat (mBuffIdx s)
      in if length (mBuff s) < i + length bs then Inl BufferOverflow
         else Inr (s\<lparr>mBuff := take i (mBuff s) @ bs @ drop (i + length bs) (mBuff s)\<rparr>))"

text \<open>\<open>memcpy(&mExpectedReadSize, mBuff, 2)\<close> replaces the two low bytes of the \<open>int\<close>.\<close>

definition copy_header :: "ReadBuffer \<Rightarrow> ReadBuffer" where
  "copy_header s = s\<lparr>mExpectedReadSize :=
     mExpectedReadSize s div 2 ^ 16 * 2 ^ 16 + int (le_nat (take 2 (mBuff s)))\<rparr>"

definition server_handleRead :: "u8 list option \<Rightarrow> ReadBuffer \<Rightarrow> fault + (ReadBuffer \<times> read_result)" where
  "server_handleRead res s =
     (case res of
        None \<Rightarrow> Inr (s, Closed)
      | Some bs \<Rightarrow>
          if bs = [] then Inr (s, Closed)
          else bindR (store bs s) (\<lambda>s.
            let s = s\<lparr>mBuffIdx := mBuffIdx s + of_nat (length bs)\<rparr>
            in if mReadState s = WAIT_HEADER
               then Inr ((copy_header s)\<lparr>mBuffIdx := 0, mReadState := WAIT_REMAINING\<rparr>, Pending)
               else if mExpectedReadSize s = int (unat (mBuffIdx s))
               then Inr (s\<lparr>mReadState := WAIT_HEADER, mBuffIdx := 0\<rparr>,
                         Delivered (take (unat (mBuffIdx s)) (mBuff s)))
               else Inr (s, Pending)))"

definition client_handleRead :: "u8 list option \<Rightarrow> ReadBuffer \<Rightarrow> fault + (ReadBuffer \<times> read_result)" where
  "client_handleRead res s =
     (case res of
        None \<Rightarrow> Inl (Thrown ''errno'')
      | Some bs \<Rightarrow>
          if bs = [] then Inl (Thrown ''Server disconnected!'')
          else bindR (store bs s) (\<lambda>s.
            let s = s\<lparr>mBuffIdx := mBuffIdx s + of_nat (length bs)\<rparr>
            in if mReadState s = WAIT_HEADER
               then Inr ((copy_header s)\<lparr>mBuffIdx := 0, mReadState := WAIT_REMAINING\<rparr>, Pending)
               else if mExpectedReadSize s = int (unat (mBuffIdx s))
               then Inr (s\<lparr>mReadState := WAIT_HEADER, mBuffIdx := 0\<rparr>,
                         Delivered (take (unat (mBuffIdx s)) (mBuff s)))
               else Inr (s, Pending)))"

definition SERVER_BUFFER :: nat where
  "SERVER_BUFFER = 512"

definition CLIENT_BUFFER :: nat where
  "CLIENT_BUFFER = 1024 * 64"

section \<open>Where a reader is in its stream\<close>

definition at_header :: "nat \<Rightarrow> ReadBuffer \<Rightarrow> bool" where
  "at_header cap s \<longleftrightarrow> length (mBuff s) = cap \<and> mReadState s = WAIT_HEADER \<and> mBuffIdx s = 0 \<and>
     0 \<le> mExpectedReadSize s \<and> mExpectedReadSize s < 2 ^ 16"

text \<open>A frame with a body of \<open>n\<close> bytes has been announced, and \<open>got\<close> has been read of it.\<close>

definition in_body :: "nat \<Rightarrow> nat \<Rightarrow> u8 list \<Rightarrow> ReadBuffer \<Rightarrow> bool" where
  "in_body cap n got s \<longleftrightarrow> length (mBuff s) = cap \<and> mReadState s = WAIT_REMAINING \<and>
     mExpectedReadSize s = int n \<and> n < 2 ^ 16 \<and> length got \<le> n \<and> unat (mBuffIdx s) = length got \<and>
     take (length got) (mBuff s) = got"

fun read_all :: "(u8 list option \<Rightarrow> ReadBuffer \<Rightarrow> fault + (ReadBuffer \<times> read_result)) \<Rightarrow>
    u8 list list \<Rightarrow> ReadBuffer \<Rightarrow> fault + (ReadBuffer \<times> u8 list list)" where
  "read_all rd [] s = Inr (s, [])"
| "read_all rd (c # cs) s =
     bindR (rd (Some c) s) (\<lambda>(s', r). bindR (read_all rd cs s') (\<lambda>(s'', bodies).
       Inr (s'', (case r of Delivered b \<Rightarrow> b # bodies | _ \<Rightarrow> bodies))))"

lemma read_all_append:
  "read_all rd (cs @ ds) s =
     bindR (read_all rd cs s) (\<lambda>(s', xs). bindR (read_all rd ds s') (\<lambda>(s'', ys). Inr (s'', xs @ ys)))"
proof (induction cs arbitrary: s)
  case Nil
  show ?case by (cases "read_all rd ds s") auto
next
  case (Cons c cs)
  show ?case
  proof (cases "rd (Some c) s")
    case (Inr p)
    obtain s1 r where p: "p = (s1, r)" by fastforce
    show ?thesis
    proof (cases "read_all rd cs s1")
      case (Inr q)
      obtain s2 xs where q: "q = (s2, xs)" by fastforce
      show ?thesis
        using \<open>rd (Some c) s = Inr p\<close> p Inr q Cons.IH [of s1]
        by (cases "read_all rd ds s2") (auto split: read_result.split)
    qed (use Inr p Cons.IH [of s1] in simp)
  qed simp
qed

section \<open>The interface\<close>

locale framed_reader =
  fixes rd :: "u8 list option \<Rightarrow> ReadBuffer \<Rightarrow> fault + (ReadBuffer \<times> read_result)"
    and cap :: nat
  assumes header: "at_header cap s \<Longrightarrow> \<exists>s'. rd (Some [a, b]) s = Inr (s', Pending) \<and>
      in_body cap (le_nat [a, b]) [] s'"
    and body_more: "in_body cap n got s \<Longrightarrow> c \<noteq> [] \<Longrightarrow> length got + length c < n \<Longrightarrow> n \<le> cap \<Longrightarrow>
      \<exists>s'. rd (Some c) s = Inr (s', Pending) \<and> in_body cap n (got @ c) s'"
    and body_done: "in_body cap n got s \<Longrightarrow> c \<noteq> [] \<Longrightarrow> length got + length c = n \<Longrightarrow> n \<le> cap \<Longrightarrow>
      \<exists>s'. rd (Some c) s = Inr (s', Delivered (got @ c)) \<and> at_header cap s'"
begin

lemma read_body:
  assumes "in_body cap n got s" "[] \<notin> set cs" "cs \<noteq> []" "length got + length (concat cs) = n" "n \<le> cap"
  shows "\<exists>s'. read_all rd cs s = Inr (s', [got @ concat cs]) \<and> at_header cap s'"
  using assms(1-4)
proof (induction cs arbitrary: got s)
  case (Cons c cs)
  show ?case
  proof (cases "cs = []")
    case True
    with Cons.prems body_done [OF Cons.prems(1), of c] assms(5) show ?thesis by auto
  next
    case False
    with Cons.prems(2) have "concat cs \<noteq> []" by (cases cs) auto
    moreover define l where "l = length (concat cs)"
    ultimately have "0 < l" "length got + (length c + l) = n" using Cons.prems(4) by simp_all
    then have "length got + length c < n" by simp
    with body_more [OF Cons.prems(1), of c] Cons.prems(2) assms(5) obtain s1 where
      s1: "rd (Some c) s = Inr (s1, Pending)" "in_body cap n (got @ c) s1" by auto
    with Cons.IH [OF s1(2)] Cons.prems False show ?thesis by auto
  qed
qed simp

lemma read_frame:
  assumes "at_header cap s" "[] \<notin> set cs" "cs \<noteq> []" "length (concat cs) < 2 ^ 16" "length (concat cs) \<le> cap"
  shows "\<exists>s'. read_all rd (le_bytes 2 (length (concat cs)) # cs) s = Inr (s', [concat cs]) \<and> at_header cap s'"
proof -
  obtain a b where ab: "le_bytes 2 (length (concat cs)) = [a, b]"
    by (simp add: numeral_2_eq_2)
  have n: "le_nat [a, b] = length (concat cs)"
    using le_nat_le_bytes [of 2 "length (concat cs)"] assms(4) ab by simp
  from header [OF assms(1), of a b] obtain s1 where
    s1: "rd (Some [a, b]) s = Inr (s1, Pending)" "in_body cap (length (concat cs)) [] s1"
    unfolding n by blast
  from read_body [OF s1(2) assms(2,3) _ assms(5)] s1(1) ab show ?thesis by auto
qed

text \<open>Every stream of frames is delivered frame by frame, in order.\<close>

lemma read_frames:
  assumes "at_header cap s"
    and "\<And>cs. cs \<in> set css \<Longrightarrow> [] \<notin> set cs \<and> cs \<noteq> [] \<and> length (concat cs) < 2 ^ 16 \<and> length (concat cs) \<le> cap"
  shows "\<exists>s'. read_all rd (concat (map (\<lambda>cs. le_bytes 2 (length (concat cs)) # cs) css)) s =
    Inr (s', map concat css) \<and> at_header cap s'"
  using assms
proof (induction css arbitrary: s)
  case (Cons cs css)
  from read_frame [OF Cons.prems(1), of cs] Cons.prems(2) [of cs] obtain s1 where
    s1: "read_all rd (le_bytes 2 (length (concat cs)) # cs) s = Inr (s1, [concat cs])" "at_header cap s1" by auto
  let ?rest = "concat (map (\<lambda>cs. le_bytes 2 (length (concat cs)) # cs) css)"
  from Cons.IH [OF s1(2)] Cons.prems(2) obtain s2 where
    s2: "read_all rd ?rest s1 = Inr (s2, map concat css)" "at_header cap s2" by auto
  have "read_all rd ((le_bytes 2 (length (concat cs)) # cs) @ ?rest) s = Inr (s2, [concat cs] @ map concat css)"
    unfolding read_all_append s1(1) by (simp add: s2(1))
  with s2(2) show ?case by (intro exI [of _ s2] conjI) simp_all
qed simp

end

section \<open>Both loops satisfy it\<close>

lemma store_ok:
  "unat (mBuffIdx s) + length bs \<le> length (mBuff s) \<Longrightarrow>
     store bs s = Inr (s\<lparr>mBuff := take (unat (mBuffIdx s)) (mBuff s) @ bs @
       drop (unat (mBuffIdx s) + length bs) (mBuff s)\<rparr>)"
  by (simp add: store_def Let_def)

lemma idx_add:
  assumes "unat (i :: u16) + n < 2 ^ 16"
  shows "unat (i + of_nat n) = unat i + n"
proof -
  have "unat (of_nat n :: u16) = n" using assms by (simp add: unat_of_nat)
  with assms show ?thesis by (simp add: unat_word_ariths)
qed

text \<open>On a read that returns bytes the two loops are the same.\<close>

lemma same_handleRead: "bs \<noteq> [] \<Longrightarrow> client_handleRead (Some bs) s = server_handleRead (Some bs) s"
  by (simp add: client_handleRead_def server_handleRead_def)

lemma server_header:
  assumes "at_header cap s" "2 \<le> cap"
  shows "\<exists>s'. server_handleRead (Some [a, b]) s = Inr (s', Pending) \<and> in_body cap (le_nat [a, b]) [] s'"
proof -
  have "le_nat [a, b] < 2 ^ 16" using le_nat_bound [of "[a, b]"] by simp
  with assms show ?thesis
    by (auto simp: server_handleRead_def store_ok at_header_def in_body_def copy_header_def)
qed

lemma server_more:
  assumes "in_body cap n got s" "c \<noteq> []" "length got + length c < n" "n \<le> cap"
  shows "\<exists>s'. server_handleRead (Some c) s = Inr (s', Pending) \<and> in_body cap n (got @ c) s'"
proof -
  have "unat (mBuffIdx s + of_nat (length c)) = length got + length c"
    using assms by (subst idx_add) (auto simp: in_body_def)
  with assms show ?thesis
    by (auto simp: server_handleRead_def store_ok in_body_def Let_def)
qed

lemma server_done:
  assumes "in_body cap n got s" "c \<noteq> []" "length got + length c = n" "n \<le> cap"
  shows "\<exists>s'. server_handleRead (Some c) s = Inr (s', Delivered (got @ c)) \<and> at_header cap s'"
proof -
  have "unat (mBuffIdx s + of_nat (length c)) = length got + length c"
    using assms by (subst idx_add) (auto simp: in_body_def)
  with assms show ?thesis
    by (auto simp: server_handleRead_def store_ok in_body_def at_header_def Let_def)
qed

interpretation sr: framed_reader server_handleRead SERVER_BUFFER
  by unfold_locales (rule server_header server_more server_done; simp add: SERVER_BUFFER_def)+

interpretation cr: framed_reader client_handleRead CLIENT_BUFFER
  by unfold_locales
    (subst same_handleRead, simp, (rule server_header server_more server_done; simp add: CLIENT_BUFFER_def))+

end
