(* ===== verification/Protocol.thy ===== *)
theory Protocol
  imports Prelude
begin

text \<open>
  The messages of \<open>interface/protocol.hpp\<close> (namespace level, section "Message Definitions").
  Each C++ struct is a record whose fields carry the struct's name as a prefix, since the same
  field name occurs in many structs; \<open>PropertyTreeMessages\<close> and \<open>PropertyTreeProtocol\<close>
  are the two \<open>std::variant\<close>s, with one constructor per alternative in the order of the
  source, which is also the wire index. \<open>cum::vector\<close> is a list, \<open>String\<close> a list of
  bytes written as characters.
\<close>

section \<open>Scalar and list types\<close>

type_synonym String = string
type_synonym Buffer = "u8 list"
type_synonym u64Array = "u64 list"

text \<open>
  \<open>enum class Cause : uint8_t\<close>. An object of this type can hold any value of its underlying
  type, and one decoded from the wire does; \<open>UNNAMED\<close> stands for the values above the last
  enumerator.
\<close>

datatype Cause = OK | NOT_FOUND | ALREADY_EXIST | NOT_PERMITTED | NOT_EMPTY | NO_HANDLER
  | UNNAMED u8

section \<open>Structs\<close>

record NamedNode =
  NamedNode_name :: String
  NamedNode_uuid :: u64
  NamedNode_parentUuid :: u64

type_synonym NamedNodeList = "NamedNode list"

record SigninRequest =
  SigninRequest_spare :: u8

record SigninAccept =
  SigninAccept_sessionId :: u32

record CreateRequest =
  CreateRequest_name :: String
  CreateRequest_parentUuid :: u64

record CreateAccept =
  CreateAccept_uuid :: u64

record CreateReject =
  CreateReject_cause :: Cause

record GetRequest =
  GetRequest_uuid :: u64

record GetAccept =
  GetAccept_data :: Buffer

record GetReject =
  GetReject_cause :: Cause

record TreeInfoRequest =
  TreeInfoRequest_parentUuid :: u64
  TreeInfoRequest_name :: String
  TreeInfoRequest_recursive :: u8

record TreeInfoResponse =
  TreeInfoResponse_nodeToAddList :: NamedNodeList

record TreeInfoErrorResponse =
  TreeInfoErrorResponse_cause :: Cause

record TreeUpdateNotification =
  TreeUpdateNotification_nodeToAddList :: NamedNodeList
  TreeUpdateNotification_nodeToDelete :: u64Array

record DeleteRequest =
  DeleteRequest_uuid :: u64

record DeleteResponse =
  DeleteResponse_cause :: Cause

record SetValueRequest =
  SetValueRequest_uuid :: u64
  SetValueRequest_data :: Buffer

record SetValueAccept =
  SetValueAccept_spare :: u8

record SetValueReject =
  SetValueReject_cause :: Cause

record SubscribeRequest =
  SubscribeRequest_uuid :: u64

record SubscribeResponse =
  SubscribeResponse_cause :: Cause

record UnsubscribeRequest =
  UnsubscribeRequest_uuid :: u64

record UnsubscribeResponse =
  UnsubscribeResponse_cause :: Cause

record UpdateNotification =
  UpdateNotification_uuid :: u64
  UpdateNotification_data :: Buffer

record RpcRequest =
  RpcRequest_uuid :: u64
  RpcRequest_param :: Buffer

record RpcAccept =
  RpcAccept_value :: Buffer

record RpcReject =
  RpcReject_cause :: Cause

record HearbeatRequest =
  HearbeatRequest_spare :: u8

record HearbeatResponse =
  HearbeatResponse_spare :: u8

section \<open>Variants\<close>

datatype PropertyTreeMessages =
    SigninRequest SigninRequest
  | SigninAccept SigninAccept
  | CreateRequest CreateRequest
  | CreateAccept CreateAccept
  | CreateReject CreateReject
  | GetRequest GetRequest
  | GetAccept GetAccept
  | GetReject GetReject
  | TreeInfoRequest TreeInfoRequest
  | TreeInfoResponse TreeInfoResponse
  | TreeInfoErrorResponse TreeInfoErrorResponse
  | TreeUpdateNotification TreeUpdateNotification
  | DeleteRequest DeleteRequest
  | DeleteResponse DeleteResponse
  | SetValueRequest SetValueRequest
  | SetValueAccept SetValueAccept
  | SetValueReject SetValueReject
  | SubscribeRequest SubscribeRequest
  | SubscribeResponse SubscribeResponse
  | UnsubscribeRequest UnsubscribeRequest
  | UnsubscribeResponse UnsubscribeResponse
  | UpdateNotification UpdateNotification
  | RpcRequest RpcRequest
  | RpcAccept RpcAccept
  | RpcReject RpcReject
  | HearbeatRequest HearbeatRequest
  | HearbeatResponse HearbeatResponse

record PropertyTreeMessage =
  transactionId :: u16
  message :: PropertyTreeMessages

type_synonym PropertyTreeMessageArray = "PropertyTreeMessage list"

datatype PropertyTreeProtocol =
    PropertyTreeMessage PropertyTreeMessage
  | PropertyTreeMessageArray PropertyTreeMessageArray

text \<open>\<open>std::variant::index\<close>, stored in the codec's \<open>TypeIndex\<close>, which is \<open>uint8_t\<close>.\<close>

fun message_index :: "PropertyTreeMessages \<Rightarrow> u8" where
  "message_index (SigninRequest _) = 0"
| "message_index (SigninAccept _) = 1"
| "message_index (CreateRequest _) = 2"
| "message_index (CreateAccept _) = 3"
| "message_index (CreateReject _) = 4"
| "message_index (GetRequest _) = 5"
| "message_index (GetAccept _) = 6"
| "message_index (GetReject _) = 7"
| "message_index (TreeInfoRequest _) = 8"
| "message_index (TreeInfoResponse _) = 9"
| "message_index (TreeInfoErrorResponse _) = 10"
| "message_index (TreeUpdateNotification _) = 11"
| "message_index (DeleteRequest _) = 12"
| "message_index (DeleteResponse _) = 13"
| "message_index (SetValueRequest _) = 14"
| "message_index (SetValueAccept _) = 15"
| "message_index (SetValueReject _) = 16"
| "message_index (SubscribeRequest _) = 17"
| "message_index (SubscribeResponse _) = 18"
| "message_index (UnsubscribeRequest _) = 19"
| "message_index (UnsubscribeResponse _) = 20"
| "message_index (UpdateNotification _) = 21"
| "message_index (RpcRequest _) = 22"
| "message_index (RpcAccept _) = 23"
| "message_index (RpcReject _) = 24"
| "message_index (HearbeatRequest _) = 25"
| "message_index (HearbeatResponse _) = 26"

fun protocol_index :: "PropertyTreeProtocol \<Rightarrow> u8" where
  "protocol_index (PropertyTreeMessage _) = 0"
| "protocol_index (PropertyTreeMessageArray _) = 1"

text \<open>
  Value initialisation, as in \<open>PropertyTreeMessage{}\<close>: zeros, and the first alternative of each
  variant.
\<close>

definition default_messages :: PropertyTreeMessages where
  "default_messages = SigninRequest \<lparr>SigninRequest_spare = 0\<rparr>"

definition default_message :: PropertyTreeMessage where
  "default_message = \<lparr>transactionId = 0, message = default_messages\<rparr>"

definition default_protocol :: PropertyTreeProtocol where
  "default_protocol = PropertyTreeMessage default_message"

text \<open>One message with its transaction id, the only form both programs send.\<close>

definition single :: "u16 \<Rightarrow> PropertyTreeMessages \<Rightarrow> PropertyTreeProtocol" where
  "single t m = PropertyTreeMessage \<lparr>transactionId = t, message = m\<rparr>"

text \<open>The transaction id of messages that answer no request.\<close>

abbreviation notification_id :: u16 where
  "notification_id \<equiv> 0xFFFF"

lemma single_inject [simp]: "single t m = single t' m' \<longleftrightarrow> t = t' \<and> m = m'"
  by (simp add: single_def)

lemma message_index_bound: "unat (message_index m) < 27"
  by (cases m) simp_all

end
