(* ===== verification/Codec.thy ===== *)
theory Codec
  imports Protocol
begin

text \<open>
  The codecs of \<open>interface/protocol.hpp\<close> (\<open>encode_per\<close> and \<open>decode_per\<close>, one pair per struct and
  variant) and the framing of \<open>ProtocolHandler::encode\<close> and \<open>Client::send\<close>.

  The codecs of integers, strings, enumerations and vectors come from the \<open>cum\<close> library, which is
  not part of the repository: it is the record \<open>cum\<close>, a parameter. An encoding context is what has
  been written and the room that is left (\<open>per_codec_ctx::size\<close>), a decoding context the bytes that
  are left. What the code relies on is \<open>cum_ok\<close>: each codec of the library is \<open>lawful\<close>, that is, it
  writes a value whenever there is room for it, and reads back what it has written, for strings
  without NUL characters (they are \<open>asciiz\<close> in \<open>protocol.cum\<close>), vectors shorter than
  \<open>2 ^ 32\<close> and message arrays shorter than 256 (their declared capacities). Lawfulness is compositional, and the
  round trip of every message follows. \<open>simple_cum\<close> is one library that satisfies \<open>cum_ok\<close>.
\<close>

section \<open>The codec library\<close>

type_synonym ectx = "u8 list \<times> nat"
type_synonym 'a encoder = "'a \<Rightarrow> ectx \<Rightarrow> fault + ectx"
type_synonym 'a decoder = "u8 list \<Rightarrow> fault + ('a \<times> u8 list)"

record cum =
  enc_u8 :: "u8 encoder"
  dec_u8 :: "u8 decoder"
  enc_u16 :: "u16 encoder"
  dec_u16 :: "u16 decoder"
  enc_u32 :: "u32 encoder"
  dec_u32 :: "u32 decoder"
  enc_u64 :: "u64 encoder"
  dec_u64 :: "u64 decoder"
  enc_String :: "String encoder"
  dec_String :: "String decoder"
  enc_Cause :: "Cause encoder"
  dec_Cause :: "Cause decoder"
  enc_vec_u8 :: "Buffer encoder"
  dec_vec_u8 :: "Buffer decoder"
  enc_vec_u64 :: "u64Array encoder"
  dec_vec_u64 :: "u64Array decoder"
  enc_vec_NamedNode :: "NamedNode encoder \<Rightarrow> NamedNodeList encoder"
  dec_vec_NamedNode :: "NamedNode decoder \<Rightarrow> NamedNodeList decoder"
  enc_vec_Message :: "PropertyTreeMessage encoder \<Rightarrow> PropertyTreeMessageArray encoder"
  dec_vec_Message :: "PropertyTreeMessage decoder \<Rightarrow> PropertyTreeMessageArray decoder"

section \<open>The codecs\<close>

fun decoded :: "('a \<Rightarrow> 'b) \<Rightarrow> fault + ('a \<times> u8 list) \<Rightarrow> fault + ('b \<times> u8 list)" where
  "decoded mk (Inl e) = Inl e"
| "decoded mk (Inr (x, pCtx)) = Inr (mk x, pCtx)"

definition enc_NamedNode :: "cum \<Rightarrow> NamedNode encoder" where
  "enc_NamedNode L pIe pCtx =
     bindR (enc_String L (NamedNode_name pIe) pCtx) (\<lambda>pCtx.
     bindR (enc_u64 L (NamedNode_uuid pIe) pCtx) (\<lambda>pCtx.
     enc_u64 L (NamedNode_parentUuid pIe) pCtx))"

definition dec_NamedNode :: "cum \<Rightarrow> NamedNode decoder" where
  "dec_NamedNode L pCtx =
     bindR (dec_String L pCtx) (\<lambda>(name, pCtx).
     bindR (dec_u64 L pCtx) (\<lambda>(uuid, pCtx).
     bindR (dec_u64 L pCtx) (\<lambda>(parentUuid, pCtx).
     Inr (\<lparr>NamedNode_name = name, NamedNode_uuid = uuid, NamedNode_parentUuid = parentUuid\<rparr>, pCtx))))"

definition enc_SigninRequest :: "cum \<Rightarrow> SigninRequest encoder" where
  "enc_SigninRequest L pIe pCtx =
     enc_u8 L (SigninRequest_spare pIe) pCtx"

definition dec_SigninRequest :: "cum \<Rightarrow> SigninRequest decoder" where
  "dec_SigninRequest L pCtx =
     bindR (dec_u8 L pCtx) (\<lambda>(spare, pCtx).
     Inr (\<lparr>SigninRequest_spare = spare\<rparr>, pCtx))"

definition enc_SigninAccept :: "cum \<Rightarrow> SigninAccept encoder" where
  "enc_SigninAccept L pIe pCtx =
     enc_u32 L (SigninAccept_sessionId pIe) pCtx"

definition dec_SigninAccept :: "cum \<Rightarrow> SigninAccept decoder" where
  "dec_SigninAccept L pCtx =
     bindR (dec_u32 L pCtx) (\<lambda>(sessionId, pCtx).
     Inr (\<lparr>SigninAccept_sessionId = sessionId\<rparr>, pCtx))"

definition enc_CreateRequest :: "cum \<Rightarrow> CreateRequest encoder" where
  "enc_CreateRequest L pIe pCtx =
     bindR (enc_String L (CreateRequest_name pIe) pCtx) (\<lambda>pCtx.
     enc_u64 L (CreateRequest_parentUuid pIe) pCtx)"

definition dec_CreateRequest :: "cum \<Rightarrow> CreateRequest decoder" where
  "dec_CreateRequest L pCtx =
     bindR (dec_String L pCtx) (\<lambda>(name, pCtx).
     bindR (dec_u64 L pCtx) (\<lambda>(parentUuid, pCtx).
     Inr (\<lparr>CreateRequest_name = name, CreateRequest_parentUuid = parentUuid\<rparr>, pCtx)))"

definition enc_CreateAccept :: "cum \<Rightarrow> CreateAccept encoder" where
  "enc_CreateAccept L pIe pCtx =
     enc_u64 L (CreateAccept_uuid pIe) pCtx"

definition dec_CreateAccept :: "cum \<Rightarrow> CreateAccept decoder" where
  "dec_CreateAccept L pCtx =
     bindR (dec_u64 L pCtx) (\<lambda>(uuid, pCtx).
     Inr (\<lparr>CreateAccept_uuid = uuid\<rparr>, pCtx))"

definition enc_CreateReject :: "cum \<Rightarrow> CreateReject encoder" where
  "enc_CreateReject L pIe pCtx =
     enc_Cause L (CreateReject_cause pIe) pCtx"

definition dec_CreateReject :: "cum \<Rightarrow> CreateReject decoder" where
  "dec_CreateReject L pCtx =
     bindR (dec_Cause L pCtx) (\<lambda>(cause, pCtx).
     Inr (\<lparr>CreateReject_cause = cause\<rparr>, pCtx))"

definition enc_GetRequest :: "cum \<Rightarrow> GetRequest encoder" where
  "enc_GetRequest L pIe pCtx =
     enc_u64 L (GetRequest_uuid pIe) pCtx"

definition dec_GetRequest :: "cum \<Rightarrow> GetRequest decoder" where
  "dec_GetRequest L pCtx =
     bindR (dec_u64 L pCtx) (\<lambda>(uuid, pCtx).
     Inr (\<lparr>GetRequest_uuid = uuid\<rparr>, pCtx))"

definition enc_GetAccept :: "cum \<Rightarrow> GetAccept encoder" where
  "enc_GetAccept L pIe pCtx =
     enc_vec_u8 L (GetAccept_data pIe) pCtx"

definition dec_GetAccept :: "cum \<Rightarrow> GetAccept decoder" where
  "dec_GetAccept L pCtx =
     bindR (dec_vec_u8 L pCtx) (\<lambda>(data, pCtx).
     Inr (\<lparr>GetAccept_data = data\<rparr>, pCtx))"

definition enc_GetReject :: "cum \<Rightarrow> GetReject encoder" where
  "enc_GetReject L pIe pCtx =
     enc_Cause L (GetReject_cause pIe) pCtx"

definition dec_GetReject :: "cum \<Rightarrow> GetReject decoder" where
  "dec_GetReject L pCtx =
     bindR (dec_Cause L pCtx) (\<lambda>(cause, pCtx).
     Inr (\<lparr>GetReject_cause = cause\<rparr>, pCtx))"

definition enc_TreeInfoRequest :: "cum \<Rightarrow> TreeInfoRequest encoder" where
  "enc_TreeInfoRequest L pIe pCtx =
     bindR (enc_u64 L (TreeInfoRequest_parentUuid pIe) pCtx) (\<lambda>pCtx.
     bindR (enc_String L (TreeInfoRequest_name pIe) pCtx) (\<lambda>pCtx.
     enc_u8 L (TreeInfoRequest_recursive pIe) pCtx))"

definition dec_TreeInfoRequest :: "cum \<Rightarrow> TreeInfoRequest decoder" where
  "dec_TreeInfoRequest L pCtx =
     bindR (dec_u64 L pCtx) (\<lambda>(parentUuid, pCtx).
     bindR (dec_String L pCtx) (\<lambda>(name, pCtx).
     bindR (dec_u8 L pCtx) (\<lambda>(recursive, pCtx).
     Inr (\<lparr>TreeInfoRequest_parentUuid = parentUuid, TreeInfoRequest_name = name, TreeInfoRequest_recursive = recursive\<rparr>, pCtx))))"

definition enc_TreeInfoResponse :: "cum \<Rightarrow> TreeInfoResponse encoder" where
  "enc_TreeInfoResponse L pIe pCtx =
     enc_vec_NamedNode L (enc_NamedNode L) (TreeInfoResponse_nodeToAddList pIe) pCtx"

definition dec_TreeInfoResponse :: "cum \<Rightarrow> TreeInfoResponse decoder" where
  "dec_TreeInfoResponse L pCtx =
     bindR (dec_vec_NamedNode L (dec_NamedNode L) pCtx) (\<lambda>(nodeToAddList, pCtx).
     Inr (\<lparr>TreeInfoResponse_nodeToAddList = nodeToAddList\<rparr>, pCtx))"

definition enc_TreeInfoErrorResponse :: "cum \<Rightarrow> TreeInfoErrorResponse encoder" where
  "enc_TreeInfoErrorResponse L pIe pCtx =
     enc_Cause L (TreeInfoErrorResponse_cause pIe) pCtx"

definition dec_TreeInfoErrorResponse :: "cum \<Rightarrow> TreeInfoErrorResponse decoder" where
  "dec_TreeInfoErrorResponse L pCtx =
     bindR (dec_Cause L pCtx) (\<lambda>(cause, pCtx).
     Inr (\<lparr>TreeInfoErrorResponse_cause = cause\<rparr>, pCtx))"

definition enc_TreeUpdateNotification :: "cum \<Rightarrow> TreeUpdateNotification encoder" where
  "enc_TreeUpdateNotification L pIe pCtx =
     bindR (enc_vec_NamedNode L (enc_NamedNode L) (TreeUpdateNotification_nodeToAddList pIe) pCtx) (\<lambda>pCtx.
     enc_vec_u64 L (TreeUpdateNotification_nodeToDelete pIe) pCtx)"

definition dec_TreeUpdateNotification :: "cum \<Rightarrow> TreeUpdateNotification decoder" where
  "dec_TreeUpdateNotification L pCtx =
     bindR (dec_vec_NamedNode L (dec_NamedNode L) pCtx) (\<lambda>(nodeToAddList, pCtx).
     bindR (dec_vec_u64 L pCtx) (\<lambda>(nodeToDelete, pCtx).
     Inr (\<lparr>TreeUpdateNotification_nodeToAddList = nodeToAddList, TreeUpdateNotification_nodeToDelete = nodeToDelete\<rparr>, pCtx)))"

definition enc_DeleteRequest :: "cum \<Rightarrow> DeleteRequest encoder" where
  "enc_DeleteRequest L pIe pCtx =
     enc_u64 L (DeleteRequest_uuid pIe) pCtx"

definition dec_DeleteRequest :: "cum \<Rightarrow> DeleteRequest decoder" where
  "dec_DeleteRequest L pCtx =
     bindR (dec_u64 L pCtx) (\<lambda>(uuid, pCtx).
     Inr (\<lparr>DeleteRequest_uuid = uuid\<rparr>, pCtx))"

definition enc_DeleteResponse :: "cum \<Rightarrow> DeleteResponse encoder" where
  "enc_DeleteResponse L pIe pCtx =
     enc_Cause L (DeleteResponse_cause pIe) pCtx"

definition dec_DeleteResponse :: "cum \<Rightarrow> DeleteResponse decoder" where
  "dec_DeleteResponse L pCtx =
     bindR (dec_Cause L pCtx) (\<lambda>(cause, pCtx).
     Inr (\<lparr>DeleteResponse_cause = cause\<rparr>, pCtx))"

definition enc_SetValueRequest :: "cum \<Rightarrow> SetValueRequest encoder" where
  "enc_SetValueRequest L pIe pCtx =
     bindR (enc_u64 L (SetValueRequest_uuid pIe) pCtx) (\<lambda>pCtx.
     enc_vec_u8 L (SetValueRequest_data pIe) pCtx)"

definition dec_SetValueRequest :: "cum \<Rightarrow> SetValueRequest decoder" where
  "dec_SetValueRequest L pCtx =
     bindR (dec_u64 L pCtx) (\<lambda>(uuid, pCtx).
     bindR (dec_vec_u8 L pCtx) (\<lambda>(data, pCtx).
     Inr (\<lparr>SetValueRequest_uuid = uuid, SetValueRequest_data = data\<rparr>, pCtx)))"

definition enc_SetValueAccept :: "cum \<Rightarrow> SetValueAccept encoder" where
  "enc_SetValueAccept L pIe pCtx =
     enc_u8 L (SetValueAccept_spare pIe) pCtx"

definition dec_SetValueAccept :: "cum \<Rightarrow> SetValueAccept decoder" where
  "dec_SetValueAccept L pCtx =
     bindR (dec_u8 L pCtx) (\<lambda>(spare, pCtx).
     Inr (\<lparr>SetValueAccept_spare = spare\<rparr>, pCtx))"

definition enc_SetValueReject :: "cum \<Rightarrow> SetValueReject encoder" where
  "enc_SetValueReject L pIe pCtx =
     enc_Cause L (SetValueReject_cause pIe) pCtx"

definition dec_SetValueReject :: "cum \<Rightarrow> SetValueReject decoder" where
  "dec_SetValueReject L pCtx =
     bindR (dec_Cause L pCtx) (\<lambda>(cause, pCtx).
     Inr (\<lparr>SetValueReject_cause = cause\<rparr>, pCtx))"

definition enc_SubscribeRequest :: "cum \<Rightarrow> SubscribeRequest encoder" where
  "enc_SubscribeRequest L pIe pCtx =
     enc_u64 L (SubscribeRequest_uuid pIe) pCtx"

definition dec_SubscribeRequest :: "cum \<Rightarrow> SubscribeRequest decoder" where
  "dec_SubscribeRequest L pCtx =
     bindR (dec_u64 L pCtx) (\<lambda>(uuid, pCtx).
     Inr (\<lparr>SubscribeRequest_uuid = uuid\<rparr>, pCtx))"

definition enc_SubscribeResponse :: "cum \<Rightarrow> SubscribeResponse encoder" where
  "enc_SubscribeResponse L pIe pCtx =
     enc_Cause L (SubscribeResponse_cause pIe) pCtx"

definition dec_SubscribeResponse :: "cum \<Rightarrow> SubscribeResponse decoder" where
  "dec_SubscribeResponse L pCtx =
     bindR (dec_Cause L pCtx) (\<lambda>(cause, pCtx).
     Inr (\<lparr>SubscribeResponse_cause = cause\<rparr>, pCtx))"

definition enc_UnsubscribeRequest :: "cum \<Rightarrow> UnsubscribeRequest encoder" where
  "enc_UnsubscribeRequest L pIe pCtx =
     enc_u64 L (UnsubscribeRequest_uuid pIe) pCtx"

definition dec_UnsubscribeRequest :: "cum \<Rightarrow> UnsubscribeRequest decoder" where
  "dec_UnsubscribeRequest L pCtx =
     bindR (dec_u64 L pCtx) (\<lambda>(uuid, pCtx).
     Inr (\<lparr>UnsubscribeRequest_uuid = uuid\<rparr>, pCtx))"

definition enc_UnsubscribeResponse :: "cum \<Rightarrow> UnsubscribeResponse encoder" where
  "enc_UnsubscribeResponse L pIe pCtx =
     enc_Cause L (UnsubscribeResponse_cause pIe) pCtx"

definition dec_UnsubscribeResponse :: "cum \<Rightarrow> UnsubscribeResponse decoder" where
  "dec_UnsubscribeResponse L pCtx =
     bindR (dec_Cause L pCtx) (\<lambda>(cause, pCtx).
     Inr (\<lparr>UnsubscribeResponse_cause = cause\<rparr>, pCtx))"

definition enc_UpdateNotification :: "cum \<Rightarrow> UpdateNotification encoder" where
  "enc_UpdateNotification L pIe pCtx =
     bindR (enc_u64 L (UpdateNotification_uuid pIe) pCtx) (\<lambda>pCtx.
     enc_vec_u8 L (UpdateNotification_data pIe) pCtx)"

definition dec_UpdateNotification :: "cum \<Rightarrow> UpdateNotification decoder" where
  "dec_UpdateNotification L pCtx =
     bindR (dec_u64 L pCtx) (\<lambda>(uuid, pCtx).
     bindR (dec_vec_u8 L pCtx) (\<lambda>(data, pCtx).
     Inr (\<lparr>UpdateNotification_uuid = uuid, UpdateNotification_data = data\<rparr>, pCtx)))"

definition enc_RpcRequest :: "cum \<Rightarrow> RpcRequest encoder" where
  "enc_RpcRequest L pIe pCtx =
     bindR (enc_u64 L (RpcRequest_uuid pIe) pCtx) (\<lambda>pCtx.
     enc_vec_u8 L (RpcRequest_param pIe) pCtx)"

definition dec_RpcRequest :: "cum \<Rightarrow> RpcRequest decoder" where
  "dec_RpcRequest L pCtx =
     bindR (dec_u64 L pCtx) (\<lambda>(uuid, pCtx).
     bindR (dec_vec_u8 L pCtx) (\<lambda>(param, pCtx).
     Inr (\<lparr>RpcRequest_uuid = uuid, RpcRequest_param = param\<rparr>, pCtx)))"

definition enc_RpcAccept :: "cum \<Rightarrow> RpcAccept encoder" where
  "enc_RpcAccept L pIe pCtx =
     enc_vec_u8 L (RpcAccept_value pIe) pCtx"

definition dec_RpcAccept :: "cum \<Rightarrow> RpcAccept decoder" where
  "dec_RpcAccept L pCtx =
     bindR (dec_vec_u8 L pCtx) (\<lambda>(value, pCtx).
     Inr (\<lparr>RpcAccept_value = value\<rparr>, pCtx))"

definition enc_RpcReject :: "cum \<Rightarrow> RpcReject encoder" where
  "enc_RpcReject L pIe pCtx =
     enc_Cause L (RpcReject_cause pIe) pCtx"

definition dec_RpcReject :: "cum \<Rightarrow> RpcReject decoder" where
  "dec_RpcReject L pCtx =
     bindR (dec_Cause L pCtx) (\<lambda>(cause, pCtx).
     Inr (\<lparr>RpcReject_cause = cause\<rparr>, pCtx))"

definition enc_HearbeatRequest :: "cum \<Rightarrow> HearbeatRequest encoder" where
  "enc_HearbeatRequest L pIe pCtx =
     enc_u8 L (HearbeatRequest_spare pIe) pCtx"

definition dec_HearbeatRequest :: "cum \<Rightarrow> HearbeatRequest decoder" where
  "dec_HearbeatRequest L pCtx =
     bindR (dec_u8 L pCtx) (\<lambda>(spare, pCtx).
     Inr (\<lparr>HearbeatRequest_spare = spare\<rparr>, pCtx))"

definition enc_HearbeatResponse :: "cum \<Rightarrow> HearbeatResponse encoder" where
  "enc_HearbeatResponse L pIe pCtx =
     enc_u8 L (HearbeatResponse_spare pIe) pCtx"

definition dec_HearbeatResponse :: "cum \<Rightarrow> HearbeatResponse decoder" where
  "dec_HearbeatResponse L pCtx =
     bindR (dec_u8 L pCtx) (\<lambda>(spare, pCtx).
     Inr (\<lparr>HearbeatResponse_spare = spare\<rparr>, pCtx))"

text \<open>
  The variants. The encoder writes the index and the alternative. The decoder reads the index,
  assigns a fresh alternative to the object and decodes into it; an index without an alternative
  leaves the object as it was.
\<close>

fun enc_alternative :: "cum \<Rightarrow> PropertyTreeMessages encoder" where
  "enc_alternative L (SigninRequest x) pCtx = enc_SigninRequest L x pCtx"
| "enc_alternative L (SigninAccept x) pCtx = enc_SigninAccept L x pCtx"
| "enc_alternative L (CreateRequest x) pCtx = enc_CreateRequest L x pCtx"
| "enc_alternative L (CreateAccept x) pCtx = enc_CreateAccept L x pCtx"
| "enc_alternative L (CreateReject x) pCtx = enc_CreateReject L x pCtx"
| "enc_alternative L (GetRequest x) pCtx = enc_GetRequest L x pCtx"
| "enc_alternative L (GetAccept x) pCtx = enc_GetAccept L x pCtx"
| "enc_alternative L (GetReject x) pCtx = enc_GetReject L x pCtx"
| "enc_alternative L (TreeInfoRequest x) pCtx = enc_TreeInfoRequest L x pCtx"
| "enc_alternative L (TreeInfoResponse x) pCtx = enc_TreeInfoResponse L x pCtx"
| "enc_alternative L (TreeInfoErrorResponse x) pCtx = enc_TreeInfoErrorResponse L x pCtx"
| "enc_alternative L (TreeUpdateNotification x) pCtx = enc_TreeUpdateNotification L x pCtx"
| "enc_alternative L (DeleteRequest x) pCtx = enc_DeleteRequest L x pCtx"
| "enc_alternative L (DeleteResponse x) pCtx = enc_DeleteResponse L x pCtx"
| "enc_alternative L (SetValueRequest x) pCtx = enc_SetValueRequest L x pCtx"
| "enc_alternative L (SetValueAccept x) pCtx = enc_SetValueAccept L x pCtx"
| "enc_alternative L (SetValueReject x) pCtx = enc_SetValueReject L x pCtx"
| "enc_alternative L (SubscribeRequest x) pCtx = enc_SubscribeRequest L x pCtx"
| "enc_alternative L (SubscribeResponse x) pCtx = enc_SubscribeResponse L x pCtx"
| "enc_alternative L (UnsubscribeRequest x) pCtx = enc_UnsubscribeRequest L x pCtx"
| "enc_alternative L (UnsubscribeResponse x) pCtx = enc_UnsubscribeResponse L x pCtx"
| "enc_alternative L (UpdateNotification x) pCtx = enc_UpdateNotification L x pCtx"
| "enc_alternative L (RpcRequest x) pCtx = enc_RpcRequest L x pCtx"
| "enc_alternative L (RpcAccept x) pCtx = enc_RpcAccept L x pCtx"
| "enc_alternative L (RpcReject x) pCtx = enc_RpcReject L x pCtx"
| "enc_alternative L (HearbeatRequest x) pCtx = enc_HearbeatRequest L x pCtx"
| "enc_alternative L (HearbeatResponse x) pCtx = enc_HearbeatResponse L x pCtx"

definition enc_PropertyTreeMessages :: "cum \<Rightarrow> PropertyTreeMessages encoder" where
  "enc_PropertyTreeMessages L pIe pCtx =
     bindR (enc_u8 L (message_index pIe) pCtx) (\<lambda>pCtx. enc_alternative L pIe pCtx)"

definition dec_alternative :: "cum \<Rightarrow> u8 \<Rightarrow> PropertyTreeMessages \<Rightarrow> PropertyTreeMessages decoder" where
  "dec_alternative L type pIe pCtx =
     (if type = 0 then decoded SigninRequest (dec_SigninRequest L pCtx)
     else if type = 1 then decoded SigninAccept (dec_SigninAccept L pCtx)
     else if type = 2 then decoded CreateRequest (dec_CreateRequest L pCtx)
     else if type = 3 then decoded CreateAccept (dec_CreateAccept L pCtx)
     else if type = 4 then decoded CreateReject (dec_CreateReject L pCtx)
     else if type = 5 then decoded GetRequest (dec_GetRequest L pCtx)
     else if type = 6 then decoded GetAccept (dec_GetAccept L pCtx)
     else if type = 7 then decoded GetReject (dec_GetReject L pCtx)
     else if type = 8 then decoded TreeInfoRequest (dec_TreeInfoRequest L pCtx)
     else if type = 9 then decoded TreeInfoResponse (dec_TreeInfoResponse L pCtx)
     else if type = 10 then decoded TreeInfoErrorResponse (dec_TreeInfoErrorResponse L pCtx)
     else if type = 11 then decoded TreeUpdateNotification (dec_TreeUpdateNotification L pCtx)
     else if type = 12 then decoded DeleteRequest (dec_DeleteRequest L pCtx)
     else if type = 13 then decoded DeleteResponse (dec_DeleteResponse L pCtx)
     else if type = 14 then decoded SetValueRequest (dec_SetValueRequest L pCtx)
     else if type = 15 then decoded SetValueAccept (dec_SetValueAccept L pCtx)
     else if type = 16 then decoded SetValueReject (dec_SetValueReject L pCtx)
     else if type = 17 then decoded SubscribeRequest (dec_SubscribeRequest L pCtx)
     else if type = 18 then decoded SubscribeResponse (dec_SubscribeResponse L pCtx)
     else if type = 19 then decoded UnsubscribeRequest (dec_UnsubscribeRequest L pCtx)
     else if type = 20 then decoded UnsubscribeResponse (dec_UnsubscribeResponse L pCtx)
     else if type = 21 then decoded UpdateNotification (dec_UpdateNotification L pCtx)
     else if type = 22 then decoded RpcRequest (dec_RpcRequest L pCtx)
     else if type = 23 then decoded RpcAccept (dec_RpcAccept L pCtx)
     else if type = 24 then decoded RpcReject (dec_RpcReject L pCtx)
     else if type = 25 then decoded HearbeatRequest (dec_HearbeatRequest L pCtx)
     else if type = 26 then decoded HearbeatResponse (dec_HearbeatResponse L pCtx)
     else Inr (pIe, pCtx))"

definition dec_PropertyTreeMessages :: "cum \<Rightarrow> PropertyTreeMessages \<Rightarrow> PropertyTreeMessages decoder" where
  "dec_PropertyTreeMessages L pIe pCtx =
     bindR (dec_u8 L pCtx) (\<lambda>(type, pCtx). dec_alternative L type pIe pCtx)"

definition enc_PropertyTreeMessage :: "cum \<Rightarrow> PropertyTreeMessage encoder" where
  "enc_PropertyTreeMessage L pIe pCtx =
     bindR (enc_u16 L (transactionId pIe) pCtx) (\<lambda>pCtx.
     enc_PropertyTreeMessages L (message pIe) pCtx)"

definition dec_PropertyTreeMessage :: "cum \<Rightarrow> PropertyTreeMessage \<Rightarrow> PropertyTreeMessage decoder" where
  "dec_PropertyTreeMessage L pIe pCtx =
     bindR (dec_u16 L pCtx) (\<lambda>(t, pCtx).
     bindR (dec_PropertyTreeMessages L (message pIe) pCtx) (\<lambda>(m, pCtx).
     Inr (\<lparr>transactionId = t, message = m\<rparr>, pCtx)))"

fun enc_protocol_alternative :: "cum \<Rightarrow> PropertyTreeProtocol encoder" where
  "enc_protocol_alternative L (PropertyTreeMessage m) pCtx = enc_PropertyTreeMessage L m pCtx"
| "enc_protocol_alternative L (PropertyTreeMessageArray ms) pCtx =
     enc_vec_Message L (enc_PropertyTreeMessage L) ms pCtx"

definition enc_PropertyTreeProtocol :: "cum \<Rightarrow> PropertyTreeProtocol encoder" where
  "enc_PropertyTreeProtocol L pIe pCtx =
     bindR (enc_u8 L (protocol_index pIe) pCtx) (\<lambda>pCtx. enc_protocol_alternative L pIe pCtx)"

definition dec_PropertyTreeProtocol :: "cum \<Rightarrow> PropertyTreeProtocol \<Rightarrow> PropertyTreeProtocol decoder" where
  "dec_PropertyTreeProtocol L pIe pCtx =
     bindR (dec_u8 L pCtx) (\<lambda>(type, pCtx).
       if type = 0 then decoded PropertyTreeMessage (dec_PropertyTreeMessage L default_message pCtx)
       else if type = 1 then decoded PropertyTreeMessageArray
         (dec_vec_Message L (dec_PropertyTreeMessage L default_message) pCtx)
       else Inr (pIe, pCtx))"

text \<open>
  \<open>ProtocolHandler::encode\<close>: the size of the body in two bytes, then the body. The \<open>uint16_t\<close> holds
  the size only while the buffer has at most \<open>2 ^ 16 + 1\<close> bytes; the server passes \<open>ENCODE_SIZE\<close>.
  The view that is sent is the first \<open>msgSize + 2\<close> bytes of the buffer.
\<close>

definition ENCODE_SIZE :: nat where
  "ENCODE_SIZE = 1024 * 64"

definition encode :: "cum \<Rightarrow> PropertyTreeProtocol \<Rightarrow> nat \<Rightarrow> fault + u8 list" where
  "encode L pMsg pSize =
     bindR (enc_PropertyTreeProtocol L pMsg ([], pSize - 2)) (\<lambda>(body, room).
       let msgSize = of_nat (pSize - room - 2) :: u16
       in Inr (take (unat msgSize + 2) (le_bytes 2 (unat msgSize) @ body)))"

text \<open>
  The first lines of \<open>ProtocolHandler::onMsg\<close> and \<open>Client::processMessage\<close>: decode into a
  default-initialised variant; bytes that are left over are ignored.
\<close>

definition decode_message :: "cum \<Rightarrow> u8 list \<Rightarrow> fault + PropertyTreeProtocol" where
  "decode_message L pMsg =
     bindR (dec_PropertyTreeProtocol L default_protocol pMsg) (\<lambda>(message, _). Inr message)"

section \<open>Values that can be encoded\<close>

definition wf_String :: "String \<Rightarrow> bool" where
  "wf_String s \<longleftrightarrow> CHR 0x00 \<notin> set s"

fun wf_Cause :: "Cause \<Rightarrow> bool" where
  "wf_Cause (UNNAMED b) = (6 \<le> b)"
| "wf_Cause _ = True"

definition wf_size :: "'a list \<Rightarrow> bool" where
  "wf_size xs \<longleftrightarrow> length xs < 2 ^ 32"

definition wf_NamedNode :: "NamedNode \<Rightarrow> bool" where
  "wf_NamedNode x \<longleftrightarrow> wf_String (NamedNode_name x) \<and> True \<and> True"

text \<open>The lists of nodes of a message.\<close>

definition wf_NamedNodeList :: "NamedNode list \<Rightarrow> bool" where
  "wf_NamedNodeList x \<longleftrightarrow> wf_size x \<and> list_all wf_NamedNode x"

definition wf_SigninRequest :: "SigninRequest \<Rightarrow> bool" where
  "wf_SigninRequest x \<longleftrightarrow> True"

definition wf_SigninAccept :: "SigninAccept \<Rightarrow> bool" where
  "wf_SigninAccept x \<longleftrightarrow> True"

definition wf_CreateRequest :: "CreateRequest \<Rightarrow> bool" where
  "wf_CreateRequest x \<longleftrightarrow> wf_String (CreateRequest_name x) \<and> True"

definition wf_CreateAccept :: "CreateAccept \<Rightarrow> bool" where
  "wf_CreateAccept x \<longleftrightarrow> True"

definition wf_CreateReject :: "CreateReject \<Rightarrow> bool" where
  "wf_CreateReject x \<longleftrightarrow> wf_Cause (CreateReject_cause x)"

definition wf_GetRequest :: "GetRequest \<Rightarrow> bool" where
  "wf_GetRequest x \<longleftrightarrow> True"

definition wf_GetAccept :: "GetAccept \<Rightarrow> bool" where
  "wf_GetAccept x \<longleftrightarrow> wf_size (GetAccept_data x)"

definition wf_GetReject :: "GetReject \<Rightarrow> bool" where
  "wf_GetReject x \<longleftrightarrow> wf_Cause (GetReject_cause x)"

definition wf_TreeInfoRequest :: "TreeInfoRequest \<Rightarrow> bool" where
  "wf_TreeInfoRequest x \<longleftrightarrow> True \<and> wf_String (TreeInfoRequest_name x) \<and> True"

definition wf_TreeInfoResponse :: "TreeInfoResponse \<Rightarrow> bool" where
  "wf_TreeInfoResponse x \<longleftrightarrow> wf_NamedNodeList (TreeInfoResponse_nodeToAddList x)"

definition wf_TreeInfoErrorResponse :: "TreeInfoErrorResponse \<Rightarrow> bool" where
  "wf_TreeInfoErrorResponse x \<longleftrightarrow> wf_Cause (TreeInfoErrorResponse_cause x)"

definition wf_TreeUpdateNotification :: "TreeUpdateNotification \<Rightarrow> bool" where
  "wf_TreeUpdateNotification x \<longleftrightarrow> wf_NamedNodeList (TreeUpdateNotification_nodeToAddList x) \<and> wf_size (TreeUpdateNotification_nodeToDelete x)"

definition wf_DeleteRequest :: "DeleteRequest \<Rightarrow> bool" where
  "wf_DeleteRequest x \<longleftrightarrow> True"

definition wf_DeleteResponse :: "DeleteResponse \<Rightarrow> bool" where
  "wf_DeleteResponse x \<longleftrightarrow> wf_Cause (DeleteResponse_cause x)"

definition wf_SetValueRequest :: "SetValueRequest \<Rightarrow> bool" where
  "wf_SetValueRequest x \<longleftrightarrow> True \<and> wf_size (SetValueRequest_data x)"

definition wf_SetValueAccept :: "SetValueAccept \<Rightarrow> bool" where
  "wf_SetValueAccept x \<longleftrightarrow> True"

definition wf_SetValueReject :: "SetValueReject \<Rightarrow> bool" where
  "wf_SetValueReject x \<longleftrightarrow> wf_Cause (SetValueReject_cause x)"

definition wf_SubscribeRequest :: "SubscribeRequest \<Rightarrow> bool" where
  "wf_SubscribeRequest x \<longleftrightarrow> True"

definition wf_SubscribeResponse :: "SubscribeResponse \<Rightarrow> bool" where
  "wf_SubscribeResponse x \<longleftrightarrow> wf_Cause (SubscribeResponse_cause x)"

definition wf_UnsubscribeRequest :: "UnsubscribeRequest \<Rightarrow> bool" where
  "wf_UnsubscribeRequest x \<longleftrightarrow> True"

definition wf_UnsubscribeResponse :: "UnsubscribeResponse \<Rightarrow> bool" where
  "wf_UnsubscribeResponse x \<longleftrightarrow> wf_Cause (UnsubscribeResponse_cause x)"

definition wf_UpdateNotification :: "UpdateNotification \<Rightarrow> bool" where
  "wf_UpdateNotification x \<longleftrightarrow> True \<and> wf_size (UpdateNotification_data x)"

definition wf_RpcRequest :: "RpcRequest \<Rightarrow> bool" where
  "wf_RpcRequest x \<longleftrightarrow> True \<and> wf_size (RpcRequest_param x)"

definition wf_RpcAccept :: "RpcAccept \<Rightarrow> bool" where
  "wf_RpcAccept x \<longleftrightarrow> wf_size (RpcAccept_value x)"

definition wf_RpcReject :: "RpcReject \<Rightarrow> bool" where
  "wf_RpcReject x \<longleftrightarrow> wf_Cause (RpcReject_cause x)"

definition wf_HearbeatRequest :: "HearbeatRequest \<Rightarrow> bool" where
  "wf_HearbeatRequest x \<longleftrightarrow> True"

definition wf_HearbeatResponse :: "HearbeatResponse \<Rightarrow> bool" where
  "wf_HearbeatResponse x \<longleftrightarrow> True"

fun wf_PropertyTreeMessages :: "PropertyTreeMessages \<Rightarrow> bool" where
  "wf_PropertyTreeMessages (SigninRequest x) = wf_SigninRequest x"
| "wf_PropertyTreeMessages (SigninAccept x) = wf_SigninAccept x"
| "wf_PropertyTreeMessages (CreateRequest x) = wf_CreateRequest x"
| "wf_PropertyTreeMessages (CreateAccept x) = wf_CreateAccept x"
| "wf_PropertyTreeMessages (CreateReject x) = wf_CreateReject x"
| "wf_PropertyTreeMessages (GetRequest x) = wf_GetRequest x"
| "wf_PropertyTreeMessages (GetAccept x) = wf_GetAccept x"
| "wf_PropertyTreeMessages (GetReject x) = wf_GetReject x"
| "wf_PropertyTreeMessages (TreeInfoRequest x) = wf_TreeInfoRequest x"
| "wf_PropertyTreeMessages (TreeInfoResponse x) = wf_TreeInfoResponse x"
| "wf_PropertyTreeMessages (TreeInfoErrorResponse x) = wf_TreeInfoErrorResponse x"
| "wf_PropertyTreeMessages (TreeUpdateNotification x) = wf_TreeUpdateNotification x"
| "wf_PropertyTreeMessages (DeleteRequest x) = wf_DeleteRequest x"
| "wf_PropertyTreeMessages (DeleteResponse x) = wf_DeleteResponse x"
| "wf_PropertyTreeMessages (SetValueRequest x) = wf_SetValueRequest x"
| "wf_PropertyTreeMessages (SetValueAccept x) = wf_SetValueAccept x"
| "wf_PropertyTreeMessages (SetValueReject x) = wf_SetValueReject x"
| "wf_PropertyTreeMessages (SubscribeRequest x) = wf_SubscribeRequest x"
| "wf_PropertyTreeMessages (SubscribeResponse x) = wf_SubscribeResponse x"
| "wf_PropertyTreeMessages (UnsubscribeRequest x) = wf_UnsubscribeRequest x"
| "wf_PropertyTreeMessages (UnsubscribeResponse x) = wf_UnsubscribeResponse x"
| "wf_PropertyTreeMessages (UpdateNotification x) = wf_UpdateNotification x"
| "wf_PropertyTreeMessages (RpcRequest x) = wf_RpcRequest x"
| "wf_PropertyTreeMessages (RpcAccept x) = wf_RpcAccept x"
| "wf_PropertyTreeMessages (RpcReject x) = wf_RpcReject x"
| "wf_PropertyTreeMessages (HearbeatRequest x) = wf_HearbeatRequest x"
| "wf_PropertyTreeMessages (HearbeatResponse x) = wf_HearbeatResponse x"

definition wf_PropertyTreeMessage :: "PropertyTreeMessage \<Rightarrow> bool" where
  "wf_PropertyTreeMessage x \<longleftrightarrow> True \<and> wf_PropertyTreeMessages (message x)"

fun wf_PropertyTreeProtocol :: "PropertyTreeProtocol \<Rightarrow> bool" where
  "wf_PropertyTreeProtocol (PropertyTreeMessage m) = wf_PropertyTreeMessage m"
| "wf_PropertyTreeProtocol (PropertyTreeMessageArray ms) =
     (length ms < 256 \<and> list_all wf_PropertyTreeMessage ms)"

section \<open>Lawfulness\<close>

text \<open>
  Every value of \<open>P\<close> has an encoding which is written whenever there is room for it, after what is
  there, and which the decoder reads back, leaving what follows.
\<close>

definition encodes :: "'a encoder \<Rightarrow> 'a decoder \<Rightarrow> 'a \<Rightarrow> u8 list \<Rightarrow> bool" where
  "encodes e d x bs \<longleftrightarrow>
     (\<forall>w room. length bs \<le> room \<longrightarrow> e x (w, room) = Inr (w @ bs, room - length bs)) \<and>
     (\<forall>rest. d (bs @ rest) = Inr (x, rest))"

definition lawful :: "('a \<Rightarrow> bool) \<Rightarrow> 'a encoder \<Rightarrow> 'a decoder \<Rightarrow> bool" where
  "lawful P e d \<longleftrightarrow> (\<forall>x. P x \<longrightarrow> (\<exists>bs. encodes e d x bs))"

lemma encodesD:
  assumes "encodes e d x bs"
  shows "length bs \<le> room \<Longrightarrow> e x (w, room) = Inr (w @ bs, room - length bs)" "d (bs @ rest) = Inr (x, rest)"
  using assms by (simp_all add: encodes_def)

lemma lawfulI: "(\<And>x. P x \<Longrightarrow> \<exists>bs. encodes e d x bs) \<Longrightarrow> lawful P e d"
  by (simp add: lawful_def)

lemma lawfulE: "lawful P e d \<Longrightarrow> P x \<Longrightarrow> (\<And>bs. encodes e d x bs \<Longrightarrow> thesis) \<Longrightarrow> thesis"
  by (auto simp: lawful_def)

lemma lawful_weaken: "lawful P e d \<Longrightarrow> (\<And>x. Q x \<Longrightarrow> P x) \<Longrightarrow> lawful Q e d"
  by (auto simp: lawful_def)

text \<open>Structs: the codecs of the fields one after the other.\<close>

lemma lawful_struct1:
  assumes "lawful P e d" "\<And>x. mk (fa x) = x"
  shows "lawful (\<lambda>x. P (fa x)) (\<lambda>x. e (fa x)) (\<lambda>bs. bindR (d bs) (\<lambda>(a, r). Inr (mk a, r)))"
proof (rule lawfulI)
  fix x assume "P (fa x)"
  with assms(1) obtain bs where "encodes e d (fa x) bs" by (rule lawfulE)
  with assms(2) show "\<exists>bs. encodes (\<lambda>x. e (fa x)) (\<lambda>bs. bindR (d bs) (\<lambda>(a, r). Inr (mk a, r))) x bs"
    by (intro exI [of _ bs]) (simp add: encodes_def)
qed

lemma lawful_struct2:
  assumes "lawful P e d" "lawful Q e' d'" "\<And>x. mk (fa x) (fb x) = x"
  shows "lawful (\<lambda>x. P (fa x) \<and> Q (fb x)) (\<lambda>x c. bindR (e (fa x) c) (\<lambda>c. e' (fb x) c))
    (\<lambda>bs. bindR (d bs) (\<lambda>(a, r). bindR (d' r) (\<lambda>(b, r). Inr (mk a b, r))))"
proof (rule lawfulI, elim conjE)
  fix x assume "P (fa x)" "Q (fb x)"
  with assms(1,2) obtain bs bs' where "encodes e d (fa x) bs" "encodes e' d' (fb x) bs'"
    by (metis lawfulE)
  with assms(3) show "\<exists>bs. encodes (\<lambda>x c. bindR (e (fa x) c) (\<lambda>c. e' (fb x) c))
      (\<lambda>bs. bindR (d bs) (\<lambda>(a, r). bindR (d' r) (\<lambda>(b, r). Inr (mk a b, r)))) x bs"
    by (intro exI [of _ "bs @ bs'"]) (simp add: encodes_def)
qed

lemma lawful_struct3:
  assumes "lawful P e d" "lawful Q e' d'" "lawful R e'' d''" "\<And>x. mk (fa x) (fb x) (fc x) = x"
  shows "lawful (\<lambda>x. P (fa x) \<and> Q (fb x) \<and> R (fc x))
    (\<lambda>x c. bindR (e (fa x) c) (\<lambda>c. bindR (e' (fb x) c) (\<lambda>c. e'' (fc x) c)))
    (\<lambda>bs. bindR (d bs) (\<lambda>(a, r). bindR (d' r) (\<lambda>(b, r). bindR (d'' r) (\<lambda>(c, r). Inr (mk a b c, r)))))"
proof (rule lawfulI, elim conjE)
  fix x assume "P (fa x)" "Q (fb x)" "R (fc x)"
  with assms(1,2,3) obtain bs bs' bs'' where
    "encodes e d (fa x) bs" "encodes e' d' (fb x) bs'" "encodes e'' d'' (fc x) bs''"
    by (metis lawfulE)
  with assms(4) show "\<exists>bs. encodes (\<lambda>x c. bindR (e (fa x) c) (\<lambda>c. bindR (e' (fb x) c) (\<lambda>c. e'' (fc x) c)))
      (\<lambda>bs. bindR (d bs) (\<lambda>(a, r). bindR (d' r) (\<lambda>(b, r). bindR (d'' r) (\<lambda>(c, r). Inr (mk a b c, r))))) x bs"
    by (intro exI [of _ "bs @ bs' @ bs''"]) (simp add: encodes_def add.assoc)
qed

text \<open>What the code relies on.\<close>

definition cum_ok :: "cum \<Rightarrow> bool" where
  "cum_ok L \<longleftrightarrow>
     lawful (\<lambda>_. True) (enc_u8 L) (dec_u8 L) \<and> lawful (\<lambda>_. True) (enc_u16 L) (dec_u16 L) \<and>
     lawful (\<lambda>_. True) (enc_u32 L) (dec_u32 L) \<and> lawful (\<lambda>_. True) (enc_u64 L) (dec_u64 L) \<and>
     lawful wf_String (enc_String L) (dec_String L) \<and> lawful wf_Cause (enc_Cause L) (dec_Cause L) \<and>
     lawful wf_size (enc_vec_u8 L) (dec_vec_u8 L) \<and> lawful wf_size (enc_vec_u64 L) (dec_vec_u64 L) \<and>
     (\<forall>P e d. lawful P e d \<longrightarrow>
        lawful (\<lambda>x. wf_size x \<and> list_all P x) (enc_vec_NamedNode L e) (dec_vec_NamedNode L d)) \<and>
     (\<forall>P e d. lawful P e d \<longrightarrow>
        lawful (\<lambda>x. length x < 256 \<and> list_all P x) (enc_vec_Message L e) (dec_vec_Message L d))"

lemma cum_scalars [codec_intros]:
  assumes "cum_ok L"
  shows "lawful (\<lambda>_. True) (enc_u8 L) (dec_u8 L)" "lawful (\<lambda>_. True) (enc_u16 L) (dec_u16 L)"
    "lawful (\<lambda>_. True) (enc_u32 L) (dec_u32 L)" "lawful (\<lambda>_. True) (enc_u64 L) (dec_u64 L)"
    "lawful wf_String (enc_String L) (dec_String L)" "lawful wf_Cause (enc_Cause L) (dec_Cause L)"
    "lawful wf_size (enc_vec_u8 L) (dec_vec_u8 L)" "lawful wf_size (enc_vec_u64 L) (dec_vec_u64 L)"
  using assms by (simp_all add: cum_ok_def)

lemma cum_vec_NamedNode:
  "cum_ok L \<Longrightarrow> lawful P e d \<Longrightarrow>
     lawful (\<lambda>x. wf_size x \<and> list_all P x) (enc_vec_NamedNode L e) (dec_vec_NamedNode L d)"
  by (simp add: cum_ok_def)

lemma cum_vec_Message:
  "cum_ok L \<Longrightarrow> lawful P e d \<Longrightarrow>
     lawful (\<lambda>x. length x < 256 \<and> list_all P x) (enc_vec_Message L e) (dec_vec_Message L d)"
  by (simp add: cum_ok_def)

lemma lawful_NamedNode [codec_intros]:
  "cum_ok L \<Longrightarrow> lawful wf_NamedNode (enc_NamedNode L) (dec_NamedNode L)"
  unfolding enc_NamedNode_def [abs_def] dec_NamedNode_def [abs_def] wf_NamedNode_def [abs_def]
  by (rule lawful_struct3 [where fa = NamedNode_name and fb = NamedNode_uuid and fc = NamedNode_parentUuid]) (auto intro: codec_intros)

lemma lawful_NamedNodeList [codec_intros]:
  "cum_ok L \<Longrightarrow> lawful wf_NamedNodeList (enc_vec_NamedNode L (enc_NamedNode L))
     (dec_vec_NamedNode L (dec_NamedNode L))"
  unfolding wf_NamedNodeList_def [abs_def]
  by (rule cum_vec_NamedNode) (auto intro: lawful_NamedNode)

lemma lawful_SigninRequest [codec_intros]:
  "cum_ok L \<Longrightarrow> lawful wf_SigninRequest (enc_SigninRequest L) (dec_SigninRequest L)"
  unfolding enc_SigninRequest_def [abs_def] dec_SigninRequest_def [abs_def] wf_SigninRequest_def [abs_def]
  by (rule lawful_struct1 [where fa = SigninRequest_spare]) (auto intro: codec_intros)

lemma lawful_SigninAccept [codec_intros]:
  "cum_ok L \<Longrightarrow> lawful wf_SigninAccept (enc_SigninAccept L) (dec_SigninAccept L)"
  unfolding enc_SigninAccept_def [abs_def] dec_SigninAccept_def [abs_def] wf_SigninAccept_def [abs_def]
  by (rule lawful_struct1 [where fa = SigninAccept_sessionId]) (auto intro: codec_intros)

lemma lawful_CreateRequest [codec_intros]:
  "cum_ok L \<Longrightarrow> lawful wf_CreateRequest (enc_CreateRequest L) (dec_CreateRequest L)"
  unfolding enc_CreateRequest_def [abs_def] dec_CreateRequest_def [abs_def] wf_CreateRequest_def [abs_def]
  by (rule lawful_struct2 [where fa = CreateRequest_name and fb = CreateRequest_parentUuid]) (auto intro: codec_intros)

lemma lawful_CreateAccept [codec_intros]:
  "cum_ok L \<Longrightarrow> lawful wf_CreateAccept (enc_CreateAccept L) (dec_CreateAccept L)"
  unfolding enc_CreateAccept_def [abs_def] dec_CreateAccept_def [abs_def] wf_CreateAccept_def [abs_def]
  by (rule lawful_struct1 [where fa = CreateAccept_uuid]) (auto intro: codec_intros)

lemma lawful_CreateReject [codec_intros]:
  "cum_ok L \<Longrightarrow> lawful wf_CreateReject (enc_CreateReject L) (dec_CreateReject L)"
  unfolding enc_CreateReject_def [abs_def] dec_CreateReject_def [abs_def] wf_CreateReject_def [abs_def]
  by (rule lawful_struct1 [where fa = CreateReject_cause]) (auto intro: codec_intros)

lemma lawful_GetRequest [codec_intros]:
  "cum_ok L \<Longrightarrow> lawful wf_GetRequest (enc_GetRequest L) (dec_GetRequest L)"
  unfolding enc_GetRequest_def [abs_def] dec_GetRequest_def [abs_def] wf_GetRequest_def [abs_def]
  by (rule lawful_struct1 [where fa = GetRequest_uuid]) (auto intro: codec_intros)

lemma lawful_GetAccept [codec_intros]:
  "cum_ok L \<Longrightarrow> lawful wf_GetAccept (enc_GetAccept L) (dec_GetAccept L)"
  unfolding enc_GetAccept_def [abs_def] dec_GetAccept_def [abs_def] wf_GetAccept_def [abs_def]
  by (rule lawful_struct1 [where fa = GetAccept_data]) (auto intro: codec_intros)

lemma lawful_GetReject [codec_intros]:
  "cum_ok L \<Longrightarrow> lawful wf_GetReject (enc_GetReject L) (dec_GetReject L)"
  unfolding enc_GetReject_def [abs_def] dec_GetReject_def [abs_def] wf_GetReject_def [abs_def]
  by (rule lawful_struct1 [where fa = GetReject_cause]) (auto intro: codec_intros)

lemma lawful_TreeInfoRequest [codec_intros]:
  "cum_ok L \<Longrightarrow> lawful wf_TreeInfoRequest (enc_TreeInfoRequest L) (dec_TreeInfoRequest L)"
  unfolding enc_TreeInfoRequest_def [abs_def] dec_TreeInfoRequest_def [abs_def] wf_TreeInfoRequest_def [abs_def]
  by (rule lawful_struct3 [where fa = TreeInfoRequest_parentUuid and fb = TreeInfoRequest_name and fc = TreeInfoRequest_recursive]) (auto intro: codec_intros)

lemma lawful_TreeInfoResponse [codec_intros]:
  "cum_ok L \<Longrightarrow> lawful wf_TreeInfoResponse (enc_TreeInfoResponse L) (dec_TreeInfoResponse L)"
  unfolding enc_TreeInfoResponse_def [abs_def] dec_TreeInfoResponse_def [abs_def] wf_TreeInfoResponse_def [abs_def]
  by (rule lawful_struct1 [where fa = TreeInfoResponse_nodeToAddList]) (auto intro: codec_intros)

lemma lawful_TreeInfoErrorResponse [codec_intros]:
  "cum_ok L \<Longrightarrow> lawful wf_TreeInfoErrorResponse (enc_TreeInfoErrorResponse L) (dec_TreeInfoErrorResponse L)"
  unfolding enc_TreeInfoErrorResponse_def [abs_def] dec_TreeInfoErrorResponse_def [abs_def] wf_TreeInfoErrorResponse_def [abs_def]
  by (rule lawful_struct1 [where fa = TreeInfoErrorResponse_cause]) (auto intro: codec_intros)

lemma lawful_TreeUpdateNotification [codec_intros]:
  "cum_ok L \<Longrightarrow> lawful wf_TreeUpdateNotification (enc_TreeUpdateNotification L) (dec_TreeUpdateNotification L)"
  unfolding enc_TreeUpdateNotification_def [abs_def] dec_TreeUpdateNotification_def [abs_def] wf_TreeUpdateNotification_def [abs_def]
  by (rule lawful_struct2 [where fa = TreeUpdateNotification_nodeToAddList and fb = TreeUpdateNotification_nodeToDelete]) (auto intro: codec_intros)

lemma lawful_DeleteRequest [codec_intros]:
  "cum_ok L \<Longrightarrow> lawful wf_DeleteRequest (enc_DeleteRequest L) (dec_DeleteRequest L)"
  unfolding enc_DeleteRequest_def [abs_def] dec_DeleteRequest_def [abs_def] wf_DeleteRequest_def [abs_def]
  by (rule lawful_struct1 [where fa = DeleteRequest_uuid]) (auto intro: codec_intros)

lemma lawful_DeleteResponse [codec_intros]:
  "cum_ok L \<Longrightarrow> lawful wf_DeleteResponse (enc_DeleteResponse L) (dec_DeleteResponse L)"
  unfolding enc_DeleteResponse_def [abs_def] dec_DeleteResponse_def [abs_def] wf_DeleteResponse_def [abs_def]
  by (rule lawful_struct1 [where fa = DeleteResponse_cause]) (auto intro: codec_intros)

lemma lawful_SetValueRequest [codec_intros]:
  "cum_ok L \<Longrightarrow> lawful wf_SetValueRequest (enc_SetValueRequest L) (dec_SetValueRequest L)"
  unfolding enc_SetValueRequest_def [abs_def] dec_SetValueRequest_def [abs_def] wf_SetValueRequest_def [abs_def]
  by (rule lawful_struct2 [where fa = SetValueRequest_uuid and fb = SetValueRequest_data]) (auto intro: codec_intros)

lemma lawful_SetValueAccept [codec_intros]:
  "cum_ok L \<Longrightarrow> lawful wf_SetValueAccept (enc_SetValueAccept L) (dec_SetValueAccept L)"
  unfolding enc_SetValueAccept_def [abs_def] dec_SetValueAccept_def [abs_def] wf_SetValueAccept_def [abs_def]
  by (rule lawful_struct1 [where fa = SetValueAccept_spare]) (auto intro: codec_intros)

lemma lawful_SetValueReject [codec_intros]:
  "cum_ok L \<Longrightarrow> lawful wf_SetValueReject (enc_SetValueReject L) (dec_SetValueReject L)"
  unfolding enc_SetValueReject_def [abs_def] dec_SetValueReject_def [abs_def] wf_SetValueReject_def [abs_def]
  by (rule lawful_struct1 [where fa = SetValueReject_cause]) (auto intro: codec_intros)

lemma lawful_SubscribeRequest [codec_intros]:
  "cum_ok L \<Longrightarrow> lawful wf_SubscribeRequest (enc_SubscribeRequest L) (dec_SubscribeRequest L)"
  unfolding enc_SubscribeRequest_def [abs_def] dec_SubscribeRequest_def [abs_def] wf_SubscribeRequest_def [abs_def]
  by (rule lawful_struct1 [where fa = SubscribeRequest_uuid]) (auto intro: codec_intros)

lemma lawful_SubscribeResponse [codec_intros]:
  "cum_ok L \<Longrightarrow> lawful wf_SubscribeResponse (enc_SubscribeResponse L) (dec_SubscribeResponse L)"
  unfolding enc_SubscribeResponse_def [abs_def] dec_SubscribeResponse_def [abs_def] wf_SubscribeResponse_def [abs_def]
  by (rule lawful_struct1 [where fa = SubscribeResponse_cause]) (auto intro: codec_intros)

lemma lawful_UnsubscribeRequest [codec_intros]:
  "cum_ok L \<Longrightarrow> lawful wf_UnsubscribeRequest (enc_UnsubscribeRequest L) (dec_UnsubscribeRequest L)"
  unfolding enc_UnsubscribeRequest_def [abs_def] dec_UnsubscribeRequest_def [abs_def] wf_UnsubscribeRequest_def [abs_def]
  by (rule lawful_struct1 [where fa = UnsubscribeRequest_uuid]) (auto intro: codec_intros)

lemma lawful_UnsubscribeResponse [codec_intros]:
  "cum_ok L \<Longrightarrow> lawful wf_UnsubscribeResponse (enc_UnsubscribeResponse L) (dec_UnsubscribeResponse L)"
  unfolding enc_UnsubscribeResponse_def [abs_def] dec_UnsubscribeResponse_def [abs_def] wf_UnsubscribeResponse_def [abs_def]
  by (rule lawful_struct1 [where fa = UnsubscribeResponse_cause]) (auto intro: codec_intros)

lemma lawful_UpdateNotification [codec_intros]:
  "cum_ok L \<Longrightarrow> lawful wf_UpdateNotification (enc_UpdateNotification L) (dec_UpdateNotification L)"
  unfolding enc_UpdateNotification_def [abs_def] dec_UpdateNotification_def [abs_def] wf_UpdateNotification_def [abs_def]
  by (rule lawful_struct2 [where fa = UpdateNotification_uuid and fb = UpdateNotification_data]) (auto intro: codec_intros)

lemma lawful_RpcRequest [codec_intros]:
  "cum_ok L \<Longrightarrow> lawful wf_RpcRequest (enc_RpcRequest L) (dec_RpcRequest L)"
  unfolding enc_RpcRequest_def [abs_def] dec_RpcRequest_def [abs_def] wf_RpcRequest_def [abs_def]
  by (rule lawful_struct2 [where fa = RpcRequest_uuid and fb = RpcRequest_param]) (auto intro: codec_intros)

lemma lawful_RpcAccept [codec_intros]:
  "cum_ok L \<Longrightarrow> lawful wf_RpcAccept (enc_RpcAccept L) (dec_RpcAccept L)"
  unfolding enc_RpcAccept_def [abs_def] dec_RpcAccept_def [abs_def] wf_RpcAccept_def [abs_def]
  by (rule lawful_struct1 [where fa = RpcAccept_value]) (auto intro: codec_intros)

lemma lawful_RpcReject [codec_intros]:
  "cum_ok L \<Longrightarrow> lawful wf_RpcReject (enc_RpcReject L) (dec_RpcReject L)"
  unfolding enc_RpcReject_def [abs_def] dec_RpcReject_def [abs_def] wf_RpcReject_def [abs_def]
  by (rule lawful_struct1 [where fa = RpcReject_cause]) (auto intro: codec_intros)

lemma lawful_HearbeatRequest [codec_intros]:
  "cum_ok L \<Longrightarrow> lawful wf_HearbeatRequest (enc_HearbeatRequest L) (dec_HearbeatRequest L)"
  unfolding enc_HearbeatRequest_def [abs_def] dec_HearbeatRequest_def [abs_def] wf_HearbeatRequest_def [abs_def]
  by (rule lawful_struct1 [where fa = HearbeatRequest_spare]) (auto intro: codec_intros)

lemma lawful_HearbeatResponse [codec_intros]:
  "cum_ok L \<Longrightarrow> lawful wf_HearbeatResponse (enc_HearbeatResponse L) (dec_HearbeatResponse L)"
  unfolding enc_HearbeatResponse_def [abs_def] dec_HearbeatResponse_def [abs_def] wf_HearbeatResponse_def [abs_def]
  by (rule lawful_struct1 [where fa = HearbeatResponse_spare]) (auto intro: codec_intros)

section \<open>The variants\<close>

lemma alternative:
  assumes "lawful P e d" "P x" "\<And>c. enc_alternative L (K x) c = e x c"
    and "\<And>c. dec_alternative L t pIe c = decoded K (d c)"
  shows "\<exists>bs. encodes (enc_alternative L) (dec_alternative L t pIe) (K x) bs"
proof -
  from assms(1,2) obtain bs where "encodes e d x bs" by (rule lawfulE)
  with assms(3,4) show ?thesis by (intro exI [of _ bs]) (simp add: encodes_def)
qed

lemmas alternatives =
  alternative [where K = SigninRequest, OF lawful_SigninRequest]
  alternative [where K = SigninAccept, OF lawful_SigninAccept]
  alternative [where K = CreateRequest, OF lawful_CreateRequest]
  alternative [where K = CreateAccept, OF lawful_CreateAccept]
  alternative [where K = CreateReject, OF lawful_CreateReject]
  alternative [where K = GetRequest, OF lawful_GetRequest]
  alternative [where K = GetAccept, OF lawful_GetAccept]
  alternative [where K = GetReject, OF lawful_GetReject]
  alternative [where K = TreeInfoRequest, OF lawful_TreeInfoRequest]
  alternative [where K = TreeInfoResponse, OF lawful_TreeInfoResponse]
  alternative [where K = TreeInfoErrorResponse, OF lawful_TreeInfoErrorResponse]
  alternative [where K = TreeUpdateNotification, OF lawful_TreeUpdateNotification]
  alternative [where K = DeleteRequest, OF lawful_DeleteRequest]
  alternative [where K = DeleteResponse, OF lawful_DeleteResponse]
  alternative [where K = SetValueRequest, OF lawful_SetValueRequest]
  alternative [where K = SetValueAccept, OF lawful_SetValueAccept]
  alternative [where K = SetValueReject, OF lawful_SetValueReject]
  alternative [where K = SubscribeRequest, OF lawful_SubscribeRequest]
  alternative [where K = SubscribeResponse, OF lawful_SubscribeResponse]
  alternative [where K = UnsubscribeRequest, OF lawful_UnsubscribeRequest]
  alternative [where K = UnsubscribeResponse, OF lawful_UnsubscribeResponse]
  alternative [where K = UpdateNotification, OF lawful_UpdateNotification]
  alternative [where K = RpcRequest, OF lawful_RpcRequest]
  alternative [where K = RpcAccept, OF lawful_RpcAccept]
  alternative [where K = RpcReject, OF lawful_RpcReject]
  alternative [where K = HearbeatRequest, OF lawful_HearbeatRequest]
  alternative [where K = HearbeatResponse, OF lawful_HearbeatResponse]

lemma alternative_encodes:
  assumes "cum_ok L" "wf_PropertyTreeMessages m"
  shows "\<exists>bs. encodes (enc_alternative L) (dec_alternative L (message_index m) pIe) m bs"
  using assms by (cases m) (auto intro!: alternatives simp: dec_alternative_def)

lemma encodes_tagged:
  assumes "encodes f g t bs" "encodes e (d t) x bs'"
  shows "encodes (\<lambda>x c. bindR (f t c) (\<lambda>c. e x c)) (\<lambda>bs. bindR (g bs) (\<lambda>(t, r). d t r)) x (bs @ bs')"
  using assms by (simp add: encodes_def)

lemma lawful_PropertyTreeMessages [codec_intros]:
  assumes "cum_ok L"
  shows "lawful wf_PropertyTreeMessages (enc_PropertyTreeMessages L) (dec_PropertyTreeMessages L pIe)"
proof (rule lawfulI)
  fix m assume "wf_PropertyTreeMessages m"
  with alternative_encodes [OF assms] obtain bs where
    "encodes (enc_alternative L) (dec_alternative L (message_index m) pIe) m bs" by blast
  moreover obtain ts where "encodes (enc_u8 L) (dec_u8 L) (message_index m) ts"
    using cum_scalars(1) [OF assms] by (auto elim: lawfulE)
  ultimately show "\<exists>bs. encodes (enc_PropertyTreeMessages L) (dec_PropertyTreeMessages L pIe) m bs"
    by (intro exI [of _ "ts @ bs"])
      (simp add: encodes_def enc_PropertyTreeMessages_def dec_PropertyTreeMessages_def)
qed

lemma lawful_PropertyTreeMessage [codec_intros]:
  "cum_ok L \<Longrightarrow> lawful wf_PropertyTreeMessage (enc_PropertyTreeMessage L) (dec_PropertyTreeMessage L pIe)"
  unfolding enc_PropertyTreeMessage_def [abs_def] dec_PropertyTreeMessage_def [abs_def]
    wf_PropertyTreeMessage_def [abs_def]
  by (rule lawful_struct2 [where fa = transactionId and fb = message]) (auto intro: codec_intros)

lemma lawful_PropertyTreeProtocol [codec_intros]:
  assumes "cum_ok L"
  shows "lawful wf_PropertyTreeProtocol (enc_PropertyTreeProtocol L) (dec_PropertyTreeProtocol L pIe)"
proof (rule lawfulI)
  fix m assume wf: "wf_PropertyTreeProtocol m"
  obtain ts where ts: "encodes (enc_u8 L) (dec_u8 L) (protocol_index m) ts"
    using cum_scalars(1) [OF assms] by (auto elim: lawfulE)
  show "\<exists>bs. encodes (enc_PropertyTreeProtocol L) (dec_PropertyTreeProtocol L pIe) m bs"
  proof (cases m)
    case (PropertyTreeMessage x)
    with wf lawful_PropertyTreeMessage [OF assms, of default_message] obtain bs where
      "encodes (enc_PropertyTreeMessage L) (dec_PropertyTreeMessage L default_message) x bs"
      by (auto elim: lawfulE)
    with ts PropertyTreeMessage show ?thesis
      by (intro exI [of _ "ts @ bs"])
        (simp add: encodes_def enc_PropertyTreeProtocol_def dec_PropertyTreeProtocol_def)
  next
    case (PropertyTreeMessageArray xs)
    with wf cum_vec_Message [OF assms lawful_PropertyTreeMessage [OF assms]] obtain bs where
      "encodes (enc_vec_Message L (enc_PropertyTreeMessage L))
         (dec_vec_Message L (dec_PropertyTreeMessage L default_message)) xs bs"
      by (auto elim: lawfulE)
    with ts PropertyTreeMessageArray show ?thesis
      by (intro exI [of _ "ts @ bs"])
        (simp add: encodes_def enc_PropertyTreeProtocol_def dec_PropertyTreeProtocol_def)
  qed
qed

end
