(* ===== verification/SimpleCum.thy ===== *)
theory SimpleCum
  imports Codec
begin

text \<open>
  A codec library that satisfies \<open>cum_ok\<close>: integers in little-endian order, strings with a
  terminating zero, vectors with their length in front. It shows that what the codecs assume of the
  library can hold; it is not the library.
\<close>

section \<open>The library\<close>

definition put :: "u8 list \<Rightarrow> ectx \<Rightarrow> fault + ectx" where
  "put bs c = (if length bs \<le> snd c then Inr (fst c @ bs, snd c - length bs)
     else Inl (Thrown ''out of range''))"

definition take_bytes :: "nat \<Rightarrow> u8 list \<Rightarrow> fault + (u8 list \<times> u8 list)" where
  "take_bytes n bs = (if n \<le> length bs then Inr (take n bs, drop n bs) else Inl (Thrown ''out of range''))"

definition put_int :: "nat \<Rightarrow> 'a::len word encoder" where
  "put_int n x = put (le_bytes n (unat x))"

definition get_int :: "nat \<Rightarrow> 'a::len word decoder" where
  "get_int n bs = bindR (take_bytes n bs) (\<lambda>(b, r). Inr (of_nat (le_nat b), r))"

definition put_string :: "string encoder" where
  "put_string s = put (map (\<lambda>c. of_nat (of_char c)) s @ [0])"

definition get_string :: "string decoder" where
  "get_string bs = Inr (map (\<lambda>b. char_of (unat b)) (takeWhile (\<lambda>b. b \<noteq> 0) bs),
     drop 1 (dropWhile (\<lambda>b. b \<noteq> 0) bs))"

fun cause_byte :: "Cause \<Rightarrow> u8" where
  "cause_byte OK = 0"
| "cause_byte NOT_FOUND = 1"
| "cause_byte ALREADY_EXIST = 2"
| "cause_byte NOT_PERMITTED = 3"
| "cause_byte NOT_EMPTY = 4"
| "cause_byte NO_HANDLER = 5"
| "cause_byte (UNNAMED b) = b"

definition byte_cause :: "u8 \<Rightarrow> Cause" where
  "byte_cause b = (if b = 0 then OK else if b = 1 then NOT_FOUND else if b = 2 then ALREADY_EXIST
     else if b = 3 then NOT_PERMITTED else if b = 4 then NOT_EMPTY else if b = 5 then NO_HANDLER
     else UNNAMED b)"

fun put_all :: "'a encoder \<Rightarrow> 'a list encoder" where
  "put_all e [] c = Inr c"
| "put_all e (x # xs) c = bindR (e x c) (put_all e xs)"

fun get_all :: "'a decoder \<Rightarrow> nat \<Rightarrow> 'a list decoder" where
  "get_all d 0 bs = Inr ([], bs)"
| "get_all d (Suc n) bs = bindR (d bs) (\<lambda>(x, r). bindR (get_all d n r) (\<lambda>(xs, r). Inr (x # xs, r)))"

definition put_vector :: "nat \<Rightarrow> 'a encoder \<Rightarrow> 'a list encoder" where
  "put_vector k e xs c = bindR (put (le_bytes k (length xs)) c) (put_all e xs)"

definition get_vector :: "nat \<Rightarrow> 'a decoder \<Rightarrow> 'a list decoder" where
  "get_vector k d bs = bindR (take_bytes k bs) (\<lambda>(b, r). get_all d (le_nat b) r)"

definition simple_cum :: cum where
  "simple_cum = \<lparr>enc_u8 = put_int 1, dec_u8 = get_int 1, enc_u16 = put_int 2, dec_u16 = get_int 2,
     enc_u32 = put_int 4, dec_u32 = get_int 4, enc_u64 = put_int 8, dec_u64 = get_int 8,
     enc_String = put_string, dec_String = get_string,
     enc_Cause = (\<lambda>x. put [cause_byte x]),
     dec_Cause = (\<lambda>bs. bindR (get_int 1 bs) (\<lambda>(b, r). Inr (byte_cause b, r))),
     enc_vec_u8 = put_vector 4 (put_int 1), dec_vec_u8 = get_vector 4 (get_int 1),
     enc_vec_u64 = put_vector 4 (put_int 8), dec_vec_u64 = get_vector 4 (get_int 8),
     enc_vec_NamedNode = put_vector 4, dec_vec_NamedNode = get_vector 4,
     enc_vec_Message = put_vector 1, dec_vec_Message = get_vector 1\<rparr>"

section \<open>It is lawful\<close>

lemma put_room [simp]: "length bs \<le> room \<Longrightarrow> put bs (w, room) = Inr (w @ bs, room - length bs)"
  by (simp add: put_def)

lemma take_bytes_append [simp]: "length bs = n \<Longrightarrow> take_bytes n (bs @ rest) = Inr (bs, rest)"
  by (auto simp: take_bytes_def)

lemma int_encodes:
  assumes "256 ^ n = (2 :: nat) ^ LENGTH('a::len)"
  shows "encodes (put_int n) (get_int n) (x :: 'a word) (le_bytes n (unat x))"
proof -
  have "unat x < 256 ^ n" unfolding assms by (rule unsigned_less)
  then have "le_nat (le_bytes n (unat x)) = unat x" by (simp add: le_nat_le_bytes)
  then show ?thesis by (simp add: encodes_def put_int_def get_int_def)
qed

lemma int_lawful: "256 ^ n = (2 :: nat) ^ LENGTH('a::len) \<Longrightarrow> lawful (\<lambda>_. True) (put_int n) (get_int n :: 'a word decoder)"
  using int_encodes by (blast intro: lawfulI)

lemma char_byte:
  "char_of (unat (of_nat (of_char c) :: u8)) = c"
  "c \<noteq> CHR 0x00 \<Longrightarrow> (of_nat (of_char c) :: u8) \<noteq> 0"
proof -
  have u: "unat (of_nat (of_char c) :: u8) = of_char c"
    using nat_of_char_less_256 [of c] by (simp add: unat_of_nat)
  then show "char_of (unat (of_nat (of_char c) :: u8)) = c" by simp
  assume "c \<noteq> CHR 0x00"
  then have "(of_char c :: nat) \<noteq> 0" using of_char_eq_iff [of c "CHR 0x00", where 'a = nat] by simp
  with u show "(of_nat (of_char c) :: u8) \<noteq> 0" by (metis unat_eq_zero)
qed

lemma string_lawful: "lawful wf_String put_string get_string"
proof (rule lawfulI)
  fix s assume "wf_String s"
  then have nz: "\<forall>c\<in>set s. (of_nat (of_char c) :: u8) \<noteq> 0"
    using char_byte(2) by (metis wf_String_def)
  have "takeWhile (\<lambda>b. b \<noteq> 0) (map (\<lambda>c. of_nat (of_char c) :: u8) s @ 0 # rest) = map (\<lambda>c. of_nat (of_char c)) s"
    "dropWhile (\<lambda>b. b \<noteq> 0) (map (\<lambda>c. of_nat (of_char c) :: u8) s @ 0 # rest) = 0 # rest" for rest
    using nz by (induction s) simp_all
  then show "\<exists>bs. encodes put_string get_string s bs"
    by (intro exI [of _ "map (\<lambda>c. of_nat (of_char c)) s @ [0]"])
      (simp add: encodes_def put_string_def get_string_def char_byte(1) map_idI)
qed

lemma cause_lawful:
  "lawful wf_Cause (\<lambda>x. put [cause_byte x]) (\<lambda>bs. bindR (get_int 1 bs) (\<lambda>(b, r). Inr (byte_cause b, r)))"
proof (rule lawfulI)
  fix x assume wf: "wf_Cause x"
  have "byte_cause (cause_byte x) = x"
  proof (cases x)
    case (UNNAMED b)
    with wf have "6 \<le> unat b" by (simp add: word_le_nat_alt)
    then have "b \<noteq> 0 \<and> b \<noteq> 1 \<and> b \<noteq> 2 \<and> b \<noteq> 3 \<and> b \<noteq> 4 \<and> b \<noteq> 5" by auto
    with UNNAMED show ?thesis by (simp add: byte_cause_def)
  qed (simp_all add: byte_cause_def)
  moreover have "get_int 1 (b # r) = Inr (b, r)" for b :: u8 and r
    by (simp add: get_int_def take_bytes_def)
  ultimately show "\<exists>bs. encodes (\<lambda>x. put [cause_byte x])
      (\<lambda>bs. bindR (get_int 1 bs) (\<lambda>(b, r). Inr (byte_cause b, r))) x bs"
    by (intro exI [of _ "[cause_byte x]"]) (simp add: encodes_def)
qed

lemma all_encodes:
  "lawful P e d \<Longrightarrow> list_all P xs \<Longrightarrow> \<exists>bs. encodes (put_all e) (get_all d (length xs)) xs bs"
proof (induction xs)
  case Nil
  then show ?case by (intro exI [of _ "[]"]) (simp add: encodes_def)
next
  case (Cons x xs)
  then obtain bs where "encodes (put_all e) (get_all d (length xs)) xs bs" by auto
  moreover from Cons.prems obtain b where "encodes e d x b" by (auto elim: lawfulE)
  ultimately show ?case by (intro exI [of _ "b @ bs"]) (simp add: encodes_def)
qed

lemma vector_lawful:
  assumes "lawful P e d"
  shows "lawful (\<lambda>xs. length xs < 256 ^ k \<and> list_all P xs) (put_vector k e) (get_vector k d)"
proof (rule lawfulI)
  fix xs assume "length xs < 256 ^ k \<and> list_all P xs"
  moreover from this all_encodes [OF assms] obtain bs where
    "encodes (put_all e) (get_all d (length xs)) xs bs" by blast
  ultimately show "\<exists>bs. encodes (put_vector k e) (get_vector k d) xs bs"
    by (intro exI [of _ "le_bytes k (length xs) @ bs"])
      (simp add: encodes_def put_vector_def get_vector_def le_nat_le_bytes)
qed

lemma simple_cum_ok: "cum_ok simple_cum"
proof -
  have wf: "wf_size xs \<longleftrightarrow> length xs < 256 ^ 4" for xs :: "'a list" by (simp add: wf_size_def)
  have vec: "lawful wf_size (put_vector 4 e) (get_vector 4 d)" if "lawful (\<lambda>_. True) e d"
    for e :: "'a encoder" and d
    using vector_lawful [OF that, of 4] by (rule lawful_weaken) (simp add: wf list_all_iff)
  show ?thesis
    unfolding cum_ok_def
  proof (intro conjI allI impI)
    fix P :: "NamedNode \<Rightarrow> bool" and e d assume "lawful P e d"
    from vector_lawful [OF this, of 4]
    show "lawful (\<lambda>x. wf_size x \<and> list_all P x) (enc_vec_NamedNode simple_cum e) (dec_vec_NamedNode simple_cum d)"
      by (simp add: simple_cum_def wf)
  next
    fix P :: "PropertyTreeMessage \<Rightarrow> bool" and e d assume "lawful P e d"
    from vector_lawful [OF this, of 1]
    show "lawful (\<lambda>x. length x < 256 \<and> list_all P x) (enc_vec_Message simple_cum e) (dec_vec_Message simple_cum d)"
      by (simp add: simple_cum_def)
  qed (simp_all add: simple_cum_def int_lawful string_lawful cause_lawful [simplified] vec)
qed

section \<open>It reports errors by exceptions\<close>

fun thrown :: "fault \<Rightarrow> bool" where
  "thrown (Thrown _) = True"
| "thrown _ = False"

text \<open>The codec library reports what it cannot encode by an exception.\<close>

definition encode_throws :: "cum \<Rightarrow> bool" where
  "encode_throws L \<longleftrightarrow> (\<forall>m n f. encode L m n = Inl f \<longrightarrow> thrown f)"

lemma put_throws: "put bs c = Inl f \<Longrightarrow> thrown f"
  by (auto simp: put_def split: if_splits)

lemma put_all_throws: "(\<And>x c f. e x c = Inl f \<Longrightarrow> thrown f) \<Longrightarrow> put_all e xs c = Inl f \<Longrightarrow> thrown f"
proof (induction xs arbitrary: c)
  case (Cons x xs)
  from Cons.prems(2) consider "e x c = Inl f" | d where "put_all e xs d = Inl f" by auto
  then show ?case using Cons by cases blast+
qed simp

lemma put_vector_throws:
  assumes "\<And>x c f. e x c = Inl f \<Longrightarrow> thrown f" "put_vector k e xs c = Inl f"
  shows "thrown f"
proof -
  from assms(2) consider "put (le_bytes k (length xs)) c = Inl f" | d where "put_all e xs d = Inl f"
    by (auto simp: put_vector_def)
  then show ?thesis using put_throws put_all_throws [OF assms(1)] by cases blast+
qed

lemma simple_parts_throw:
  "put_int n x c = Inl f \<Longrightarrow> thrown f" "put_string s c = Inl f \<Longrightarrow> thrown f"
  by (auto simp: put_int_def put_string_def dest: put_throws)

lemmas simple_throws = put_throws simple_parts_throw

lemma simple_encoders:
  "enc_u8 simple_cum = put_int 1" "enc_u16 simple_cum = put_int 2" "enc_u32 simple_cum = put_int 4"
  "enc_u64 simple_cum = put_int 8" "enc_String simple_cum = put_string"
  "enc_Cause simple_cum = (\<lambda>x. put [cause_byte x])" "enc_vec_u8 simple_cum = put_vector 4 (put_int 1)"
  "enc_vec_u64 simple_cum = put_vector 4 (put_int 8)" "enc_vec_NamedNode simple_cum = put_vector 4"
  "enc_vec_Message simple_cum = put_vector 1"
  by (simp_all add: simple_cum_def)

lemma NamedNode_throws: "enc_NamedNode simple_cum x c = Inl f \<Longrightarrow> thrown f"
  by (auto simp: enc_NamedNode_def simple_encoders dest: simple_throws)

lemma vector_throws:
  "put_vector 4 (put_int n) xs c = Inl f \<Longrightarrow> thrown f"
  "put_vector 4 (enc_NamedNode simple_cum) ys c = Inl f \<Longrightarrow> thrown f"
  by (rule put_vector_throws; auto dest: simple_throws NamedNode_throws)+

lemma struct_throws:
  "enc_SigninRequest simple_cum x0 c = Inl f \<Longrightarrow> thrown f"
  "enc_SigninAccept simple_cum x1 c = Inl f \<Longrightarrow> thrown f"
  "enc_CreateRequest simple_cum x2 c = Inl f \<Longrightarrow> thrown f"
  "enc_CreateAccept simple_cum x3 c = Inl f \<Longrightarrow> thrown f"
  "enc_CreateReject simple_cum x4 c = Inl f \<Longrightarrow> thrown f"
  "enc_GetRequest simple_cum x5 c = Inl f \<Longrightarrow> thrown f"
  "enc_GetAccept simple_cum x6 c = Inl f \<Longrightarrow> thrown f"
  "enc_GetReject simple_cum x7 c = Inl f \<Longrightarrow> thrown f"
  "enc_TreeInfoRequest simple_cum x8 c = Inl f \<Longrightarrow> thrown f"
  "enc_TreeInfoResponse simple_cum x9 c = Inl f \<Longrightarrow> thrown f"
  "enc_TreeInfoErrorResponse simple_cum x10 c = Inl f \<Longrightarrow> thrown f"
  "enc_TreeUpdateNotification simple_cum x11 c = Inl f \<Longrightarrow> thrown f"
  "enc_DeleteRequest simple_cum x12 c = Inl f \<Longrightarrow> thrown f"
  "enc_DeleteResponse simple_cum x13 c = Inl f \<Longrightarrow> thrown f"
  "enc_SetValueRequest simple_cum x14 c = Inl f \<Longrightarrow> thrown f"
  "enc_SetValueAccept simple_cum x15 c = Inl f \<Longrightarrow> thrown f"
  "enc_SetValueReject simple_cum x16 c = Inl f \<Longrightarrow> thrown f"
  "enc_SubscribeRequest simple_cum x17 c = Inl f \<Longrightarrow> thrown f"
  "enc_SubscribeResponse simple_cum x18 c = Inl f \<Longrightarrow> thrown f"
  "enc_UnsubscribeRequest simple_cum x19 c = Inl f \<Longrightarrow> thrown f"
  "enc_UnsubscribeResponse simple_cum x20 c = Inl f \<Longrightarrow> thrown f"
  "enc_UpdateNotification simple_cum x21 c = Inl f \<Longrightarrow> thrown f"
  "enc_RpcRequest simple_cum x22 c = Inl f \<Longrightarrow> thrown f"
  "enc_RpcAccept simple_cum x23 c = Inl f \<Longrightarrow> thrown f"
  "enc_RpcReject simple_cum x24 c = Inl f \<Longrightarrow> thrown f"
  "enc_HearbeatRequest simple_cum x25 c = Inl f \<Longrightarrow> thrown f"
  "enc_HearbeatResponse simple_cum x26 c = Inl f \<Longrightarrow> thrown f"
  unfolding enc_SigninRequest_def enc_SigninAccept_def enc_CreateRequest_def enc_CreateAccept_def
    enc_CreateReject_def enc_GetRequest_def enc_GetAccept_def enc_GetReject_def
    enc_TreeInfoRequest_def enc_TreeInfoResponse_def enc_TreeInfoErrorResponse_def
    enc_TreeUpdateNotification_def enc_DeleteRequest_def enc_DeleteResponse_def
    enc_SetValueRequest_def enc_SetValueAccept_def enc_SetValueReject_def enc_SubscribeRequest_def
    enc_SubscribeResponse_def enc_UnsubscribeRequest_def enc_UnsubscribeResponse_def
    enc_UpdateNotification_def enc_RpcRequest_def enc_RpcAccept_def enc_RpcReject_def
    enc_HearbeatRequest_def enc_HearbeatResponse_def
  by (auto simp: simple_encoders bindR_eq_Inl dest: simple_throws vector_throws)

lemma alternative_throws: "enc_alternative simple_cum m c = Inl f \<Longrightarrow> thrown f"
  by (cases m) (simp_all add: struct_throws)

lemma message_throws: "enc_PropertyTreeMessage simple_cum m c = Inl f \<Longrightarrow> thrown f"
  by (auto simp: enc_PropertyTreeMessage_def enc_PropertyTreeMessages_def alternative_throws)
    (auto simp: simple_encoders dest: simple_throws)

lemma simple_cum_throws: "encode_throws simple_cum"
  unfolding encode_throws_def
proof (intro allI impI)
  fix m n f assume "encode simple_cum m n = Inl f"
  then have "enc_PropertyTreeProtocol simple_cum m ([], n - 2) = Inl f" by (auto simp: encode_def Let_def)
  then show "thrown f"
    by (cases m) (auto simp: enc_PropertyTreeProtocol_def message_throws simple_encoders dest: simple_throws put_vector_throws [rotated])
qed

end
