(* ===== verification/CodecProps.thy ===== *)
theory CodecProps
  imports SimpleCum
begin

text \<open>
  The properties of the codecs, for any codec library that does what \<open>cum_ok\<close> says.
\<close>

lemma frame_encodes:
  assumes "encodes (enc_PropertyTreeProtocol L) (dec_PropertyTreeProtocol L default_protocol) m body"
  shows "length body + 2 \<le> pSize \<Longrightarrow> pSize \<le> 2 ^ 16 + 1 \<Longrightarrow>
      encode L m pSize = Inr (le_bytes 2 (length body) @ body)"
    and "decode_message L (body @ rest) = Inr m"
proof -
  assume room: "length body + 2 \<le> pSize" "pSize \<le> 2 ^ 16 + 1"
  then have "pSize - (pSize - 2 - length body) - 2 = length body" "length body < 65536" by simp_all
  moreover have "unat (of_nat (length body) :: u16) = length body"
    using room by (simp add: unat_of_nat)
  ultimately show "encode L m pSize = Inr (le_bytes 2 (length body) @ body)"
    using room encodesD(1) [OF assms, of "pSize - 2" "[]"] by (simp add: encode_def Let_def)
next
  show "decode_message L (body @ rest) = Inr m"
    using encodesD(2) [OF assms, of rest] by (simp add: decode_message_def)
qed

text \<open>
  C14: Every message of the protocol, single or array, whose strings have no NUL and whose vectors are
  within their declared capacities has one encoding, in any buffer of up to \<open>2 ^ 16 + 1\<close> bytes that
  it fits in (\<open>ENCODE_SIZE\<close> is one less): two bytes with the size of the body, which does not wrap, and
  the body. The receiver decodes the body to the same message, whatever is behind it in its buffer.
\<close>

theorem frame_round_trip:
  assumes "cum_ok L" "wf_PropertyTreeProtocol m"
  shows "\<exists>body. (\<forall>pSize. length body + 2 \<le> pSize \<and> pSize \<le> 2 ^ 16 + 1 \<longrightarrow>
      encode L m pSize = Inr (le_bytes 2 (length body) @ body)) \<and>
    (\<forall>rest. decode_message L (body @ rest) = Inr m)"
proof -
  from lawful_PropertyTreeProtocol [OF assms(1)] assms(2) obtain body where
    "encodes (enc_PropertyTreeProtocol L) (dec_PropertyTreeProtocol L default_protocol) m body"
    by (rule lawfulE)
  from frame_encodes [OF this] show ?thesis by blast
qed

lemma frame_round_trip_witness:
  "\<exists>body. (\<forall>rest. decode_message simple_cum (body @ rest) =
     Inr (single 5 (TreeUpdateNotification \<lparr>TreeUpdateNotification_nodeToAddList =
       [\<lparr>NamedNode_name = ''ab'', NamedNode_uuid = 7, NamedNode_parentUuid = 0\<rparr>],
       TreeUpdateNotification_nodeToDelete = [3]\<rparr>)))"
proof -
  let ?m = "single 5 (TreeUpdateNotification \<lparr>TreeUpdateNotification_nodeToAddList =
       [\<lparr>NamedNode_name = ''ab'', NamedNode_uuid = 7, NamedNode_parentUuid = 0\<rparr>],
       TreeUpdateNotification_nodeToDelete = [3]\<rparr>)"
  have "wf_PropertyTreeProtocol ?m"
    by (simp add: single_def wf_PropertyTreeMessage_def wf_TreeUpdateNotification_def
        wf_NamedNodeList_def wf_NamedNode_def wf_String_def wf_size_def)
  from frame_round_trip [OF simple_cum_ok this] show ?thesis by blast
qed

text \<open>
  C30: Bytes whose index names no alternative are not rejected: an unknown message is taken for a
  \<open>SigninRequest\<close> under the transaction id it came with, and an unknown unit for a \<open>SigninRequest\<close>
  with transaction id 0.
\<close>

theorem unknown_is_signin:
  assumes "dec_u8 L bs = Inr (unit, bs1)"
    and "unit = 0 \<Longrightarrow> dec_u16 L bs1 = Inr (t, bs2) \<and> dec_u8 L bs2 = Inr (type, bs3) \<and> 27 \<le> type"
    and "unit \<noteq> 0 \<Longrightarrow> t = 0 \<and> 2 \<le> unit"
  shows "decode_message L bs = Inr (single t (SigninRequest \<lparr>SigninRequest_spare = 0\<rparr>))"
proof (cases "unit = 0")
  case True
  with assms(2) have t: "dec_u16 L bs1 = Inr (t, bs2)" "dec_u8 L bs2 = Inr (type, bs3)" "27 \<le> unat type"
    by (simp_all add: word_le_nat_alt)
  have "dec_alternative L type (SigninRequest \<lparr>SigninRequest_spare = 0\<rparr>) bs3 =
      Inr (SigninRequest \<lparr>SigninRequest_spare = 0\<rparr>, bs3)"
    using t(3) by (auto simp: dec_alternative_def)
  with True t assms(1) show ?thesis
    by (simp add: decode_message_def dec_PropertyTreeProtocol_def dec_PropertyTreeMessage_def
        dec_PropertyTreeMessages_def default_message_def default_messages_def single_def)
next
  case False
  with assms(3) have "2 \<le> unat unit" "t = 0" by (simp_all add: word_le_nat_alt)
  then have "unit \<noteq> 1" by auto
  with False assms(1) \<open>t = 0\<close> show ?thesis
    by (simp add: decode_message_def dec_PropertyTreeProtocol_def default_protocol_def
        default_message_def default_messages_def single_def)
qed

lemma unknown_is_signin_witness:
  "decode_message simple_cum [0, 9, 0, 200] = Inr (single 9 (SigninRequest \<lparr>SigninRequest_spare = 0\<rparr>))"
  by (rule unknown_is_signin [where unit = 0 and ?bs1.0 = "[9, 0, 200]" and ?bs2.0 = "[200]" and ?bs3.0 = "[]" and type = 200])
    (simp_all add: simple_cum_def get_int_def take_bytes_def)

end
