(* ===== verification/ServerState.thy ===== *)
theory ServerState
  imports Protocol
begin

text \<open>
  The state of the server: \<open>server/src/Node.hpp\<close> and the data members of \<open>ProtocolHandler\<close>
  (\<open>server/src/ProtocolHandler.hpp\<close>), with its constructor and the functions that read it.

  Nodes are shared: a node of the tree is owned by \<open>mTree\<close> and by the \<open>children\<close> of its parent,
  and refers to its parent by a \<open>weak_ptr\<close>. The model keeps the sharing: node objects live in a
  store (\<open>heap\<close>), pointers are references into it, and \<open>live\<close> says which objects have not been
  destroyed, which is what \<open>weak_ptr::lock\<close> asks. Connection objects belong to the server loop;
  here they are opaque identities.

  The invariant has three parts: \<open>tree_inv\<close> (the store is a tree whose edges agree in both
  directions and go from smaller to larger uuids), \<open>session_inv\<close> (the session tables agree with
  each other and with the nodes) and \<open>counters_below\<close> (no counter is about to wrap).
\<close>

section \<open>Data\<close>

type_synonym ref = nat
type_synonym conn = nat

record Node =
  node_name :: string
  node_sessionId :: u32
  node_parent :: "ref option"
  node_uuid :: u64
  node_data :: "u8 list"
  node_children :: "(string \<times> ref) list"
  node_listener :: "(u32 \<times> conn) list"

definition new_Node :: "string \<Rightarrow> u32 \<Rightarrow> ref option \<Rightarrow> u64 \<Rightarrow> Node" where
  "new_Node pName pSessionId pParent pUuid =
     \<lparr>node_name = pName, node_sessionId = pSessionId, node_parent = pParent, node_uuid = pUuid,
      node_data = [], node_children = [], node_listener = []\<rparr>"

text \<open>\<open>Session::connectionSession\<close> is a \<open>shared_ptr\<close>; \<open>None\<close> is the empty pointer.\<close>

record Session =
  connectionSession :: "conn option"

record ProtocolHandler =
  mSessions :: "(u32 \<times> Session) list"
  mConnectionToSessionId :: "(conn \<times> u32) list"
  mSessionIdCtr :: u32
  mTrIdCtr :: u32
  mTrIdTranslation :: "(u16 \<times> (u32 \<times> u16)) list"
  mTree :: "(u64 \<times> ref) list"
  mUuidCtr :: u32
  heap :: "ref \<Rightarrow> Node"
  live :: "ref \<Rightarrow> bool"
  nextRef :: ref

text \<open>What a handler does to the outside: sends, and the terminator given to the constructor.\<close>

datatype action = Send conn PropertyTreeProtocol | Terminate

section \<open>Construction and access\<close>

text \<open>\<open>ProtocolHandler::ProtocolHandler\<close>: the root takes the first uuid.\<close>

definition init_ProtocolHandler :: ProtocolHandler where
  "init_ProtocolHandler =
     \<lparr>mSessions = [], mConnectionToSessionId = [], mSessionIdCtr = 0, mTrIdCtr = 0,
      mTrIdTranslation = [], mTree = um_emplace 0 0 [], mUuidCtr = 1,
      heap = (\<lambda>_. new_Node [] 0xFFFFFFFF None 0), live = (\<lambda>r. r = 0), nextRef = 1\<rparr>"

text \<open>\<open>weak_ptr<Node>::lock\<close>\<close>

definition lock_node :: "ProtocolHandler \<Rightarrow> ref option \<Rightarrow> ref option" where
  "lock_node s w = (case w of None \<Rightarrow> None | Some r \<Rightarrow> if live s r then Some r else None)"

text \<open>A node is owned while \<open>mTree\<close> or the children of a node of the tree point to it.\<close>

definition owned :: "ProtocolHandler \<Rightarrow> ref \<Rightarrow> bool" where
  "owned s r \<longleftrightarrow> r \<in> snd ` set (mTree s) \<or>
     (\<exists>p\<in>snd ` set (mTree s). r \<in> snd ` set (node_children (heap s p)))"

text \<open>The end of the last local \<open>shared_ptr\<close> to a node.\<close>

definition release :: "ref \<Rightarrow> ProtocolHandler \<Rightarrow> ProtocolHandler" where
  "release r s = (if owned s r then s else s\<lparr>live := (live s)(r := False)\<rparr>)"

text \<open>
  \<open>weak_ptr<IConnectionSession>::lock\<close>. A connection object is kept alive by the sessions and by
  the owners outside the handler, \<open>held\<close>: the server's connection table, the reactor, and the
  connection whose message is being handled.
\<close>

definition lock_connection :: "conn list \<Rightarrow> (u32 \<times> Session) list \<Rightarrow> conn \<Rightarrow> conn option" where
  "lock_connection held ss c =
     (if c \<in> set held \<or> Some c \<in> (connectionSession \<circ> snd) ` set ss then Some c else None)"

text \<open>\<open>ProtocolHandler::send\<close>: an empty pointer is skipped.\<close>

definition send_to :: "PropertyTreeProtocol \<Rightarrow> conn option \<Rightarrow> action list" where
  "send_to pMsg pConnection = (case pConnection of None \<Rightarrow> [] | Some c \<Rightarrow> [Send c pMsg])"

text \<open>The loop \<open>for (auto& i : mSessions) send(...)\<close> that ends the handlers which change the tree.\<close>

definition broadcast :: "ProtocolHandler \<Rightarrow> PropertyTreeProtocol \<Rightarrow> action list" where
  "broadcast s m = concat (map (\<lambda>i. send_to m (connectionSession (snd i))) (mSessions s))"

lemma send_to_simps [simp]: "send_to m None = []" "send_to m (Some c) = [Send c m]"
  by (simp_all add: send_to_def)

lemma lock_node_simps [simp]:
  "lock_node s None = None"
  "lock_node s (Some r) = (if live s r then Some r else None)"
  by (simp_all add: lock_node_def)

section \<open>Invariant\<close>

abbreviation tree :: "ProtocolHandler \<Rightarrow> u64 \<Rightarrow> ref option" where
  "tree s \<equiv> map_of (mTree s)"

abbreviation child :: "ProtocolHandler \<Rightarrow> ref \<Rightarrow> string \<Rightarrow> ref option" where
  "child s r \<equiv> map_of (node_children (heap s r))"

abbreviation session :: "ProtocolHandler \<Rightarrow> u32 \<Rightarrow> Session option" where
  "session s \<equiv> map_of (mSessions s)"

abbreviation session_of :: "ProtocolHandler \<Rightarrow> conn \<Rightarrow> u32 option" where
  "session_of s \<equiv> map_of (mConnectionToSessionId s)"

text \<open>The entry of \<open>mTree\<close> for a node, its object and its uuid field agree.\<close>

definition nodes_ok :: "ProtocolHandler \<Rightarrow> bool" where
  "nodes_ok s \<longleftrightarrow> um_wf (mTree s) \<and>
     (\<forall>u r. tree s u = Some r \<longrightarrow> live s r \<and> r < nextRef s \<and> node_uuid (heap s r) = u \<and>
        unat u < unat (mUuidCtr s) \<and> om_wf (node_children (heap s r)) \<and>
        um_wf (node_listener (heap s r)))"

text \<open>The root is there and has no parent.\<close>

definition root_ok :: "ProtocolHandler \<Rightarrow> bool" where
  "root_ok s \<longleftrightarrow> (\<exists>r. tree s 0 = Some r \<and> node_parent (heap s r) = None \<and>
     node_sessionId (heap s r) = 0xFFFFFFFF)"

text \<open>Downward edges: a child is in the tree, knows its name and its parent, and is younger.\<close>

definition down_ok :: "ProtocolHandler \<Rightarrow> bool" where
  "down_ok s \<longleftrightarrow> (\<forall>u r n c. tree s u = Some r \<longrightarrow> child s r n = Some c \<longrightarrow>
     (\<exists>v. tree s v = Some c \<and> node_name (heap s c) = n \<and> node_parent (heap s c) = Some r \<and>
        unat u < unat v))"

text \<open>Upward edges: every node but the root is a child, under its own name, of its parent.\<close>

definition up_ok :: "ProtocolHandler \<Rightarrow> bool" where
  "up_ok s \<longleftrightarrow> (\<forall>u r. tree s u = Some r \<longrightarrow> u \<noteq> 0 \<longrightarrow>
     (\<exists>v p. node_parent (heap s r) = Some p \<and> tree s v = Some p \<and>
        child s p (node_name (heap s r)) = Some r))"

definition tree_inv :: "ProtocolHandler \<Rightarrow> bool" where
  "tree_inv s \<longleftrightarrow> nodes_ok s \<and> root_ok s \<and> down_ok s \<and> up_ok s"

text \<open>
  The session tables: session ids are below their counter, every signed-in connection is held by
  the session it maps to, and every session id the tree or the translation table mentions exists.
\<close>

definition tables_ok :: "ProtocolHandler \<Rightarrow> bool" where
  "tables_ok s \<longleftrightarrow> um_wf (mSessions s) \<and> um_wf (mConnectionToSessionId s) \<and>
     um_wf (mTrIdTranslation s) \<and>
     (\<forall>i. session s i \<noteq> None \<longrightarrow> unat i < unat (mSessionIdCtr s)) \<and>
     (\<forall>c i. session_of s c = Some i \<longrightarrow> session s i = Some \<lparr>connectionSession = Some c\<rparr>) \<and>
     (\<forall>t i o'. map_of (mTrIdTranslation s) t = Some (i, o') \<longrightarrow> session s i \<noteq> None)"

text \<open>
  A subscription belongs to a session which is either gone or is that of the subscribed connection.
\<close>

definition listener_ok :: "ProtocolHandler \<Rightarrow> u32 \<Rightarrow> conn \<Rightarrow> bool" where
  "listener_ok s i w \<longleftrightarrow>
     session s i = Some \<lparr>connectionSession = None\<rparr> \<or> session s i = Some \<lparr>connectionSession = Some w\<rparr>"

definition owners_ok :: "ProtocolHandler \<Rightarrow> bool" where
  "owners_ok s \<longleftrightarrow> (\<forall>u r. tree s u = Some r \<longrightarrow>
     (u \<noteq> 0 \<longrightarrow> session s (node_sessionId (heap s r)) \<noteq> None) \<and>
     (\<forall>i w. map_of (node_listener (heap s r)) i = Some w \<longrightarrow> listener_ok s i w))"

definition session_inv :: "ProtocolHandler \<Rightarrow> bool" where
  "session_inv s \<longleftrightarrow> tables_ok s \<and> owners_ok s"

text \<open>
  The counters of uuids and session ids are 32 bits wide and nothing in the code stops them from
  wrapping. \<open>counters_below k\<close> leaves room for \<open>k\<close> more messages.
\<close>

definition counters_below :: "nat \<Rightarrow> ProtocolHandler \<Rightarrow> bool" where
  "counters_below k s \<longleftrightarrow> unat (mUuidCtr s) + k < 2 ^ 32 \<and> unat (mSessionIdCtr s) + k < 2 ^ 32 \<and>
     0 < unat (mUuidCtr s)"

definition proto_inv :: "nat \<Rightarrow> ProtocolHandler \<Rightarrow> bool" where
  "proto_inv k s \<longleftrightarrow> tree_inv s \<and> session_inv s \<and> counters_below k s"

lemmas tree_inv_defs = nodes_ok_def root_ok_def down_ok_def up_ok_def
lemmas session_inv_defs = tables_ok_def owners_ok_def
lemmas proto_inv_defs = proto_inv_def tree_inv_def session_inv_def

section \<open>Consequences of the invariant\<close>

lemma tree_nodeD:
  assumes "tree_inv s" "tree s u = Some r"
  shows "live s r" "r < nextRef s" "node_uuid (heap s r) = u" "unat u < unat (mUuidCtr s)"
    "om_wf (node_children (heap s r))" "um_wf (node_listener (heap s r))"
  using assms by (auto simp: tree_inv_def nodes_ok_def)

lemma tree_inj:
  assumes "tree_inv s" "tree s u = Some r" "tree s v = Some r"
  shows "u = v"
  using tree_nodeD(3) [OF assms(1,2)] tree_nodeD(3) [OF assms(1,3)] by simp

lemma tree_childE:
  assumes "tree_inv s" "tree s u = Some r" "child s r n = Some c"
  obtains v where "tree s v = Some c" "node_name (heap s c) = n" "node_parent (heap s c) = Some r"
    "unat u < unat v"
  using assms unfolding tree_inv_def down_ok_def by blast

lemma tree_child_item:
  "tree_inv s \<Longrightarrow> tree s u = Some r \<Longrightarrow>
     child s r n = Some c \<longleftrightarrow> (n, c) \<in> set (node_children (heap s r))"
  using om.items_find [OF tree_nodeD(5)] by simp

lemma tree_parentE:
  assumes "tree_inv s" "tree s u = Some r" "u \<noteq> 0"
  obtains v p where "node_parent (heap s r) = Some p" "tree s v = Some p"
    "child s p (node_name (heap s r)) = Some r" "unat v < unat u"
proof -
  from assms obtain v p where p: "node_parent (heap s r) = Some p" "tree s v = Some p"
    "child s p (node_name (heap s r)) = Some r"
    unfolding tree_inv_def up_ok_def by blast
  moreover obtain u' where "tree s u' = Some r" "unat v < unat u'"
    using assms(1) p(2,3) by (rule tree_childE)
  ultimately show thesis
    using tree_inj [OF assms(1,2)] that by blast
qed

lemma tree_root:
  assumes "tree_inv s"
  obtains r where "tree s 0 = Some r" "node_parent (heap s r) = None"
    "node_sessionId (heap s r) = 0xFFFFFFFF"
  using assms by (auto simp: tree_inv_def root_ok_def)

lemma root_parent: "tree_inv s \<Longrightarrow> tree s 0 = Some r \<Longrightarrow> node_parent (heap s r) = None"
  by (auto simp: tree_inv_def root_ok_def)

lemma counters_below_mono: "counters_below k s \<Longrightarrow> j \<le> k \<Longrightarrow> counters_below j s"
  by (auto simp: counters_below_def)

lemma proto_inv_mono: "proto_inv k s \<Longrightarrow> j \<le> k \<Longrightarrow> proto_inv j s"
  by (auto simp: proto_inv_def counters_below_mono)

lemma session_of_held:
  "session_inv s \<Longrightarrow> session_of s c = Some i \<Longrightarrow> session s i = Some \<lparr>connectionSession = Some c\<rparr>"
  by (auto simp: session_inv_def tables_ok_def)

lemma no_root_session: "session_inv s \<Longrightarrow> counters_below k s \<Longrightarrow> session s 0xFFFFFFFF = None"
  by (cases "session s 0xFFFFFFFF") (auto simp: session_inv_def tables_ok_def counters_below_def)

lemma proto_inv_init: "k < 2 ^ 32 - 1 \<Longrightarrow> proto_inv k init_ProtocolHandler"
  by (simp add: proto_inv_defs tree_inv_defs session_inv_defs counters_below_def
      init_ProtocolHandler_def um_emplace_def um_wf_def new_Node_def om_wf_def)

end
