(* ===== verification/TreeFill.thy ===== *)
theory TreeFill
  imports ServerState
begin

text \<open>
  \<open>ProtocolHandler::fillToAddListFromTree\<close>: the loop that lists the nodes below a node, without
  recursion, on a stack of \<open>std::map\<close> iterators. An iterator into the children of a node is the
  suffix of the children it has still to visit; \<open>levels.back()\<close> is the head of the list.

  The loop is compared with \<open>descend\<close>, the recursive preorder. On a store that satisfies
  \<open>tree_inv\<close> the loop ends and the two agree, for any depth bound that is at least the number of
  uuids given out: uuids grow along the edges, so no path is longer.
\<close>

section \<open>The loop\<close>

type_synonym level = "ref \<times> (string \<times> ref) list"

definition named_node :: "(ref \<Rightarrow> Node) \<Rightarrow> ref \<Rightarrow> string \<times> ref \<Rightarrow> NamedNode" where
  "named_node h p e = \<lparr>NamedNode_name = fst e, NamedNode_uuid = node_uuid (h (snd e)),
     NamedNode_parentUuid = node_uuid (h p)\<rparr>"

partial_function (option) fill_loop ::
  "(ref \<Rightarrow> Node) \<Rightarrow> bool \<Rightarrow> level list \<Rightarrow> NamedNode list \<Rightarrow> NamedNode list option" where
  "fill_loop h pRecursive levels out =
     (case levels of
        [] \<Rightarrow> Some out
      | (p, current) # rest \<Rightarrow>
         (case current of
            [] \<Rightarrow> if rest = [] then Some out else fill_loop h pRecursive rest out
          | e # next \<Rightarrow>
              if node_children (h (snd e)) \<noteq> [] \<and> pRecursive
              then fill_loop h pRecursive
                     ((snd e, node_children (h (snd e))) # (p, next) # rest) (out @ [named_node h p e])
              else fill_loop h pRecursive ((p, next) # rest) (out @ [named_node h p e])))"

definition fillToAddListFromTree ::
  "(ref \<Rightarrow> Node) \<Rightarrow> NamedNode list \<Rightarrow> ref \<Rightarrow> bool \<Rightarrow> NamedNode list option" where
  "fillToAddListFromTree h out pNode pRecursive =
     fill_loop h pRecursive [(pNode, node_children (h pNode))] out"

section \<open>The recursive preorder\<close>

fun descend :: "nat \<Rightarrow> (ref \<Rightarrow> Node) \<Rightarrow> bool \<Rightarrow> ref \<Rightarrow> (string \<times> ref) list \<Rightarrow> NamedNode list" where
  "descend d h rc p [] = []"
| "descend d h rc p (e # es) =
     named_node h p e #
     (case d of 0 \<Rightarrow> [] | Suc d' \<Rightarrow>
        if rc then descend d' h rc (snd e) (node_children (h (snd e))) else []) @
     descend d h rc p es"

text \<open>How far the uuid of a node is from the counter bounds the length of the paths below it.\<close>

definition depth_left :: "ProtocolHandler \<Rightarrow> ref \<Rightarrow> nat" where
  "depth_left s r = unat (mUuidCtr s) - unat (node_uuid (heap s r))"

lemma fill_loop_Nil: "fill_loop h rc [(p, [])] out = Some out"
  by (subst fill_loop.simps) simp

lemma fill_loop_pop: "rest \<noteq> [] \<Longrightarrow> fill_loop h rc ((p, []) # rest) out = fill_loop h rc rest out"
  by (subst fill_loop.simps) simp

lemma fill_loop_visit:
  "fill_loop h rc ((p, e # es) # rest) out =
     (if node_children (h (snd e)) \<noteq> [] \<and> rc
      then fill_loop h rc ((snd e, node_children (h (snd e))) # (p, es) # rest) (out @ [named_node h p e])
      else fill_loop h rc ((p, es) # rest) (out @ [named_node h p e]))"
  by (subst fill_loop.simps) simp

text \<open>
  A set of references closed under taking children, with a rank that falls along the edges, is all
  the loop needs. \<open>fill_rest\<close> is what the loop returns once the top level is exhausted.
\<close>

fun fill_rest :: "(ref \<Rightarrow> Node) \<Rightarrow> bool \<Rightarrow> level list \<Rightarrow> NamedNode list \<Rightarrow> NamedNode list option" where
  "fill_rest h rc [] out = Some out"
| "fill_rest h rc (l # ls) out = fill_loop h rc (l # ls) out"

lemma fill_loop_top:
  "fill_loop h rc ((p, []) # rest) out = fill_rest h rc rest out"
  by (cases rest) (simp_all add: fill_loop_Nil fill_loop_pop)

lemma fill_loop_descend:
  assumes "\<And>r n c. r \<in> R \<Longrightarrow> (n, c) \<in> set (node_children (h r)) \<Longrightarrow> c \<in> R \<and> rank c < (rank r :: nat)"
    and "p \<in> R" "set es \<subseteq> set (node_children (h p))" "rank p \<le> Suc d"
  shows "fill_loop h rc ((p, es) # rest) out = fill_rest h rc rest (out @ descend d h rc p es)"
  using assms
proof (induction d h rc p es arbitrary: rest out rule: descend.induct)
  case (1 d h rc p)
  then show ?case by (simp add: fill_loop_top)
next
  case (2 d h rc p e es)
  let ?c = "snd e" and ?out = "out @ [named_node h p e]"
  have "(fst e, ?c) \<in> set (node_children (h p))"
    using "2.prems"(3) by simp
  with "2.prems"(1,2) have c: "?c \<in> R" "rank ?c < rank p"
    by blast+
  have tail: "fill_loop h rc ((p, es) # rest) out' = fill_rest h rc rest (out' @ descend d h rc p es)"
    for out'
    using "2.prems" by (intro "2.IH"(2)) auto
  show ?case
  proof (cases "node_children (h ?c) \<noteq> [] \<and> rc")
    case True
    then obtain n g where "(n, g) \<in> set (node_children (h ?c))"
      by (metis list.set_intros(1) neq_Nil_conv surj_pair)
    with "2.prems"(1) c have "rank g < rank ?c"
      by blast
    with c "2.prems"(4) obtain d' where d': "d = Suc d'" "rank ?c \<le> Suc d'"
      by (cases d) auto
    have desc: "descend d h rc p (e # es) =
        named_node h p e # descend d' h rc ?c (node_children (h ?c)) @ descend d h rc p es"
      using True d' by simp
    have "fill_loop h rc ((?c, node_children (h ?c)) # (p, es) # rest) ?out =
        fill_rest h rc ((p, es) # rest) (?out @ descend d' h rc ?c (node_children (h ?c)))"
      using True d' c "2.prems"(1) by (intro "2.IH"(1)) auto
    then show ?thesis
      by (subst fill_loop_visit, subst if_P [OF True]) (simp add: tail desc del: descend.simps)
  next
    case False
    then show ?thesis
      by (cases d) (auto simp add: fill_loop_visit tail)
  qed
qed

lemma tree_children_rank:
  assumes inv: "tree_inv s" and r: "tree s u = Some r" and e: "(n, c) \<in> set (node_children (heap s r))"
  shows "c \<in> ran (tree s)" "depth_left s c < depth_left s r"
proof -
  have "child s r n = Some c"
    using om.items_find [OF tree_nodeD(5) [OF inv r]] e by simp
  with inv r obtain v where v: "tree s v = Some c" "unat u < unat v"
    by (rule tree_childE)
  with tree_nodeD [OF inv r] tree_nodeD [OF inv v(1)]
  show "c \<in> ran (tree s)" "depth_left s c < depth_left s r"
    by (auto simp: depth_left_def ran_def)
qed

lemma fill_descend:
  assumes "tree_inv s" and r: "tree s u = Some r"
  shows "fillToAddListFromTree (heap s) out r rc =
    Some (out @ descend (unat (mUuidCtr s)) (heap s) rc r (node_children (heap s r)))"
proof -
  have "fill_loop (heap s) rc [(r, node_children (heap s r))] out =
    fill_rest (heap s) rc [] (out @ descend (unat (mUuidCtr s)) (heap s) rc r (node_children (heap s r)))"
  proof (rule fill_loop_descend [where R = "ran (tree s)" and rank = "depth_left s"])
    show "c \<in> ran (tree s) \<and> depth_left s c < depth_left s r"
      if "r \<in> ran (tree s)" "(n, c) \<in> set (node_children (heap s r))" for r n c
      using that tree_children_rank [OF assms(1)] by (auto simp: ran_def)
  qed (use r in \<open>auto simp: ran_def depth_left_def\<close>)
  then show ?thesis
    by (simp add: fillToAddListFromTree_def)
qed

section \<open>What is listed\<close>

text \<open>\<open>below s r\<close>: the nodes reached from \<open>r\<close> by one or more edges.\<close>

inductive below :: "ProtocolHandler \<Rightarrow> ref \<Rightarrow> ref \<Rightarrow> bool" for s where
  below_child: "child s r n = Some c \<Longrightarrow> below s r c"
| below_step: "child s r n = Some c \<Longrightarrow> below s c d \<Longrightarrow> below s r d"

text \<open>The entry for a node, in terms of the node alone.\<close>

definition entry_of :: "ProtocolHandler \<Rightarrow> ref \<Rightarrow> NamedNode" where
  "entry_of s r = \<lparr>NamedNode_name = node_name (heap s r), NamedNode_uuid = node_uuid (heap s r),
     NamedNode_parentUuid = (case node_parent (heap s r) of None \<Rightarrow> 0 | Some p \<Rightarrow> node_uuid (heap s p))\<rparr>"

lemma named_node_entry:
  assumes "tree_inv s" "tree s u = Some r" "child s r n = Some c"
  shows "named_node (heap s) r (n, c) = entry_of s c"
  using assms by (auto elim!: tree_childE simp: named_node_def entry_of_def)

lemma below_unfold:
  "below s r d \<longleftrightarrow> (\<exists>n c. child s r n = Some c \<and> (d = c \<or> below s c d))"
  by (subst below.simps) blast

lemma below_in_tree:
  assumes "below s r d" "tree_inv s" "tree s u = Some r"
  shows "d \<in> ran (tree s) \<and> depth_left s d < depth_left s r"
  using assms
proof (induction arbitrary: u rule: below.induct)
  case (below_child r n c)
  then show ?case
    by (auto simp: tree_child_item dest: tree_children_rank)
next
  case (below_step r n c d)
  have "(n, c) \<in> set (node_children (heap s r))"
    using tree_child_item [OF below_step.prems] below_step.hyps(1) by simp
  with below_step.prems have c: "c \<in> ran (tree s)" "depth_left s c < depth_left s r"
    by (auto dest: tree_children_rank)
  then obtain v where "tree s v = Some c" by (auto simp: ran_def)
  with below_step.IH below_step.prems(1) c(2) show ?case by fastforce
qed

definition subtree :: "ProtocolHandler \<Rightarrow> ref \<Rightarrow> ref set" where
  "subtree s c = insert c {d. below s c d}"

lemma subtree_children:
  assumes "tree_inv s" "tree s u = Some r"
  shows "{d. below s r d} = (\<Union>e\<in>set (node_children (heap s r)). subtree s (snd e))"
proof -
  have "child s r n = Some c \<longleftrightarrow> (n, c) \<in> set (node_children (heap s r))" for n c
    using tree_child_item [OF assms] by simp
  then show ?thesis
    by (subst below_unfold) (force simp: subtree_def)
qed

lemma set_descend:
  assumes "tree_inv s" "tree s u = Some p" "set es \<subseteq> set (node_children (heap s p))"
    "depth_left s p \<le> Suc d"
  shows "set (descend d (heap s) True p es) = entry_of s ` (\<Union>e\<in>set es. subtree s (snd e))"
  using assms(2-)
proof (induction d "heap s" True p es arbitrary: u rule: descend.induct)
  case (2 d p e es)
  obtain n c where e: "e = (n, c)" by fastforce
  have mem: "(n, c) \<in> set (node_children (heap s p))"
    using "2.prems"(2) e by simp
  then have ch: "child s p n = Some c"
    using tree_child_item [OF assms(1) "2.prems"(1)] by simp
  from tree_children_rank [OF assms(1) "2.prems"(1) mem]
  obtain v where v: "tree s v = Some c" and lt: "depth_left s c < depth_left s p"
    by (auto simp: ran_def)
  have head: "named_node (heap s) p e = entry_of s c"
    unfolding e by (rule named_node_entry [OF assms(1) "2.prems"(1) ch])
  have tail: "set (descend d (heap s) True p es) = entry_of s ` (\<Union>e\<in>set es. subtree s (snd e))"
    using "2.hyps"(2) "2.prems" by simp
  have "set (case d of 0 \<Rightarrow> [] | Suc d' \<Rightarrow> descend d' (heap s) True c (node_children (heap s c))) =
      entry_of s ` {x. below s c x}"
  proof (cases d)
    case 0
    with lt "2.prems"(3) have "depth_left s c = 0" by simp
    moreover have "depth_left s x < depth_left s c" if "below s c x" for x
      using below_in_tree [OF that assms(1) v] by simp
    ultimately show ?thesis using 0 by auto
  next
    case (Suc d')
    with lt "2.prems"(3) v e have "set (descend d' (heap s) True c (node_children (heap s c))) =
        entry_of s ` (\<Union>e\<in>set (node_children (heap s c)). subtree s (snd e))"
      using "2.hyps"(1) [of d' v] by simp
    with Suc show ?thesis
      by (simp add: subtree_children [OF assms(1) v])
  qed
  with head tail e show ?case
    by (auto simp: subtree_def image_Un cong: nat.case_cong)
qed simp

lemma set_descend_flat: "set (descend d h False p es) = named_node h p ` set es"
  by (induction d h False p es rule: descend.induct) (auto split: nat.splits)

text \<open>Siblings have disjoint subtrees, since a node has one parent.\<close>

lemma below_parent:
  assumes "below s r d" "tree_inv s" "tree s u = Some r"
  shows "\<exists>q. node_parent (heap s d) = Some q \<and> q \<in> subtree s r"
  using assms
proof (induction arbitrary: u rule: below.induct)
  case (below_child r n c)
  then show ?case by (auto simp: subtree_def elim!: tree_childE)
next
  case (below_step r n c d)
  from tree_childE [OF below_step.prems below_step.hyps(1)] obtain v where "tree s v = Some c"
    by blast
  from below_step.IH [OF below_step.prems(1) this] show ?case
    using below_step.hyps(1) by (auto simp: subtree_def intro: below.intros)
qed

lemma subtree_rank:
  assumes "x \<in> subtree s r" "tree_inv s" "tree s u = Some r"
  shows "x \<in> ran (tree s) \<and> depth_left s x \<le> depth_left s r"
  using assms below_in_tree [of s r x u] by (auto simp: subtree_def ran_def)

lemma siblings_disjoint:
  assumes inv: "tree_inv s" and p: "tree s u = Some p"
    and c: "child s p n = Some c" and c': "child s p n' = Some c'"
    and x: "x \<in> subtree s c" "x \<in> subtree s c'"
  shows "c = c'"
proof -
  from tree_childE [OF inv p c] obtain v where v: "tree s v = Some c" "node_parent (heap s c) = Some p"
    by blast
  from tree_childE [OF inv p c'] obtain v' where v': "tree s v' = Some c'" "node_parent (heap s c') = Some p"
    by blast
  have lt: "depth_left s c < depth_left s p" "depth_left s c' < depth_left s p"
    using below_in_tree [OF below_child inv p] c c' by blast+
  have not_below: "\<not> below s c c'" "\<not> below s c' c"
    using below_parent [OF _ inv v(1), of c'] below_parent [OF _ inv v'(1), of c]
      subtree_rank [OF _ inv v(1), of p] subtree_rank [OF _ inv v'(1), of p] v v' lt
    by fastforce+
  from x show ?thesis
  proof (induction "unat (mUuidCtr s) - depth_left s x" arbitrary: x rule: less_induct)
    case less
    show ?case
    proof (cases "x = c \<or> x = c'")
      case True
      with less.prems not_below show ?thesis by (auto simp: subtree_def)
    next
      case False
      with less.prems have b: "below s c x" "below s c' x" by (auto simp: subtree_def)
      from below_parent [OF b(1) inv v(1)] below_parent [OF b(2) inv v'(1)]
      obtain q where q: "node_parent (heap s x) = Some q" "q \<in> subtree s c" "q \<in> subtree s c'"
        by auto
      from below_in_tree [OF b(1) inv v(1)] obtain w where w: "tree s w = Some x"
        by (auto simp: ran_def)
      obtain root where "tree s 0 = Some root" "node_parent (heap s root) = None"
        using inv by (rule tree_root)
      with w q(1) have "w \<noteq> 0" by auto
      from tree_parentE [OF inv w this] obtain z p' where
        "node_parent (heap s x) = Some p'" "tree s z = Some p'" "unat z < unat w" .
      with q(1) have z: "tree s z = Some q" "unat z < unat w" by simp_all
      have "depth_left s x < depth_left s q" "depth_left s q \<le> unat (mUuidCtr s)"
        using z tree_nodeD(3,4) [OF inv w] tree_nodeD(3) [OF inv z(1)] by (simp_all add: depth_left_def)
      then show ?thesis
        using less.hyps [of q] q by simp
    qed
  qed
qed

text \<open>Each node is listed once, and after its parent.\<close>

fun parents_first :: "u64 set \<Rightarrow> NamedNode list \<Rightarrow> bool" where
  "parents_first K [] = True"
| "parents_first K (e # es) =
     (NamedNode_parentUuid e \<in> K \<and> parents_first (insert (NamedNode_uuid e) K) es)"

lemma parents_first_mono: "parents_first K es \<Longrightarrow> K \<subseteq> K' \<Longrightarrow> parents_first K' es"
  by (induction K es arbitrary: K' rule: parents_first.induct) auto

lemma parents_first_append:
  "parents_first K (xs @ ys) \<longleftrightarrow>
     parents_first K xs \<and> parents_first (K \<union> NamedNode_uuid ` set xs) ys"
  by (induction xs arbitrary: K) auto

lemma descend_parents_first: "node_uuid (h p) \<in> K \<Longrightarrow> parents_first K (descend d h rc p es)"
  by (induction d h rc p es arbitrary: K rule: descend.induct)
    (auto simp: parents_first_append named_node_def intro: parents_first_mono split: nat.splits)

lemma entry_of_uuid [simp]: "NamedNode_uuid (entry_of s c) = node_uuid (heap s c)"
  by (simp add: entry_of_def)

lemma uuid_inj: "tree_inv s \<Longrightarrow> inj_on (\<lambda>r. node_uuid (heap s r)) (ran (tree s))"
  by (auto simp: inj_on_def ran_def dest: tree_nodeD(3)) (metis option.sel tree_nodeD(3))

lemma set_descend_uuids:
  assumes "tree_inv s" "tree s u = Some p" "set es \<subseteq> set (node_children (heap s p))"
    "depth_left s p \<le> Suc d"
  shows "NamedNode_uuid ` set (descend d (heap s) rc p es) \<subseteq>
    (\<lambda>r. node_uuid (heap s r)) ` (\<Union>e\<in>set es. subtree s (snd e))"
proof (cases rc)
  case True
  with set_descend [OF assms] show ?thesis by (auto simp: image_iff)
next
  case False
  then show ?thesis
    by (force simp: set_descend_flat named_node_def subtree_def)
qed

lemma descend_distinct:
  assumes "tree_inv s" "tree s u = Some p" "set es \<subseteq> set (node_children (heap s p))"
    "om_wf es" "depth_left s p \<le> Suc d"
  shows "distinct (map NamedNode_uuid (descend d (heap s) rc p es))"
  using assms(2-)
proof (induction d "heap s" rc p es arbitrary: u rule: descend.induct)
  case (2 d rc p e es)
  obtain n c where e: "e = (n, c)" by fastforce
  have mem: "(n, c) \<in> set (node_children (heap s p))"
    using "2.prems"(2) e by simp
  from tree_children_rank [OF assms(1) "2.prems"(1) mem]
  obtain v where v: "tree s v = Some c" and lt: "depth_left s c < depth_left s p"
    by (auto simp: ran_def)
  let ?sub = "case d of 0 \<Rightarrow> [] | Suc d' \<Rightarrow>
     if rc then descend d' (heap s) rc c (node_children (heap s c)) else []"
  let ?tl = "descend d (heap s) rc p es" and ?U = "\<lambda>r. node_uuid (heap s r)"
  have sub: "distinct (map NamedNode_uuid ?sub) \<and> NamedNode_uuid ` set ?sub \<subseteq> ?U ` {x. below s c x}"
  proof (cases "d = 0 \<or> \<not> rc")
    case False
    then obtain d' where d': "d = Suc d'" and rc: rc by (cases d) auto
    with lt "2.prems" have le: "depth_left s c \<le> Suc d'" by simp
    have "distinct (map NamedNode_uuid (descend d' (heap s) rc c (node_children (heap s c))))"
      using "2.hyps"(1) [OF d' rc, of v] e v le tree_nodeD(5) [OF assms(1) v] by simp
    moreover have "NamedNode_uuid ` set (descend d' (heap s) rc c (node_children (heap s c))) \<subseteq>
        ?U ` {x. below s c x}"
      using set_descend_uuids [OF assms(1) v subset_refl le, of rc]
      by (simp add: subtree_children [OF assms(1) v])
    ultimately show ?thesis using d' rc by simp
  qed (auto split: nat.splits)
  have tl: "distinct (map NamedNode_uuid ?tl)"
    using "2.hyps"(2) [of u] "2.prems" by (simp add: om_wf_Cons)
  have tlU: "NamedNode_uuid ` set ?tl \<subseteq> ?U ` (\<Union>e\<in>set es. subtree s (snd e))"
    using set_descend_uuids [OF assms(1) "2.prems"(1), of es d rc] "2.prems" by simp
  have disj: "subtree s c \<inter> (\<Union>e\<in>set es. subtree s (snd e)) = {}"
  proof (rule ccontr)
    assume "\<not> ?thesis"
    then obtain x m g where x: "x \<in> subtree s c" "x \<in> subtree s g" and g: "(m, g) \<in> set es" by auto
    have gp: "(m, g) \<in> set (node_children (heap s p))" using g "2.prems"(2) by auto
    note ch = mem [folded tree_child_item [OF assms(1) "2.prems"(1)]]
      gp [folded tree_child_item [OF assms(1) "2.prems"(1)]]
    from siblings_disjoint [OF assms(1) "2.prems"(1) ch x] ch have "n = m"
      using tree_childE [OF assms(1) "2.prems"(1)] by metis
    with g e "2.prems"(3) show False by (auto simp: om_wf_Cons)
  qed
  have "subtree s c \<union> (\<Union>e\<in>set es. subtree s (snd e)) \<subseteq> ran (tree s)"
  proof -
    have "subtree s g \<subseteq> ran (tree s)" if "(m, g) \<in> set (e # es)" for m g
      using that "2.prems"(2) tree_children_rank(1) [OF assms(1) "2.prems"(1), of m g]
        subtree_rank [OF _ assms(1)] by (fastforce simp: ran_def)
    then show ?thesis using e by fastforce
  qed
  then have "?U ` (subtree s c \<inter> (\<Union>e\<in>set es. subtree s (snd e))) =
      ?U ` subtree s c \<inter> ?U ` (\<Union>e\<in>set es. subtree s (snd e))"
    by (intro inj_on_image_Int [OF uuid_inj [OF assms(1)]]) simp_all
  then have "?U ` subtree s c \<inter> ?U ` (\<Union>e\<in>set es. subtree s (snd e)) = {}"
    unfolding disj by simp
  moreover have "?U c \<notin> ?U ` {x. below s c x}"
    using below_in_tree [of s c _ v] assms(1) v by (fastforce simp: depth_left_def)
  moreover have "?U ` subtree s c = insert (?U c) (?U ` {x. below s c x})"
    by (simp add: subtree_def)
  ultimately have "?U c \<notin> NamedNode_uuid ` set ?sub \<and> ?U c \<notin> NamedNode_uuid ` set ?tl \<and>
      NamedNode_uuid ` set ?sub \<inter> NamedNode_uuid ` set ?tl = {}"
    by (rule fresh_head_disjoint) (rule conjunct2 [OF sub], rule tlU)
  then have "distinct (?U c # map NamedNode_uuid ?sub @ map NamedNode_uuid ?tl)"
    using conjunct1 [OF sub] tl by (simp only: distinct.simps distinct_append set_append set_map Un_iff simp_thms)
  moreover have "map NamedNode_uuid (descend d (heap s) rc p (e # es)) =
      ?U c # map NamedNode_uuid ?sub @ map NamedNode_uuid ?tl"
    by (cases d) (simp_all add: e named_node_def)
  ultimately show ?case by (simp only:)
qed simp

end
