(* ===== verification/Handlers.thy ===== *)
theory Handlers
  imports TreeFill
begin

text \<open>
  The message handlers of \<open>server/src/ProtocolHandler.cpp\<close>, one definition per C++ overload of
  \<open>handle\<close>, in the order of the source. A handler takes the transaction id, the message, the
  connection it came from and the state, and returns the state and the list of what it does to the
  outside. Handlers that can go wrong return a \<open>fault\<close> instead. Messages are sent as values of
  \<open>PropertyTreeProtocol\<close>; their encoding is the business of the theory Codec.
\<close>

section \<open>Sessions\<close>

text \<open>\<open>SigninAccept{}\<close> is sent as it is value-initialised: the session id is not filled in.\<close>

definition handle_SigninRequest ::
  "u16 \<Rightarrow> SigninRequest \<Rightarrow> conn \<Rightarrow> ProtocolHandler \<Rightarrow> ProtocolHandler \<times> action list" where
  "handle_SigninRequest pTransactionId pMsg pConnection s =
     (let sessionId = mSessionIdCtr s;
          s' = s\<lparr>mSessionIdCtr := mSessionIdCtr s + 1,
                 mSessions := um_emplace sessionId \<lparr>connectionSession = Some pConnection\<rparr> (mSessions s),
                 mConnectionToSessionId :=
                   um_emplace pConnection sessionId (mConnectionToSessionId s)\<rparr>
      in (s', send_to (single pTransactionId (SigninAccept \<lparr>SigninAccept_sessionId = 0\<rparr>))
                (Some pConnection)))"

text \<open>\<open>ProtocolHandler::onDisconnect\<close> keeps the session, without its connection.\<close>

definition onDisconnect :: "conn \<Rightarrow> ProtocolHandler \<Rightarrow> fault + ProtocolHandler" where
  "onDisconnect pConnection s =
     (case map_of (mConnectionToSessionId s) pConnection of
        None \<Rightarrow> Inr s
      | Some sessionId \<Rightarrow>
          (let s' = s\<lparr>mConnectionToSessionId := um_erase pConnection (mConnectionToSessionId s)\<rparr>
           in case map_of (mSessions s') sessionId of
                None \<Rightarrow> Inl EndDeref
              | Some ses \<Rightarrow> Inr (s'\<lparr>mSessions :=
                  um_assign sessionId (ses\<lparr>connectionSession := None\<rparr>) (mSessions s')\<rparr>)))"

section \<open>The tree\<close>

definition handle_CreateRequest ::
  "u16 \<Rightarrow> CreateRequest \<Rightarrow> conn \<Rightarrow> ProtocolHandler \<Rightarrow> ProtocolHandler \<times> action list" where
  "handle_CreateRequest pTransactionId pMsg pConnection s =
     (let reject = (\<lambda>c. send_to (single pTransactionId (CreateReject \<lparr>CreateReject_cause = c\<rparr>))
                      (Some pConnection))
      in case map_of (mTree s) (CreateRequest_parentUuid pMsg) of
           None \<Rightarrow> (s, reject NOT_FOUND)
         | Some node \<Rightarrow>
             (case map_of (mConnectionToSessionId s) pConnection of
                None \<Rightarrow> (s, [])
              | Some sessionId \<Rightarrow>
                  (let name = CreateRequest_name pMsg;
                       insertedNode = nextRef s;
                       parentObj = heap s node
                   in if name \<in> fst ` set (node_children parentObj)
                      then (s, reject ALREADY_EXIST)
                      else
                        (let uuid = ucast (mUuidCtr s);
                             obj = new_Node name sessionId (Some node) uuid;
                             s' = s\<lparr>mUuidCtr := mUuidCtr s + 1,
                                    nextRef := nextRef s + 1,
                                    live := (live s)(insertedNode := True),
                                    heap := (heap s)
                                      (node := parentObj\<lparr>node_children :=
                                         om_emplace name insertedNode (node_children parentObj)\<rparr>,
                                       insertedNode := obj),
                                    mTree := um_emplace uuid insertedNode (mTree s)\<rparr>;
                             added = \<lparr>NamedNode_name = name,
                                      NamedNode_uuid = node_uuid (heap s' insertedNode),
                                      NamedNode_parentUuid = node_uuid (heap s' node)\<rparr>
                         in (s', send_to (single pTransactionId
                                   (CreateAccept \<lparr>CreateAccept_uuid = uuid\<rparr>)) (Some pConnection) @
                                 broadcast s' (single notification_id (TreeUpdateNotification
                                   \<lparr>TreeUpdateNotification_nodeToAddList = [added],
                                    TreeUpdateNotification_nodeToDelete = []\<rparr>)))))))"

definition handle_TreeInfoRequest ::
  "u16 \<Rightarrow> TreeInfoRequest \<Rightarrow> conn \<Rightarrow> ProtocolHandler \<Rightarrow> fault + (ProtocolHandler \<times> action list)" where
  "handle_TreeInfoRequest pTransactionId pMsg pConnection s =
     (let reject = send_to (single pTransactionId (TreeInfoErrorResponse
                      \<lparr>TreeInfoErrorResponse_cause = NOT_FOUND\<rparr>)) (Some pConnection);
          name = TreeInfoRequest_name pMsg
      in case map_of (mTree s) (TreeInfoRequest_parentUuid pMsg) of
           None \<Rightarrow> Inr (s, reject)
         | Some parentNode \<Rightarrow>
             (case (if name = ''.'' then Some parentNode
                    else map_of (node_children (heap s parentNode)) name) of
                None \<Rightarrow> Inr (s, reject)
              | Some node \<Rightarrow>
                  (let nodeToAddList =
                     (if name \<noteq> ''.''
                      then [\<lparr>NamedNode_name = name, NamedNode_uuid = node_uuid (heap s node),
                             NamedNode_parentUuid = node_uuid (heap s parentNode)\<rparr>]
                      else [])
                   in case fillToAddListFromTree (heap s) nodeToAddList node
                             (TreeInfoRequest_recursive pMsg \<noteq> 0) of
                        None \<Rightarrow> Inl Diverges
                      | Some l \<Rightarrow> Inr (s, send_to (single pTransactionId (TreeInfoResponse
                          \<lparr>TreeInfoResponse_nodeToAddList = l\<rparr>)) (Some pConnection)))))"

text \<open>
  After \<open>mTree.erase\<close> the local \<open>node\<close> is the last owner of the object (\<open>release\<close>). The parent
  pointer is used without a test.
\<close>

definition handle_DeleteRequest ::
  "u16 \<Rightarrow> DeleteRequest \<Rightarrow> conn \<Rightarrow> ProtocolHandler \<Rightarrow> fault + (ProtocolHandler \<times> action list)" where
  "handle_DeleteRequest pTransactionId pMsg pConnection s =
     (let response = (\<lambda>c. send_to (single pTransactionId (DeleteResponse \<lparr>DeleteResponse_cause = c\<rparr>))
                        (Some pConnection));
          uuid = DeleteRequest_uuid pMsg
      in case map_of (mTree s) uuid of
           None \<Rightarrow> Inr (s, response NOT_FOUND)
         | Some node \<Rightarrow>
             if node_children (heap s node) \<noteq> [] then Inr (s, response NOT_EMPTY)
             else
               (let name = node_name (heap s node);
                    s1 = s\<lparr>mTree := um_erase uuid (mTree s)\<rparr>
                in case lock_node s (node_parent (heap s node)) of
                     None \<Rightarrow> Inl NullDeref
                   | Some parentNode \<Rightarrow>
                       (let s2 = s1\<lparr>heap := (heap s1)(parentNode := (heap s1 parentNode)
                                     \<lparr>node_children := om_erase name (node_children (heap s1 parentNode))\<rparr>)\<rparr>;
                            s3 = release node s2
                        in Inr (s3, response OK @
                             broadcast s2 (single notification_id (TreeUpdateNotification
                               \<lparr>TreeUpdateNotification_nodeToAddList = [],
                                TreeUpdateNotification_nodeToDelete = [uuid]\<rparr>))))))"

section \<open>Values\<close>

text \<open>
  The loop over the listeners of a node. A listener whose connection is gone is tried again through
  its session, and its entry is refreshed where the session has a connection.
\<close>

fun notify_listeners ::
  "conn list \<Rightarrow> (u32 \<times> Session) list \<Rightarrow> PropertyTreeProtocol \<Rightarrow> (u32 \<times> conn) list \<Rightarrow>
     (u32 \<times> conn) list \<times> action list" where
  "notify_listeners held ss m [] = ([], [])"
| "notify_listeners held ss m ((i, w) # ls) =
     (let (ls', out) = notify_listeners held ss m ls
      in case lock_connection held ss w of
           Some c \<Rightarrow> ((i, w) # ls', Send c m # out)
         | None \<Rightarrow>
             (case map_of ss i of
                None \<Rightarrow> ((i, w) # ls', out)
              | Some ses \<Rightarrow>
                  (case connectionSession ses of
                     None \<Rightarrow> ((i, w) # ls', out)
                   | Some c \<Rightarrow> ((i, c) # ls', Send c m # out))))"

definition terminate_value :: "u8 list \<Rightarrow> bool" where
  "terminate_value d \<longleftrightarrow> length d = 4 \<and> le_nat d = 9"

definition handle_SetValueRequest ::
  "conn list \<Rightarrow> u16 \<Rightarrow> SetValueRequest \<Rightarrow> conn \<Rightarrow> ProtocolHandler \<Rightarrow> ProtocolHandler \<times> action list" where
  "handle_SetValueRequest held pTransactionId pMsg pConnection s =
     (if SetValueRequest_uuid pMsg = 0 \<and> terminate_value (SetValueRequest_data pMsg)
      then (s, [Terminate])
      else case map_of (mTree s) (SetValueRequest_uuid pMsg) of
             None \<Rightarrow> (s, [])
           | Some node \<Rightarrow>
               (let obj = (heap s node)\<lparr>node_data := SetValueRequest_data pMsg\<rparr>;
                    notification = single notification_id (UpdateNotification
                      \<lparr>UpdateNotification_uuid = node_uuid obj, UpdateNotification_data = node_data obj\<rparr>);
                    (ls, out) = notify_listeners (pConnection # held) (mSessions s) notification
                                  (node_listener obj)
                in (s\<lparr>heap := (heap s)(node := obj\<lparr>node_listener := ls\<rparr>)\<rparr>,
                    send_to (single pTransactionId (SetValueAccept \<lparr>SetValueAccept_spare = 0\<rparr>))
                      (Some pConnection) @ out)))"

definition handle_GetRequest ::
  "u16 \<Rightarrow> GetRequest \<Rightarrow> conn \<Rightarrow> ProtocolHandler \<Rightarrow> ProtocolHandler \<times> action list" where
  "handle_GetRequest pTransactionId pMsg pConnection s =
     (case map_of (mTree s) (GetRequest_uuid pMsg) of
        None \<Rightarrow> (s, send_to (single pTransactionId (GetReject \<lparr>GetReject_cause = NOT_FOUND\<rparr>))
                     (Some pConnection))
      | Some node \<Rightarrow> (s, send_to (single pTransactionId (GetAccept
                     \<lparr>GetAccept_data = node_data (heap s node)\<rparr>)) (Some pConnection)))"

section \<open>Subscriptions\<close>

definition handle_SubscribeRequest ::
  "u16 \<Rightarrow> SubscribeRequest \<Rightarrow> conn \<Rightarrow> ProtocolHandler \<Rightarrow> ProtocolHandler \<times> action list" where
  "handle_SubscribeRequest pTransactionId pMsg pConnection s =
     (let response = (\<lambda>c. send_to (single pTransactionId
                        (SubscribeResponse \<lparr>SubscribeResponse_cause = c\<rparr>)) (Some pConnection))
      in case map_of (mTree s) (SubscribeRequest_uuid pMsg) of
           None \<Rightarrow> (s, response NOT_FOUND)
         | Some node \<Rightarrow>
             (case map_of (mConnectionToSessionId s) pConnection of
                None \<Rightarrow> (s, [])
              | Some sessionId \<Rightarrow>
                  (s\<lparr>heap := (heap s)(node := (heap s node)\<lparr>node_listener :=
                       um_assign sessionId pConnection (node_listener (heap s node))\<rparr>)\<rparr>,
                   response OK)))"

definition handle_UnsubscribeRequest ::
  "u16 \<Rightarrow> UnsubscribeRequest \<Rightarrow> conn \<Rightarrow> ProtocolHandler \<Rightarrow> ProtocolHandler \<times> action list" where
  "handle_UnsubscribeRequest pTransactionId pMsg pConnection s =
     (let response = (\<lambda>c. send_to (single pTransactionId
                        (UnsubscribeResponse \<lparr>UnsubscribeResponse_cause = c\<rparr>)) (Some pConnection))
      in case map_of (mTree s) (UnsubscribeRequest_uuid pMsg) of
           None \<Rightarrow> (s, response NOT_FOUND)
         | Some node \<Rightarrow>
             (case map_of (mConnectionToSessionId s) pConnection of
                None \<Rightarrow> (s, [])
              | Some sessionId \<Rightarrow>
                  (case map_of (node_listener (heap s node)) sessionId of
                     None \<Rightarrow> (s, response NOT_FOUND)
                   | Some _ \<Rightarrow>
                       (s\<lparr>heap := (heap s)(node := (heap s node)\<lparr>node_listener :=
                            um_erase sessionId (node_listener (heap s node))\<rparr>)\<rparr>,
                        response OK))))"

section \<open>Remote procedure calls\<close>

text \<open>
  The server forwards a call to the owner of the node under a transaction id of its own, and
  remembers under that id whom to answer. \<open>mSessions.find(sessionId)->second\<close> is used without a
  test. \<open>mTrIdCtr\<close> is 32 bits wide, the ids on the wire and in the table 16.
\<close>

definition handle_RpcRequest ::
  "u16 \<Rightarrow> RpcRequest \<Rightarrow> conn \<Rightarrow> ProtocolHandler \<Rightarrow> fault + (ProtocolHandler \<times> action list)" where
  "handle_RpcRequest pTransactionId pMsg pConnection s =
     (case map_of (mTree s) (RpcRequest_uuid pMsg) of
        None \<Rightarrow> Inr (s, send_to (single pTransactionId (RpcReject \<lparr>RpcReject_cause = NOT_FOUND\<rparr>))
                     (Some pConnection))
      | Some node \<Rightarrow>
          (case map_of (mConnectionToSessionId s) pConnection of
             None \<Rightarrow> Inr (s, [])
           | Some sourceSessionId \<Rightarrow>
               (case map_of (mSessions s) (node_sessionId (heap s node)) of
                  None \<Rightarrow> Inl EndDeref
                | Some ses \<Rightarrow>
                    (case connectionSession ses of
                       None \<Rightarrow> Inr (s, [])
                     | Some targetConnection \<Rightarrow>
                         (let trId = ucast (mTrIdCtr s) :: u16;
                              s' = s\<lparr>mTrIdCtr := mTrIdCtr s + 1,
                                     mTrIdTranslation := um_assign trId (sourceSessionId, pTransactionId)
                                       (mTrIdTranslation s)\<rparr>
                          in Inr (s', send_to (single trId (RpcRequest pMsg)) (Some targetConnection)))))))"

text \<open>\<open>handleRpc<T>\<close>, for an \<open>RpcAccept\<close> or an \<open>RpcReject\<close> coming back.\<close>

definition handleRpc ::
  "u16 \<Rightarrow> PropertyTreeMessages \<Rightarrow> conn \<Rightarrow> ProtocolHandler \<Rightarrow> ProtocolHandler \<times> action list" where
  "handleRpc pTransactionId pMsg pConnection s =
     (case map_of (mTrIdTranslation s) pTransactionId of
        None \<Rightarrow> (s, [])
      | Some translation \<Rightarrow>
          (let s' = s\<lparr>mTrIdTranslation := um_erase pTransactionId (mTrIdTranslation s)\<rparr>
           in case map_of (mSessions s') (fst translation) of
                None \<Rightarrow> (s', [])
              | Some targetSession \<Rightarrow>
                  (s', send_to (single (snd translation) pMsg) (connectionSession targetSession))))"

definition handle_HearbeatRequest ::
  "u16 \<Rightarrow> HearbeatRequest \<Rightarrow> conn \<Rightarrow> ProtocolHandler \<Rightarrow> ProtocolHandler \<times> action list" where
  "handle_HearbeatRequest pTransactionId pMsg pConnection s =
     (s, send_to (single pTransactionId (HearbeatResponse \<lparr>HearbeatResponse_spare = 0\<rparr>))
           (Some pConnection))"

section \<open>Dispatch\<close>

text \<open>
  The overload resolution of \<open>std::visit\<close>: the message types without an overload of their own go
  to the template \<open>handle<T>\<close>, which does nothing.
\<close>

fun handle ::
  "conn list \<Rightarrow> u16 \<Rightarrow> PropertyTreeMessages \<Rightarrow> conn \<Rightarrow> ProtocolHandler \<Rightarrow>
     fault + (ProtocolHandler \<times> action list)" where
  "handle held t (SigninRequest m) c s = Inr (handle_SigninRequest t m c s)"
| "handle held t (CreateRequest m) c s = Inr (handle_CreateRequest t m c s)"
| "handle held t (TreeInfoRequest m) c s = handle_TreeInfoRequest t m c s"
| "handle held t (SetValueRequest m) c s = Inr (handle_SetValueRequest held t m c s)"
| "handle held t (GetRequest m) c s = Inr (handle_GetRequest t m c s)"
| "handle held t (SubscribeRequest m) c s = Inr (handle_SubscribeRequest t m c s)"
| "handle held t (UnsubscribeRequest m) c s = Inr (handle_UnsubscribeRequest t m c s)"
| "handle held t (DeleteRequest m) c s = handle_DeleteRequest t m c s"
| "handle held t (RpcRequest m) c s = handle_RpcRequest t m c s"
| "handle held t (RpcAccept m) c s = Inr (handleRpc t (RpcAccept m) c s)"
| "handle held t (RpcReject m) c s = Inr (handleRpc t (RpcReject m) c s)"
| "handle held t (HearbeatRequest m) c s = Inr (handle_HearbeatRequest t m c s)"
| "handle held t _ c s = Inr (s, [])"

definition onMsg_message ::
  "conn list \<Rightarrow> PropertyTreeMessage \<Rightarrow> conn \<Rightarrow> ProtocolHandler \<Rightarrow>
     fault + (ProtocolHandler \<times> action list)" where
  "onMsg_message held pMsg c s = handle held (transactionId pMsg) (message pMsg) c s"

fun onMsg_array ::
  "conn list \<Rightarrow> PropertyTreeMessage list \<Rightarrow> conn \<Rightarrow> ProtocolHandler \<Rightarrow>
     fault + (ProtocolHandler \<times> action list)" where
  "onMsg_array held [] c s = Inr (s, [])"
| "onMsg_array held (i # is) c s =
     bindR (onMsg_message held i c s) (\<lambda>(s', out).
       bindR (onMsg_array held is c s') (\<lambda>(s'', out'). Inr (s'', out @ out')))"

fun onMsg ::
  "conn list \<Rightarrow> PropertyTreeProtocol \<Rightarrow> conn \<Rightarrow> ProtocolHandler \<Rightarrow>
     fault + (ProtocolHandler \<times> action list)" where
  "onMsg held (PropertyTreeMessage m) c s = onMsg_message held m c s"
| "onMsg held (PropertyTreeMessageArray ms) c s = onMsg_array held ms c s"

lemmas handler_definitions [handler_defs] =
  handle_SigninRequest_def handle_CreateRequest_def handle_TreeInfoRequest_def
  handle_DeleteRequest_def handle_SetValueRequest_def handle_GetRequest_def
  handle_SubscribeRequest_def handle_UnsubscribeRequest_def handle_RpcRequest_def
  handleRpc_def handle_HearbeatRequest_def

end
