(* ===== verification/HandlerInv.thy ===== *)
theory HandlerInv
  imports Handlers
begin

text \<open>
  Every handler keeps \<open>proto_inv\<close>. The handlers fall into four groups: those that change the
  session tables only, those that change the data or the listeners of one node, the creation of a
  node and the deletion of a node. Each group has one lemma for the tree part of the invariant.
\<close>

section \<open>Changes that keep the shape of the tree\<close>

text \<open>The fields of a node the tree invariant reads, but for the listeners.\<close>

definition same_shape :: "Node \<Rightarrow> Node \<Rightarrow> bool" where
  "same_shape a b \<longleftrightarrow> node_name a = node_name b \<and> node_sessionId a = node_sessionId b \<and>
     node_parent a = node_parent b \<and> node_uuid a = node_uuid b \<and> node_children a = node_children b"

lemma same_shape_refl [simp]: "same_shape a a"
  by (simp add: same_shape_def)

lemma tree_inv_shape:
  assumes inv: "tree_inv s"
    and same: "mTree s' = mTree s" "live s' = live s" "nextRef s' = nextRef s" "mUuidCtr s' = mUuidCtr s"
    and shape: "\<And>r. same_shape (heap s' r) (heap s r)"
    and wf: "\<And>u r. tree s u = Some r \<Longrightarrow> um_wf (node_listener (heap s' r))"
  shows "tree_inv s'"
  using inv wf unfolding tree_inv_def tree_inv_defs
  by (simp add: same shape [unfolded same_shape_def])

lemma owners_ok_shape:
  assumes "owners_ok s" "mTree s' = mTree s" "\<And>r. same_shape (heap s' r) (heap s r)"
    and "\<And>i. session s i \<noteq> None \<Longrightarrow> session s' i \<noteq> None"
    and "\<And>u r i w. tree s u = Some r \<Longrightarrow> map_of (node_listener (heap s' r)) i = Some w \<Longrightarrow>
           listener_ok s' i w"
  shows "owners_ok s'"
  using assms unfolding owners_ok_def same_shape_def by metis

lemma same_shape_updates [simp]:
  "same_shape (a\<lparr>node_data := d\<rparr>) a" "same_shape (a\<lparr>node_listener := l\<rparr>) a"
  "same_shape (a\<lparr>node_data := d, node_listener := l\<rparr>) a"
  by (simp_all add: same_shape_def)

section \<open>Session tables\<close>

lemma tables_ok_cong:
  assumes "tables_ok s" "mSessions s' = mSessions s" "mSessionIdCtr s' = mSessionIdCtr s"
    "mConnectionToSessionId s' = mConnectionToSessionId s" "mTrIdTranslation s' = mTrIdTranslation s"
  shows "tables_ok s'"
  using assms by (simp add: tables_ok_def)

lemma counters_cong:
  assumes "counters_below k s" "mUuidCtr s' = mUuidCtr s" "mSessionIdCtr s' = mSessionIdCtr s"
  shows "counters_below k s'"
  using assms by (simp add: counters_below_def)

lemma session_fresh: "tables_ok s \<Longrightarrow> session s (mSessionIdCtr s) = None"
  by (cases "session s (mSessionIdCtr s)") (auto simp: tables_ok_def)

lemma inv_SigninRequest:
  assumes "proto_inv (Suc k) s"
  shows "proto_inv k (fst (handle_SigninRequest t m c s))"
proof -
  let ?s = "fst (handle_SigninRequest t m c s)"
  from assms have inv: "tree_inv s" "tables_ok s" "owners_ok s" "counters_below (Suc k) s"
    by (simp_all add: proto_inv_def session_inv_def)
  note fresh = session_fresh [OF inv(2)]
  have ctr: "unat (mSessionIdCtr s + 1) = unat (mSessionIdCtr s) + 1"
    using inv(4) by (intro unat_inc_u32) (simp add: counters_below_def)
  have ses: "session ?s = (session s)(mSessionIdCtr s \<mapsto> \<lparr>connectionSession = Some c\<rparr>)"
    using fresh by (simp add: handle_SigninRequest_def Let_def map_of_um_emplace)
  have "tree_inv ?s"
    using inv(1) by (rule tree_inv_shape)
      (auto simp: handle_SigninRequest_def Let_def dest: tree_nodeD [OF inv(1)])
  moreover have "listener_ok s i w \<and> i \<noteq> mSessionIdCtr s"
    if "tree s u = Some r" "map_of (node_listener (heap s r)) i = Some w" for u r i w
    using that inv(3) fresh unfolding owners_ok_def listener_ok_def by fastforce
  then have "owners_ok ?s"
    using inv(3) by (intro owners_ok_shape [OF inv(3)])
      (auto simp: handle_SigninRequest_def Let_def listener_ok_def map_of_um_emplace fresh)
  moreover have "tables_ok ?s"
  proof -
    have "session_of ?s = (case session_of s c of None \<Rightarrow> (session_of s)(c \<mapsto> mSessionIdCtr s)
        | Some _ \<Rightarrow> session_of s)"
      by (simp add: handle_SigninRequest_def Let_def map_of_um_emplace)
    moreover have "um_wf (mSessions ?s)" "um_wf (mConnectionToSessionId ?s)"
      "mTrIdTranslation ?s = mTrIdTranslation s" "mSessionIdCtr ?s = mSessionIdCtr s + 1"
      using inv(2) by (simp_all add: handle_SigninRequest_def Let_def tables_ok_def dict_simps)
    ultimately show ?thesis
      using inv(2) fresh unfolding tables_ok_def ses
      by (auto simp: ctr split: option.splits if_splits intro: less_SucI)
  qed
  moreover have "counters_below k ?s"
    using inv(4) ctr by (simp add: handle_SigninRequest_def Let_def counters_below_def)
  ultimately show ?thesis
    by (simp add: proto_inv_def session_inv_def)
qed

lemma onDisconnect_ok:
  assumes "session_inv s"
  shows "\<exists>s'. onDisconnect c s = Inr s'"
  using session_of_held [OF assms, of c]
  by (auto simp: onDisconnect_def Let_def split: option.splits)

lemma inv_onDisconnect:
  assumes "proto_inv k s" "onDisconnect c s = Inr s'"
  shows "proto_inv k s'"
proof (cases "session_of s c")
  case None
  with assms show ?thesis by (simp add: onDisconnect_def)
next
  case (Some i)
  from assms have inv: "tree_inv s" "tables_ok s" "owners_ok s" "counters_below k s"
    by (simp_all add: proto_inv_def session_inv_def)
  from Some inv(2) have i: "session s i = Some \<lparr>connectionSession = Some c\<rparr>"
    by (auto simp: tables_ok_def)
  with Some assms(2) have s': "s' = s\<lparr>mConnectionToSessionId := um_erase c (mConnectionToSessionId s),
      mSessions := um_assign i \<lparr>connectionSession = None\<rparr> (mSessions s)\<rparr>"
    by (simp add: onDisconnect_def)
  have ses: "session s' = (session s)(i \<mapsto> \<lparr>connectionSession = None\<rparr>)"
    by (simp add: s' dict_simps)
  have "tree_inv s'"
    using inv(1) by (rule tree_inv_shape) (auto simp: s' dest: tree_nodeD [OF inv(1)])
  moreover have "owners_ok s'"
    using inv(3) by (rule owners_ok_shape) (use inv(3) in \<open>auto simp: s' i ses owners_ok_def listener_ok_def dict_simps\<close>)
  moreover have "tables_ok s'"
    using inv(2) i unfolding tables_ok_def ses
    by (auto simp: s' dict_simps split: if_splits)
  moreover have "counters_below k s'"
    using inv(4) by (simp add: s' counters_below_def)
  ultimately show ?thesis
    by (simp add: proto_inv_def session_inv_def)
qed

section \<open>Changes of one node\<close>

lemma inv_node_update:
  assumes "proto_inv k s" "tree s u = Some r" "same_shape obj (heap s r)"
    and "um_wf (node_listener obj)"
    and "\<And>i w. map_of (node_listener obj) i = Some w \<Longrightarrow> listener_ok s i w"
  shows "proto_inv k (s\<lparr>heap := (heap s)(r := obj)\<rparr>)"
proof -
  let ?s = "s\<lparr>heap := (heap s)(r := obj)\<rparr>"
  from assms have inv: "tree_inv s" "tables_ok s" "owners_ok s" "counters_below k s"
    by (simp_all add: proto_inv_def session_inv_def)
  have "tree_inv ?s"
    using inv(1) by (rule tree_inv_shape) (use assms(3,4) in \<open>auto dest: tree_nodeD [OF inv(1)]\<close>)
  moreover have "owners_ok ?s"
    using inv(3) by (rule owners_ok_shape)
      (use inv(3) assms(3,5) in \<open>auto simp: owners_ok_def listener_ok_def split: if_splits\<close>)
  moreover have "tables_ok ?s" "counters_below k ?s"
    using inv(2,4) by (auto elim: tables_ok_cong counters_cong)
  ultimately show ?thesis
    by (simp add: proto_inv_def session_inv_def)
qed

lemma listener_session:
  assumes "proto_inv k s" "tree s u = Some r" "map_of (node_listener (heap s r)) i = Some w"
  shows "listener_ok s i w"
  using assms by (auto simp: proto_inv_def session_inv_def owners_ok_def)

lemma listener_wf:
  "proto_inv k s \<Longrightarrow> tree s u = Some r \<Longrightarrow> um_wf (node_listener (heap s r))"
  by (auto simp: proto_inv_def dest: tree_nodeD)

lemma session_of_session: "proto_inv k s \<Longrightarrow> session_of s c = Some i \<Longrightarrow> session s i \<noteq> None"
  by (auto simp: proto_inv_def dest: session_of_held)

lemma session_of_listener: "proto_inv k s \<Longrightarrow> session_of s c = Some i \<Longrightarrow> listener_ok s i c"
  by (auto simp: proto_inv_def listener_ok_def dest: session_of_held)

lemma inv_SubscribeRequest:
  assumes "proto_inv k s"
  shows "proto_inv k (fst (handle_SubscribeRequest t m c s))"
  using assms
  by (auto simp: handle_SubscribeRequest_def Let_def dict_simps listener_wf split: option.splits if_splits
      intro!: inv_node_update dest: listener_session session_of_listener)

lemma inv_UnsubscribeRequest:
  assumes "proto_inv k s"
  shows "proto_inv k (fst (handle_UnsubscribeRequest t m c s))"
  using assms
  by (auto simp: handle_UnsubscribeRequest_def Let_def dict_simps listener_wf split: option.splits if_splits
      intro!: inv_node_update dest: listener_session)

text \<open>
  Under the invariant the loop over the listeners reaches exactly the listeners whose connection is
  alive, and the fallback through the session never applies.
\<close>

lemma notify_listeners_eq:
  assumes "\<And>i w. (i, w) \<in> set ls \<Longrightarrow> listener_ok s i w"
  shows "notify_listeners held (mSessions s) m ls =
    (ls, map (\<lambda>p. Send (snd p) m) (filter (\<lambda>p. lock_connection held (mSessions s) (snd p) \<noteq> None) ls))"
  using assms
proof (induction held "mSessions s" m ls rule: notify_listeners.induct)
  case (2 held m i w ls)
  have "session s i \<noteq> Some \<lparr>connectionSession = Some w\<rparr>" if "lock_connection held (mSessions s) w = None"
  proof
    assume "session s i = Some \<lparr>connectionSession = Some w\<rparr>"
    from map_of_SomeD [OF this] have "Some w \<in> (connectionSession \<circ> snd) ` set (mSessions s)"
      by force
    with that show False by (simp add: lock_connection_def)
  qed
  moreover have "listener_ok s i w" using 2 by simp
  ultimately have "session s i = Some \<lparr>connectionSession = None\<rparr>" if "lock_connection held (mSessions s) w = None"
    using that by (auto simp: listener_ok_def)
  moreover have "c = w" if "lock_connection held (mSessions s) w = Some c" for c
    using that by (auto simp: lock_connection_def split: if_splits)
  ultimately show ?case
    using 2 by (auto split: option.splits)
qed simp

lemma listeners_ok:
  assumes "proto_inv k s" "tree s u = Some r" "(i, w) \<in> set (node_listener (heap s r))"
  shows "listener_ok s i w"
proof (rule listener_session [OF assms(1,2)])
  show "map_of (node_listener (heap s r)) i = Some w"
    using um.items_find [OF listener_wf [OF assms(1,2)]] assms(3) by simp
qed

text \<open>The connections a change of the value of \<open>r\<close> is announced to.\<close>

definition subscribers :: "conn list \<Rightarrow> ProtocolHandler \<Rightarrow> ref \<Rightarrow> conn list" where
  "subscribers held s r =
     filter (\<lambda>w. lock_connection held (mSessions s) w \<noteq> None) (map snd (node_listener (heap s r)))"

lemma handle_SetValueRequest_eq:
  assumes "proto_inv k s"
  shows "handle_SetValueRequest held t m c s =
     (if SetValueRequest_uuid m = 0 \<and> terminate_value (SetValueRequest_data m) then (s, [Terminate])
      else case tree s (SetValueRequest_uuid m) of
             None \<Rightarrow> (s, [])
           | Some r \<Rightarrow>
               (s\<lparr>heap := (heap s)(r := (heap s r)\<lparr>node_data := SetValueRequest_data m\<rparr>)\<rparr>,
                Send c (single t (SetValueAccept \<lparr>SetValueAccept_spare = 0\<rparr>)) #
                map (\<lambda>w. Send w (single notification_id (UpdateNotification
                  \<lparr>UpdateNotification_uuid = node_uuid (heap s r),
                   UpdateNotification_data = SetValueRequest_data m\<rparr>))) (subscribers (c # held) s r)))"
proof (cases "tree s (SetValueRequest_uuid m)")
  case None
  then show ?thesis by (simp add: handle_SetValueRequest_def)
next
  case (Some r)
  then show ?thesis
    using notify_listeners_eq [of "node_listener (heap s r)" s] listeners_ok [OF assms Some]
    by (simp add: handle_SetValueRequest_def Let_def subscribers_def filter_map o_def)
qed

lemma inv_SetValueRequest:
  assumes "proto_inv k s"
  shows "proto_inv k (fst (handle_SetValueRequest held t m c s))"
  using assms unfolding handle_SetValueRequest_eq [OF assms]
  by (auto simp: listener_wf listener_session split: option.splits intro!: inv_node_update)

section \<open>Creation\<close>

text \<open>The state after the insertion of a node, apart from the replies.\<close>

definition inserted :: "ProtocolHandler \<Rightarrow> ref \<Rightarrow> string \<Rightarrow> u32 \<Rightarrow> ProtocolHandler" where
  "inserted s p name sid = s\<lparr>mUuidCtr := mUuidCtr s + 1, nextRef := nextRef s + 1,
     live := (live s)(nextRef s := True),
     heap := (heap s)
       (p := (heap s p)\<lparr>node_children := om_emplace name (nextRef s) (node_children (heap s p))\<rparr>,
        nextRef s := new_Node name sid (Some p) (ucast (mUuidCtr s))),
     mTree := um_emplace (ucast (mUuidCtr s)) (nextRef s) (mTree s)\<rparr>"

lemma handle_CreateRequest_eq:
  "handle_CreateRequest t m c s =
     (case tree s (CreateRequest_parentUuid m) of
        None \<Rightarrow> (s, [Send c (single t (CreateReject \<lparr>CreateReject_cause = NOT_FOUND\<rparr>))])
      | Some p \<Rightarrow> (case session_of s c of
          None \<Rightarrow> (s, [])
        | Some sid \<Rightarrow>
            if CreateRequest_name m \<in> fst ` set (node_children (heap s p))
            then (s, [Send c (single t (CreateReject \<lparr>CreateReject_cause = ALREADY_EXIST\<rparr>))])
            else let s' = inserted s p (CreateRequest_name m) sid in
              (s', Send c (single t (CreateAccept \<lparr>CreateAccept_uuid = ucast (mUuidCtr s)\<rparr>)) #
               broadcast s' (single notification_id (TreeUpdateNotification
                 \<lparr>TreeUpdateNotification_nodeToAddList =
                    [\<lparr>NamedNode_name = CreateRequest_name m, NamedNode_uuid = ucast (mUuidCtr s),
                      NamedNode_parentUuid = node_uuid (heap s' p)\<rparr>],
                  TreeUpdateNotification_nodeToDelete = []\<rparr>)))))"
  by (auto simp: handle_CreateRequest_def inserted_def Let_def new_Node_def split: option.splits)

lemma tree_fresh_uuid:
  assumes "tree_inv s" shows "tree s (ucast (mUuidCtr s)) = None"
  using tree_nodeD(4) [OF assms] by (cases "tree s (ucast (mUuidCtr s))") fastforce+

lemma tree_fresh_ref: "tree_inv s \<Longrightarrow> tree s u = Some r \<Longrightarrow> r \<noteq> nextRef s"
  by (auto dest: tree_nodeD(2))

lemma inserted_access:
  assumes "tree_inv s" "tree s u = Some p"
  shows "tree (inserted s p n sid) = (tree s)(ucast (mUuidCtr s) \<mapsto> nextRef s)"
    and "child (inserted s p n sid) r =
      (if r = nextRef s then Map.empty
       else if r = p then (case child s p n of None \<Rightarrow> (child s p)(n \<mapsto> nextRef s) | Some _ \<Rightarrow> child s p)
       else child s r)"
    and "heap (inserted s p n sid) (nextRef s) = new_Node n sid (Some p) (ucast (mUuidCtr s))"
    and "r \<noteq> nextRef s \<Longrightarrow> node_name (heap (inserted s p n sid) r) = node_name (heap s r) \<and>
      node_parent (heap (inserted s p n sid) r) = node_parent (heap s r) \<and>
      node_uuid (heap (inserted s p n sid) r) = node_uuid (heap s r) \<and>
      node_sessionId (heap (inserted s p n sid) r) = node_sessionId (heap s r) \<and>
      node_data (heap (inserted s p n sid) r) = node_data (heap s r) \<and>
      node_listener (heap (inserted s p n sid) r) = node_listener (heap s r)"
  using tree_fresh_uuid [OF assms(1)] tree_nodeD(5) [OF assms] tree_fresh_ref [OF assms]
  by (auto simp: inserted_def map_of_um_emplace map_of_om_emplace new_Node_def)

lemma inserted_nodes_ok:
  assumes "tree_inv s" "tree s u = Some p" "unat (mUuidCtr s) < 2 ^ 32 - 1"
  shows "nodes_ok (inserted s p n sid)"
proof -
  let ?s = "inserted s p n sid"
  have "um_wf (mTree ?s)"
    using assms(1) by (simp add: inserted_def tree_inv_def nodes_ok_def um_wf_emplace)
  moreover have "unat (mUuidCtr ?s) = unat (mUuidCtr s) + 1" "nextRef ?s = nextRef s + 1"
    using assms(3) by (simp_all add: inserted_def unat_inc_u32)
  moreover have "om_wf (node_children (heap ?s r)) \<and> live ?s r"
    if "tree s v = Some r" for v r
    using tree_nodeD [OF assms(1) that] by (auto simp: inserted_def om_wf_emplace new_Node_def)
  moreover have "live ?s (nextRef s)" by (simp add: inserted_def)
  ultimately show ?thesis
    unfolding nodes_ok_def inserted_access(1) [OF assms(1,2)]
    using tree_nodeD [OF assms(1)] tree_fresh_ref [OF assms(1)] inserted_access(3,4) [OF assms(1,2)]
    by (auto simp: new_Node_def less_SucI)
qed

lemma inserted_down_ok:
  assumes "tree_inv s" "tree s u = Some p" "n \<notin> fst ` set (node_children (heap s p))"
  shows "down_ok (inserted s p n sid)"
  unfolding down_ok_def
proof (intro allI impI)
  fix v r m c
  let ?s = "inserted s p n sid" and ?u' = "ucast (mUuidCtr s) :: u64"
  note acc = inserted_access [OF assms(1,2), where n = n and sid = sid]
  assume v: "tree ?s v = Some r" and c: "child ?s r m = Some c"
  have fresh: "child s p n = None"
    using assms(3) by (simp add: map_of_eq_None_iff)
  from c acc(2) have r: "r \<noteq> nextRef s" by (auto split: if_splits)
  with v acc(1) have v': "tree s v = Some r" by (auto split: if_splits)
  show "\<exists>w. tree ?s w = Some c \<and> node_name (heap ?s c) = m \<and> node_parent (heap ?s c) = Some r \<and>
      unat v < unat w"
  proof (cases "r = p \<and> m = n")
    case True
    with c fresh r have "c = nextRef s" by (auto simp: acc(2))
    moreover have "unat v < unat ?u'"
      using tree_nodeD(4) [OF assms(1) v'] by simp
    ultimately show ?thesis
      using True by (intro exI [of _ ?u']) (simp add: acc(1,3) new_Node_def)
  next
    case False
    with c fresh r have "child s r m = Some c" by (auto simp: acc(2) split: if_splits)
    from tree_childE [OF assms(1) v' this] obtain w where
      w: "tree s w = Some c" "node_name (heap s c) = m" "node_parent (heap s c) = Some r" "unat v < unat w"
      by blast
    then have "c \<noteq> nextRef s" "w \<noteq> ?u'"
      using tree_fresh_ref [OF assms(1)] tree_fresh_uuid [OF assms(1)] by auto
    with w acc(1,4) show ?thesis by auto
  qed
qed

lemma inserted_up_ok:
  assumes "tree_inv s" "tree s u = Some p" "n \<notin> fst ` set (node_children (heap s p))"
  shows "up_ok (inserted s p n sid)"
  unfolding up_ok_def
proof (intro allI impI)
  fix v r
  let ?s = "inserted s p n sid" and ?u' = "ucast (mUuidCtr s) :: u64"
  note acc = inserted_access [OF assms(1,2), where n = n and sid = sid]
  assume v: "tree ?s v = Some r" and "v \<noteq> 0"
  have fresh: "child s p n = None"
    using assms(3) by (simp add: map_of_eq_None_iff)
  have pu: "tree ?s u = Some p" "p \<noteq> nextRef s"
    using assms(2) tree_fresh_uuid [OF assms(1)] tree_fresh_ref [OF assms(1,2)] by (auto simp: acc(1))
  show "\<exists>w q. node_parent (heap ?s r) = Some q \<and> tree ?s w = Some q \<and>
      child ?s q (node_name (heap ?s r)) = Some r"
  proof (cases "v = ?u'")
    case True
    with v have "r = nextRef s" by (simp add: acc(1))
    then show ?thesis
      using pu fresh by (auto simp: acc(2,3) new_Node_def)
  next
    case False
    with v have v': "tree s v = Some r" by (simp add: acc(1))
    from tree_parentE [OF assms(1) this \<open>v \<noteq> 0\<close>] obtain w q where
      q: "node_parent (heap s r) = Some q" "tree s w = Some q" "child s q (node_name (heap s r)) = Some r"
      by blast
    have "r \<noteq> nextRef s" "q \<noteq> nextRef s" "w \<noteq> ?u'"
      using tree_fresh_ref [OF assms(1)] tree_fresh_uuid [OF assms(1)] v' q(2) by auto
    with q acc(1,4) fresh show ?thesis by (auto simp: acc(2) split: option.splits)
  qed
qed

lemma inserted_inv:
  assumes inv: "proto_inv (Suc k) s" and p: "tree s u = Some p"
    and n: "n \<notin> fst ` set (node_children (heap s p))" and sid: "session s sid \<noteq> None"
  shows "proto_inv k (inserted s p n sid)"
proof -
  let ?s = "inserted s p n sid"
  from inv have parts: "tree_inv s" "tables_ok s" "owners_ok s" "counters_below (Suc k) s"
    by (simp_all add: proto_inv_def session_inv_def)
  note acc = inserted_access [OF parts(1) p, where n = n and sid = sid]
  have ctr: "unat (mUuidCtr s) < 2 ^ 32 - 1"
    using parts(4) by (simp add: counters_below_def)
  have pos: "(ucast (mUuidCtr s) :: u64) \<noteq> 0"
  proof
    assume "(ucast (mUuidCtr s) :: u64) = 0"
    then have "unat (ucast (mUuidCtr s) :: u64) = 0" by simp
    with parts(4) show False by (simp add: counters_below_def)
  qed
  obtain r where r: "tree s 0 = Some r" "node_parent (heap s r) = None"
      "node_sessionId (heap s r) = 0xFFFFFFFF"
    using parts(1) by (rule tree_root)
  have "root_ok ?s"
    using r pos tree_fresh_ref [OF parts(1) r(1)] acc(1,4) by (auto simp: root_ok_def)
  then have "tree_inv ?s"
    using inserted_nodes_ok [OF parts(1) p ctr] inserted_down_ok [OF parts(1) p n]
      inserted_up_ok [OF parts(1) p n] by (simp add: tree_inv_def)
  moreover have "owners_ok ?s"
    unfolding owners_ok_def
  proof (intro allI impI)
    fix v x assume v: "tree ?s v = Some x"
    have same: "mSessions ?s = mSessions s" by (simp add: inserted_def)
    show "(v \<noteq> 0 \<longrightarrow> session ?s (node_sessionId (heap ?s x)) \<noteq> None) \<and>
      (\<forall>i w. map_of (node_listener (heap ?s x)) i = Some w \<longrightarrow> listener_ok ?s i w)"
    proof (cases "x = nextRef s")
      case True
      then show ?thesis using sid by (simp add: acc(3) same new_Node_def)
    next
      case False
      with v have "tree s v = Some x" by (auto simp: acc(1) split: if_splits)
      with parts(3) acc(4) [OF False] show ?thesis by (simp add: owners_ok_def listener_ok_def same)
    qed
  qed
  moreover have "tables_ok ?s"
    using parts(2) by (rule tables_ok_cong) (simp_all add: inserted_def)
  moreover have "counters_below k ?s"
    using parts(4) unat_inc_u32 [OF ctr] by (simp add: inserted_def counters_below_def)
  ultimately show ?thesis
    by (simp add: proto_inv_def session_inv_def)
qed

lemma inv_CreateRequest:
  assumes "proto_inv (Suc k) s"
  shows "proto_inv k (fst (handle_CreateRequest t m c s))"
  using assms
  by (auto simp: handle_CreateRequest_eq Let_def split: option.splits
      intro: inserted_inv proto_inv_mono dest: session_of_session)

section \<open>Deletion\<close>

text \<open>
  The state after the removal of the node \<open>r\<close> with uuid \<open>u\<close> from its parent \<open>p\<close>. In a state that
  satisfies the invariant nothing else owns the node, so it is destroyed.
\<close>

definition removed :: "ProtocolHandler \<Rightarrow> u64 \<Rightarrow> ref \<Rightarrow> ref \<Rightarrow> ProtocolHandler" where
  "removed s u r p = s\<lparr>mTree := um_erase u (mTree s),
     heap := (heap s)(p := (heap s p)\<lparr>node_children :=
       om_erase (node_name (heap s r)) (node_children (heap s p))\<rparr>)\<rparr>"

lemma removed_access:
  shows "tree (removed s u r p) = (tree s)(u := None)"
    and "child (removed s u r p) x =
      (if x = p then (child s p)(node_name (heap s r) := None) else child s x)"
    and "node_name (heap (removed s u r p) x) = node_name (heap s x)"
    and "node_parent (heap (removed s u r p) x) = node_parent (heap s x)"
    and "node_uuid (heap (removed s u r p) x) = node_uuid (heap s x)"
    and "node_sessionId (heap (removed s u r p) x) = node_sessionId (heap s x)"
    and "node_data (heap (removed s u r p) x) = node_data (heap s x)"
    and "node_listener (heap (removed s u r p) x) = node_listener (heap s x)"
  by (simp_all add: removed_def um_find_erase om_find_erase)

lemma tree_items: "tree_inv s \<Longrightarrow> snd ` set (mTree s) = ran (tree s)"
  by (simp add: tree_inv_def nodes_ok_def um_wf_def ran_distinct)

lemma removed_not_owned:
  assumes inv: "tree_inv s" and r: "tree s u = Some r" and p: "node_parent (heap s r) = Some p"
  shows "\<not> owned (removed s u r p) r"
proof
  let ?s = "removed s u r p"
  have wf: "um_wf (mTree ?s)"
    using inv by (simp add: removed_def tree_inv_def nodes_ok_def um_wf_erase)
  have items: "snd ` set (mTree ?s) = ran (tree ?s)"
    using wf by (simp add: um_wf_def ran_distinct)
  assume "owned ?s r"
  then consider (tree) "r \<in> ran (tree ?s)"
    | (child) q m where "q \<in> ran (tree ?s)" "(m, r) \<in> set (node_children (heap ?s q))"
    unfolding owned_def items by auto
  then show False
  proof cases
    case tree
    then obtain v where "v \<noteq> u" "tree s v = Some r"
      by (auto simp: removed_access(1) ran_def split: if_splits)
    with tree_inj [OF inv r] show False by blast
  next
    case child
    then obtain v where v: "tree s v = Some q" "v \<noteq> u"
      by (auto simp: removed_access(1) ran_def split: if_splits)
    have m: "(m, r) \<in> set (node_children (heap s q))" "q = p \<longrightarrow> m \<noteq> node_name (heap s r)"
      using child(2) by (auto simp: removed_def om_erase_def split: if_splits)
    then have "child s q m = Some r"
      by (simp add: tree_child_item [OF inv v(1)])
    with tree_childE [OF inv v(1) this] p m show False by auto
  qed
qed

lemma release_removed:
  assumes "tree_inv s" "tree s u = Some r" "node_parent (heap s r) = Some p"
  shows "release r (removed s u r p) = (removed s u r p)\<lparr>live := (live s)(r := False)\<rparr>"
  using removed_not_owned [OF assms] by (simp add: release_def) (simp add: removed_def)

lemma handle_DeleteRequest_eq:
  assumes "tree_inv s"
  shows "handle_DeleteRequest t m c s =
     (let u = DeleteRequest_uuid m;
          response = (\<lambda>e. Send c (single t (DeleteResponse \<lparr>DeleteResponse_cause = e\<rparr>)))
      in case tree s u of
           None \<Rightarrow> Inr (s, [response NOT_FOUND])
         | Some r \<Rightarrow>
             if node_children (heap s r) \<noteq> [] then Inr (s, [response NOT_EMPTY])
             else if u = 0 then Inl NullDeref
             else let p = the (node_parent (heap s r));
                      s' = (removed s u r p)\<lparr>live := (live s)(r := False)\<rparr>
                  in Inr (s', response OK # broadcast s' (single notification_id
                       (TreeUpdateNotification \<lparr>TreeUpdateNotification_nodeToAddList = [],
                          TreeUpdateNotification_nodeToDelete = [u]\<rparr>))))"
proof (cases "tree s (DeleteRequest_uuid m)")
  case None
  then show ?thesis by (simp add: handle_DeleteRequest_def)
next
  case (Some r)
  let ?u = "DeleteRequest_uuid m"
  show ?thesis
  proof (cases "node_children (heap s r) = [] \<and> ?u \<noteq> 0")
    case True
    with tree_parentE [OF assms Some] obtain v p where
      p: "node_parent (heap s r) = Some p" "tree s v = Some p" by blast
    have "live s p" using tree_nodeD(1) [OF assms p(2)] .
    then show ?thesis
      using True Some p release_removed [OF assms Some p(1)]
      by (simp add: handle_DeleteRequest_def Let_def broadcast_def flip: removed_def)
        (simp add: removed_def)
  next
    case False
    moreover have "node_parent (heap s r) = None" if "?u = 0"
      using tree_root [OF assms] Some that by auto
    ultimately show ?thesis
      using Some by (auto simp: handle_DeleteRequest_def Let_def)
  qed
qed

lemma removed_inv:
  assumes inv: "proto_inv k s" and r: "tree s u = Some r" and p: "node_parent (heap s r) = Some p"
    and leaf: "node_children (heap s r) = []" and u: "u \<noteq> 0"
  shows "proto_inv k ((removed s u r p)\<lparr>live := (live s)(r := False)\<rparr>)"
proof -
  let ?s = "(removed s u r p)\<lparr>live := (live s)(r := False)\<rparr>"
  from inv have parts: "tree_inv s" "tables_ok s" "owners_ok s" "counters_below k s"
    by (simp_all add: proto_inv_def session_inv_def)
  have other: "tree s v = Some x \<Longrightarrow> v \<noteq> u \<Longrightarrow> x \<noteq> r" for v x
    using tree_inj [OF parts(1) r] by blast
  have "nodes_ok ?s"
    unfolding nodes_ok_def
  proof (intro conjI allI impI)
    show "um_wf (mTree ?s)"
      using parts(1) by (simp add: removed_def tree_inv_def nodes_ok_def um_wf_erase)
    fix v x assume "tree ?s v = Some x"
    then have v: "tree s v = Some x" "v \<noteq> u" by (auto simp: removed_access split: if_splits)
    note node = tree_nodeD [OF parts(1) v(1)]
    show "live ?s x" "x < nextRef ?s" "node_uuid (heap ?s x) = v" "unat v < unat (mUuidCtr ?s)"
      "um_wf (node_listener (heap ?s x))" "om_wf (node_children (heap ?s x))"
      using node other [OF v] by (auto simp: removed_def om_wf_erase)
  qed
  moreover have "root_ok ?s"
  proof -
    obtain x where "tree s 0 = Some x" "node_parent (heap s x) = None"
        "node_sessionId (heap s x) = 0xFFFFFFFF"
      using parts(1) by (rule tree_root)
    then show ?thesis using u by (simp add: root_ok_def removed_access)
  qed
  moreover have "down_ok ?s"
    unfolding down_ok_def
  proof (intro allI impI)
    fix v x m y assume v: "tree ?s v = Some x" and y: "child ?s x m = Some y"
    have v': "tree s v = Some x" "v \<noteq> u" and y': "child s x m = Some y" "x = p \<longrightarrow> m \<noteq> node_name (heap s r)"
      using v y by (auto simp: removed_access split: if_splits)
    from tree_childE [OF parts(1) v'(1) y'(1)] obtain w where
      w: "tree s w = Some y" "node_name (heap s y) = m" "node_parent (heap s y) = Some x" "unat v < unat w"
      by blast
    then have "w \<noteq> u" using r p y'(2) by auto
    with w show "\<exists>w. tree ?s w = Some y \<and> node_name (heap ?s y) = m \<and> node_parent (heap ?s y) = Some x \<and>
      unat v < unat w" by (auto simp: removed_access)
  qed
  moreover have "up_ok ?s"
    unfolding up_ok_def
  proof (intro allI impI)
    fix v x assume v: "tree ?s v = Some x" and "v \<noteq> 0"
    have v': "tree s v = Some x" "v \<noteq> u" using v by (auto simp: removed_access split: if_splits)
    from tree_parentE [OF parts(1) v'(1) \<open>v \<noteq> 0\<close>] obtain w q where
      q: "node_parent (heap s x) = Some q" "tree s w = Some q" "child s q (node_name (heap s x)) = Some x"
      by blast
    have "w \<noteq> u" using q(2,3) r leaf by auto
    moreover have "\<not> (q = p \<and> node_name (heap s x) = node_name (heap s r))"
    proof
      assume same: "q = p \<and> node_name (heap s x) = node_name (heap s r)"
      from tree_parentE [OF parts(1) r u] p have "child s p (node_name (heap s r)) = Some r" by auto
      with same q(3) other [OF v'] show False by auto
    qed
    ultimately show "\<exists>w q. node_parent (heap ?s x) = Some q \<and> tree ?s w = Some q \<and>
      child ?s q (node_name (heap ?s x)) = Some x"
      using q by (intro exI [of _ w] exI [of _ q]) (auto simp: removed_access)
  qed
  ultimately have "tree_inv ?s" by (simp add: tree_inv_def)
  moreover have "owners_ok ?s"
  proof -
    have "mSessions (removed s u r p) = mSessions s" by (simp add: removed_def)
    then show ?thesis
      using parts(3) by (auto simp: owners_ok_def listener_ok_def removed_access)
  qed
  moreover have "tables_ok ?s" "counters_below k ?s"
    using parts(2,4) by (auto elim!: tables_ok_cong counters_cong simp: removed_def)
  ultimately show ?thesis
    by (simp add: proto_inv_def session_inv_def)
qed

lemma inv_DeleteRequest:
  assumes "proto_inv k s" "handle_DeleteRequest t m c s = Inr (s', out)"
  shows "proto_inv k s'"
proof -
  have inv: "tree_inv s" using assms(1) by (simp add: proto_inv_def)
  show ?thesis
    using assms unfolding handle_DeleteRequest_eq [OF inv]
    by (auto simp: Let_def split: option.splits if_splits
        intro!: removed_inv elim: tree_parentE [OF inv])
qed

section \<open>Calls\<close>

lemma translation_update:
  assumes "proto_inv k s" "um_wf tr" "\<And>t i o'. map_of tr t = Some (i, o') \<Longrightarrow> session s i \<noteq> None"
  shows "proto_inv k (s\<lparr>mTrIdCtr := n, mTrIdTranslation := tr\<rparr>)"
proof -
  let ?s = "s\<lparr>mTrIdCtr := n, mTrIdTranslation := tr\<rparr>"
  from assms have parts: "tree_inv s" "tables_ok s" "owners_ok s" "counters_below k s"
    by (simp_all add: proto_inv_def session_inv_def)
  have "tree_inv ?s"
    using parts(1) by (rule tree_inv_shape) (auto dest: tree_nodeD [OF parts(1)])
  moreover have "owners_ok ?s" using parts(3) by (simp add: owners_ok_def listener_ok_def)
  moreover have "tables_ok ?s" using parts(2) assms(2,3) by (auto simp: tables_ok_def)
  moreover have "counters_below k ?s" using parts(4) by (simp add: counters_below_def)
  ultimately show ?thesis by (simp add: proto_inv_def session_inv_def)
qed

lemma translation_ok:
  assumes "proto_inv k s"
  shows "um_wf (mTrIdTranslation s)" "map_of (mTrIdTranslation s) t = Some (i, o') \<Longrightarrow> session s i \<noteq> None"
  using assms unfolding proto_inv_def session_inv_def tables_ok_def by blast+

lemma inv_RpcRequest:
  assumes "proto_inv k s" "handle_RpcRequest t m c s = Inr (s', out)"
  shows "proto_inv k s'"
  using assms
  by (auto simp: handle_RpcRequest_def Let_def dict_simps translation_ok(1) split: option.splits if_splits
      intro!: translation_update dest: translation_ok(2) session_of_session)

lemma inv_handleRpc:
  assumes "proto_inv k s"
  shows "proto_inv k (fst (handleRpc t m c s))"
proof -
  have "proto_inv k (s\<lparr>mTrIdCtr := mTrIdCtr s, mTrIdTranslation := um_erase t (mTrIdTranslation s)\<rparr>)"
    using translation_ok [OF assms]
    by (intro translation_update [OF assms]) (auto simp: dict_simps split: if_splits)
  with assms show ?thesis
    by (simp add: handleRpc_def Let_def split: option.splits)
qed

section \<open>Every message\<close>

lemma fill_total:
  assumes "tree_inv s" "tree s u = Some r"
  shows "fillToAddListFromTree (heap s) l r rc \<noteq> None"
  using fill_descend [OF assms] by simp

lemma tree_child_tree: "tree_inv s \<Longrightarrow> tree s u = Some r \<Longrightarrow> child s r n = Some c \<Longrightarrow> \<exists>v. tree s v = Some c"
  by (metis tree_childE)

lemma handle_TreeInfoRequest_ok:
  assumes "tree_inv s"
  shows "\<exists>out. handle_TreeInfoRequest t m c s = Inr (s, out)"
proof (cases "tree s (TreeInfoRequest_parentUuid m)")
  case None
  then show ?thesis by (simp add: handle_TreeInfoRequest_def)
next
  case (Some r)
  let ?y = "if TreeInfoRequest_name m = ''.'' then Some r else child s r (TreeInfoRequest_name m)"
  show ?thesis
  proof (cases ?y)
    case None
    with Some show ?thesis by (simp add: handle_TreeInfoRequest_def)
  next
    case y: (Some y)
    with Some have "\<exists>v. tree s v = Some y"
      using tree_child_tree [OF assms] by (auto split: if_splits)
    then have "\<exists>l'. fillToAddListFromTree (heap s) l y rc = Some l'" for l rc
      using fill_descend [OF assms] by blast
    then obtain f where "fillToAddListFromTree (heap s) l y rc = Some (f l rc)" for l rc
      by metis
    with Some y show ?thesis by (simp add: handle_TreeInfoRequest_def Let_def)
  qed
qed

lemma inv_handle:
  assumes "proto_inv (Suc k) s" "handle held t m c s = Inr (s', out)"
  shows "proto_inv k s'"
proof -
  have less: "proto_inv (Suc k) s' \<Longrightarrow> proto_inv k s'"
    by (erule proto_inv_mono) simp
  have tree: "tree_inv s" using assms(1) by (simp add: proto_inv_def)
  note [simp] = handle_GetRequest_def handle_HearbeatRequest_def
  show ?thesis
  proof (cases m)
    case (SigninRequest x) then show ?thesis
      using assms(2) inv_SigninRequest [OF assms(1), of t x c] by simp
  next
    case (CreateRequest x) then show ?thesis
      using assms(2) inv_CreateRequest [OF assms(1), of t x c] by simp
  next
    case (TreeInfoRequest x) then show ?thesis
      using assms handle_TreeInfoRequest_ok [OF tree, of t x c] less by auto
  next
    case (DeleteRequest x) then show ?thesis
      using assms inv_DeleteRequest less by simp
  next
    case (SetValueRequest x) then show ?thesis
      using assms(2) inv_SetValueRequest [OF assms(1), of held t x c] less by simp
  next
    case (SubscribeRequest x) then show ?thesis
      using assms(2) inv_SubscribeRequest [OF assms(1), of t x c] less by simp
  next
    case (UnsubscribeRequest x) then show ?thesis
      using assms(2) inv_UnsubscribeRequest [OF assms(1), of t x c] less by simp
  next
    case (RpcRequest x) then show ?thesis
      using assms inv_RpcRequest less by simp
  next
    case (RpcAccept x) then show ?thesis
      using assms(2) inv_handleRpc [OF assms(1), of t m c] less by simp
  next
    case (RpcReject x) then show ?thesis
      using assms(2) inv_handleRpc [OF assms(1), of t m c] less by simp
  qed (use assms less in \<open>auto split: option.splits\<close>)
qed

lemma inv_onMsg_array:
  assumes "proto_inv (length ms + k) s" "onMsg_array held ms c s = Inr (s', out)"
  shows "proto_inv k s'"
  using assms
proof (induction ms arbitrary: s out)
  case (Cons m ms)
  from Cons.prems(2) obtain s1 out1 out2 where
    step: "handle held (transactionId m) (message m) c s = Inr (s1, out1)"
    and rest: "onMsg_array held ms c s1 = Inr (s', out2)"
    by (auto simp: onMsg_message_def)
  from Cons.prems(1) have "proto_inv (Suc (length ms + k)) s" by simp
  then have "proto_inv (length ms + k) s1"
    using step by (rule inv_handle)
  then show ?case
    using rest by (rule Cons.IH)
qed simp

text \<open>How many messages a protocol unit holds.\<close>

fun messages_in :: "PropertyTreeProtocol \<Rightarrow> nat" where
  "messages_in (PropertyTreeMessage m) = 1"
| "messages_in (PropertyTreeMessageArray ms) = length ms"

lemma inv_onMsg:
  assumes "proto_inv (messages_in p + k) s" "onMsg held p c s = Inr (s', out)"
  shows "proto_inv k s'"
  using assms by (cases p) (auto simp: onMsg_message_def intro: inv_handle inv_onMsg_array)

section \<open>The faults\<close>

text \<open>
  In a state that satisfies the invariant there are exactly two ways for a message to run into
  undefined behaviour: deleting a childless root, and calling the root as a procedure.
\<close>

definition deletes_root :: "ProtocolHandler \<Rightarrow> PropertyTreeMessages \<Rightarrow> bool" where
  "deletes_root s m \<longleftrightarrow> m = DeleteRequest \<lparr>DeleteRequest_uuid = 0\<rparr> \<and>
     (\<exists>r. tree s 0 = Some r \<and> node_children (heap s r) = [])"

definition calls_root :: "ProtocolHandler \<Rightarrow> conn \<Rightarrow> PropertyTreeMessages \<Rightarrow> bool" where
  "calls_root s c m \<longleftrightarrow> (\<exists>d. m = RpcRequest \<lparr>RpcRequest_uuid = 0, RpcRequest_param = d\<rparr>) \<and>
     session_of s c \<noteq> None"

lemma DeleteRequest_fault:
  assumes "tree_inv s"
  shows "handle_DeleteRequest t m c s = Inl f \<longleftrightarrow> f = NullDeref \<and> deletes_root s (DeleteRequest m)"
  unfolding handle_DeleteRequest_eq [OF assms] deletes_root_def
  by (cases m) (auto simp: Let_def split: option.splits)

lemma RpcRequest_fault:
  assumes "proto_inv k s"
  shows "handle_RpcRequest t m c s = Inl f \<longleftrightarrow> f = EndDeref \<and> calls_root s c (RpcRequest m)"
proof -
  have parts: "tree_inv s" "session_inv s" "counters_below k s"
    using assms by (simp_all add: proto_inv_def)
  obtain root where root: "tree s 0 = Some root" "node_sessionId (heap s root) = 0xFFFFFFFF"
    using parts(1) by (rule tree_root)
  have owner: "u = 0" if "tree s u = Some r" "session s (node_sessionId (heap s r)) = None" for u r
    using that parts(2) unfolding session_inv_def owners_ok_def by blast
  have no_owner: "session s (node_sessionId (heap s root)) = None"
    using root no_root_session [OF parts(2,3)] by simp
  note rpc = handle_RpcRequest_def calls_root_def Let_def
  show ?thesis
    by (cases m) (use root(1) no_owner in \<open>auto simp: rpc split: option.splits dest: owner\<close>)
qed

lemma handle_fault:
  assumes "proto_inv k s"
  shows "handle held t m c s = Inl f \<longleftrightarrow>
    (f = NullDeref \<and> deletes_root s m) \<or> (f = EndDeref \<and> calls_root s c m)"
proof -
  have inv: "tree_inv s" using assms by (simp add: proto_inv_def)
  have "handle_TreeInfoRequest t x c s \<noteq> Inl f" for x
    using handle_TreeInfoRequest_ok [OF inv, of t x c] by auto
  then show ?thesis
    by (cases m) (auto simp: DeleteRequest_fault [OF inv] RpcRequest_fault [OF assms],
        auto simp: deletes_root_def calls_root_def)
qed

end
