(* ===== verification/TreeSpec.thy ===== *)
theory TreeSpec
  imports HandlerInv
begin

text \<open>
  What the property tree promises its clients, without pointers: a finite map from uuids to nodes,
  each with its name, the uuid of its parent, the session that created it, its value and the
  sessions subscribed to it (\<open>atree\<close>). \<open>spec_handle\<close> says what each request does to that map
  and what is answered. The handlers refine it: on a state that satisfies the invariant,
  \<open>abs_tree\<close> commutes with every handler.
\<close>

section \<open>The abstract tree\<close>

record anode =
  a_name :: string
  a_parent :: "u64 option"
  a_owner :: u32
  a_data :: "u8 list"
  a_subscribers :: "u32 set"

type_synonym atree = "u64 \<Rightarrow> anode option"

definition has_child :: "atree \<Rightarrow> u64 \<Rightarrow> string \<Rightarrow> bool" where
  "has_child A u n \<longleftrightarrow> (\<exists>v a. A v = Some a \<and> a_parent a = Some u \<and> a_name a = n)"

definition is_parent :: "atree \<Rightarrow> u64 \<Rightarrow> bool" where
  "is_parent A u \<longleftrightarrow> (\<exists>n. has_child A u n)"

text \<open>
  The effect of a request: the new tree and the answer, if there is one. \<open>sid\<close> is the session of
  the connection, \<open>next\<close> the uuid a new node takes.
\<close>

fun spec_handle ::
  "u32 option \<Rightarrow> u64 \<Rightarrow> PropertyTreeMessages \<Rightarrow> atree \<Rightarrow> atree \<times> PropertyTreeMessages option" where
  "spec_handle sid next (CreateRequest m) A =
     (if A (CreateRequest_parentUuid m) = None
      then (A, Some (CreateReject \<lparr>CreateReject_cause = NOT_FOUND\<rparr>))
      else case sid of
             None \<Rightarrow> (A, None)
           | Some i \<Rightarrow>
               if has_child A (CreateRequest_parentUuid m) (CreateRequest_name m)
               then (A, Some (CreateReject \<lparr>CreateReject_cause = ALREADY_EXIST\<rparr>))
               else (A(next \<mapsto> \<lparr>a_name = CreateRequest_name m,
                        a_parent = Some (CreateRequest_parentUuid m), a_owner = i, a_data = [],
                        a_subscribers = {}\<rparr>),
                     Some (CreateAccept \<lparr>CreateAccept_uuid = next\<rparr>)))"
| "spec_handle sid next (DeleteRequest m) A =
     (if A (DeleteRequest_uuid m) = None
      then (A, Some (DeleteResponse \<lparr>DeleteResponse_cause = NOT_FOUND\<rparr>))
      else if is_parent A (DeleteRequest_uuid m)
      then (A, Some (DeleteResponse \<lparr>DeleteResponse_cause = NOT_EMPTY\<rparr>))
      else (A(DeleteRequest_uuid m := None), Some (DeleteResponse \<lparr>DeleteResponse_cause = OK\<rparr>)))"
| "spec_handle sid next (SetValueRequest m) A =
     (case A (SetValueRequest_uuid m) of
        None \<Rightarrow> (A, None)
      | Some a \<Rightarrow> (A(SetValueRequest_uuid m \<mapsto> a\<lparr>a_data := SetValueRequest_data m\<rparr>),
                   Some (SetValueAccept \<lparr>SetValueAccept_spare = 0\<rparr>)))"
| "spec_handle sid next (GetRequest m) A =
     (A, Some (case A (GetRequest_uuid m) of
                 None \<Rightarrow> GetReject \<lparr>GetReject_cause = NOT_FOUND\<rparr>
               | Some a \<Rightarrow> GetAccept \<lparr>GetAccept_data = a_data a\<rparr>))"
| "spec_handle sid next (SubscribeRequest m) A =
     (case A (SubscribeRequest_uuid m) of
        None \<Rightarrow> (A, Some (SubscribeResponse \<lparr>SubscribeResponse_cause = NOT_FOUND\<rparr>))
      | Some a \<Rightarrow> (case sid of
            None \<Rightarrow> (A, None)
          | Some i \<Rightarrow> (A(SubscribeRequest_uuid m \<mapsto> a\<lparr>a_subscribers := insert i (a_subscribers a)\<rparr>),
                       Some (SubscribeResponse \<lparr>SubscribeResponse_cause = OK\<rparr>))))"
| "spec_handle sid next (UnsubscribeRequest m) A =
     (case A (UnsubscribeRequest_uuid m) of
        None \<Rightarrow> (A, Some (UnsubscribeResponse \<lparr>UnsubscribeResponse_cause = NOT_FOUND\<rparr>))
      | Some a \<Rightarrow> (case sid of
            None \<Rightarrow> (A, None)
          | Some i \<Rightarrow>
              if i \<in> a_subscribers a
              then (A(UnsubscribeRequest_uuid m \<mapsto> a\<lparr>a_subscribers := a_subscribers a - {i}\<rparr>),
                    Some (UnsubscribeResponse \<lparr>UnsubscribeResponse_cause = OK\<rparr>))
              else (A, Some (UnsubscribeResponse \<lparr>UnsubscribeResponse_cause = NOT_FOUND\<rparr>))))"
| "spec_handle sid next _ A = (A, None)"

section \<open>Abstraction\<close>

definition abs_node :: "ProtocolHandler \<Rightarrow> ref \<Rightarrow> anode" where
  "abs_node s r = \<lparr>a_name = node_name (heap s r),
     a_parent = map_option (\<lambda>p. node_uuid (heap s p)) (node_parent (heap s r)),
     a_owner = node_sessionId (heap s r), a_data = node_data (heap s r),
     a_subscribers = dom (map_of (node_listener (heap s r)))\<rparr>"

definition abs_tree :: "ProtocolHandler \<Rightarrow> atree" where
  "abs_tree s u = map_option (abs_node s) (tree s u)"

lemma abs_tree_None [simp]: "abs_tree s u = None \<longleftrightarrow> tree s u = None"
  by (simp add: abs_tree_def)

lemma abs_tree_absent: "tree s u = None \<Longrightarrow> abs_tree s u = None"
  by simp

lemma abs_tree_Some: "tree s u = Some r \<Longrightarrow> abs_tree s u = Some (abs_node s r)"
  by (simp add: abs_tree_def)

lemma abs_tree_cong: "mTree s' = mTree s \<Longrightarrow> heap s' = heap s \<Longrightarrow> abs_tree s' = abs_tree s"
  by (simp add: abs_tree_def abs_node_def fun_eq_iff cong: option.map_cong)

lemma abs_parent:
  assumes "tree_inv s" "tree s v = Some c" "tree s u = Some r" "a_parent (abs_node s c) = Some u"
  shows "node_parent (heap s c) = Some r"
proof (cases "v = 0")
  case True
  with root_parent [OF assms(1)] assms(2,4) show ?thesis
    by (simp add: abs_node_def)
next
  case False
  from tree_parentE [OF assms(1,2) this] obtain w p where
    p: "node_parent (heap s c) = Some p" "tree s w = Some p" by blast
  with assms(4) tree_nodeD(3) [OF assms(1) p(2)] have "w = u"
    by (simp add: abs_node_def)
  with p assms(3) show ?thesis by simp
qed

lemma has_child_abs:
  assumes inv: "tree_inv s" and r: "tree s u = Some r"
  shows "has_child (abs_tree s) u n \<longleftrightarrow> child s r n \<noteq> None"
proof
  assume "has_child (abs_tree s) u n"
  then obtain v c where c: "tree s v = Some c" "a_parent (abs_node s c) = Some u" "node_name (heap s c) = n"
    by (auto simp: has_child_def abs_tree_def abs_node_def)
  have p: "node_parent (heap s c) = Some r"
    by (rule abs_parent [OF inv c(1) r c(2)])
  obtain root where "tree s 0 = Some root" "node_parent (heap s root) = None"
    using inv by (rule tree_root)
  with p c(1) have "v \<noteq> 0" by auto
  from tree_parentE [OF inv c(1) this] p c(3) show "child s r n \<noteq> None" by auto
next
  assume "child s r n \<noteq> None"
  then obtain c where c: "child s r n = Some c" by auto
  from tree_childE [OF inv r c] obtain v where
    v: "tree s v = Some c" "node_name (heap s c) = n" "node_parent (heap s c) = Some r" by blast
  have "a_parent (abs_node s c) = Some u" "a_name (abs_node s c) = n"
    using v tree_nodeD(3) [OF inv r] by (simp_all add: abs_node_def)
  then show "has_child (abs_tree s) u n"
    unfolding has_child_def using abs_tree_Some [of s, OF v(1)] by blast
qed

lemma is_parent_abs:
  assumes "tree_inv s" "tree s u = Some r"
  shows "is_parent (abs_tree s) u \<longleftrightarrow> node_children (heap s r) \<noteq> []"
  unfolding is_parent_def has_child_abs [OF assms]
  using om.items_empty [OF tree_nodeD(5) [OF assms]] by (auto simp: fun_eq_iff)

section \<open>Each change of the store\<close>

lemma abs_node_update:
  assumes inv: "tree_inv s" and r: "tree s u = Some r" and shape: "same_shape obj (heap s r)"
  shows "abs_tree (s\<lparr>heap := (heap s)(r := obj)\<rparr>) = (abs_tree s)(u \<mapsto>
    (abs_node s r)\<lparr>a_data := node_data obj, a_subscribers := dom (map_of (node_listener obj))\<rparr>)"
proof
  fix v
  let ?s = "s\<lparr>heap := (heap s)(r := obj)\<rparr>"
  have uuid: "node_uuid (heap ?s p) = node_uuid (heap s p)" for p
    using shape by (simp add: same_shape_def)
  then have uuids: "(\<lambda>p. node_uuid (heap ?s p)) = (\<lambda>p. node_uuid (heap s p))" by blast
  have "abs_node ?s x = abs_node s x" if "x \<noteq> r" for x
    using that uuids by (simp add: abs_node_def)
  moreover have "abs_node ?s r =
      (abs_node s r)\<lparr>a_data := node_data obj, a_subscribers := dom (map_of (node_listener obj))\<rparr>"
    using uuids shape by (simp add: abs_node_def same_shape_def)
  moreover have "x \<noteq> r" if "tree s v = Some x" "v \<noteq> u" for x
    using tree_inj [OF inv r] that by blast
  ultimately show "abs_tree ?s v = ((abs_tree s)(u \<mapsto>
      (abs_node s r)\<lparr>a_data := node_data obj, a_subscribers := dom (map_of (node_listener obj))\<rparr>)) v"
    using r by (cases "tree s v") (auto simp: abs_tree_def)
qed

lemma abs_inserted:
  assumes inv: "tree_inv s" and p: "tree s u = Some p"
  shows "abs_tree (inserted s p n sid) = (abs_tree s)(ucast (mUuidCtr s) \<mapsto>
    \<lparr>a_name = n, a_parent = Some u, a_owner = sid, a_data = [], a_subscribers = {}\<rparr>)"
proof
  fix v
  let ?s = "inserted s p n sid"
  note acc = inserted_access [OF inv p, where n = n and sid = sid]
  have "abs_node ?s x = abs_node s x" if x: "tree s v = Some x" for x
  proof -
    have "x \<noteq> nextRef s" using tree_fresh_ref [OF inv x] .
    moreover have "node_parent (heap s x) = Some q \<Longrightarrow> q \<noteq> nextRef s" for q
    proof (cases "v = 0")
      case True
      then show "node_parent (heap s x) = Some q \<Longrightarrow> q \<noteq> nextRef s"
        using root_parent [OF inv] x by simp
    next
      case False
      then show "node_parent (heap s x) = Some q \<Longrightarrow> q \<noteq> nextRef s"
        using tree_parentE [OF inv x False] tree_fresh_ref [OF inv] by (metis option.inject)
    qed
    ultimately show ?thesis
      using acc(4) by (cases "node_parent (heap s x)") (simp_all add: abs_node_def)
  qed
  moreover have "abs_node ?s (nextRef s) =
      \<lparr>a_name = n, a_parent = Some u, a_owner = sid, a_data = [], a_subscribers = {}\<rparr>"
    using acc(3,4) tree_nodeD(3) [OF inv p] tree_fresh_ref [OF inv p]
    by (simp add: abs_node_def new_Node_def)
  ultimately show "abs_tree ?s v = ((abs_tree s)(ucast (mUuidCtr s) \<mapsto>
      \<lparr>a_name = n, a_parent = Some u, a_owner = sid, a_data = [], a_subscribers = {}\<rparr>)) v"
    using acc(1) by (cases "tree s v") (auto simp: abs_tree_def)
qed

lemma abs_removed:
  "abs_tree ((removed s u r p)\<lparr>live := l\<rparr>) = (abs_tree s)(u := None)"
proof -
  have "abs_node ((removed s u r p)\<lparr>live := l\<rparr>) = abs_node s"
    by (simp add: abs_node_def removed_access fun_eq_iff)
  then show ?thesis
    by (simp add: abs_tree_def fun_eq_iff removed_access cong: option.map_cong)
qed

section \<open>Refinement\<close>

text \<open>
  Where there is an answer it goes to the sender, first and under the transaction id of the
  request; all that follows are notifications, under the reserved id.
\<close>

fun is_notification :: "action \<Rightarrow> bool" where
  "is_notification (Send c (PropertyTreeMessage m)) =
     (transactionId m = notification_id \<and>
      (case message m of TreeUpdateNotification _ \<Rightarrow> True | UpdateNotification _ \<Rightarrow> True | _ \<Rightarrow> False))"
| "is_notification _ = False"

definition answered :: "u16 \<Rightarrow> conn \<Rightarrow> PropertyTreeMessages option \<Rightarrow> action list \<Rightarrow> bool" where
  "answered t c reply out \<longleftrightarrow>
     (case reply of
        None \<Rightarrow> out = []
      | Some m \<Rightarrow> out \<noteq> [] \<and> hd out = Send c (single t m) \<and> list_all is_notification (tl out))"

fun tree_request :: "PropertyTreeMessages \<Rightarrow> bool" where
  "tree_request (CreateRequest _) = True"
| "tree_request (DeleteRequest _) = True"
| "tree_request (SetValueRequest m) =
     (\<not> (SetValueRequest_uuid m = 0 \<and> terminate_value (SetValueRequest_data m)))"
| "tree_request (GetRequest _) = True"
| "tree_request (SubscribeRequest _) = True"
| "tree_request (UnsubscribeRequest _) = True"
| "tree_request _ = False"

lemma answered_simps [simp]:
  "answered t c None out \<longleftrightarrow> out = []"
  "answered t c (Some m) (a # out) \<longleftrightarrow> a = Send c (single t m) \<and> list_all is_notification out"
  by (auto simp: answered_def)

lemma broadcast_notifications:
  "list_all is_notification (broadcast s (single notification_id (TreeUpdateNotification m)))"
  by (auto simp: broadcast_def list_all_iff send_to_def single_def split: option.splits)

lemma update_notifications:
  "list_all is_notification (map (\<lambda>w. Send w (single notification_id (UpdateNotification m))) ws)"
  by (simp add: list_all_iff single_def)

lemma refine_Create:
  assumes "proto_inv (Suc k) s"
  shows "abs_tree (fst (handle_CreateRequest t m c s)) =
      fst (spec_handle (session_of s c) (ucast (mUuidCtr s)) (CreateRequest m) (abs_tree s)) \<and>
    answered t c (snd (spec_handle (session_of s c) (ucast (mUuidCtr s)) (CreateRequest m) (abs_tree s)))
      (snd (handle_CreateRequest t m c s))"
proof -
  have inv: "tree_inv s" using assms by (simp add: proto_inv_def)
  have "has_child (abs_tree s) u n \<longleftrightarrow> n \<in> fst ` set (node_children (heap s p))"
    if "tree s u = Some p" for u p n
    using has_child_abs [OF inv that] by (simp add: map_of_eq_None_iff)
  then show ?thesis
    by (auto simp: handle_CreateRequest_eq Let_def abs_inserted [OF inv] broadcast_notifications
        split: option.splits)
qed

lemma refine_Delete:
  assumes "proto_inv k s" "handle_DeleteRequest t m c s = Inr (s', out)"
  shows "abs_tree s' = fst (spec_handle sid n (DeleteRequest m) (abs_tree s)) \<and>
    answered t c (snd (spec_handle sid n (DeleteRequest m) (abs_tree s))) out"
proof -
  have inv: "tree_inv s" using assms by (simp add: proto_inv_def)
  show ?thesis
    using assms(2) is_parent_abs [OF inv]
    by (auto simp: handle_DeleteRequest_eq [OF inv] Let_def abs_removed broadcast_notifications
        split: option.splits if_splits)
qed

lemma refine_SetValue:
  assumes "proto_inv k s" "tree_request (SetValueRequest m)"
  shows "abs_tree (fst (handle_SetValueRequest held t m c s)) =
      fst (spec_handle sid n (SetValueRequest m) (abs_tree s)) \<and>
    answered t c (snd (spec_handle sid n (SetValueRequest m) (abs_tree s)))
      (snd (handle_SetValueRequest held t m c s))"
proof -
  have inv: "tree_inv s" using assms by (simp add: proto_inv_def)
  have "abs_tree (s\<lparr>heap := (heap s)(r := (heap s r)\<lparr>node_data := d\<rparr>)\<rparr>) =
      (abs_tree s)(u \<mapsto> (abs_node s r)\<lparr>a_data := d\<rparr>)" if "tree s u = Some r" for u r d
    unfolding abs_node_update [OF inv that same_shape_updates(1)] by (simp add: abs_node_def)
  with assms(2) show ?thesis
    by (cases "tree s (SetValueRequest_uuid m)")
      (auto simp: handle_SetValueRequest_eq [OF assms(1)] abs_tree_Some abs_tree_absent update_notifications)
qed

lemma refine_Subscribe:
  assumes "proto_inv k s"
  shows "abs_tree (fst (handle_SubscribeRequest t m c s)) =
      fst (spec_handle (session_of s c) n (SubscribeRequest m) (abs_tree s)) \<and>
    answered t c (snd (spec_handle (session_of s c) n (SubscribeRequest m) (abs_tree s)))
      (snd (handle_SubscribeRequest t m c s))"
proof -
  have inv: "tree_inv s" using assms by (simp add: proto_inv_def)
  have "abs_tree (s\<lparr>heap := (heap s)(r := (heap s r)\<lparr>node_listener :=
        um_assign i w (node_listener (heap s r))\<rparr>)\<rparr>) =
      (abs_tree s)(u \<mapsto> (abs_node s r)\<lparr>a_subscribers := insert i (a_subscribers (abs_node s r))\<rparr>)"
    if "tree s u = Some r" for u r i w
    unfolding abs_node_update [OF inv that same_shape_updates(2)]
    by (simp add: abs_node_def map_of_um_assign)
  then show ?thesis
    by (cases "tree s (SubscribeRequest_uuid m)")
      (auto simp: handle_SubscribeRequest_def abs_tree_Some abs_tree_absent split: option.split)
qed

lemma refine_Unsubscribe:
  assumes "proto_inv k s"
  shows "abs_tree (fst (handle_UnsubscribeRequest t m c s)) =
      fst (spec_handle (session_of s c) n (UnsubscribeRequest m) (abs_tree s)) \<and>
    answered t c (snd (spec_handle (session_of s c) n (UnsubscribeRequest m) (abs_tree s)))
      (snd (handle_UnsubscribeRequest t m c s))"
proof -
  have inv: "tree_inv s" using assms by (simp add: proto_inv_def)
  have "abs_tree (s\<lparr>heap := (heap s)(r := (heap s r)\<lparr>node_listener :=
        um_erase i (node_listener (heap s r))\<rparr>)\<rparr>) =
      (abs_tree s)(u \<mapsto> (abs_node s r)\<lparr>a_subscribers := a_subscribers (abs_node s r) - {i}\<rparr>)"
    if "tree s u = Some r" for u r i
    unfolding abs_node_update [OF inv that same_shape_updates(2)]
    by (simp add: abs_node_def um_find_erase)
  moreover have "i \<in> a_subscribers (abs_node s r) \<longleftrightarrow> map_of (node_listener (heap s r)) i \<noteq> None" for i r
    by (auto simp: abs_node_def)
  ultimately show ?thesis
    by (cases "tree s (UnsubscribeRequest_uuid m)")
      (auto simp: handle_UnsubscribeRequest_def Let_def abs_tree_Some abs_tree_absent split: option.split)
qed

lemma refine_handle:
  assumes "proto_inv (Suc k) s" "handle held t m c s = Inr (s', out)" "tree_request m"
  shows "abs_tree s' = fst (spec_handle (session_of s c) (ucast (mUuidCtr s)) m (abs_tree s)) \<and>
    answered t c (snd (spec_handle (session_of s c) (ucast (mUuidCtr s)) m (abs_tree s))) out"
proof (cases m)
  case (CreateRequest x)
  with assms refine_Create [OF assms(1), of t x c] show ?thesis by simp
next
  case (DeleteRequest x)
  with assms refine_Delete [OF assms(1), of t x c s' out] show ?thesis by simp
next
  case (SetValueRequest x)
  with assms refine_SetValue [OF assms(1), of x held t c] show ?thesis by simp
next
  case (GetRequest x)
  with assms(2) show ?thesis
    by (auto simp: handle_GetRequest_def abs_tree_def abs_node_def split: option.splits)
next
  case (SubscribeRequest x)
  with assms refine_Subscribe [OF assms(1), of t x c] show ?thesis by simp
next
  case (UnsubscribeRequest x)
  with assms refine_Unsubscribe [OF assms(1), of t x c] show ?thesis by simp
qed (use assms(3) in simp_all)

text \<open>No other message touches the tree.\<close>

lemma rpc_abs: "handle_RpcRequest t m c s = Inr (s', out) \<Longrightarrow> abs_tree s' = abs_tree s"
  by (auto simp: handle_RpcRequest_def Let_def split: option.splits intro!: abs_tree_cong)

lemma handleRpc_abs: "abs_tree (fst (handleRpc t m c s)) = abs_tree s"
  by (auto simp: handleRpc_def Let_def split: option.splits intro!: abs_tree_cong)

lemma signin_abs: "abs_tree (fst (handle_SigninRequest t m c s)) = abs_tree s"
  by (auto simp: handle_SigninRequest_def Let_def intro!: abs_tree_cong)

lemma onDisconnect_abs: "onDisconnect c s = Inr s' \<Longrightarrow> abs_tree s' = abs_tree s"
  by (auto simp: onDisconnect_def Let_def split: option.splits intro!: abs_tree_cong)

lemma other_handle:
  assumes "proto_inv (Suc k) s" "handle held t m c s = Inr (s', out)" "\<not> tree_request m"
  shows "abs_tree s' = abs_tree s"
proof -
  have inv: "tree_inv s" using assms by (simp add: proto_inv_def)
  show ?thesis
  proof (cases m)
    case (SigninRequest x)
    with assms(2) signin_abs [of t x c s] show ?thesis by simp
  next
    case (TreeInfoRequest x)
    with assms(2) handle_TreeInfoRequest_ok [OF inv, of t x c] show ?thesis by auto
  next
    case (RpcRequest x)
    with assms(2) show ?thesis by (simp add: rpc_abs)
  next
    case (RpcAccept x)
    with assms(2) handleRpc_abs [of t m c s] show ?thesis by simp
  next
    case (RpcReject x)
    with assms(2) handleRpc_abs [of t m c s] show ?thesis by simp
  qed (use assms(2,3) in \<open>simp_all add: handle_SetValueRequest_def handle_HearbeatRequest_def\<close>)
qed

end
