(* ===== verification/Machine.thy ===== *)
theory Machine
  imports Prelude
begin

text \<open>
  The interface between a component that handles events one at a time and the statements about
  runs of it. \<open>bounded_machine\<close> is a component with an invariant that a bounded supply is part
  of: every event uses some of it up (a counter moves on), and what is left is known afterwards.
  \<open>safe_machine\<close> adds a class of events that never lead to a fault.
\<close>

section \<open>Runs\<close>

fun run_steps :: "('e \<Rightarrow> 's \<Rightarrow> fault + ('s \<times> 'o list)) \<Rightarrow> 'e list \<Rightarrow> 's \<Rightarrow> fault + ('s \<times> 'o list)" where
  "run_steps step [] s = Inr (s, [])"
| "run_steps step (e # es) s =
     bindR (step e s) (\<lambda>(s', out). bindR (run_steps step es s') (\<lambda>(s'', out'). Inr (s'', out @ out')))"

lemma run_steps_append:
  "run_steps step (xs @ ys) s =
     bindR (run_steps step xs s)
       (\<lambda>(s', out). bindR (run_steps step ys s') (\<lambda>(s'', out'). Inr (s'', out @ out')))"
proof (induction xs arbitrary: s)
  case Nil
  show ?case by (cases "run_steps step ys s") auto
next
  case (Cons e es)
  show ?case
  proof (cases "step e s")
    case (Inr p)
    obtain s1 out1 where p: "p = (s1, out1)" by fastforce
    show ?thesis
    proof (cases "run_steps step es s1")
      case (Inr q)
      then show ?thesis
        using \<open>step e s = Inr p\<close> p Cons.IH [of s1]
        by (cases q, cases "run_steps step ys (fst q)") auto
    qed (use Inr p Cons.IH [of s1] in simp)
  qed simp
qed

section \<open>Invariants over runs\<close>

locale bounded_machine =
  fixes step :: "'e \<Rightarrow> 's \<Rightarrow> fault + ('s \<times> 'o list)"
    and cost :: "'e \<Rightarrow> nat"
    and inv :: "nat \<Rightarrow> 's \<Rightarrow> bool"
  assumes step_inv: "inv (cost e + k) s \<Longrightarrow> step e s = Inr (s', out) \<Longrightarrow> inv k s'"
begin

lemma run_inv:
  assumes "inv (sum_list (map cost es) + k) s" "run_steps step es s = Inr (s', out)"
  shows "inv k s'"
  using assms
proof (induction es arbitrary: s out)
  case (Cons e es)
  from Cons.prems(2) obtain s1 out1 out2 where
    "step e s = Inr (s1, out1)" "run_steps step es s1 = Inr (s', out2)" by auto
  with Cons.prems(1) step_inv [of e "sum_list (map cost es) + k" s s1 out1] show ?case
    by (auto simp: add.assoc intro: Cons.IH)
qed simp

text \<open>The same for the states in between.\<close>

lemma run_inv_prefix:
  assumes "inv (sum_list (map cost (xs @ ys)) + k) s" "run_steps step xs s = Inr (s', out)"
  shows "inv (sum_list (map cost ys) + k) s'"
  using assms by (intro run_inv [of xs "sum_list (map cost ys) + k"]) (simp_all add: add.assoc)

text \<open>
  A property of the state that every allowed event keeps holds after a run of allowed events, and
  what every allowed event keeps of the outputs holds of all outputs of the run.
\<close>

lemma run_keeps:
  assumes "inv (sum_list (map cost es) + k) s" "P s" "list_all ok es"
    and "run_steps step es s = Inr (s', out)"
    and "\<And>e k s s' out. inv (cost e + k) s \<Longrightarrow> P s \<Longrightarrow> ok e \<Longrightarrow> step e s = Inr (s', out) \<Longrightarrow>
           P s' \<and> list_all Q out"
  shows "P s' \<and> list_all Q out"
  using assms(1-4)
proof (induction es arbitrary: s out)
  case (Cons e es)
  from Cons.prems(4) obtain s1 out1 out2 where step: "step e s = Inr (s1, out1)"
    and rest: "run_steps step es s1 = Inr (s', out2)" and out: "out = out1 @ out2" by auto
  have inv: "inv (cost e + (sum_list (map cost es) + k)) s"
    using Cons.prems(1) by (simp add: add.assoc)
  have "P s1 \<and> list_all Q out1"
    using assms(5) [OF inv Cons.prems(2) _ step] Cons.prems(3) by simp
  moreover have "inv (sum_list (map cost es) + k) s1"
    using inv step by (rule step_inv)
  ultimately show ?case
    using Cons.IH [OF _ _ _ rest] Cons.prems(3) out by simp
qed simp

end

locale safe_machine = bounded_machine +
  fixes safe :: "'e \<Rightarrow> bool"
  assumes step_safe: "inv (cost e + k) s \<Longrightarrow> safe e \<Longrightarrow> \<exists>s' out. step e s = Inr (s', out)"
begin

lemma run_safe:
  assumes "inv (sum_list (map cost es) + k) s" "list_all safe es"
  shows "\<exists>s' out. run_steps step es s = Inr (s', out) \<and> inv k s'"
  using assms
proof (induction es arbitrary: s)
  case (Cons e es)
  have inv: "inv (cost e + (sum_list (map cost es) + k)) s"
    using Cons.prems(1) by (simp add: add.assoc)
  with Cons.prems(2) obtain s1 out1 where step: "step e s = Inr (s1, out1)"
    using step_safe by fastforce
  have "inv (sum_list (map cost es) + k) s1"
    using inv step by (rule step_inv)
  with Cons.IH [of s1] Cons.prems(2) obtain s2 out2 where
    "run_steps step es s1 = Inr (s2, out2)" "inv k s2" by auto
  with step show ?case by auto
qed simp

end

end
