(* ===== verification/ProtocolRun.thy ===== *)
theory ProtocolRun
  imports TreeSpec Machine
begin

text \<open>
  The protocol handler as a machine: the events are the messages that arrive on connections and the
  disconnections the server reports. The machine interfaces are interpreted on it, and lift the
  facts about single messages to every run.
\<close>

section \<open>Events\<close>

text \<open>
  \<open>Message held p c\<close>: the unit \<open>p\<close> arrives on \<open>c\<close> while the connections \<open>held\<close> have owners
  outside the handler.
\<close>

datatype proto_event = Message "conn list" PropertyTreeProtocol conn | Disconnect conn

fun proto_step :: "proto_event \<Rightarrow> ProtocolHandler \<Rightarrow> fault + (ProtocolHandler \<times> action list)" where
  "proto_step (Message held p c) s = onMsg held p c s"
| "proto_step (Disconnect c) s = bindR (onDisconnect c s) (\<lambda>s'. Inr (s', []))"

fun proto_cost :: "proto_event \<Rightarrow> nat" where
  "proto_cost (Message held p c) = messages_in p"
| "proto_cost (Disconnect c) = 0"

section \<open>Messages that leave the root alone\<close>

fun spares_root :: "PropertyTreeMessages \<Rightarrow> bool" where
  "spares_root (DeleteRequest m) = (DeleteRequest_uuid m \<noteq> 0)"
| "spares_root (RpcRequest m) = (RpcRequest_uuid m \<noteq> 0)"
| "spares_root _ = True"

fun protocol_all :: "(PropertyTreeMessages \<Rightarrow> bool) \<Rightarrow> PropertyTreeProtocol \<Rightarrow> bool" where
  "protocol_all P (PropertyTreeMessage m) = P (message m)"
| "protocol_all P (PropertyTreeMessageArray ms) = list_all (\<lambda>m. P (message m)) ms"

fun safe_event :: "proto_event \<Rightarrow> bool" where
  "safe_event (Message held p c) = protocol_all spares_root p"
| "safe_event (Disconnect c) = True"

lemma spares_root_handle:
  assumes "proto_inv k s" "spares_root m"
  shows "\<exists>s' out. handle held t m c s = Inr (s', out)"
proof (cases "handle held t m c s")
  case (Inl f)
  with handle_fault [OF assms(1)] assms(2) show ?thesis
    by (auto simp: deletes_root_def calls_root_def)
qed auto

lemma spares_root_array:
  assumes "proto_inv (length ms + k) s" "list_all (\<lambda>m. spares_root (message m)) ms"
  shows "\<exists>s' out. onMsg_array held ms c s = Inr (s', out)"
  using assms
proof (induction ms arbitrary: s)
  case (Cons m ms)
  have inv: "proto_inv (Suc (length ms + k)) s" using Cons.prems(1) by simp
  obtain s1 out1 where step: "handle held (transactionId m) (message m) c s = Inr (s1, out1)"
    using spares_root_handle [OF inv] Cons.prems(2) by fastforce
  have "proto_inv (length ms + k) s1"
    using inv step by (rule inv_handle)
  with Cons.IH Cons.prems(2) step show ?case
    by (fastforce simp: onMsg_message_def)
qed simp

interpretation ph: safe_machine proto_step proto_cost proto_inv safe_event
proof unfold_locales
  fix e k s s' out
  assume "proto_inv (proto_cost e + k) s" "proto_step e s = Inr (s', out)"
  then show "proto_inv k s'"
    by (cases e) (auto intro: inv_onMsg inv_onDisconnect)
next
  fix e k s
  assume "proto_inv (proto_cost e + k) s" "safe_event e"
  then show "\<exists>s' out. proto_step e s = Inr (s', out)"
  proof (cases e)
    case (Message held p c)
    with \<open>proto_inv (proto_cost e + k) s\<close> \<open>safe_event e\<close> show ?thesis
      by (cases p) (auto simp: onMsg_message_def intro: spares_root_handle spares_root_array)
  next
    case (Disconnect c)
    with \<open>proto_inv (proto_cost e + k) s\<close> show ?thesis
      using onDisconnect_ok [of s c] by (auto simp: proto_inv_def)
  qed
qed

section \<open>Calls in flight\<close>

text \<open>
  \<open>awaiting tr i t c n s\<close>: the call forwarded under \<open>tr\<close> came from session \<open>i\<close>, whose
  connection is \<open>c\<close>, under the transaction id \<open>t\<close>, and \<open>n\<close> calls have been forwarded since.
\<close>

definition awaiting :: "u16 \<Rightarrow> u32 \<Rightarrow> u16 \<Rightarrow> conn \<Rightarrow> nat \<Rightarrow> ProtocolHandler \<Rightarrow> bool" where
  "awaiting tr i t c n s \<longleftrightarrow> map_of (mTrIdTranslation s) tr = Some (i, t) \<and>
     session s i = Some \<lparr>connectionSession = Some c\<rparr> \<and> ucast (mTrIdCtr s) = tr + 1 + of_nat n"

fun answers_call :: "u16 \<Rightarrow> PropertyTreeMessage \<Rightarrow> bool" where
  "answers_call tr m = (transactionId m = tr \<and>
     (case message m of RpcAccept _ \<Rightarrow> True | RpcReject _ \<Rightarrow> True | _ \<Rightarrow> False))"

fun quiet_event :: "u16 \<Rightarrow> conn \<Rightarrow> proto_event \<Rightarrow> bool" where
  "quiet_event tr c (Message held (PropertyTreeMessage m) c') = (\<not> answers_call tr m)"
| "quiet_event tr c (Message held (PropertyTreeMessageArray ms) c') = list_all (\<lambda>m. \<not> answers_call tr m) ms"
| "quiet_event tr c (Disconnect c') = (c' \<noteq> c)"

lemma fresh_translation_id: "n < 2 ^ 16 - 1 \<Longrightarrow> (tr + 1 + of_nat n :: u16) \<noteq> tr"
proof
  assume n: "n < 2 ^ 16 - 1" and "(tr + 1 + of_nat n :: u16) = tr"
  then have "(word_of_nat (Suc n) :: u16) = 0" by (simp add: algebra_simps)
  then have "2 ^ LENGTH(16) dvd Suc n" by (simp only: word_of_nat_eq_0_iff)
  with n dvd_imp_le [of "2 ^ LENGTH(16)" "Suc n"] show False by simp
qed

text \<open>What each handler does to the translation table and the sessions.\<close>

lemma awaiting_cong:
  assumes "awaiting tr i t c n s" "mTrIdTranslation s' = mTrIdTranslation s"
    "mSessions s' = mSessions s" "mTrIdCtr s' = mTrIdCtr s"
  shows "awaiting tr i t c n s'"
  using assms by (simp add: awaiting_def)

lemma ucast_inc: "(ucast (x + 1 :: u32) :: u16) = ucast x + 1"
proof -
  have step: "(y + 1) mod 65536 = (y mod 4294967296 + 1) mod 65536" for y :: int
    using mod_add_left_eq [of "y mod 4294967296" 65536 1] mod_add_left_eq [of y 65536 1]
    by (simp add: mod_mod_cancel)
  show ?thesis
    by transfer (simp add: take_bit_eq_mod mod_simps mod_mod_cancel, rule step)
qed

lemma ucast_inc': "(ucast (1 + x :: u32) :: u16) = ucast x + 1"
  using ucast_inc [of x] by (simp only: add.commute)

lemma tables_unchanged:
  assumes "tree_inv s" "handle held t m c s = Inr (s', out)"
    and "\<not> (case m of SigninRequest _ \<Rightarrow> True | RpcRequest _ \<Rightarrow> True | RpcAccept _ \<Rightarrow> True | RpcReject _ \<Rightarrow> True
           | _ \<Rightarrow> False)"
  shows "mTrIdTranslation s' = mTrIdTranslation s \<and> mSessions s' = mSessions s \<and>
    mTrIdCtr s' = mTrIdCtr s"
proof (cases m)
  case (CreateRequest x)
  with assms(2) show ?thesis
    by (auto simp: handle_CreateRequest_eq inserted_def Let_def split: option.splits if_splits)
next
  case (TreeInfoRequest x)
  with assms(2) handle_TreeInfoRequest_ok [OF assms(1), of t x c] show ?thesis by auto
next
  case (DeleteRequest x)
  with assms(2) show ?thesis
    by (auto simp: handle_DeleteRequest_eq [OF assms(1)] removed_def Let_def split: option.splits if_splits)
next
  case (SetValueRequest x)
  with assms(2) show ?thesis
    by (auto simp: handle_SetValueRequest_def Let_def split: option.splits if_splits prod.splits)
next
  case (GetRequest x)
  with assms(2) show ?thesis by (auto simp: handle_GetRequest_def split: option.splits)
next
  case (SubscribeRequest x)
  with assms(2) show ?thesis by (auto simp: handle_SubscribeRequest_def Let_def split: option.splits)
next
  case (UnsubscribeRequest x)
  with assms(2) show ?thesis by (auto simp: handle_UnsubscribeRequest_def Let_def split: option.splits)
qed (use assms(2,3) in \<open>simp_all add: handle_HearbeatRequest_def\<close>)

lemma awaiting_Signin:
  assumes "tables_ok s" "awaiting tr i t c n s"
  shows "awaiting tr i t c n (fst (handle_SigninRequest t' m c' s))"
  using assms session_fresh [OF assms(1)]
  by (auto simp: awaiting_def handle_SigninRequest_def Let_def map_of_um_emplace)

lemma awaiting_Rpc:
  assumes "awaiting tr i t c n s" "n < 2 ^ 16 - 1" "handle_RpcRequest t' m c' s = Inr (s', out)"
  shows "awaiting tr i t c n s' \<or> awaiting tr i t c (Suc n) s'"
  using assms fresh_translation_id [OF assms(2), of tr]
  by (auto simp: awaiting_def handle_RpcRequest_def Let_def map_of_um_assign ucast_inc' algebra_simps
      split: option.splits)

lemma awaiting_handleRpc:
  assumes "awaiting tr i t c n s" "t' \<noteq> tr"
  shows "awaiting tr i t c n (fst (handleRpc t' m c' s))"
  using assms by (auto simp: awaiting_def handleRpc_def Let_def um_find_erase split: option.splits)

lemma awaiting_handle:
  assumes inv: "proto_inv (Suc k) s" and aw: "awaiting tr i t c n s" "n < 2 ^ 16 - 1"
    and step: "handle held t' m c' s = Inr (s', out)"
    and quiet: "\<not> answers_call tr \<lparr>transactionId = t', message = m\<rparr>"
  shows "awaiting tr i t c n s' \<or> awaiting tr i t c (Suc n) s'"
proof -
  from inv have parts: "tree_inv s" "tables_ok s" by (simp_all add: proto_inv_def session_inv_def)
  show ?thesis
  proof (cases m)
    case (SigninRequest x)
    with step awaiting_Signin [OF parts(2) aw(1), of t' x c'] show ?thesis by simp
  next
    case (RpcRequest x)
    with step awaiting_Rpc [OF aw] show ?thesis by simp
  next
    case (RpcAccept x)
    with step quiet awaiting_handleRpc [OF aw(1), of t' m c'] show ?thesis by simp
  next
    case (RpcReject x)
    with step quiet awaiting_handleRpc [OF aw(1), of t' m c'] show ?thesis by simp
  qed (use tables_unchanged [OF parts(1) step] aw(1) in \<open>auto intro: awaiting_cong\<close>)
qed

lemma awaiting_array:
  assumes "proto_inv (length ms + k) s" "awaiting tr i t c n s" "n + length ms < 2 ^ 16"
    and "onMsg_array held ms c' s = Inr (s', out)" "list_all (\<lambda>m. \<not> answers_call tr m) ms"
  shows "\<exists>n'. n' \<le> n + length ms \<and> awaiting tr i t c n' s'"
  using assms
proof (induction ms arbitrary: s n out)
  case (Cons m ms)
  from Cons.prems(4) obtain s1 out1 out2 where
    step: "handle held (transactionId m) (message m) c' s = Inr (s1, out1)"
    and rest: "onMsg_array held ms c' s1 = Inr (s', out2)"
    by (auto simp: onMsg_message_def)
  have inv: "proto_inv (Suc (length ms + k)) s" using Cons.prems(1) by simp
  have inv1: "proto_inv (length ms + k) s1" using inv step by (rule inv_handle)
  have "\<not> answers_call tr \<lparr>transactionId = transactionId m, message = message m\<rparr>"
    using Cons.prems(5) by simp
  with awaiting_handle [OF inv Cons.prems(2) _ step] Cons.prems(3)
  have "awaiting tr i t c n s1 \<or> awaiting tr i t c (Suc n) s1" by simp
  then obtain n1 where "n1 \<le> Suc n" "awaiting tr i t c n1 s1" by (auto intro: le_SucI)
  with Cons.IH [OF inv1 _ _ rest, of n1] Cons.prems(3,5) obtain n2 where
    "n2 \<le> n1 + length ms" "awaiting tr i t c n2 s'" by auto
  with \<open>n1 \<le> Suc n\<close> show ?case by (intro exI [of _ n2]) simp
qed auto

lemma awaiting_Disconnect:
  assumes "session_inv s" "awaiting tr i t c n s" "onDisconnect c' s = Inr s'" "c' \<noteq> c"
  shows "awaiting tr i t c n s'"
proof (cases "session_of s c'")
  case (Some j)
  with session_of_held [OF assms(1)] have "session s j = Some \<lparr>connectionSession = Some c'\<rparr>" by simp
  with assms Some show ?thesis
    by (auto simp: onDisconnect_def awaiting_def map_of_um_assign)
qed (use assms in \<open>simp add: onDisconnect_def\<close>)

lemma awaiting_step:
  assumes "proto_inv (proto_cost e + k) s" "awaiting tr i t c n s" "n + proto_cost e < 2 ^ 16"
    and "proto_step e s = Inr (s', out)" "quiet_event tr c e"
  shows "\<exists>n'. n' \<le> n + proto_cost e \<and> awaiting tr i t c n' s'"
proof (cases e)
  case (Message held p c')
  show ?thesis
  proof (cases p)
    case (PropertyTreeMessage m)
    with Message assms have step: "handle held (transactionId m) (message m) c' s = Inr (s', out)"
      and quiet: "\<not> answers_call tr \<lparr>transactionId = transactionId m, message = message m\<rparr>"
      and inv: "proto_inv (Suc k) s" and n: "n < 2 ^ 16 - 1"
      by (simp_all add: onMsg_message_def)
    from awaiting_handle [OF inv assms(2) n step quiet] show ?thesis
      using Message PropertyTreeMessage by (auto intro: le_SucI)
  next
    case (PropertyTreeMessageArray ms)
    with Message assms awaiting_array [of ms k s tr i t c n held c' s' out] show ?thesis by simp
  qed
next
  case (Disconnect c')
  with assms awaiting_Disconnect [of s tr i t c n c' s'] show ?thesis
    by (auto simp: proto_inv_def)
qed

lemma awaiting_run:
  assumes "proto_inv (sum_list (map proto_cost es) + k) s" "awaiting tr i t c n s"
    and "n + sum_list (map proto_cost es) < 2 ^ 16"
    and "run_steps proto_step es s = Inr (s', out)" "list_all (quiet_event tr c) es"
  shows "\<exists>n'. awaiting tr i t c n' s'"
  using assms
proof (induction es arbitrary: s n out)
  case (Cons e es)
  from Cons.prems(4) obtain s1 out1 out2 where step: "proto_step e s = Inr (s1, out1)"
    and rest: "run_steps proto_step es s1 = Inr (s', out2)" by auto
  have inv: "proto_inv (proto_cost e + (sum_list (map proto_cost es) + k)) s"
    using Cons.prems(1) by (simp add: add.assoc)
  have inv1: "proto_inv (sum_list (map proto_cost es) + k) s1"
    using inv step by (rule ph.step_inv)
  from awaiting_step [OF inv Cons.prems(2) _ step] Cons.prems(3,5) obtain n1 where
    "n1 \<le> n + proto_cost e" "awaiting tr i t c n1 s1" by fastforce
  with Cons.IH [OF inv1 _ _ rest, of n1] Cons.prems(3,5) show ?case by simp
qed auto

text \<open>A reply that comes in while the call is pending goes to the caller, and only once.\<close>

lemma awaiting_reply:
  assumes "awaiting tr i t c n s"
  shows "handleRpc tr m c' s =
    (s\<lparr>mTrIdTranslation := um_erase tr (mTrIdTranslation s)\<rparr>, [Send c (single t m)])"
  using assms by (simp add: awaiting_def handleRpc_def)

lemma rpc_forward:
  assumes inv: "proto_inv k s" and r: "tree s (RpcRequest_uuid m) = Some r" and i: "session_of s c = Some i"
    and target: "session s (node_sessionId (heap s r)) = Some \<lparr>connectionSession = Some d\<rparr>"
  obtains s' where
    "handle_RpcRequest t m c s = Inr (s', [Send d (single (ucast (mTrIdCtr s)) (RpcRequest m))])"
    "awaiting (ucast (mTrIdCtr s)) i t c 0 s'"
proof -
  have "session s i = Some \<lparr>connectionSession = Some c\<rparr>"
    using inv i by (auto simp: proto_inv_def dest: session_of_held)
  with assms show thesis
    by (intro that) (auto simp: handle_RpcRequest_def Let_def awaiting_def map_of_um_assign ucast_inc)
qed

end
