(* ===== verification/RunFacts.thy ===== *)
theory RunFacts
  imports ProtocolRun
begin

text \<open>
  What holds of the protocol handler over whole runs: how facts about one message lift to runs of
  messages and disconnections, which nodes and values a run leaves alone, and whom the server
  writes to.
\<close>

section \<open>From messages to runs\<close>

fun event_all ::
  "(conn list \<Rightarrow> conn \<Rightarrow> u16 \<Rightarrow> PropertyTreeMessages \<Rightarrow> bool) \<Rightarrow> (conn \<Rightarrow> bool) \<Rightarrow> proto_event \<Rightarrow> bool" where
  "event_all okm okd (Message held (PropertyTreeMessage m) c) = okm held c (transactionId m) (message m)"
| "event_all okm okd (Message held (PropertyTreeMessageArray ms) c) =
     list_all (\<lambda>m. okm held c (transactionId m) (message m)) ms"
| "event_all okm okd (Disconnect c) = okd c"

lemma keeps_array:
  assumes "\<And>k t m s s' out. proto_inv (Suc k) s \<Longrightarrow> P s \<Longrightarrow> okm t m \<Longrightarrow>
      handle held t m c s = Inr (s', out) \<Longrightarrow> P s' \<and> list_all Q out"
    and "proto_inv (length ms + k) s" "P s" "list_all (\<lambda>m. okm (transactionId m) (message m)) ms"
    and "onMsg_array held ms c s = Inr (s', out)"
  shows "P s' \<and> list_all Q out"
  using assms(2-)
proof (induction ms arbitrary: s out)
  case (Cons m ms)
  from Cons.prems(4) obtain s1 out1 out2 where
    step: "handle held (transactionId m) (message m) c s = Inr (s1, out1)"
    and rest: "onMsg_array held ms c s1 = Inr (s', out2)" and out: "out = out1 @ out2"
    by (auto simp: onMsg_message_def)
  have inv: "proto_inv (Suc (length ms + k)) s" using Cons.prems(1) by simp
  have "P s1 \<and> list_all Q out1"
    using assms(1) [OF inv Cons.prems(2) _ step] Cons.prems(3) by simp
  moreover have "proto_inv (length ms + k) s1" using inv step by (rule inv_handle)
  ultimately show ?case
    using Cons.IH [OF _ _ _ rest] Cons.prems(3) out by simp
qed simp

lemma proto_keeps:
  assumes "proto_inv (sum_list (map proto_cost es) + k) s" "P s" "list_all (event_all okm okd) es"
    and "run_steps proto_step es s = Inr (s', out)"
    and "\<And>k held c t m s s' out. proto_inv (Suc k) s \<Longrightarrow> P s \<Longrightarrow> okm held c t m \<Longrightarrow>
           handle held t m c s = Inr (s', out) \<Longrightarrow> P s' \<and> list_all Q out"
    and "\<And>k c s s'. proto_inv k s \<Longrightarrow> P s \<Longrightarrow> okd c \<Longrightarrow> onDisconnect c s = Inr s' \<Longrightarrow> P s'"
  shows "P s' \<and> list_all Q out"
  using assms(1-4)
proof (rule ph.run_keeps)
  fix e k s s' out
  assume inv: "proto_inv (proto_cost e + k) s" and P: "P s" and ok: "event_all okm okd e"
    and step: "proto_step e s = Inr (s', out)"
  show "P s' \<and> list_all Q out"
  proof (cases e)
    case (Message held p c)
    show ?thesis
    proof (cases p)
      case (PropertyTreeMessage m)
      with Message inv P ok step show ?thesis
        using assms(5) [of k s held c "transactionId m" "message m" s' out]
        by (simp add: onMsg_message_def)
    next
      case (PropertyTreeMessageArray ms)
      with Message inv P ok step show ?thesis
        using keeps_array [of P "okm held c" held c Q ms k s s' out, OF assms(5)] by simp
    qed
  next
    case (Disconnect c)
    with step obtain s1 where "onDisconnect c s = Inr s1" "s' = s1" "out = []" by auto
    with assms(6) [of k s c] Disconnect inv P ok show ?thesis by simp
  qed
qed

section \<open>What a message does to the abstract tree\<close>

lemma handle_abs:
  assumes "proto_inv (Suc k) s" "handle held t m c s = Inr (s', out)"
  shows "abs_tree s' =
    (if tree_request m then fst (spec_handle (session_of s c) (ucast (mUuidCtr s)) m (abs_tree s))
     else abs_tree s)"
  using refine_handle [OF assms] other_handle [OF assms] by simp

lemma abs_fresh: "tree_inv s \<Longrightarrow> abs_tree s (ucast (mUuidCtr s)) = None"
  by (simp add: tree_fresh_uuid)

lemma uuid_counter_handle:
  assumes "proto_inv (Suc k) s" "handle held t m c s = Inr (s', out)"
  shows "unat (mUuidCtr s) \<le> unat (mUuidCtr s')"
proof -
  have inv: "tree_inv s" and lt: "unat (mUuidCtr s) < 2 ^ 32 - 1"
    using assms(1) by (simp_all add: proto_inv_def counters_below_def)
  show ?thesis
  proof (cases m)
    case (CreateRequest x)
    with assms(2) unat_inc_u32 [OF lt] show ?thesis
      by (auto simp: handle_CreateRequest_eq inserted_def Let_def split: option.splits if_splits)
  next
    case (TreeInfoRequest x)
    with assms(2) handle_TreeInfoRequest_ok [OF inv, of t x c] show ?thesis by auto
  next
    case (DeleteRequest x)
    with assms(2) show ?thesis
      by (auto simp: handle_DeleteRequest_eq [OF inv] removed_def Let_def split: option.splits if_splits)
  qed (use assms(2) in \<open>auto simp: handle_SetValueRequest_def handle_GetRequest_def handle_SubscribeRequest_def
      handle_UnsubscribeRequest_def handle_HearbeatRequest_def handle_SigninRequest_def handle_RpcRequest_def
      handleRpc_def Let_def split: option.splits if_splits prod.splits\<close>)
qed

lemma spec_absent: "u \<noteq> next \<Longrightarrow> A u = None \<Longrightarrow> fst (spec_handle sid next m A) u = None"
  by (cases m) (auto split: option.splits)

text \<open>A uuid that was handed out and is free again.\<close>

definition gone :: "u64 \<Rightarrow> ProtocolHandler \<Rightarrow> bool" where
  "gone u s \<longleftrightarrow> abs_tree s u = None \<and> unat u < unat (mUuidCtr s)"

lemma gone_handle:
  assumes "proto_inv (Suc k) s" "handle held t m c s = Inr (s', out)" "gone u s"
  shows "gone u s'"
proof -
  have "u \<noteq> ucast (mUuidCtr s)" using assms(3) by (auto simp: gone_def)
  then have "abs_tree s' u = None"
    using assms(3) handle_abs [OF assms(1,2)] spec_absent [of u "ucast (mUuidCtr s)" "abs_tree s"]
    by (simp add: gone_def del: abs_tree_None)
  with uuid_counter_handle [OF assms(1,2)] assms(3) show ?thesis by (simp add: gone_def)
qed

lemma gone_onDisconnect: "onDisconnect c s = Inr s' \<Longrightarrow> gone u s \<Longrightarrow> gone u s'"
  using onDisconnect_abs [of c s s']
  by (auto simp: gone_def onDisconnect_def Let_def split: option.splits)

text \<open>Messages that leave the node \<open>u\<close> in place, and those that leave its value alone as well.\<close>

definition deletes :: "u64 \<Rightarrow> PropertyTreeMessages \<Rightarrow> bool" where
  "deletes u m \<longleftrightarrow> m = DeleteRequest \<lparr>DeleteRequest_uuid = u\<rparr>"

fun writes :: "u64 \<Rightarrow> PropertyTreeMessages \<Rightarrow> bool" where
  "writes u (SetValueRequest m) = (SetValueRequest_uuid m = u)"
| "writes u _ = False"

definition holds :: "u64 \<Rightarrow> u8 list \<Rightarrow> ProtocolHandler \<Rightarrow> bool" where
  "holds u d s \<longleftrightarrow> (\<exists>a. abs_tree s u = Some a \<and> a_data a = d)"

lemma deletes_uuid: "deletes u (DeleteRequest m) \<longleftrightarrow> DeleteRequest_uuid m = u"
  by (cases m) (simp add: deletes_def)

lemma spec_keeps_data:
  "A u = Some a \<Longrightarrow> u \<noteq> next \<Longrightarrow> \<not> deletes u m \<Longrightarrow> \<not> writes u m \<Longrightarrow>
     \<exists>b. fst (spec_handle sid next m A) u = Some b \<and> a_data b = a_data a"
  by (cases m) (auto simp: deletes_uuid split: option.splits)

lemma holds_handle:
  assumes inv: "proto_inv (Suc k) s" and step: "handle held t m c s = Inr (s', out)"
    and "holds u d s" "\<not> deletes u m" "\<not> writes u m"
  shows "holds u d s'"
proof -
  from assms(3) obtain a where a: "abs_tree s u = Some a" "a_data a = d" by (auto simp: holds_def)
  have "tree_inv s" using inv by (simp add: proto_inv_def)
  then have "u \<noteq> ucast (mUuidCtr s)" using abs_fresh [of s] a(1) by fastforce
  with spec_keeps_data [of "abs_tree s" u a "ucast (mUuidCtr s)" m "session_of s c"]
  show ?thesis
    using a assms(4,5) handle_abs [OF inv step] by (auto simp: holds_def)
qed

lemma holds_onDisconnect: "onDisconnect c s = Inr s' \<Longrightarrow> holds u d s \<Longrightarrow> holds u d s'"
  by (simp add: holds_def onDisconnect_abs)

section \<open>Subscriptions that stay\<close>

definition signed_in :: "conn \<Rightarrow> u32 \<Rightarrow> ProtocolHandler \<Rightarrow> bool" where
  "signed_in c i s \<longleftrightarrow> session_of s c = Some i"

definition subscribed :: "u64 \<Rightarrow> u32 \<Rightarrow> ProtocolHandler \<Rightarrow> bool" where
  "subscribed u i s \<longleftrightarrow> (\<exists>a. abs_tree s u = Some a \<and> i \<in> a_subscribers a)"

definition unsubscribes :: "u64 \<Rightarrow> PropertyTreeMessages \<Rightarrow> bool" where
  "unsubscribes u m \<longleftrightarrow> m = UnsubscribeRequest \<lparr>UnsubscribeRequest_uuid = u\<rparr>"

lemma unsubscribes_uuid: "unsubscribes u (UnsubscribeRequest m) \<longleftrightarrow> UnsubscribeRequest_uuid m = u"
  by (cases m) (simp add: unsubscribes_def)

lemma spec_keeps_subscriber:
  "A u = Some a \<Longrightarrow> i \<in> a_subscribers a \<Longrightarrow> u \<noteq> next \<Longrightarrow> \<not> deletes u m \<Longrightarrow>
     (unsubscribes u m \<Longrightarrow> sid \<noteq> Some i) \<Longrightarrow>
     \<exists>b. fst (spec_handle sid next m A) u = Some b \<and> i \<in> a_subscribers b"
  by (cases m) (auto simp: deletes_uuid unsubscribes_uuid split: option.splits)

lemma session_unique:
  assumes "session_inv s" "session_of s c = Some i" "session_of s d = Some i"
  shows "c = d"
  using session_of_held [OF assms(1,2)] session_of_held [OF assms(1,3)] by simp

lemma signed_in_handle:
  assumes "tree_inv s" "handle held t m d s = Inr (s', out)" "signed_in c i s"
  shows "signed_in c i s'"
proof (cases m)
  case (CreateRequest x)
  with assms(2,3) show ?thesis
    by (auto simp: signed_in_def handle_CreateRequest_eq inserted_def Let_def split: option.splits if_splits)
next
  case (TreeInfoRequest x)
  with assms(2,3) handle_TreeInfoRequest_ok [OF assms(1), of t x d] show ?thesis by auto
next
  case (DeleteRequest x)
  with assms(2,3) show ?thesis
    by (auto simp: signed_in_def handle_DeleteRequest_eq [OF assms(1)] removed_def Let_def
        split: option.splits if_splits)
qed (use assms(2,3) in \<open>auto simp: signed_in_def handle_SetValueRequest_def handle_GetRequest_def
    handle_SubscribeRequest_def handle_UnsubscribeRequest_def handle_HearbeatRequest_def
    handle_SigninRequest_def handle_RpcRequest_def handleRpc_def Let_def map_of_um_emplace
    split: option.splits if_splits prod.splits\<close>)

text \<open>
  The subscription of \<open>c\<close> to \<open>u\<close> survives everything but the deletion of \<open>u\<close>, an
  unsubscription by \<open>c\<close> itself and its disconnection.
\<close>

definition keeps_subscription ::
  "u64 \<Rightarrow> conn \<Rightarrow> conn list \<Rightarrow> conn \<Rightarrow> u16 \<Rightarrow> PropertyTreeMessages \<Rightarrow> bool" where
  "keeps_subscription u c held d t m \<longleftrightarrow> \<not> deletes u m \<and> \<not> (d = c \<and> unsubscribes u m)"

lemma subscription_handle:
  assumes inv: "proto_inv (Suc k) s" and step: "handle held t m d s = Inr (s', out)"
    and "signed_in c i s" "subscribed u i s" "keeps_subscription u c held d t m"
  shows "signed_in c i s' \<and> subscribed u i s'"
proof -
  have parts: "tree_inv s" "session_inv s" using inv by (simp_all add: proto_inv_def)
  from assms(4) obtain a where a: "abs_tree s u = Some a" "i \<in> a_subscribers a"
    by (auto simp: subscribed_def)
  have "u \<noteq> ucast (mUuidCtr s)" using abs_fresh [OF parts(1)] a(1) by fastforce
  moreover have "session_of s d \<noteq> Some i" if "unsubscribes u m"
    using that assms(3,5) session_unique [OF parts(2)]
    by (auto simp: keeps_subscription_def signed_in_def)
  ultimately have "subscribed u i s'"
    using a assms(5) handle_abs [OF inv step]
      spec_keeps_subscriber [of "abs_tree s" u a i "ucast (mUuidCtr s)" m "session_of s d"]
    by (auto simp: subscribed_def keeps_subscription_def)
  with signed_in_handle [OF parts(1) step assms(3)] show ?thesis by simp
qed

lemma subscription_onDisconnect:
  assumes "onDisconnect d s = Inr s'" "d \<noteq> c" "signed_in c i s" "subscribed u i s"
  shows "signed_in c i s' \<and> subscribed u i s'"
proof -
  have "session_of s' c = session_of s c"
    using assms(1,2) by (auto simp: onDisconnect_def Let_def um_find_erase split: option.splits)
  with assms(3,4) onDisconnect_abs [OF assms(1)] show ?thesis
    by (simp add: signed_in_def subscribed_def)
qed

text \<open>A subscribed connection that is signed in is among those a change is announced to.\<close>

lemma subscriber_listed:
  assumes inv: "proto_inv k s" and r: "tree s u = Some r" and "signed_in c i s" "subscribed u i s"
  shows "c \<in> set (subscribers held s r)"
proof -
  from assms(4) r obtain w where w: "map_of (node_listener (heap s r)) i = Some w"
    by (auto simp: subscribed_def abs_tree_Some abs_node_def)
  have ses: "session s i = Some \<lparr>connectionSession = Some c\<rparr>"
    using inv assms(3) by (auto simp: proto_inv_def signed_in_def dest: session_of_held)
  with listener_session [OF inv r w] have "w = c" by (simp add: listener_ok_def)
  moreover have "lock_connection held (mSessions s) c \<noteq> None"
    using map_of_SomeD [OF ses] by (force simp: lock_connection_def)
  ultimately show ?thesis
    using map_of_SomeD [OF w] by (force simp: subscribers_def)
qed

section \<open>Whom the server writes to\<close>

definition silent :: "conn \<Rightarrow> ProtocolHandler \<Rightarrow> bool" where
  "silent c s \<longleftrightarrow> Some c \<notin> (connectionSession \<circ> snd) ` set (mSessions s)"

fun not_to :: "conn \<Rightarrow> action \<Rightarrow> bool" where
  "not_to c (Send d m) = (d \<noteq> c)"
| "not_to c Terminate = True"

lemma silent_session: "silent c s \<Longrightarrow> session s i \<noteq> Some \<lparr>connectionSession = Some c\<rparr>"
  by (force simp: silent_def dest: map_of_SomeD)

lemma silent_session': "silent c s \<Longrightarrow> session s i = Some x \<Longrightarrow> connectionSession x \<noteq> Some c"
  by (cases x) (auto dest: silent_session)

lemma silent_broadcast: "silent c s \<Longrightarrow> mSessions s' = mSessions s \<Longrightarrow> list_all (not_to c) (broadcast s' m)"
  by (force simp: silent_def broadcast_def list_all_iff send_to_def split: option.splits)

lemma silent_subscribers:
  "silent c s \<Longrightarrow> c \<notin> set held \<Longrightarrow> c \<notin> set (subscribers held s r)"
  by (auto simp: silent_def subscribers_def lock_connection_def)

text \<open>
  While no session holds \<open>c\<close>, and neither \<open>c\<close> itself nor an owner of it takes part, nothing is
  sent to \<open>c\<close>.
\<close>

definition without :: "conn \<Rightarrow> conn list \<Rightarrow> conn \<Rightarrow> u16 \<Rightarrow> PropertyTreeMessages \<Rightarrow> bool" where
  "without c held d t m \<longleftrightarrow> d \<noteq> c \<and> c \<notin> set held"

lemma set_um_emplace: "set (um_emplace k v m) \<subseteq> insert (k, v) (set m)"
  by (auto simp: um_emplace_def split: option.splits)

lemma silent_Signin:
  assumes "silent c s" "d \<noteq> c"
  shows "silent c (fst (handle_SigninRequest t m d s))"
  using assms set_um_emplace [of "mSessionIdCtr s" "\<lparr>connectionSession = Some d\<rparr>" "mSessions s"]
  by (fastforce simp: silent_def handle_SigninRequest_def Let_def)

lemma silent_handle:
  assumes inv: "proto_inv (Suc k) s" and step: "handle held t m d s = Inr (s', out)"
    and silent: "silent c s" and "without c held d t m"
  shows "silent c s' \<and> list_all (not_to c) out"
proof -
  have tree: "tree_inv s" using inv by (simp add: proto_inv_def)
  have d: "d \<noteq> c" "c \<notin> set (d # held)" using assms(4) by (simp_all add: without_def)
  have ses: "\<And>i x. session s i = Some x \<Longrightarrow> connectionSession x \<noteq> Some c"
    using silent by (rule silent_session')
  show ?thesis
  proof (cases m)
    case (SigninRequest x)
    with step silent_Signin [OF silent d(1), of t x] d show ?thesis
      by (auto simp: handle_SigninRequest_def Let_def)
  next
    case (CreateRequest x)
    with step silent d show ?thesis
      by (auto simp: handle_CreateRequest_eq Let_def inserted_def silent_def split: option.splits if_splits
          intro!: silent_broadcast [OF silent])
  next
    case (TreeInfoRequest x)
    with step silent d show ?thesis
      by (auto simp: handle_TreeInfoRequest_def Let_def split: option.splits if_splits)
  next
    case (DeleteRequest x)
    with step silent d show ?thesis
      by (auto simp: handle_DeleteRequest_eq [OF tree] Let_def removed_def silent_def
          split: option.splits if_splits intro!: silent_broadcast [OF silent])
  next
    case (SetValueRequest x)
    with step silent d silent_subscribers [OF silent d(2)] show ?thesis
      by (auto simp: handle_SetValueRequest_eq [OF inv] silent_def list_all_iff
          split: option.splits if_splits)
  qed (use step silent d in \<open>auto simp: handle_GetRequest_def handle_SubscribeRequest_def
      handle_UnsubscribeRequest_def handle_HearbeatRequest_def handle_RpcRequest_def handleRpc_def
      Let_def silent_def send_to_def split: option.splits if_splits
      dest: ses\<close>)
qed

lemma set_um_assign: "set (um_assign k v m) \<subseteq> insert (k, v) (set m)"
  by (induction m) auto

lemma silent_onDisconnect:
  assumes "onDisconnect d s = Inr s'" "silent c s"
  shows "silent c s'"
proof (cases "session_of s d")
  case (Some i)
  with assms(1) obtain x where s': "mSessions s' = um_assign i (x\<lparr>connectionSession := None\<rparr>) (mSessions s)"
    by (auto simp: onDisconnect_def Let_def split: option.splits)
  with assms(2) set_um_assign [of i "x\<lparr>connectionSession := None\<rparr>" "mSessions s"] show ?thesis
    by (fastforce simp: silent_def)
qed (use assms in \<open>simp add: onDisconnect_def\<close>)

text \<open>A connection that signed in at most once is in no session once it has disconnected.\<close>

lemma disconnect_silent:
  assumes "session_inv s" "onDisconnect c s = Inr s'"
    and "\<And>j. session s j = Some \<lparr>connectionSession = Some c\<rparr> \<Longrightarrow> session_of s c = Some j"
  shows "silent c s'"
proof -
  have wf: "um_wf (mSessions s)" using assms(1) by (simp add: session_inv_def tables_ok_def)
  have item: "session m j = Some \<lparr>connectionSession = Some c\<rparr>"
    if "(j, x) \<in> set (mSessions m)" "um_wf (mSessions m)" "connectionSession x = Some c" for j x m
    using that um.items_find [of "mSessions m" j x] by (cases x) simp
  show ?thesis
  proof (cases "session_of s c")
    case None
    with assms(2,3) item [of _ _ s] wf show ?thesis
      by (fastforce simp: onDisconnect_def silent_def)
  next
    case (Some i)
    from session_of_held [OF assms(1) this] Some assms(2)
    have s': "mSessions s' = um_assign i \<lparr>connectionSession = None\<rparr> (mSessions s)"
      by (auto simp: onDisconnect_def Let_def)
    show ?thesis
      unfolding silent_def
    proof
      assume "Some c \<in> (connectionSession \<circ> snd) ` set (mSessions s')"
      then obtain j x where jx: "(j, x) \<in> set (mSessions s')" "connectionSession x = Some c" by force
      with s' wf item [of j x s'] have "session s' j = Some \<lparr>connectionSession = Some c\<rparr>"
        by (simp add: um_wf_assign)
      with s' assms(3) [of j] Some show False by (simp add: map_of_um_assign split: if_splits)
    qed
  qed
qed

section \<open>The shape of the abstract tree\<close>

text \<open>
  A tree of named nodes: the root has no parent, every other node has a parent in the tree which is
  older, and the children of a node have different names.
\<close>

definition well_formed :: "atree \<Rightarrow> bool" where
  "well_formed A \<longleftrightarrow>
     (\<exists>a. A 0 = Some a \<and> a_parent a = None) \<and>
     (\<forall>u a. A u = Some a \<and> u \<noteq> 0 \<longrightarrow> (\<exists>p. a_parent a = Some p \<and> A p \<noteq> None \<and> p < u)) \<and>
     (\<forall>u v a b. A u = Some a \<and> A v = Some b \<and> a_parent a \<noteq> None \<and> a_parent a = a_parent b \<and>
        a_name a = a_name b \<longrightarrow> u = v)"

lemma abs_parent_node:
  assumes "tree_inv s" "tree s u = Some r" "u \<noteq> 0"
  obtains v p where "a_parent (abs_node s r) = Some v" "tree s v = Some p" "v < u"
    "child s p (node_name (heap s r)) = Some r"
proof -
  from tree_parentE [OF assms] obtain v p where
    p: "node_parent (heap s r) = Some p" "tree s v = Some p"
    "child s p (node_name (heap s r)) = Some r" "unat v < unat u" by metis
  with tree_nodeD(3) [OF assms(1) p(2)] show thesis
    by (intro that [of v p]) (simp_all add: abs_node_def word_less_nat_alt)
qed

lemma abs_well_formed:
  assumes "tree_inv s"
  shows "well_formed (abs_tree s)"
  unfolding well_formed_def
proof (intro conjI allI impI)
  obtain r where r: "tree s 0 = Some r" "node_parent (heap s r) = None"
    using assms by (rule tree_root)
  show "\<exists>a. abs_tree s 0 = Some a \<and> a_parent a = None"
    by (intro exI [of _ "abs_node s r"]) (simp add: abs_tree_Some [OF r(1)] abs_node_def r(2))
next
  fix u a assume "abs_tree s u = Some a \<and> u \<noteq> 0"
  then obtain r where "tree s u = Some r" "a = abs_node s r" "u \<noteq> 0" by (auto simp: abs_tree_def)
  with abs_parent_node [OF assms, of u r] show "\<exists>p. a_parent a = Some p \<and> abs_tree s p \<noteq> None \<and> p < u"
    by (metis abs_tree_None option.simps(3))
next
  fix u v a b
  assume A: "abs_tree s u = Some a \<and> abs_tree s v = Some b \<and> a_parent a \<noteq> None \<and>
    a_parent a = a_parent b \<and> a_name a = a_name b"
  then obtain r q where r: "tree s u = Some r" "a = abs_node s r" and q: "tree s v = Some q" "b = abs_node s q"
    by (auto simp: abs_tree_def)
  with A root_parent [OF assms] have "u \<noteq> 0" "v \<noteq> 0" by (auto simp: abs_node_def)
  with abs_parent_node [OF assms r(1)] abs_parent_node [OF assms q(1)] A r(2) q(2)
  obtain w x p p' where "tree s w = Some p" "child s p (node_name (heap s r)) = Some r"
    "tree s x = Some p'" "child s p' (node_name (heap s q)) = Some q" "w = x"
    by (metis option.inject)
  moreover have "node_name (heap s r) = node_name (heap s q)" using A r q by (simp add: abs_node_def)
  ultimately have "r = q" by simp
  with tree_inj [OF assms r(1)] q(1) show "u = v" by simp
qed

section \<open>The answer to a request for the tree\<close>

text \<open>The node a \<open>TreeInfoRequest\<close> asks about: a node by its uuid, or a child of it by name.\<close>

definition asked_node :: "ProtocolHandler \<Rightarrow> TreeInfoRequest \<Rightarrow> ref option" where
  "asked_node s m = (case tree s (TreeInfoRequest_parentUuid m) of
     None \<Rightarrow> None
   | Some p \<Rightarrow> if TreeInfoRequest_name m = ''.'' then Some p else child s p (TreeInfoRequest_name m))"

lemma tree_child_below: "child s r n = Some c \<Longrightarrow> below s r c"
  by (rule below_child)

lemma descend_below:
  assumes "tree_inv s" "tree s u = Some r"
  shows "set (descend (unat (mUuidCtr s)) (heap s) rc r (node_children (heap s r))) =
    entry_of s ` (if rc then {d. below s r d} else {d. \<exists>n. child s r n = Some d})"
proof (cases rc)
  case True
  with set_descend [OF assms subset_refl, of "unat (mUuidCtr s)"] show ?thesis
    by (simp add: subtree_children [OF assms] depth_left_def)
next
  case False
  have "named_node (heap s) r (n, c) = entry_of s c" if "(n, c) \<in> set (node_children (heap s r))" for n c
    using that named_node_entry [OF assms] tree_child_item [OF assms] by simp
  then have "named_node (heap s) r ` set (node_children (heap s r)) =
      entry_of s ` snd ` set (node_children (heap s r))"
    by (force simp: image_iff)
  moreover have "snd ` set (node_children (heap s r)) = {d. \<exists>n. child s r n = Some d}"
    using tree_child_item [OF assms] by force
  ultimately show ?thesis using False by (simp add: set_descend_flat)
qed

lemma tree_info_list:
  assumes inv: "tree_inv s" and r: "asked_node s m = Some r"
    and rc: "rc = (TreeInfoRequest_recursive m \<noteq> 0)"
  shows "handle_TreeInfoRequest t m c s = Inr (s, [Send c (single t (TreeInfoResponse
    \<lparr>TreeInfoResponse_nodeToAddList =
       (if TreeInfoRequest_name m = ''.'' then [] else [entry_of s r]) @
       descend (unat (mUuidCtr s)) (heap s) rc r (node_children (heap s r))\<rparr>))])"
proof -
  from r obtain p where p: "tree s (TreeInfoRequest_parentUuid m) = Some p"
    by (auto simp: asked_node_def split: option.splits)
  show ?thesis
  proof (cases "TreeInfoRequest_name m = ''.''")
    case True
    with r p rc fill_descend [OF inv p] show ?thesis
      by (simp add: handle_TreeInfoRequest_def asked_node_def)
  next
    case False
    with r p have ch: "child s p (TreeInfoRequest_name m) = Some r" by (simp add: asked_node_def)
    with tree_child_tree [OF inv p] obtain v where v: "tree s v = Some r" by blast
    have "\<lparr>NamedNode_name = TreeInfoRequest_name m, NamedNode_uuid = node_uuid (heap s r),
        NamedNode_parentUuid = node_uuid (heap s p)\<rparr> = entry_of s r"
      using named_node_entry [OF inv p ch] by (simp add: named_node_def)
    with False p ch rc fill_descend [OF inv v] show ?thesis
      by (simp add: handle_TreeInfoRequest_def)
  qed
qed

lemma asked_in_tree: "tree_inv s \<Longrightarrow> asked_node s m = Some r \<Longrightarrow> \<exists>u. tree s u = Some r"
  by (auto simp: asked_node_def split: option.splits if_splits dest: tree_child_tree)

text \<open>What the list of the answer contains, and in which order.\<close>

definition listed :: "ProtocolHandler \<Rightarrow> TreeInfoRequest \<Rightarrow> ref \<Rightarrow> ref set" where
  "listed s m r = (if TreeInfoRequest_name m = ''.'' then {} else {r}) \<union>
     (if TreeInfoRequest_recursive m \<noteq> 0 then {d. below s r d} else {d. \<exists>n. child s r n = Some d})"

lemma below_irrefl:
  assumes "tree_inv s" "tree s u = Some r"
  shows "\<not> below s r r"
  using below_in_tree [OF _ assms] by blast

lemma tree_info_facts:
  assumes inv: "tree_inv s" and r: "asked_node s m = Some r"
    and l: "l = (if TreeInfoRequest_name m = ''.'' then [] else [entry_of s r]) @
       descend (unat (mUuidCtr s)) (heap s) (TreeInfoRequest_recursive m \<noteq> 0) r (node_children (heap s r))"
  shows "set l = entry_of s ` listed s m r \<and> distinct (map NamedNode_uuid l) \<and>
    parents_first (if TreeInfoRequest_name m = ''.'' then {node_uuid (heap s r)}
      else {TreeInfoRequest_parentUuid m}) l"
proof -
  let ?rc = "TreeInfoRequest_recursive m \<noteq> 0"
  let ?D = "descend (unat (mUuidCtr s)) (heap s) ?rc r (node_children (heap s r))"
  obtain u where u: "tree s u = Some r" using asked_in_tree [OF inv r] by blast
  note set = descend_below [OF inv u, of ?rc]
  have wf: "om_wf (node_children (heap s r))" using tree_nodeD(5) [OF inv u] .
  have dist: "distinct (map NamedNode_uuid ?D)"
    using descend_distinct [OF inv u subset_refl wf] by (simp add: depth_left_def)
  have sub: "{d. \<exists>n. child s r n = Some d} \<subseteq> {d. below s r d}" by (auto intro: below_child)
  have neq: "node_uuid (heap s d) \<noteq> node_uuid (heap s r)" if "below s r d" for d
  proof
    assume eq: "node_uuid (heap s d) = node_uuid (heap s r)"
    have "d \<in> ran (tree s)" "r \<in> ran (tree s)" using below_in_tree [OF that inv u] u by (auto simp: ran_def)
    with uuid_inj [OF inv] eq have "d = r" by (auto dest: inj_onD)
    with that below_irrefl [OF inv u] show False by simp
  qed
  have "node_uuid (heap s r) \<notin> (\<lambda>d. node_uuid (heap s d)) ` {d. below s r d}"
  proof (intro notI, elim imageE)
    fix d assume "node_uuid (heap s r) = node_uuid (heap s d)" "d \<in> {d. below s r d}"
    with neq [of d] show False by simp
  qed
  moreover have "NamedNode_uuid ` set ?D \<subseteq> (\<lambda>d. node_uuid (heap s d)) ` {d. below s r d}"
    unfolding set using sub by auto
  ultimately have fresh: "node_uuid (heap s r) \<notin> NamedNode_uuid ` set ?D" by blast
  have first: "parents_first K ?D" if "node_uuid (heap s r) \<in> K" for K
    using that by (rule descend_parents_first)
  show ?thesis
  proof (cases "TreeInfoRequest_name m = ''.''")
    case True
    with set dist first l show ?thesis by (simp add: listed_def)
  next
    case False
    with r obtain p where p: "tree s (TreeInfoRequest_parentUuid m) = Some p"
      "child s p (TreeInfoRequest_name m) = Some r"
      by (auto simp: asked_node_def split: option.splits)
    have "node_parent (heap s r) = Some p" using tree_childE [OF inv p] by blast
    with tree_nodeD(3) [OF inv p(1)]
    have "NamedNode_parentUuid (entry_of s r) = TreeInfoRequest_parentUuid m"
      by (simp add: entry_of_def)
    with False set dist fresh first l show ?thesis
      by (simp add: listed_def)
  qed
qed

end
