(* ===== verification/ProtocolProps.thy ===== *)
theory ProtocolProps
  imports RunFacts
begin

text \<open>
  The properties of the server's protocol handler. They are stated over the states the server
  reaches from its initial state (\<open>init_ProtocolHandler\<close>) by messages and disconnections
  (\<open>run_steps proto_step\<close>), or over any state that satisfies the invariant \<open>proto_inv k\<close>, which
  those states do while fewer than \<open>2 ^ 32 - 1\<close> messages have come in. The examples that the
  hypotheses can hold run the model on a small server.
\<close>

section \<open>Reachable states\<close>

lemma reached_inv:
  assumes "run_steps proto_step es init_ProtocolHandler = Inr (s, out)"
    and "sum_list (map proto_cost es) + k < 2 ^ 32 - 1"
  shows "proto_inv k s"
  using ph.run_inv [OF proto_inv_init [OF assms(2)] assms(1)] .

lemma event_all_True: "list_all (event_all (\<lambda>_ _ _ _. True) (\<lambda>_. True)) es"
proof -
  have "event_all (\<lambda>_ _ _ _. True) (\<lambda>_. True) e" for e
  proof (cases e)
    case (Message held p c)
    then show ?thesis by (cases p) (simp_all add: list_all_iff)
  qed simp
  then show ?thesis by (simp add: list_all_iff)
qed

text \<open>
  A server with two signed-in connections \<open>0\<close> and \<open>1\<close>, a node \<open>a\<close> (uuid 1) that belongs to
  \<open>0\<close>, and below it a node \<open>b\<close> (uuid 2) that belongs to \<open>1\<close>.
\<close>

definition sample_events :: "proto_event list" where
  "sample_events =
     [Message [0, 1] (single 1 (SigninRequest \<lparr>SigninRequest_spare = 0\<rparr>)) 0,
      Message [0, 1] (single 1 (SigninRequest \<lparr>SigninRequest_spare = 0\<rparr>)) 1,
      Message [0, 1] (single 2 (CreateRequest \<lparr>CreateRequest_name = ''a'', CreateRequest_parentUuid = 0\<rparr>)) 0,
      Message [0, 1] (single 2 (CreateRequest \<lparr>CreateRequest_name = ''b'', CreateRequest_parentUuid = 1\<rparr>)) 1]"

definition sample :: ProtocolHandler where
  "sample = (case run_steps proto_step sample_events init_ProtocolHandler of
     Inl _ \<Rightarrow> init_ProtocolHandler | Inr (s, _) \<Rightarrow> s)"

lemma sample_run: "\<exists>out. run_steps proto_step sample_events init_ProtocolHandler = Inr (sample, out)"
proof -
  have "list_all safe_event sample_events" "proto_inv (sum_list (map proto_cost sample_events) + 0) init_ProtocolHandler"
    by (simp_all add: sample_events_def single_def proto_inv_init)
  from ph.run_safe [OF this(2,1)] show ?thesis by (auto simp: sample_def)
qed

lemma sample_inv: "k < 2 ^ 32 - 5 \<Longrightarrow> proto_inv k sample"
proof -
  assume k: "k < 2 ^ 32 - 5"
  obtain out where "run_steps proto_step sample_events init_ProtocolHandler = Inr (sample, out)"
    using sample_run by blast
  then show ?thesis
    by (rule reached_inv) (use k in \<open>simp add: sample_events_def single_def\<close>)
qed

lemmas run_defs = onMsg_message_def handle_SigninRequest_def handle_CreateRequest_eq inserted_def
  broadcast_def init_ProtocolHandler_def um_emplace_def new_Node_def single_def

lemma sample_tables:
  "mTree sample = [(0, 0), (1, 1), (2, 2)]"
  "mSessions sample = [(0, \<lparr>connectionSession = Some 0\<rparr>), (1, \<lparr>connectionSession = Some 1\<rparr>)]"
  "mConnectionToSessionId sample = [(0, 0), (1, 1)]"
  "mTrIdCtr sample = 0" "mTrIdTranslation sample = []" "mUuidCtr sample = 3" "nextRef sample = 3"
  by (simp_all add: sample_def sample_events_def run_defs Let_def)

lemma sample_heap:
  "heap sample 0 = (new_Node [] 0xFFFFFFFF None 0)\<lparr>node_children := [(''a'', 1)]\<rparr>"
  "heap sample 1 = (new_Node ''a'' 0 (Some 0) 1)\<lparr>node_children := [(''b'', 2)]\<rparr>"
  "heap sample (Suc 0) = (new_Node ''a'' 0 (Some 0) 1)\<lparr>node_children := [(''b'', 2)]\<rparr>"
  "heap sample 2 = new_Node ''b'' 1 (Some 1) 2"
  by (simp_all add: sample_def sample_events_def run_defs Let_def)

section \<open>Safety\<close>





section \<open>The property tree\<close>

text \<open>
  C1: In every reachable state, the server answers a request about the tree, and changes the tree, as
  the abstract specification \<open>spec_handle\<close> says: the concrete tree of shared node objects is the
  specified map from uuids to nodes afterwards, the answer, if there is one, goes to the sender
  first and under the transaction id of the request, and everything sent after it is a
  notification under the reserved transaction id.
\<close>

theorem server_refines_spec:
  assumes "run_steps proto_step es init_ProtocolHandler = Inr (s, out)"
    and "sum_list (map proto_cost es) < 2 ^ 32 - 2"
    and "handle held t m c s = Inr (s', out')" "tree_request m"
  shows "abs_tree s' = fst (spec_handle (session_of s c) (ucast (mUuidCtr s)) m (abs_tree s)) \<and>
    answered t c (snd (spec_handle (session_of s c) (ucast (mUuidCtr s)) m (abs_tree s))) out'"
  by (rule refine_handle [OF reached_inv [OF assms(1), of "Suc 0"] assms(3,4)]) (use assms(2) in simp)

lemma server_refines_spec_witness:
  "\<exists>s' out'. handle [0, 1] 9 (CreateRequest \<lparr>CreateRequest_name = ''c'', CreateRequest_parentUuid = 1\<rparr>) 0
     sample = Inr (s', out') \<and>
   answered 9 0 (snd (spec_handle (Some 0) 3
     (CreateRequest \<lparr>CreateRequest_name = ''c'', CreateRequest_parentUuid = 1\<rparr>) (abs_tree sample))) out'"
proof -
  let ?m = "CreateRequest \<lparr>CreateRequest_name = ''c'', CreateRequest_parentUuid = 1\<rparr>"
  obtain s' out' where "handle [0, 1] 9 ?m 0 sample = Inr (s', out')"
    using spares_root_handle [OF sample_inv [of 0]] by fastforce
  with sample_run server_refines_spec [of sample_events sample _ "[0, 1]" 9 ?m 0 s' out'] show ?thesis
    by (auto simp: sample_events_def single_def sample_tables)
qed

text \<open>
  No other message changes the tree: signing in, heartbeats, requests for the tree, remote calls
  and their answers, and messages only a client handles leave every node as it is.
\<close>

theorem server_other_messages:
  assumes "run_steps proto_step es init_ProtocolHandler = Inr (s, out)"
    and "sum_list (map proto_cost es) < 2 ^ 32 - 2"
    and "handle held t m c s = Inr (s', out')" "\<not> tree_request m"
  shows "abs_tree s' = abs_tree s"
  by (rule other_handle [OF reached_inv [OF assms(1), of "Suc 0"] assms(3,4)]) (use assms(2) in simp)

lemma server_other_messages_witness:
  "abs_tree (fst (handle_SigninRequest 3 \<lparr>SigninRequest_spare = 0\<rparr> 4 sample)) = abs_tree sample"
  using sample_run server_other_messages [of sample_events sample _ "[]" 3
      "SigninRequest \<lparr>SigninRequest_spare = 0\<rparr>" 4 "fst (handle_SigninRequest 3 \<lparr>SigninRequest_spare = 0\<rparr> 4 sample)"
      "snd (handle_SigninRequest 3 \<lparr>SigninRequest_spare = 0\<rparr> 4 sample)"]
  by (auto simp: sample_events_def single_def)

text \<open>
  C22: In every reachable state the nodes form a tree: the root is there and has no parent, every
  other node has a parent that is in the tree and was created before it, and two children of a
  node never have the same name.
\<close>

theorem server_tree_shape:
  assumes "run_steps proto_step es init_ProtocolHandler = Inr (s, out)"
    and "sum_list (map proto_cost es) < 2 ^ 32 - 1"
  shows "well_formed (abs_tree s)"
  using reached_inv [OF assms(1), of 0] assms(2) by (simp add: proto_inv_def abs_well_formed)

lemma server_tree_shape_witness: "well_formed (abs_tree sample)"
  using sample_run server_tree_shape [of sample_events sample]
  by (auto simp: sample_events_def single_def)

text \<open>
  C25: A uuid is never given to a second node: once a node has been deleted, no run brings its uuid
  back into the tree.
\<close>

theorem uuid_never_reused:
  assumes "proto_inv (sum_list (map proto_cost es) + k) s"
    and "abs_tree s u = None" "unat u < unat (mUuidCtr s)"
    and "run_steps proto_step es s = Inr (s', out)"
  shows "abs_tree s' u = None \<and> unat u < unat (mUuidCtr s')"
proof -
  have "gone u s' \<and> list_all (\<lambda>_. True) out"
    by (rule proto_keeps [OF assms(1) _ event_all_True assms(4)])
      (use assms(2,3) gone_handle gone_onDisconnect in \<open>auto simp: gone_def list_all_iff\<close>)
  then show ?thesis by (simp add: gone_def)
qed

lemma uuid_never_reused_witness:
  "\<exists>s' out. run_steps proto_step
     [Message [0] (single 3 (CreateRequest \<lparr>CreateRequest_name = ''b'', CreateRequest_parentUuid = 1\<rparr>)) 0]
     ((removed sample 2 2 1)\<lparr>live := (live sample)(2 := False)\<rparr>) = Inr (s', out) \<and> abs_tree s' 2 = None"
proof -
  let ?e = "Message [0] (single 3 (CreateRequest \<lparr>CreateRequest_name = ''b'', CreateRequest_parentUuid = 1\<rparr>)) 0"
  let ?s = "(removed sample 2 2 1)\<lparr>live := (live sample)(2 := False)\<rparr>"
  have inv: "proto_inv (sum_list (map proto_cost [?e]) + 0) ?s"
    by (rule removed_inv [OF sample_inv])
      (simp_all add: sample_tables sample_heap new_Node_def single_def)
  moreover have "list_all safe_event [?e]" by (simp add: single_def)
  ultimately obtain s' out where run: "run_steps proto_step [?e] ?s = Inr (s', out)"
    using ph.run_safe [of "[?e]" 0 ?s] by blast
  have "abs_tree ?s 2 = None" "unat (2 :: u64) < unat (mUuidCtr ?s)"
    by (simp_all add: removed_access) (simp add: removed_def sample_tables)
  with uuid_never_reused [OF inv _ _ run, of 2] run show ?thesis by blast
qed



text \<open>
  C26: The loop that collects the nodes, which keeps its own stack of iterators, terminates on the
  tree of every state that satisfies the invariant, and produces the recursive preorder, of any
  depth below the uuid counter.
\<close>

theorem fill_is_preorder:
  assumes "proto_inv k s" "tree s u = Some r"
  shows "fillToAddListFromTree (heap s) out r rc =
    Some (out @ descend (unat (mUuidCtr s)) (heap s) rc r (node_children (heap s r)))"
  using fill_descend [OF _ assms(2)] assms(1) by (simp add: proto_inv_def)

lemma fill_is_preorder_witness:
  "fillToAddListFromTree (heap sample) [] 0 True =
     Some [\<lparr>NamedNode_name = ''a'', NamedNode_uuid = 1, NamedNode_parentUuid = 0\<rparr>,
           \<lparr>NamedNode_name = ''b'', NamedNode_uuid = 2, NamedNode_parentUuid = 1\<rparr>]"
proof -
  have depth: "unat (mUuidCtr sample) = Suc (Suc (Suc 0))" by (simp add: sample_tables)
  have "tree sample 0 = Some 0" by (simp add: sample_tables)
  from fill_is_preorder [OF sample_inv [of 0] this, of "[]" True] show ?thesis
    unfolding depth by (simp add: sample_heap new_Node_def named_node_def)
qed

text \<open>
  A successful \<open>CreateRequest\<close> is announced to every signed-in connection, with the name of the
  new node, its uuid and that of its parent, after the sender has got its \<open>CreateAccept\<close>; and what
  is sent besides the \<open>CreateAccept\<close> is this announcement, to connections a session holds.
\<close>

theorem create_announced:
  assumes "proto_inv (Suc k) s" "handle held t (CreateRequest m) c s = Inr (s', out)"
    and "tree s (CreateRequest_parentUuid m) \<noteq> None" "session_of s c \<noteq> None"
    and "\<not> has_child (abs_tree s) (CreateRequest_parentUuid m) (CreateRequest_name m)"
  shows "\<exists>rest. out = Send c (single t (CreateAccept \<lparr>CreateAccept_uuid = ucast (mUuidCtr s)\<rparr>)) # rest \<and>
    set rest = (\<lambda>d. Send d (single notification_id (TreeUpdateNotification
        \<lparr>TreeUpdateNotification_nodeToAddList =
           [\<lparr>NamedNode_name = CreateRequest_name m, NamedNode_uuid = ucast (mUuidCtr s),
             NamedNode_parentUuid = CreateRequest_parentUuid m\<rparr>],
         TreeUpdateNotification_nodeToDelete = []\<rparr>))) ` {d. \<not> silent d s} \<and>
    {d. session_of s d \<noteq> None} \<subseteq> {d. \<not> silent d s}"
proof -
  have inv: "tree_inv s" using assms(1) by (simp add: proto_inv_def)
  obtain p where p: "tree s (CreateRequest_parentUuid m) = Some p" using assms(3) by blast
  obtain i where i: "session_of s c = Some i" using assms(4) by blast
  have "CreateRequest_name m \<notin> fst ` set (node_children (heap s p))"
    using assms(5) has_child_abs [OF inv p] by (simp add: map_of_eq_None_iff)
  moreover have "node_uuid (heap (inserted s p n i) p) = CreateRequest_parentUuid m" for n
    using tree_nodeD(3) [OF inv p] tree_fresh_ref [OF inv p] by (simp add: inserted_def)
  moreover have "set (broadcast (inserted s p n i) x) = (\<lambda>d. Send d x) ` {d. \<not> silent d s}" for n x
    by (auto simp: broadcast_def inserted_def silent_def send_to_def image_iff split: option.splits)
  moreover have "\<not> silent d s" if "session_of s d \<noteq> None" for d
    using that assms(1) silent_session by (auto simp: proto_inv_def dest: session_of_held)
  ultimately show ?thesis
    using assms(2) p i by (auto simp: handle_CreateRequest_eq Let_def)
qed

lemma create_announced_witness:
  "\<exists>s' out. handle [0, 1] 9 (CreateRequest \<lparr>CreateRequest_name = ''c'', CreateRequest_parentUuid = 0\<rparr>) 1
     sample = Inr (s', out) \<and>
   Send 0 (single notification_id (TreeUpdateNotification
        \<lparr>TreeUpdateNotification_nodeToAddList =
           [\<lparr>NamedNode_name = ''c'', NamedNode_uuid = 3, NamedNode_parentUuid = 0\<rparr>],
         TreeUpdateNotification_nodeToDelete = []\<rparr>)) \<in> set out"
proof -
  let ?m = "\<lparr>CreateRequest_name = ''c'', CreateRequest_parentUuid = 0 :: u64\<rparr>"
  obtain s' out where run: "handle [0, 1] 9 (CreateRequest ?m) 1 sample = Inr (s', out)"
    using spares_root_handle [OF sample_inv [of 0]] by fastforce
  have inv: "tree_inv sample" using sample_inv [of 0] by (simp add: proto_inv_def)
  have "\<not> has_child (abs_tree sample) 0 ''c''"
    using has_child_abs [OF inv, of 0 0] by (simp add: sample_tables sample_heap)
  moreover have "\<not> silent 0 sample" by (simp add: silent_def sample_tables)
  ultimately show ?thesis
    using create_announced [OF sample_inv [of "Suc 0"] run] run by (auto simp: sample_tables)
qed

section \<open>Values and subscriptions\<close>

lemma value_kept:
  assumes "proto_inv (sum_list (map proto_cost es) + Suc k) s" "tree s (SetValueRequest_uuid m) = Some r"
    and "tree_request (SetValueRequest m)" "handle held t (SetValueRequest m) c s = Inr (s1, out1)"
    and "run_steps proto_step es s1 = Inr (s2, out2)"
    and "list_all (event_all (\<lambda>_ _ _ x. \<not> deletes (SetValueRequest_uuid m) x \<and>
      \<not> writes (SetValueRequest_uuid m) x) (\<lambda>_. True)) es"
  shows "holds (SetValueRequest_uuid m) (SetValueRequest_data m) s2"
proof -
  let ?u = "SetValueRequest_uuid m"
  have inv: "proto_inv (Suc (sum_list (map proto_cost es) + k)) s" using assms(1) by simp
  have holds: "holds ?u (SetValueRequest_data m) s1"
    using handle_abs [OF inv assms(4)] assms(2,3) by (simp add: holds_def abs_tree_Some)
  have "proto_inv (sum_list (map proto_cost es) + k) s1"
    using inv assms(4) by (rule inv_handle)
  then have "holds ?u (SetValueRequest_data m) s2 \<and> list_all (\<lambda>_. True) out2"
    by (rule proto_keeps [where P = "holds ?u (SetValueRequest_data m)", OF _ holds assms(6,5)])
      (use holds_handle holds_onDisconnect in \<open>auto simp: list_all_iff\<close>)
  then show ?thesis by simp
qed

lemma holds_get: "holds u d s \<Longrightarrow> handle held t (GetRequest \<lparr>GetRequest_uuid = u\<rparr>) c s =
    Inr (s, [Send c (single t (GetAccept \<lparr>GetAccept_data = d\<rparr>))])"
  by (auto simp: holds_def handle_GetRequest_def abs_tree_def abs_node_def)

text \<open>
  C17: What a \<open>SetValueRequest\<close> stores is what every later \<open>GetRequest\<close> returns, from any
  connection, however many messages and disconnections come in between, until the node is deleted
  or its value set again.
\<close>

theorem value_round_trip:
  assumes "proto_inv (sum_list (map proto_cost es) + Suc k) s" "tree s (SetValueRequest_uuid m) = Some r"
    and "tree_request (SetValueRequest m)" "handle held t (SetValueRequest m) c s = Inr (s1, out1)"
    and "run_steps proto_step es s1 = Inr (s2, out2)"
    and "list_all (event_all (\<lambda>_ _ _ x. \<not> deletes (SetValueRequest_uuid m) x \<and>
      \<not> writes (SetValueRequest_uuid m) x) (\<lambda>_. True)) es"
  shows "handle held' t' (GetRequest \<lparr>GetRequest_uuid = SetValueRequest_uuid m\<rparr>) d s2 =
    Inr (s2, [Send d (single t' (GetAccept \<lparr>GetAccept_data = SetValueRequest_data m\<rparr>))])"
  by (rule holds_get [OF value_kept [OF assms]])

lemma value_round_trip_witness:
  "\<exists>s1 s2 out. run_steps proto_step [Disconnect 0] s1 = Inr (s2, out) \<and>
     handle [] 4 (GetRequest \<lparr>GetRequest_uuid = 1\<rparr>) 1 s2 =
       Inr (s2, [Send 1 (single 4 (GetAccept \<lparr>GetAccept_data = [7, 8]\<rparr>))])"
proof -
  let ?m = "\<lparr>SetValueRequest_uuid = 1, SetValueRequest_data = [7, 8]\<rparr>"
  obtain s1 out1 where set: "handle [] 3 (SetValueRequest ?m) 0 sample = Inr (s1, out1)"
    using spares_root_handle [OF sample_inv [of 0]] by fastforce
  have "proto_inv (0 + 0) s1" using inv_handle [OF sample_inv [of "Suc 0"] set] by simp
  with onDisconnect_ok [of s1 0] obtain s2 where run: "run_steps proto_step [Disconnect 0] s1 = Inr (s2, [])"
    by (auto simp: proto_inv_def)
  show ?thesis
    using value_round_trip [of "[Disconnect 0]" 0 sample ?m 1 "[]" 3 0 s1 out1 s2 "[]" "[]" 4 1]
      sample_inv [of "Suc 0"] set run by (auto simp: sample_tables)
qed

text \<open>
  C23: A change of a value is announced to exactly the subscribers of the node whose connection still
  exists, with the uuid and the new value, after the sender has got its \<open>SetValueAccept\<close>; each
  subscribing session is told once.
\<close>

theorem set_value_announced:
  assumes "proto_inv (Suc k) s" "tree s (SetValueRequest_uuid m) = Some r"
    and "tree_request (SetValueRequest m)" "handle held t (SetValueRequest m) c s = Inr (s', out)"
  shows "\<exists>ls. out = Send c (single t (SetValueAccept \<lparr>SetValueAccept_spare = 0\<rparr>)) #
      map (\<lambda>(i, w). Send w (single notification_id (UpdateNotification
        \<lparr>UpdateNotification_uuid = SetValueRequest_uuid m,
         UpdateNotification_data = SetValueRequest_data m\<rparr>))) ls \<and>
    distinct (map fst ls) \<and>
    set ls = {(i, w). map_of (node_listener (heap s r)) i = Some w \<and>
      lock_connection (c # held) (mSessions s) w \<noteq> None}"
proof -
  let ?ls = "filter (\<lambda>p. lock_connection (c # held) (mSessions s) (snd p) \<noteq> None) (node_listener (heap s r))"
  have wf: "um_wf (node_listener (heap s r))" using listener_wf [OF assms(1,2)] .
  have inv: "tree_inv s" using assms(1) by (simp add: proto_inv_def)
  have ls: "map snd ?ls = subscribers (c # held) s r"
    by (simp add: subscribers_def filter_map o_def)
  have "distinct (map fst ?ls)" using wf by (simp add: um_wf_def distinct_map_filter)
  moreover have "set ?ls = {(i, w). map_of (node_listener (heap s r)) i = Some w \<and>
      lock_connection (c # held) (mSessions s) w \<noteq> None}"
    using um.items_find [OF wf] by auto
  moreover have "map (\<lambda>(i, w). Send w x) ?ls = map (\<lambda>w. Send w x) (subscribers (c # held) s r)" for x
    unfolding ls [symmetric] by (simp add: o_def case_prod_beta)
  ultimately show ?thesis
    using assms(2-4) tree_nodeD(3) [OF inv assms(2)]
    by (intro exI [of _ ?ls]) (auto simp: handle_SetValueRequest_eq [OF assms(1)])
qed

lemma set_value_announced_witness:
  "\<exists>s' out ls. handle [] 3 (SetValueRequest \<lparr>SetValueRequest_uuid = 1, SetValueRequest_data = [5]\<rparr>) 1
     (fst (handle_SubscribeRequest 2 \<lparr>SubscribeRequest_uuid = 1\<rparr> 0 sample)) = Inr (s', out) \<and>
   out = Send 1 (single 3 (SetValueAccept \<lparr>SetValueAccept_spare = 0\<rparr>)) #
     map (\<lambda>(i, w). Send w (single notification_id (UpdateNotification
        \<lparr>UpdateNotification_uuid = 1, UpdateNotification_data = [5]\<rparr>))) ls \<and> (0 :: u32, 0) \<in> set ls"
proof -
  let ?s = "fst (handle_SubscribeRequest 2 \<lparr>SubscribeRequest_uuid = 1\<rparr> 0 sample)"
  let ?m = "\<lparr>SetValueRequest_uuid = 1, SetValueRequest_data = [5]\<rparr>"
  have inv: "proto_inv (Suc 0) ?s" by (rule inv_SubscribeRequest) (simp add: sample_inv)
  obtain s' out where run: "handle [] 3 (SetValueRequest ?m) 1 ?s = Inr (s', out)"
    using spares_root_handle [OF inv] by fastforce
  have "tree ?s 1 = Some 1" "map_of (node_listener (heap ?s 1)) 0 = Some 0"
    "lock_connection [1] (mSessions ?s) 0 \<noteq> None"
    by (simp_all add: handle_SubscribeRequest_def sample_tables sample_heap new_Node_def lock_connection_def)
  note sub = this
  obtain ls where ls: "out = Send 1 (single 3 (SetValueAccept \<lparr>SetValueAccept_spare = 0\<rparr>)) #
      map (\<lambda>(i, w). Send w (single notification_id (UpdateNotification
        \<lparr>UpdateNotification_uuid = 1, UpdateNotification_data = [5]\<rparr>))) ls"
    "set ls = {(i, w). map_of (node_listener (heap ?s 1)) i = Some w \<and>
      lock_connection [1] (mSessions ?s) w \<noteq> None}"
    using set_value_announced [OF inv _ _ run, of 1] sub(1) by auto
  moreover have "(0, 0) \<in> set ls" unfolding ls(2) using sub(2,3) by simp
  ultimately show ?thesis using run by blast
qed

text \<open>
  C16: A connection that has subscribed to a node is told of every later change of its value, by
  whomever and after however many messages and disconnections, until the node is deleted, the
  connection itself unsubscribes from it, or it disconnects.
\<close>

theorem subscriber_notified:
  assumes "proto_inv (sum_list (map proto_cost es) + Suc (Suc k)) s"
    and "tree s u \<noteq> None" "session_of s c = Some i"
    and "handle held t (SubscribeRequest \<lparr>SubscribeRequest_uuid = u\<rparr>) c s = Inr (s1, out1)"
    and "run_steps proto_step es s1 = Inr (s2, out2)"
    and "list_all (event_all (keeps_subscription u c) (\<lambda>d. d \<noteq> c)) es"
    and "tree_request (SetValueRequest \<lparr>SetValueRequest_uuid = u, SetValueRequest_data = v\<rparr>)"
    and "handle held' t' (SetValueRequest \<lparr>SetValueRequest_uuid = u, SetValueRequest_data = v\<rparr>) d s2 =
      Inr (s3, out3)"
  shows "out1 = [Send c (single t (SubscribeResponse \<lparr>SubscribeResponse_cause = OK\<rparr>))] \<and>
    Send c (single notification_id (UpdateNotification
      \<lparr>UpdateNotification_uuid = u, UpdateNotification_data = v\<rparr>)) \<in> set out3"
proof -
  let ?P = "\<lambda>s. signed_in c i s \<and> subscribed u i s"
  have inv: "proto_inv (Suc (sum_list (map proto_cost es) + Suc k)) s" using assms(1) by simp
  have "abs_tree s u \<noteq> None" using assms(2) by simp
  then have P1: "?P s1" and out1: "out1 = [Send c (single t (SubscribeResponse \<lparr>SubscribeResponse_cause = OK\<rparr>))]"
    using handle_abs [OF inv assms(4)] assms(3,4) signed_in_handle [OF _ assms(4)] inv
    by (auto simp: subscribed_def signed_in_def handle_SubscribeRequest_def proto_inv_def split: option.splits)
  have inv1: "proto_inv (sum_list (map proto_cost es) + Suc k) s1"
    using inv assms(4) by (rule inv_handle)
  then have "?P s2 \<and> list_all (\<lambda>_. True) out2"
    by (rule proto_keeps [where P = ?P, OF _ P1 assms(6,5)])
      (use subscription_handle subscription_onDisconnect in \<open>auto simp: list_all_iff\<close>)
  then have P2: "signed_in c i s2" "subscribed u i s2" by simp_all
  have inv2: "proto_inv (Suc k) s2" using ph.run_inv [OF inv1 assms(5)] .
  from P2(2) obtain r where r: "tree s2 u = Some r" by (auto simp: subscribed_def abs_tree_def)
  then have "node_uuid (heap s2 r) = u" using inv2 by (auto simp: proto_inv_def dest: tree_nodeD(3))
  with subscriber_listed [OF inv2 r P2, of "d # held'"] r assms(7,8) out1 show ?thesis
    by (auto simp: handle_SetValueRequest_eq [OF inv2])
qed

lemma subscriber_notified_witness:
  "\<exists>s2 s3 out. handle [] 4 (SetValueRequest \<lparr>SetValueRequest_uuid = 2, SetValueRequest_data = [6]\<rparr>) 1 s2 =
       Inr (s3, out) \<and>
     Send 0 (single notification_id (UpdateNotification
       \<lparr>UpdateNotification_uuid = 2, UpdateNotification_data = [6]\<rparr>)) \<in> set out"
proof -
  let ?sub = "SubscribeRequest \<lparr>SubscribeRequest_uuid = 2\<rparr>"
  let ?set = "SetValueRequest \<lparr>SetValueRequest_uuid = 2, SetValueRequest_data = [6]\<rparr>"
  let ?es = "[Message [] (single 7 (HearbeatRequest \<lparr>HearbeatRequest_spare = 0\<rparr>)) 1]"
  obtain s1 out1 where sub: "handle [] 3 ?sub 0 sample = Inr (s1, out1)"
    using spares_root_handle [OF sample_inv [of 0]] by fastforce
  have inv1: "proto_inv (Suc (Suc 0)) s1" by (rule inv_handle [OF _ sub]) (simp add: sample_inv)
  then have "proto_inv (sum_list (map proto_cost ?es) + 1) s1" "list_all safe_event ?es"
    by (simp_all add: single_def)
  then obtain s2 out2 where run: "run_steps proto_step ?es s1 = Inr (s2, out2)" "proto_inv 1 s2"
    using ph.run_safe by blast
  obtain s3 out3 where set: "handle [] 4 ?set 1 s2 = Inr (s3, out3)"
    using spares_root_handle [OF run(2)] by fastforce
  have "proto_inv (sum_list (map proto_cost ?es) + Suc (Suc 0)) sample"
    by (rule sample_inv) (simp add: single_def)
  from subscriber_notified [OF this _ _ sub run(1) _ _ set] set show ?thesis
    by (auto simp: sample_tables single_def keeps_subscription_def deletes_def unsubscribes_def)
qed

section \<open>Remote procedure calls\<close>

text \<open>
  C15: A call from a signed-in connection to a node whose owner is connected is forwarded to the
  owner under the next id of the server, and to nobody else. Whatever comes in afterwards, up to
  \<open>2 ^ 16\<close> messages that do not answer that id and disconnections of others, an answer under that
  id is sent to the caller, and to nobody else, under the transaction id of its request.
\<close>

theorem rpc_routed:
  assumes "proto_inv (sum_list (map proto_cost es) + Suc k) s"
    and "tree s (RpcRequest_uuid m) = Some r" "session_of s c = Some i"
    and "session s (node_sessionId (heap s r)) = Some \<lparr>connectionSession = Some d\<rparr>"
    and "handle held t (RpcRequest m) c s = Inr (s1, out1)"
    and "run_steps proto_step es s1 = Inr (s2, out2)"
    and "list_all (quiet_event (ucast (mTrIdCtr s)) c) es" "sum_list (map proto_cost es) < 2 ^ 16"
  shows "out1 = [Send d (single (ucast (mTrIdCtr s)) (RpcRequest m))] \<and>
    (\<exists>s3. handle held' (ucast (mTrIdCtr s)) (RpcAccept v) d' s2 =
       Inr (s3, [Send c (single t (RpcAccept v))])) \<and>
    (\<exists>s3. handle held' (ucast (mTrIdCtr s)) (RpcReject v') d' s2 =
       Inr (s3, [Send c (single t (RpcReject v'))]))"
proof -
  let ?tr = "ucast (mTrIdCtr s) :: u16"
  have inv: "proto_inv (Suc (sum_list (map proto_cost es) + k)) s" using assms(1) by simp
  obtain s' where s': "handle_RpcRequest t m c s = Inr (s', [Send d (single ?tr (RpcRequest m))])"
    "awaiting ?tr i t c 0 s'"
    using rpc_forward [OF inv assms(2-4)] by blast
  with assms(5) have s1: "s1 = s'" "out1 = [Send d (single ?tr (RpcRequest m))]" by simp_all
  have "proto_inv (sum_list (map proto_cost es) + k) s1" using inv assms(5) by (rule inv_handle)
  then obtain n where "awaiting ?tr i t c n s2"
    using awaiting_run [OF _ s'(2) [folded s1(1)] _ assms(6,7)] assms(8) by auto
  from awaiting_reply [OF this] s1(2) show ?thesis by simp
qed

lemma rpc_routed_witness:
  "\<exists>s2 s3. handle [] 0 (RpcAccept \<lparr>RpcAccept_value = [1]\<rparr>) 1 s2 =
     Inr (s3, [Send 0 (single 5 (RpcAccept \<lparr>RpcAccept_value = [1]\<rparr>))])"
proof -
  let ?m = "\<lparr>RpcRequest_uuid = 2, RpcRequest_param = []\<rparr>"
  have r: "tree sample (RpcRequest_uuid ?m) = Some 2" "session_of sample 0 = Some 0"
    "session sample (node_sessionId (heap sample 2)) = Some \<lparr>connectionSession = Some 1\<rparr>"
    by (simp_all add: sample_tables sample_heap new_Node_def)
  obtain s1 out1 where call: "handle [] 5 (RpcRequest ?m) 0 sample = Inr (s1, out1)"
    using spares_root_handle [OF sample_inv [of 0], of "RpcRequest ?m" "[]" 5 0] by fastforce
  have "proto_inv (sum_list (map proto_cost []) + Suc 0) sample" by (simp add: sample_inv)
  from rpc_routed [OF this r call, of s1 "[]" "[]" "\<lparr>RpcAccept_value = [1]\<rparr>" 1 "\<lparr>RpcReject_cause = OK\<rparr>"]
  show ?thesis by (auto simp: sample_tables)
qed

text \<open>
  A call is answered at most once: after an answer under some id has been passed on or dropped,
  another answer under that id is dropped, whoever sends it.
\<close>

theorem rpc_answered_once:
  "handleRpc t m' d (fst (handleRpc t m c s)) = (fst (handleRpc t m c s), [])"
proof -
  have "map_of (mTrIdTranslation (fst (handleRpc t m c s))) t = None"
    by (auto simp: handleRpc_def Let_def um_find_erase split: option.split)
  then show ?thesis by (subst handleRpc_def) simp
qed

section \<open>Disconnection\<close>



text \<open>
  A message array is handled as the same messages arriving one by one on the connection.
\<close>

theorem array_is_sequence:
  "onMsg held (PropertyTreeMessageArray ms) c s =
     run_steps proto_step (map (\<lambda>m. Message held (PropertyTreeMessage m) c) ms) s"
  by (induction ms arbitrary: s) (auto intro: arg_cong2 [where f = bindR])

end
