(* ===== verification/Server.thy ===== *)
theory Server
  imports Framing CodecProps ProtocolProps
begin

text \<open>
  The server around the protocol handler: \<open>server/src/Server.cpp\<close> and
  \<open>server/src/ConnectionSession.cpp\<close>. The reactor is a library: what the server uses of it is the
  table of registered handlers, and whether a registration succeeds, which is part of the event.
  An event is a connection that is accepted (\<open>accept\<close> returns a descriptor) or a descriptor that is
  readable, with what \<open>read\<close> returns. Connection objects live in a store and are told apart by
  identity; a new object has a new identity.
\<close>

section \<open>State\<close>

type_synonym fd = int

record ConnectionSession =
  mFd :: fd
  reader :: ReadBuffer

record Server =
  mConnections :: "(fd \<times> conn) list"
  mReactor :: "(fd \<times> conn) list"
  mProto :: ProtocolHandler
  sessions :: "conn \<Rightarrow> ConnectionSession"
  nextConn :: conn

definition init_Server :: Server where
  "init_Server = \<lparr>mConnections = [], mReactor = [], mProto = init_ProtocolHandler,
     sessions = (\<lambda>_. \<lparr>mFd = 0, reader = init_ReadBuffer []\<rparr>), nextConn = 0\<rparr>"

datatype server_event =
    Accept "fd option" bool "u8 list"
  | Readable fd "u8 list option"

section \<open>Operations\<close>

text \<open>The owners of connection objects outside the protocol handler.\<close>

definition owners :: "Server \<Rightarrow> conn list" where
  "owners s = map snd (mConnections s) @ map snd (mReactor s)"

text \<open>
  \<open>Server::onDisconnect\<close>: \<open>mConnections.find(pFd)->second\<close> is used without a test.
\<close>

definition Server_onDisconnect :: "fd \<Rightarrow> Server \<Rightarrow> fault + Server" where
  "Server_onDisconnect pFd s =
     (let s = s\<lparr>mReactor := um_erase pFd (mReactor s)\<rparr>
      in case map_of (mConnections s) pFd of
           None \<Rightarrow> Inl EndDeref
         | Some connectionRaw \<Rightarrow>
             (let s = s\<lparr>mConnections := om_erase pFd (mConnections s)\<rparr>
              in bindR (onDisconnect connectionRaw (mProto s)) (\<lambda>p. Inr (s\<lparr>mProto := p\<rparr>))))"

text \<open>
  \<open>Server::handleServerRead\<close>, with the result of \<open>accept\<close>, that of \<open>addHandler\<close>, and what is in
  the buffer of the new object. \<open>None\<close> is the return value -1.
\<close>

definition handleServerRead :: "fd option \<Rightarrow> bool \<Rightarrow> u8 list \<Rightarrow> Server \<Rightarrow> fault + Server" where
  "handleServerRead res added junk s =
     (case res of
        None \<Rightarrow> Inl (Thrown ''errno'')
      | Some f \<Rightarrow>
          (let session = nextConn s;
               s = s\<lparr>nextConn := nextConn s + 1,
                     sessions := (sessions s)(session := \<lparr>mFd = f, reader = init_ReadBuffer junk\<rparr>),
                     mConnections := om_emplace f session (mConnections s)\<rparr>
           in if added then Inr (s\<lparr>mReactor := um_emplace f session (mReactor s)\<rparr>)
              else Server_onDisconnect f s))"

text \<open>
  \<open>ConnectionSession::handleRead\<close>: the read loop of the theory Framing, then
  \<open>ProtocolHandler::onMsg\<close> on the bytes of a complete body, or \<open>Server::onDisconnect\<close>.
\<close>

definition ConnectionSession_handleRead ::
  "cum \<Rightarrow> conn \<Rightarrow> u8 list option \<Rightarrow> Server \<Rightarrow> fault + (Server \<times> action list)" where
  "ConnectionSession_handleRead L c res s =
     bindR (server_handleRead res (reader (sessions s c))) (\<lambda>(rb, r).
       let s = s\<lparr>sessions := (sessions s)(c := (sessions s c)\<lparr>reader := rb\<rparr>)\<rparr>
       in case r of
            Pending \<Rightarrow> Inr (s, [])
          | Closed \<Rightarrow> bindR (Server_onDisconnect (mFd (sessions s c)) s) (\<lambda>s. Inr (s, []))
          | Delivered body \<Rightarrow>
              bindR (decode_message L body) (\<lambda>message.
              bindR (onMsg (owners s) message c (mProto s)) (\<lambda>(p, out). Inr (s\<lparr>mProto := p\<rparr>, out))))"

text \<open>What the reactor does with an event: the handler of a readable descriptor is called.\<close>

fun server_step :: "cum \<Rightarrow> server_event \<Rightarrow> Server \<Rightarrow> fault + (Server \<times> action list)" where
  "server_step L (Accept res added junk) s = bindR (handleServerRead res added junk s) (\<lambda>s. Inr (s, []))"
| "server_step L (Readable f res) s =
     (case map_of (mReactor s) f of
        None \<Rightarrow> Inr (s, [])
      | Some c \<Rightarrow> ConnectionSession_handleRead L c res s)"

section \<open>Invariant\<close>

text \<open>
  The connection table and the reactor agree, every connection knows its descriptor, and the
  sessions of the protocol handler are those of connections in the table.
\<close>

definition connections_ok :: "Server \<Rightarrow> bool" where
  "connections_ok s \<longleftrightarrow> om_wf (mConnections s) \<and> um_wf (mReactor s) \<and>
     map_of (mReactor s) = map_of (mConnections s) \<and>
     (\<forall>f c. map_of (mConnections s) f = Some c \<longrightarrow> mFd (sessions s c) = f \<and> c < nextConn s) \<and>
     (\<forall>c. session_of (mProto s) c \<noteq> None \<longrightarrow> (\<exists>f. map_of (mConnections s) f = Some c))"

definition server_inv :: "nat \<Rightarrow> Server \<Rightarrow> bool" where
  "server_inv k s \<longleftrightarrow> connections_ok s \<and> proto_inv k (mProto s)"

lemma server_inv_init: "k < 2 ^ 32 - 1 \<Longrightarrow> server_inv k init_Server"
  using proto_inv_init [of k]
  by (simp add: server_inv_def connections_ok_def init_Server_def) (simp add: init_ProtocolHandler_def)

lemma connections_unique:
  "connections_ok s \<Longrightarrow> map_of (mConnections s) f = Some c \<Longrightarrow> map_of (mConnections s) g = Some c \<Longrightarrow> f = g"
  unfolding connections_ok_def by metis

text \<open>A connection in the table can always be dropped.\<close>

lemma Server_onDisconnect_ok:
  assumes "server_inv k s" "map_of (mConnections s) f = Some c"
  shows "\<exists>s'. Server_onDisconnect f s = Inr s' \<and> server_inv k s' \<and>
    map_of (mConnections s') f = None \<and> session_of (mProto s') c = None"
proof -
  have ok: "connections_ok s" and inv: "proto_inv k (mProto s)" using assms(1) by (simp_all add: server_inv_def)
  then obtain p where p: "onDisconnect c (mProto s) = Inr p"
    using onDisconnect_ok [of "mProto s" c] by (auto simp: proto_inv_def)
  let ?s = "s\<lparr>mReactor := um_erase f (mReactor s), mConnections := om_erase f (mConnections s), mProto := p\<rparr>"
  have sess: "session_of p = (session_of (mProto s))(c := None)"
    using p by (auto simp: onDisconnect_def Let_def um_find_erase fun_eq_iff split: option.splits)
  have "connections_ok ?s"
    unfolding connections_ok_def
  proof (intro conjI allI impI)
    fix d assume "session_of (mProto ?s) d \<noteq> None"
    with sess have "d \<noteq> c" "session_of (mProto s) d \<noteq> None" by (auto split: if_splits)
    moreover from this(2) ok obtain g where "map_of (mConnections s) g = Some d"
      unfolding connections_ok_def by blast
    ultimately show "\<exists>f. map_of (mConnections ?s) f = Some d"
      using assms(2) by (intro exI [of _ g]) (auto simp: om_find_erase)
  qed (use ok in \<open>auto simp: connections_ok_def om_wf_erase um_wf_erase um_find_erase om_find_erase split: if_splits\<close>)
  moreover have "proto_inv k p" using inv p by (rule inv_onDisconnect)
  moreover have "Server_onDisconnect f s = Inr ?s"
    using assms(2) p by (simp add: Server_onDisconnect_def Let_def)
  ultimately show ?thesis
    using sess by (intro exI [of _ ?s]) (simp add: server_inv_def om_find_erase)
qed

section \<open>Every event keeps the invariant\<close>

lemma session_of_handle:
  assumes "tree_inv s" "handle held t m c s = Inr (s', out)" "session_of s' d \<noteq> None" "d \<noteq> c"
  shows "session_of s d \<noteq> None"
proof (cases m)
  case (CreateRequest x)
  with assms(2,3) show ?thesis
    by (auto simp: handle_CreateRequest_eq inserted_def Let_def split: option.splits if_splits)
next
  case (TreeInfoRequest x)
  with assms(2,3) handle_TreeInfoRequest_ok [OF assms(1), of t x c] show ?thesis by auto
next
  case (DeleteRequest x)
  with assms(2,3) show ?thesis
    by (auto simp: handle_DeleteRequest_eq [OF assms(1)] removed_def Let_def split: option.splits if_splits)
next
  case (SigninRequest x)
  with assms(2-4) show ?thesis
    by (auto simp: handle_SigninRequest_def Let_def map_of_um_emplace split: option.splits if_splits)
qed (use assms(2,3) in \<open>auto simp: handle_SetValueRequest_def handle_GetRequest_def
    handle_SubscribeRequest_def handle_UnsubscribeRequest_def handle_HearbeatRequest_def
    handle_RpcRequest_def handleRpc_def Let_def split: option.splits if_splits prod.splits\<close>)

lemma session_of_array:
  assumes "proto_inv (length ms + k) s" "onMsg_array held ms c s = Inr (s', out)"
    and "session_of s' d \<noteq> None" "d \<noteq> c"
  shows "session_of s d \<noteq> None"
  using assms(1-3)
proof (induction ms arbitrary: s out)
  case (Cons m ms)
  from Cons.prems(2) obtain s1 out1 out2 where
    step: "handle held (transactionId m) (message m) c s = Inr (s1, out1)"
    and rest: "onMsg_array held ms c s1 = Inr (s', out2)"
    by (auto simp: onMsg_message_def)
  have inv: "proto_inv (Suc (length ms + k)) s" using Cons.prems(1) by simp
  have "proto_inv (length ms + k) s1" using inv step by (rule inv_handle)
  with Cons.IH rest Cons.prems(3) have "session_of s1 d \<noteq> None" by blast
  with session_of_handle [OF _ step _ assms(4)] inv show ?case by (simp add: proto_inv_def)
qed simp

lemma session_of_onMsg:
  assumes "proto_inv (messages_in p + k) s" "onMsg held p c s = Inr (s', out)"
    and "session_of s' d \<noteq> None" "d \<noteq> c"
  shows "session_of s d \<noteq> None"
proof (cases p)
  case (PropertyTreeMessage m)
  with assms show ?thesis
    by (intro session_of_handle [OF _ _ assms(3,4)]) (auto simp: onMsg_message_def proto_inv_def)
next
  case (PropertyTreeMessageArray ms)
  with assms session_of_array [of ms k s held c s' out d] show ?thesis by simp
qed

text \<open>
  Arrays have at most 255 messages, the declared capacity; what the decoder of the library returns
  is assumed to respect it.
\<close>

definition small_arrays :: "cum \<Rightarrow> bool" where
  "small_arrays L \<longleftrightarrow> (\<forall>bs m. decode_message L bs = Inr m \<longrightarrow> messages_in m \<le> 255)"

definition server_ok :: "cum \<Rightarrow> nat \<Rightarrow> Server \<Rightarrow> bool" where
  "server_ok L k s \<longleftrightarrow> small_arrays L \<and> server_inv k s"

fun server_cost :: "server_event \<Rightarrow> nat" where
  "server_cost (Accept _ _ _) = 0"
| "server_cost (Readable _ _) = 255"

lemma connections_ok_buffers:
  assumes "connections_ok s" "\<And>c. mFd (f c) = mFd (sessions s c)"
  shows "connections_ok (s\<lparr>sessions := f\<rparr>)"
  using assms by (simp add: connections_ok_def)

lemma handleRead_inv:
  assumes "server_ok L (255 + k) s" "map_of (mConnections s) f = Some c"
    and "ConnectionSession_handleRead L c res s = Inr (s', out)"
  shows "server_inv k s'"
proof -
  from assms(1) have arrays: "small_arrays L" and inv: "server_inv (255 + k) s"
    by (simp_all add: server_ok_def)
  then have less: "server_inv k s"
    by (auto simp: server_inv_def intro: proto_inv_mono)
  from assms(3) obtain rb r where rd: "server_handleRead res (reader (sessions s c)) = Inr (rb, r)"
    by (auto simp: ConnectionSession_handleRead_def)
  define s1 where "s1 = s\<lparr>sessions := (sessions s)(c := (sessions s c)\<lparr>reader := rb\<rparr>)\<rparr>"
  have s1: "server_inv k s1" "map_of (mConnections s1) f = Some c" "mFd (sessions s1 c) = f"
    using less assms(2) by (auto simp: s1_def server_inv_def intro: connections_ok_buffers)
      (simp add: connections_ok_def)
  show ?thesis
  proof (cases r)
    case Pending
    with assms(3) rd s1(1) show ?thesis
      by (simp add: ConnectionSession_handleRead_def s1_def)
  next
    case Closed
    from Server_onDisconnect_ok [OF s1(1,2)] obtain s2 where
      "Server_onDisconnect f s1 = Inr s2" "server_inv k s2" by blast
    with assms(3) rd Closed s1(3) show ?thesis
      by (simp add: ConnectionSession_handleRead_def flip: s1_def)
  next
    case (Delivered body)
    with assms(3) rd obtain m p where m: "decode_message L body = Inr m"
      "onMsg (owners s1) m c (mProto s) = Inr (p, out)" "s' = s1\<lparr>mProto := p\<rparr>"
      by (auto simp: ConnectionSession_handleRead_def s1_def Let_def)
    have "messages_in m \<le> 255" using arrays m(1) by (auto simp: small_arrays_def)
    then have room: "proto_inv (messages_in m + k) (mProto s)"
      using inv by (auto simp: server_inv_def intro: proto_inv_mono)
    have "\<exists>g. map_of (mConnections s1) g = Some d" if "session_of p d \<noteq> None" for d
    proof (cases "d = c")
      case True
      with s1(2) show ?thesis by blast
    next
      case False
      with session_of_onMsg [OF room m(2) that] less show ?thesis
        by (auto simp: server_inv_def connections_ok_def s1_def)
    qed
    with s1(1) have "connections_ok s'"
      unfolding m(3) by (auto simp: server_inv_def connections_ok_def)
    with inv_onMsg [OF room m(2)] m(3) show ?thesis by (simp add: server_inv_def)
  qed
qed

lemma accept_inv:
  assumes "server_inv k s" "handleServerRead res added junk s = Inr s'"
  shows "server_inv k s'"
proof -
  from assms(2) obtain f where f: "res = Some f" by (cases res) (auto simp: handleServerRead_def)
  let ?c = "nextConn s"
  define s1 where "s1 = s\<lparr>nextConn := ?c + 1,
    sessions := (sessions s)(?c := \<lparr>mFd = f, reader = init_ReadBuffer junk\<rparr>),
    mConnections := om_emplace f ?c (mConnections s), mReactor := um_emplace f ?c (mReactor s)\<rparr>"
  have ok: "connections_ok s" using assms(1) by (simp add: server_inv_def)
  then have wf: "om_wf (mConnections s)" by (simp add: connections_ok_def)
  have table: "map_of (mConnections s1) = (case map_of (mConnections s) f of
      None \<Rightarrow> (map_of (mConnections s))(f \<mapsto> ?c) | Some _ \<Rightarrow> map_of (mConnections s))"
    using om.find_emplace [OF wf] by (simp add: s1_def)
  have "map_of (mReactor s1) = map_of (mConnections s1)"
    unfolding table using ok
    by (cases "map_of (mConnections s) f") (simp_all add: s1_def map_of_um_emplace connections_ok_def)
  moreover have "mFd (sessions s1 c) = g \<and> c < nextConn s1" if "map_of (mConnections s1) g = Some c" for g c
    using that ok unfolding table
    by (auto simp: s1_def connections_ok_def less_SucI split: option.splits if_splits)
  moreover have "\<exists>g. map_of (mConnections s1) g = Some c" if "session_of (mProto s1) c \<noteq> None" for c
  proof -
    from that ok obtain g where "map_of (mConnections s) g = Some c"
      by (auto simp: s1_def connections_ok_def)
    then show ?thesis unfolding table by (intro exI [of _ g]) (auto split: option.splits)
  qed
  ultimately have "connections_ok s1"
    using ok by (auto simp: connections_ok_def s1_def om_wf_emplace um_wf_emplace)
  then have inv: "server_inv k s1" using assms(1) by (simp add: server_inv_def s1_def)
  show ?thesis
  proof (cases added)
    case True
    with assms(2) f inv show ?thesis by (simp add: handleServerRead_def s1_def Let_def)
  next
    case False
    from table obtain c where "map_of (mConnections s1) f = Some c" by (cases "map_of (mConnections s) f") auto
    from Server_onDisconnect_ok [OF inv this] obtain s2 where
      s2: "Server_onDisconnect f s1 = Inr s2" "server_inv k s2" by blast
    have "Server_onDisconnect f (s1\<lparr>mReactor := mReactor s\<rparr>) = Server_onDisconnect f s1"
    proof (cases "map_of (mReactor s) f")
      case None
      then have "um_erase f (um_emplace f ?c (mReactor s)) = um_erase f (mReactor s)"
        by (simp add: um_erase_def um_emplace_def)
      then show ?thesis by (simp add: Server_onDisconnect_def s1_def)
    next
      case (Some x)
      then show ?thesis by (simp add: Server_onDisconnect_def s1_def um_emplace_def)
    qed
    with False assms(2) f s2 show ?thesis by (simp add: handleServerRead_def s1_def Let_def)
  qed
qed

interpretation sv: bounded_machine "server_step L" server_cost "server_ok L" for L
proof unfold_locales
  fix e k s s' out
  assume ok: "server_ok L (server_cost e + k) s" and step: "server_step L e s = Inr (s', out)"
  then have arrays: "small_arrays L" by (simp add: server_ok_def)
  show "server_ok L k s'"
  proof (cases e)
    case (Accept res added junk)
    with ok step accept_inv arrays show ?thesis by (auto simp: server_ok_def)
  next
    case (Readable f res)
    show ?thesis
    proof (cases "map_of (mReactor s) f")
      case None
      with Readable ok step show ?thesis
        by (auto simp: server_ok_def server_inv_def intro: proto_inv_mono)
    next
      case (Some c)
      then have "map_of (mConnections s) f = Some c"
        using ok by (simp add: server_ok_def server_inv_def connections_ok_def)
      with handleRead_inv [of L k s f c res s' out] Readable ok step Some arrays show ?thesis
        by (simp add: server_ok_def)
    qed
  qed
qed

section \<open>Reading a stream\<close>

text \<open>\<open>handle_bodies\<close> is the protocol handler on a list of bodies from one connection.\<close>

fun handle_bodies ::
  "cum \<Rightarrow> conn list \<Rightarrow> conn \<Rightarrow> u8 list list \<Rightarrow> ProtocolHandler \<Rightarrow> fault + (ProtocolHandler \<times> action list)" where
  "handle_bodies L held c [] p = Inr (p, [])"
| "handle_bodies L held c (b # bs) p =
     bindR (decode_message L b) (\<lambda>m. bindR (onMsg held m c p) (\<lambda>(p', out).
       bindR (handle_bodies L held c bs p') (\<lambda>(p'', out'). Inr (p'', out @ out'))))"

lemma handle_bodies_run:
  "list_all2 (\<lambda>b m. decode_message L b = Inr m) bs ms \<Longrightarrow>
     handle_bodies L held c bs p = run_steps proto_step (map (\<lambda>m. Message held m c) ms) p"
proof (induction bs arbitrary: ms p)
  case (Cons b bs)
  from Cons.prems obtain m ms' where ms: "ms = m # ms'" "decode_message L b = Inr m"
    "list_all2 (\<lambda>b m. decode_message L b = Inr m) bs ms'" by (cases ms) auto
  from Cons.IH [OF ms(3)] ms(1,2) show ?case by simp
qed simp

lemma server_never_closes: "bs \<noteq> [] \<Longrightarrow> server_handleRead (Some bs) rb \<noteq> Inr (rb', Closed)"
  by (auto simp: server_handleRead_def Let_def split: if_splits)

text \<open>
  While the reads of a connection succeed, its bodies reach the protocol handler, and nothing else
  of the server changes but its buffer.
\<close>

lemma server_reads:
  assumes "map_of (mReactor s) f = Some c" "[] \<notin> set cs"
    and "read_all server_handleRead cs (reader (sessions s c)) = Inr (rb, bodies)"
    and "handle_bodies L (owners s) c bodies (mProto s) = Inr (p, out)"
  shows "run_steps (server_step L) (map (\<lambda>b. Readable f (Some b)) cs) s =
    Inr (s\<lparr>sessions := (sessions s)(c := (sessions s c)\<lparr>reader := rb\<rparr>), mProto := p\<rparr>, out)"
  using assms
proof (induction cs arbitrary: s bodies out)
  case Nil
  have same: "(sessions s)(c := (sessions s c)\<lparr>reader := reader (sessions s c)\<rparr>) = sessions s"
    by (rule fun_upd_idem) simp
  from Nil have "rb = reader (sessions s c)" "p = mProto s" "out = []" by auto
  then show ?case by (simp add: same del: fun_upd_apply)
next
  case (Cons b cs)
  from Cons.prems(3) obtain rb1 r bodies1 where
    rd: "server_handleRead (Some b) (reader (sessions s c)) = Inr (rb1, r)"
    and rest: "read_all server_handleRead cs rb1 = Inr (rb, bodies1)"
    and bodies: "bodies = (case r of Delivered x \<Rightarrow> x # bodies1 | _ \<Rightarrow> bodies1)" by auto
  have open_r: "r \<noteq> Closed" using rd Cons.prems(2) server_never_closes by auto
  define s1 where "s1 = s\<lparr>sessions := (sessions s)(c := (sessions s c)\<lparr>reader := rb1\<rparr>)\<rparr>"
  have same: "s1\<lparr>sessions := (sessions s1)(c := (sessions s1 c)\<lparr>reader := rb\<rparr>), mProto := p\<rparr> =
      s\<lparr>sessions := (sessions s)(c := (sessions s c)\<lparr>reader := rb\<rparr>), mProto := p\<rparr>"
    and same': "s1\<lparr>mProto := q, sessions := (sessions (s1\<lparr>mProto := q\<rparr>))
        (c := (sessions (s1\<lparr>mProto := q\<rparr>) c)\<lparr>reader := rb\<rparr>), mProto := p\<rparr> =
      s\<lparr>sessions := (sessions s)(c := (sessions s c)\<lparr>reader := rb\<rparr>), mProto := p\<rparr>" for q
    by (simp_all add: s1_def)
  have ne: "[] \<notin> set cs" using Cons.prems(2) by simp
  show ?case
  proof (cases r)
    case Pending
    have step: "server_step L (Readable f (Some b)) s = Inr (s1, [])"
      using Cons.prems(1) rd Pending by (simp add: ConnectionSession_handleRead_def s1_def)
    have "run_steps (server_step L) (map (\<lambda>b. Readable f (Some b)) cs) s1 =
      Inr (s1\<lparr>sessions := (sessions s1)(c := (sessions s1 c)\<lparr>reader := rb\<rparr>), mProto := p\<rparr>, out)"
      using Cons.prems rest bodies Pending ne
      by (intro Cons.IH) (simp_all add: s1_def owners_def)
    with step have "run_steps (server_step L) (map (\<lambda>b. Readable f (Some b)) (b # cs)) s =
      Inr (s1\<lparr>sessions := (sessions s1)(c := (sessions s1 c)\<lparr>reader := rb\<rparr>), mProto := p\<rparr>, out)" by simp
    then show ?thesis unfolding same .
  next
    case (Delivered x)
    with Cons.prems(4) bodies obtain m p1 out1 out2 where m: "decode_message L x = Inr m"
      "onMsg (owners s) m c (mProto s) = Inr (p1, out1)"
      "handle_bodies L (owners s) c bodies1 p1 = Inr (p, out2)" "out = out1 @ out2" by auto
    let ?s2 = "s1\<lparr>mProto := p1\<rparr>"
    have step: "server_step L (Readable f (Some b)) s = Inr (?s2, out1)"
      using Cons.prems(1) rd Delivered m by (simp add: ConnectionSession_handleRead_def s1_def owners_def)
    have "run_steps (server_step L) (map (\<lambda>b. Readable f (Some b)) cs) ?s2 =
      Inr (?s2\<lparr>sessions := (sessions ?s2)(c := (sessions ?s2 c)\<lparr>reader := rb\<rparr>), mProto := p\<rparr>, out2)"
      using Cons.prems rest m ne by (intro Cons.IH) (simp_all add: s1_def owners_def)
    with step m(4) have "run_steps (server_step L) (map (\<lambda>b. Readable f (Some b)) (b # cs)) s =
      Inr (?s2\<lparr>sessions := (sessions ?s2)(c := (sessions ?s2 c)\<lparr>reader := rb\<rparr>), mProto := p\<rparr>, out)" by simp
    then show ?thesis unfolding same' .
  qed (use open_r in simp)
qed

end
