(* ===== verification/FramingProps.thy ===== *)
theory FramingProps
  imports Framing
begin

text \<open>
  The properties of the read loops: what they deliver, and when they write behind their buffer.
\<close>

section \<open>Bounds\<close>

definition reader_ok :: "nat \<Rightarrow> ReadBuffer \<Rightarrow> bool" where
  "reader_ok cap s \<longleftrightarrow> at_header cap s \<or> (\<exists>n got. n \<le> cap \<and> in_body cap n got s)"

lemma reader_ok_init:
  "length junk = cap \<Longrightarrow> reader_ok cap (init_ReadBuffer junk)"
  by (simp add: reader_ok_def at_header_def init_ReadBuffer_def)

text \<open>\<open>read\<close> returns at least one byte and at most what it is asked for.\<close>

definition read_ok :: "u8 list \<Rightarrow> ReadBuffer \<Rightarrow> bool" where
  "read_ok bs s \<longleftrightarrow> bs \<noteq> [] \<and> int (length bs) \<le> readSize s"

lemma header_read:
  assumes "at_header cap s" "read_ok bs s" "2 \<le> cap"
  shows "\<exists>s' n. server_handleRead (Some bs) s = Inr (s', Pending) \<and> in_body cap n [] s'"
proof -
  let ?buf = "bs @ drop (length bs) (mBuff s)"
  have bs: "bs \<noteq> []" "length bs \<le> 2" using assms(1,2) by (auto simp: read_ok_def readSize_def at_header_def)
  have "le_nat (take 2 ?buf) < 2 ^ 16"
  proof (rule less_le_trans [OF le_nat_bound])
    have "length (take 2 ?buf) \<le> 2" unfolding length_take by (rule min.cobounded2)
    then have "256 ^ length (take 2 ?buf) \<le> (256 :: nat) ^ 2" by (rule power_increasing) simp
    then show "256 ^ length (take 2 ?buf) \<le> (2 :: nat) ^ 16" by simp
  qed
  with assms(1,3) bs show ?thesis
    by (intro exI conjI, force simp: server_handleRead_def store_ok at_header_def Let_def)
      (simp add: in_body_def at_header_def copy_header_def)
qed

lemma body_read:
  assumes "in_body cap n got s" "read_ok bs s" "n \<le> cap"
  shows "\<exists>s' r. server_handleRead (Some bs) s = Inr (s', r) \<and> reader_ok cap s'"
proof -
  have len: "length got + length bs \<le> n" and ne: "bs \<noteq> []"
    using assms(1,2) by (auto simp: read_ok_def readSize_def in_body_def)
  show ?thesis
  proof (cases "length got + length bs = n")
    case True
    with server_done [OF assms(1) ne True assms(3)] show ?thesis by (auto simp: reader_ok_def)
  next
    case False
    with len have "length got + length bs < n" by simp
    from server_more [OF assms(1) ne this assms(3)] assms(3) show ?thesis by (auto simp: reader_ok_def)
  qed
qed

lemma server_read_ok:
  assumes "reader_ok cap s" "read_ok bs s" "2 ^ 16 - 1 \<le> cap"
  shows "\<exists>s' r. server_handleRead (Some bs) s = Inr (s', r) \<and> reader_ok cap s'"
proof (cases "at_header cap s")
  case True
  have "2 \<le> cap" using assms(3) by simp
  with True header_read [OF _ assms(2)] obtain s' n where
    s': "server_handleRead (Some bs) s = Inr (s', Pending)" "in_body cap n [] s'" by blast
  moreover have "n \<le> cap" using s'(2) assms(3) by (auto simp: in_body_def)
  ultimately show ?thesis by (auto simp: reader_ok_def)
next
  case False
  with assms body_read show ?thesis by (auto simp: reader_ok_def)
qed

text \<open>A stream of reads, each within what is asked for in the state it meets.\<close>

fun reads_ok :: "(u8 list option \<Rightarrow> ReadBuffer \<Rightarrow> fault + (ReadBuffer \<times> read_result)) \<Rightarrow>
    u8 list list \<Rightarrow> ReadBuffer \<Rightarrow> bool" where
  "reads_ok rd [] s = True"
| "reads_ok rd (c # cs) s = (read_ok c s \<and> (case rd (Some c) s of Inl _ \<Rightarrow> True | Inr (s', _) \<Rightarrow> reads_ok rd cs s'))"

lemma client_reads_ok:
  assumes "reader_ok CLIENT_BUFFER s" "reads_ok client_handleRead cs s"
  shows "\<exists>s' bodies. read_all client_handleRead cs s = Inr (s', bodies) \<and> reader_ok CLIENT_BUFFER s'"
  using assms
proof (induction cs arbitrary: s)
  case (Cons c cs)
  then have c: "read_ok c s" "c \<noteq> []" by (auto simp: read_ok_def)
  from server_read_ok [OF Cons.prems(1) c(1)] obtain s1 r where
    s1: "client_handleRead (Some c) s = Inr (s1, r)" "reader_ok CLIENT_BUFFER s1"
    by (auto simp: same_handleRead [OF c(2)] CLIENT_BUFFER_def)
  from Cons.IH [OF s1(2)] Cons.prems(2) s1(1) show ?case by auto
qed simp

section \<open>Properties\<close>

text \<open>
  C28: The client never writes behind its buffer, and never fails, on any bytes the server may send,
  however they are split, as long as \<open>read\<close> returns no error: every body the two size bytes can
  announce fits in it.
\<close>

theorem client_never_overflows:
  assumes "length junk = CLIENT_BUFFER" "reads_ok client_handleRead cs (init_ReadBuffer junk)"
  shows "\<exists>s' bodies. read_all client_handleRead cs (init_ReadBuffer junk) = Inr (s', bodies)"
  using client_reads_ok [OF reader_ok_init [OF assms(1)] assms(2)] by blast

lemma client_never_overflows_witness:
  "\<exists>s' bodies. read_all client_handleRead [[3, 0], [1], [2, 3]] (init_ReadBuffer (replicate CLIENT_BUFFER 0)) =
     Inr (s', bodies)"
proof (rule client_never_overflows)
  let ?s = "init_ReadBuffer (replicate CLIENT_BUFFER 0)"
  have "at_header CLIENT_BUFFER ?s" by (simp add: at_header_def init_ReadBuffer_def)
  from cr.header [OF this, of 3 0] obtain s1 where
    s1: "client_handleRead (Some [3, 0]) ?s = Inr (s1, Pending)" "in_body CLIENT_BUFFER 3 [] s1" by auto
  from cr.body_more [OF s1(2), of "[1]"] obtain s2 where
    s2: "client_handleRead (Some [1]) s1 = Inr (s2, Pending)" "in_body CLIENT_BUFFER 3 [1] s2"
    by (auto simp: CLIENT_BUFFER_def)
  from cr.body_done [OF s2(2), of "[2, 3]"] obtain s3 where
    s3: "client_handleRead (Some [2, 3]) s2 = Inr (s3, Delivered [1, 2, 3])"
    by (auto simp: CLIENT_BUFFER_def)
  show "reads_ok client_handleRead [[3, 0], [1], [2, 3]] ?s"
    using s1 s2 s3 by (auto simp: read_ok_def readSize_def in_body_def)
      (simp add: init_ReadBuffer_def)
qed simp

text \<open>
  C29: The server, whose buffer has 512 bytes, can be made to write behind it exactly by announcing a
  body of more than 512 bytes: then some read within the announced size does, otherwise none does.
\<close>

theorem server_overflow:
  assumes "in_body SERVER_BUFFER n got s"
  shows "(\<exists>bs. read_ok bs s \<and> server_handleRead (Some bs) s = Inl BufferOverflow) \<longleftrightarrow> SERVER_BUFFER < n"
proof
  assume "\<exists>bs. read_ok bs s \<and> server_handleRead (Some bs) s = Inl BufferOverflow"
  with body_read [OF assms] show "SERVER_BUFFER < n" by fastforce
next
  assume n: "SERVER_BUFFER < n"
  let ?bs = "replicate (n - length got) 0 :: u8 list"
  have "read_ok ?bs s" "store ?bs s = Inl BufferOverflow"
    using n assms by (auto simp: read_ok_def readSize_def in_body_def store_def SERVER_BUFFER_def)
  moreover from this(1) have "?bs \<noteq> []" by (simp add: read_ok_def)
  ultimately show "\<exists>bs. read_ok bs s \<and> server_handleRead (Some bs) s = Inl BufferOverflow"
    by (intro exI [of _ ?bs]) (simp add: server_handleRead_def)
qed

lemma server_overflow_witness:
  "\<exists>s. in_body SERVER_BUFFER 600 [] s \<and> (\<exists>bs. read_ok bs s \<and> server_handleRead (Some bs) s = Inl BufferOverflow)"
proof -
  let ?s = "init_ReadBuffer (replicate SERVER_BUFFER 0)"
  have "at_header SERVER_BUFFER ?s" by (simp add: at_header_def init_ReadBuffer_def)
  from sr.header [OF this, of 88 2] obtain s1 where s1: "in_body SERVER_BUFFER 600 [] s1" by auto
  from server_overflow [OF s1] have "\<exists>bs. read_ok bs s1 \<and> server_handleRead (Some bs) s1 = Inl BufferOverflow"
    by (simp add: SERVER_BUFFER_def)
  with s1 show ?thesis by blast
qed

text \<open>
  The client delivers every stream of frames the server may send, frame by frame and in order,
  whatever pieces the bodies arrive in, as long as the two size bytes of a frame arrive together.
\<close>

theorem client_receives_frames:
  assumes "at_header CLIENT_BUFFER s"
    and "\<And>cs. cs \<in> set css \<Longrightarrow> [] \<notin> set cs \<and> cs \<noteq> [] \<and> length (concat cs) < 2 ^ 16"
  shows "\<exists>s'. read_all client_handleRead (concat (map (\<lambda>cs. le_bytes 2 (length (concat cs)) # cs) css)) s =
    Inr (s', map concat css) \<and> at_header CLIENT_BUFFER s'"
  using assms by (intro cr.read_frames) (fastforce simp: CLIENT_BUFFER_def)+

lemma client_receives_frames_witness:
  "\<exists>s'. read_all client_handleRead [[3, 0], [1], [2, 3], [1, 0], [9]] (init_ReadBuffer (replicate CLIENT_BUFFER 0)) =
    Inr (s', [[1, 2, 3], [9]])"
proof -
  have start: "at_header CLIENT_BUFFER (init_ReadBuffer (replicate CLIENT_BUFFER 0))"
    by (simp add: at_header_def init_ReadBuffer_def)
  have "\<exists>s'. read_all client_handleRead (concat (map (\<lambda>cs. le_bytes 2 (length (concat cs)) # cs)
      [[[1], [2, 3]], [[9]]])) (init_ReadBuffer (replicate CLIENT_BUFFER 0)) =
      Inr (s', map concat [[[1], [2, 3]], [[9 :: u8]]]) \<and> at_header CLIENT_BUFFER s'"
    by (rule client_receives_frames [OF start]) auto
  then show ?thesis by (auto simp: numeral_2_eq_2)
qed

end
