(* ===== verification/ServerProps.thy ===== *)
theory ServerProps
  imports Server FramingProps
begin

text \<open>
  The properties of the server as a whole: from the bytes on a connection to the protocol handler,
  and the life of a connection.
\<close>

text \<open>
  C5: From bytes to messages: if a connection of the server is sent any number of frames, each no
  longer than its buffer and split in any way, then what the server does, state and answers, is what
  the protocol handler does with the messages the bodies decode to, one after the other, from that
  connection.
\<close>

theorem server_end_to_end:
  assumes "map_of (mReactor s) f = Some c" "at_header SERVER_BUFFER (reader (sessions s c))"
    and "list_all2 (\<lambda>cs m. [] \<notin> set cs \<and> cs \<noteq> [] \<and> length (concat cs) \<le> SERVER_BUFFER \<and>
      decode_message L (concat cs) = Inr m) css ms"
    and "run_steps proto_step (map (\<lambda>m. Message (owners s) m c) ms) (mProto s) = Inr (p, out)"
  shows "\<exists>rb. run_steps (server_step L) (map (\<lambda>b. Readable f (Some b))
      (concat (map (\<lambda>cs. le_bytes 2 (length (concat cs)) # cs) css))) s =
    Inr (s\<lparr>sessions := (sessions s)(c := (sessions s c)\<lparr>reader := rb\<rparr>), mProto := p\<rparr>, out) \<and>
    at_header SERVER_BUFFER rb"
proof -
  let ?reads = "concat (map (\<lambda>cs. le_bytes 2 (length (concat cs)) # cs) css)"
  have each: "[] \<notin> set cs \<and> cs \<noteq> [] \<and> length (concat cs) \<le> SERVER_BUFFER" if "cs \<in> set css" for cs
    using assms(3) that by (auto simp: list_all2_conv_all_nth in_set_conv_nth)
  then obtain rb where rb: "read_all server_handleRead ?reads (reader (sessions s c)) = Inr (rb, map concat css)"
    "at_header SERVER_BUFFER rb"
    using sr.read_frames [OF assms(2), of css] by (fastforce simp: SERVER_BUFFER_def)
  have "list_all2 (\<lambda>b m. decode_message L b = Inr m) (map concat css) ms"
    using assms(3) by (auto simp: list_all2_conv_all_nth)
  then have bodies: "handle_bodies L (owners s) c (map concat css) (mProto s) = Inr (p, out)"
    using assms(4) by (simp add: handle_bodies_run)
  have "[] \<notin> set ?reads" using each by (auto simp: numeral_2_eq_2)
  from server_reads [OF assms(1) this rb(1) bodies] rb(2) show ?thesis by blast
qed

text \<open>A server with one connection, on descriptor 5.\<close>

definition sample_server :: Server where
  "sample_server = (case handleServerRead (Some 5) True (replicate SERVER_BUFFER 0) init_Server of
     Inl _ \<Rightarrow> init_Server | Inr s \<Rightarrow> s)"

lemma sample_server:
  "mReactor sample_server = [(5, 0)]" "mConnections sample_server = [(5, 0)]"
  "mProto sample_server = init_ProtocolHandler" "nextConn sample_server = 1"
  "sessions sample_server 0 = \<lparr>mFd = 5, reader = init_ReadBuffer (replicate SERVER_BUFFER 0)\<rparr>"
  by (simp_all add: sample_server_def handleServerRead_def init_Server_def um_emplace_def Let_def)

lemma server_end_to_end_witness:
  "\<exists>s'. run_steps (server_step simple_cum) [Readable 5 (Some [5, 0]), Readable 5 (Some [0, 7]),
       Readable 5 (Some [0, 25, 0])] sample_server =
     Inr (s', [Send 0 (single 7 (HearbeatResponse \<lparr>HearbeatResponse_spare = 0\<rparr>))])"
proof -
  let ?m = "single 7 (HearbeatRequest \<lparr>HearbeatRequest_spare = 0\<rparr>)"
  have "decode_message simple_cum [0, 7, 0, 25, 0] = Inr ?m"
    by (simp add: decode_message_def dec_PropertyTreeProtocol_def dec_PropertyTreeMessage_def
        dec_PropertyTreeMessages_def dec_alternative_def dec_HearbeatRequest_def simple_cum_def
        get_int_def take_bytes_def single_def)
  then have msgs: "list_all2 (\<lambda>cs m. [] \<notin> set cs \<and> cs \<noteq> [] \<and> length (concat cs) \<le> SERVER_BUFFER \<and>
      decode_message simple_cum (concat cs) = Inr m) [[[0, 7], [0, 25, 0]]] [?m]"
    by (simp add: SERVER_BUFFER_def)
  have start: "map_of (mReactor sample_server) 5 = Some 0"
    "at_header SERVER_BUFFER (reader (sessions sample_server 0))"
    by (simp_all add: sample_server at_header_def init_ReadBuffer_def)
  have run: "run_steps proto_step (map (\<lambda>m. Message (owners sample_server) m 0) [?m]) (mProto sample_server) =
      Inr (init_ProtocolHandler, [Send 0 (single 7 (HearbeatResponse \<lparr>HearbeatResponse_spare = 0\<rparr>))])"
    by (simp add: sample_server single_def onMsg_message_def handle_HearbeatRequest_def)
  from server_end_to_end [OF start msgs run] show ?thesis
    by (auto simp: numeral_2_eq_2)
qed

text \<open>
  When a connection of the server is closed, or reading from it fails, the server drops it: it
  is no longer in the connection table nor known to the reactor, nor signed in, and the state stays
  consistent. The look-up in the connection table that the code does not check always succeeds.
\<close>

theorem closed_connection_dropped:
  assumes "server_inv k s" "map_of (mConnections s) f = Some c" "res = None \<or> res = Some []"
  shows "\<exists>s'. server_step L (Readable f res) s = Inr (s', []) \<and> server_inv k s' \<and>
    map_of (mConnections s') f = None \<and> map_of (mReactor s') f = None \<and> session_of (mProto s') c = None"
proof -
  have ok: "connections_ok s" using assms(1) by (simp add: server_inv_def)
  then have c: "mFd (sessions s c) = f" "map_of (mReactor s) f = Some c"
    using assms(2) by (auto simp: connections_ok_def)
  have rd: "server_handleRead res rb = Inr (rb, Closed)" for rb
    using assms(3) by (auto simp: server_handleRead_def)
  from Server_onDisconnect_ok [OF assms(1,2)] obtain s' where s': "Server_onDisconnect f s = Inr s'"
    "server_inv k s'" "map_of (mConnections s') f = None" "session_of (mProto s') c = None" by blast
  have same: "s\<lparr>sessions := (sessions s)(c := (sessions s c)\<lparr>reader := reader (sessions s c)\<rparr>)\<rparr> = s"
    by (simp add: fun_upd_idem)
  have "server_step L (Readable f res) s = Inr (s', [])"
    unfolding server_step.simps c(2) option.case ConnectionSession_handleRead_def rd bindR.simps
      prod.case Let_def same read_result.case by (simp add: c(1) s'(1))
  with s' show ?thesis by (auto simp: server_inv_def connections_ok_def)
qed

lemma closed_connection_dropped_witness:
  "\<exists>s'. server_step simple_cum (Readable 5 (Some [])) sample_server = Inr (s', []) \<and>
     map_of (mConnections s') 5 = None"
proof -
  have "handleServerRead (Some 5) True (replicate SERVER_BUFFER 0) init_Server = Inr sample_server"
    by (simp add: sample_server_def handleServerRead_def init_Server_def Let_def)
  from accept_inv [OF server_inv_init this, of 0] have "server_inv 0 sample_server" by simp
  from closed_connection_dropped [OF this, of 5 0 "Some []" simple_cum] show ?thesis
    by (auto simp: sample_server)
qed

text \<open>
  C27: In every state the server reaches, the connection table and the reactor agree, every connection
  is registered under its own descriptor, every signed-in connection is in the table, and the
  protocol handler satisfies its invariant.
\<close>

theorem server_consistent:
  assumes "small_arrays L" "sum_list (map server_cost es) < 2 ^ 32 - 1"
    and "run_steps (server_step L) es init_Server = Inr (s, out)"
  shows "server_inv 0 s"
proof -
  have "server_ok L (sum_list (map server_cost es) + 0) init_Server"
    using assms(1,2) server_inv_init by (simp add: server_ok_def)
  from sv.run_inv [OF this assms(3)] show ?thesis by (simp add: server_ok_def)
qed

lemma get_all_length: "get_all d n bs = Inr (xs, r) \<Longrightarrow> length xs = n"
  by (induction n arbitrary: bs xs) auto

lemma decoded_Inr: "decoded mk x = Inr (y, r) \<longleftrightarrow> (\<exists>z. x = Inr (z, r) \<and> y = mk z)"
  by (cases "(mk, x)" rule: decoded.cases) auto

lemma simple_cum_small: "small_arrays simple_cum"
  unfolding small_arrays_def
proof (intro allI impI)
  fix bs m assume "decode_message simple_cum bs = Inr m"
  moreover have "length ms \<le> 255" if "get_vector 1 d bs' = Inr (ms, r)" for d :: "PropertyTreeMessage decoder" and bs' ms r
  proof -
    from that obtain b where b: "length ms = le_nat b" "length b = 1"
      by (auto simp: get_vector_def take_bytes_def min_def split: if_splits dest!: get_all_length)
    with le_nat_bound [of b] show ?thesis by simp
  qed
  ultimately show "messages_in m \<le> 255"
    by (cases m) (auto simp: decode_message_def dec_PropertyTreeProtocol_def simple_cum_def default_protocol_def
        decoded_Inr split: if_splits)
qed

lemma server_consistent_witness: "server_inv 0 sample_server"
proof -
  have "run_steps (server_step simple_cum) [Accept (Some 5) True (replicate SERVER_BUFFER 0)] init_Server =
      Inr (sample_server, [])"
    by (simp add: sample_server_def handleServerRead_def init_Server_def Let_def)
  from server_consistent [OF simple_cum_small _ this] show ?thesis by simp
qed

end
