(* ===== verification/ClientState.thy ===== *)
theory ClientState
  imports Framing Codec
begin

text \<open>
  The state of a client: \<open>client/src/Node.hpp\<close> and the data members of \<open>Client\<close>
  (\<open>client/src/Client.hpp\<close>), with the ownership of its nodes.

  A node of the client is owned by \<open>mTree\<close>, by the \<open>children\<close> of its parent, and by every
  \<open>Property\<close> the user of the library holds; it refers to its parent by a \<open>weak_ptr\<close>. As for the
  server the model keeps the sharing: node objects live in a store, pointers are references into it
  and \<open>c_live\<close> says which objects exist. What \<open>shared_ptr\<close> does is \<open>c_release\<close>: after an owner has
  gone, every object without an owner is destroyed, and with it what only it owned. A cycle of
  \<open>children\<close> keeps itself alive, as it does under reference counting.

  The threads of the program are the reactor thread, which handles what arrives, and the threads of
  the user, which call the operations. An operation sends a request and waits; \<open>c_waiting\<close> is what
  the waiting threads have on their stacks: the transaction id and the operation. \<open>c_constructed\<close>
  says whether the constructor has returned.
\<close>

section \<open>Data\<close>

type_synonym cref = nat

record ClientNode =
  cn_name :: string
  cn_data :: "u8 list"
  cn_children :: "(string \<times> cref) list"
  cn_rcpHandler :: "(u8 list \<Rightarrow> u8 list) option"
  cn_updateHandler :: bool
  cn_parent :: "cref option"
  cn_uuid :: u64

text \<open>
  The handlers are \<open>std::function\<close>s of the user. That of a remote call is a function of its
  parameter; of those that return nothing the model keeps whether they are set, and reports every
  call of them.
\<close>

definition new_ClientNode :: "string \<Rightarrow> cref option \<Rightarrow> u64 \<Rightarrow> ClientNode" where
  "new_ClientNode pName pParent pUuid =
     \<lparr>cn_name = pName, cn_data = [], cn_children = [], cn_rcpHandler = None,
      cn_updateHandler = False, cn_parent = pParent, cn_uuid = pUuid\<rparr>"

record Transaction =
  satisfied :: bool
  reply :: PropertyTreeMessages

definition new_Transaction :: Transaction where
  "new_Transaction = \<lparr>satisfied = False, reply = default_messages\<rparr>"

text \<open>\<open>Property::node()\<close>: the \<open>shared_ptr\<close> in a handle, which may be empty.\<close>

type_synonym handle = "cref option"

text \<open>The operations, each with its arguments; \<open>OpSignin\<close> is the constructor of \<open>Client\<close>.\<close>

datatype Op =
    OpSignin
  | OpRoot
  | OpCreate handle string
  | OpGet handle string bool
  | OpCommit handle
  | OpFetch handle
  | OpSubscribe handle
  | OpUnsubscribe handle
  | OpDestroy handle
  | OpBeat
  | OpCall handle "u8 list"

fun op_handle :: "Op \<Rightarrow> handle" where
  "op_handle (OpCreate p _) = p"
| "op_handle (OpGet p _ _) = p"
| "op_handle (OpCommit p) = p"
| "op_handle (OpFetch p) = p"
| "op_handle (OpSubscribe p) = p"
| "op_handle (OpUnsubscribe p) = p"
| "op_handle (OpDestroy p) = p"
| "op_handle (OpCall p _) = p"
| "op_handle _ = None"

fun needs_handle :: "Op \<Rightarrow> bool" where
  "needs_handle OpSignin = False"
| "needs_handle OpRoot = False"
| "needs_handle OpBeat = False"
| "needs_handle _ = True"

record Client =
  c_Tree :: "(u64 \<times> cref) list"
  c_Transactions :: "(u16 \<times> Transaction) list"
  c_TransactioIdCtr :: u16
  c_TreeAddHandler :: bool
  c_TreeRemoveHandler :: bool
  c_reader :: ReadBuffer
  c_heap :: "cref \<Rightarrow> ClientNode"
  c_live :: "cref \<Rightarrow> bool"
  c_next :: cref
  c_held :: "cref list"
  c_waiting :: "(nat \<times> (u16 \<times> Op)) list"
  c_constructed :: bool

text \<open>The members before the constructor runs; \<open>junk\<close> is what is in the receive buffer.\<close>

definition init_Client :: "u8 list \<Rightarrow> Client" where
  "init_Client junk = \<lparr>c_Tree = [], c_Transactions = [], c_TransactioIdCtr = 0,
     c_TreeAddHandler = False, c_TreeRemoveHandler = False, c_reader = init_ReadBuffer junk,
     c_heap = (\<lambda>_. new_ClientNode '''' None 0), c_live = (\<lambda>_. False), c_next = 0,
     c_held = [], c_waiting = [], c_constructed = False\<rparr>"

abbreviation ctree :: "Client \<Rightarrow> u64 \<Rightarrow> cref option" where
  "ctree c \<equiv> map_of (c_Tree c)"

section \<open>Ownership\<close>

definition roots :: "Client \<Rightarrow> cref list" where
  "roots c = map snd (c_Tree c) @ c_held c @ concat (map (\<lambda>w. case op_handle (snd (snd w)) of
     None \<Rightarrow> [] | Some r \<Rightarrow> [r]) (c_waiting c))"

definition c_owned :: "Client \<Rightarrow> cref \<Rightarrow> bool" where
  "c_owned c r \<longleftrightarrow> r \<in> set (roots c) \<or>
     list_ex (\<lambda>p. c_live c p \<and> r \<in> snd ` set (cn_children (c_heap c p))) [0..<c_next c]"

definition orphans :: "Client \<Rightarrow> cref list" where
  "orphans c = filter (\<lambda>r. c_live c r \<and> \<not> c_owned c r) [0..<c_next c]"

fun collect :: "nat \<Rightarrow> Client \<Rightarrow> Client" where
  "collect 0 c = c"
| "collect (Suc n) c =
     (case orphans c of [] \<Rightarrow> c | r # _ \<Rightarrow> collect n (c\<lparr>c_live := (c_live c)(r := False)\<rparr>))"

definition c_release :: "Client \<Rightarrow> Client" where
  "c_release c = collect (c_next c) c"

text \<open>\<open>weak_ptr::lock\<close>.\<close>

definition lock :: "Client \<Rightarrow> cref option \<Rightarrow> cref option" where
  "lock c w = (case w of None \<Rightarrow> None | Some r \<Rightarrow> if c_live c r then Some r else None)"

text \<open>\<open>std::make_shared<Node>\<close>.\<close>

definition make_Node :: "string \<Rightarrow> cref option \<Rightarrow> u64 \<Rightarrow> Client \<Rightarrow> cref \<times> Client" where
  "make_Node pName pParent pUuid c =
     (c_next c, c\<lparr>c_heap := (c_heap c)(c_next c := new_ClientNode pName pParent pUuid),
        c_live := (c_live c)(c_next c := True), c_next := c_next c + 1\<rparr>)"

text \<open>Collection changes nothing but which objects exist, and takes nothing that has an owner.\<close>

lemma collect_same [simp]:
  "c_Tree (collect n c) = c_Tree c" "c_Transactions (collect n c) = c_Transactions c"
  "c_TransactioIdCtr (collect n c) = c_TransactioIdCtr c"
  "c_TreeAddHandler (collect n c) = c_TreeAddHandler c"
  "c_TreeRemoveHandler (collect n c) = c_TreeRemoveHandler c"
  "c_reader (collect n c) = c_reader c" "c_heap (collect n c) = c_heap c"
  "c_next (collect n c) = c_next c" "c_held (collect n c) = c_held c"
  "c_waiting (collect n c) = c_waiting c" "c_constructed (collect n c) = c_constructed c"
  by (induction n arbitrary: c; simp split: list.split)+

lemma release_same [simp]:
  "c_Tree (c_release c) = c_Tree c" "c_Transactions (c_release c) = c_Transactions c"
  "c_TransactioIdCtr (c_release c) = c_TransactioIdCtr c"
  "c_TreeAddHandler (c_release c) = c_TreeAddHandler c"
  "c_TreeRemoveHandler (c_release c) = c_TreeRemoveHandler c"
  "c_reader (c_release c) = c_reader c" "c_heap (c_release c) = c_heap c"
  "c_next (c_release c) = c_next c" "c_held (c_release c) = c_held c"
  "c_waiting (c_release c) = c_waiting c" "c_constructed (c_release c) = c_constructed c"
  "roots (c_release c) = roots c"
  by (simp_all add: c_release_def roots_def)

lemma orphans_Cons: "orphans c = r # rs \<Longrightarrow> c_live c r \<and> \<not> c_owned c r \<and> r < c_next c"
proof -
  assume "orphans c = r # rs"
  then have "r \<in> set (orphans c)" by simp
  then show ?thesis by (auto simp: orphans_def)
qed

lemma collect_live: "c_live (collect n c) r \<Longrightarrow> c_live c r"
  by (induction n arbitrary: c) (fastforce split: list.splits if_splits)+

lemma release_live: "c_live (c_release c) r \<Longrightarrow> c_live c r"
  unfolding c_release_def by (rule collect_live)

text \<open>
  \<open>well_owned\<close>: what a root or a live object points to exists. Collection keeps this, and removes
  all that has no owner: the number of objects bounds the number of rounds.
\<close>

definition well_owned :: "Client \<Rightarrow> bool" where
  "well_owned c \<longleftrightarrow> (\<forall>r\<in>set (roots c). c_live c r) \<and>
     (\<forall>p. c_live c p \<longrightarrow> p < c_next c \<and> (\<forall>r\<in>snd ` set (cn_children (c_heap c p)). c_live c r))"

lemma owned_iff: "well_owned c \<Longrightarrow> c_owned c r \<longleftrightarrow>
    r \<in> set (roots c) \<or> (\<exists>p. c_live c p \<and> r \<in> snd ` set (cn_children (c_heap c p)))"
  by (auto simp: c_owned_def list_ex_iff well_owned_def)

lemma well_owned_collect: "well_owned c \<Longrightarrow> well_owned (collect n c)"
proof (induction n arbitrary: c)
  case (Suc n)
  show ?case
  proof (cases "orphans c")
    case (Cons r rs)
    let ?c = "c\<lparr>c_live := (c_live c)(r := False)\<rparr>"
    from orphans_Cons [OF Cons] owned_iff [OF Suc.prems, of r]
    have "r \<notin> set (roots c)" "\<And>p. c_live c p \<Longrightarrow> r \<notin> snd ` set (cn_children (c_heap c p))" by auto
    with Suc.prems have "well_owned ?c"
      by (auto simp: well_owned_def roots_def)
    with Suc.IH Cons show ?thesis by simp
  qed (use Suc.prems in simp)
qed simp

lemma well_owned_release: "well_owned c \<Longrightarrow> well_owned (c_release c)"
  unfolding c_release_def by (rule well_owned_collect)

lemma release_roots: "well_owned c \<Longrightarrow> r \<in> set (roots c) \<Longrightarrow> c_live (c_release c) r"
  using well_owned_release [of c] by (simp add: well_owned_def)

lemma count_kill:
  assumes "c_live c r" "r < c_next c"
  shows "length (filter (c_live (c\<lparr>c_live := (c_live c)(r := False)\<rparr>)) [0..<c_next c]) <
    length (filter (c_live c) [0..<c_next c])"
proof -
  have "{x. x < c_next c \<and> ((c_live c)(r := False)) x} \<subset> {x. x < c_next c \<and> c_live c x}"
    using assms by auto
  moreover have "length (filter P [0..<n]) = card {x. x < n \<and> P x}" for P :: "nat \<Rightarrow> bool" and n
  proof -
    have "{x. x < n \<and> P x} = set (filter P [0..<n])" by auto
    then show ?thesis by (simp only: distinct_card distinct_filter distinct_upt)
  qed
  ultimately show ?thesis by (simp add: psubset_card_mono)
qed

lemma collect_done:
  "length (filter (c_live c) [0..<c_next c]) \<le> n \<Longrightarrow> orphans (collect n c) = []"
proof (induction n arbitrary: c)
  case 0
  then have "\<forall>r<c_next c. \<not> c_live c r" by (auto simp: filter_empty_conv)
  then show ?case by (simp add: orphans_def filter_empty_conv)
next
  case (Suc n)
  show ?case
  proof (cases "orphans c")
    case (Cons r rs)
    let ?c = "c\<lparr>c_live := (c_live c)(r := False)\<rparr>"
    from count_kill [of c r] orphans_Cons [OF Cons] Suc.prems
    have "length (filter (c_live ?c) [0..<c_next ?c]) \<le> n" by (simp del: fun_upd_apply)
    from Suc.IH [OF this] Cons show ?thesis by simp
  qed simp
qed

lemma release_done: "orphans (c_release c) = []"
proof -
  have "length (filter (c_live c) [0..<c_next c]) \<le> length [0..<c_next c]" by (rule length_filter_le)
  then show ?thesis unfolding c_release_def by (intro collect_done) simp
qed

end
