(* ===== verification/Client.thy ===== *)
theory Client
  imports ClientState
begin

text \<open>
  The operations of \<open>client/src/Client.cpp\<close>. A blocking operation is two functions: what it does up
  to \<open>addTransaction\<close> (\<open>X_request\<close>), which may already give its result, and what it does with the
  message \<open>waitTransaction\<close> returns (\<open>X_response\<close>). Between the two anything can happen, and
  \<open>client_step\<close> lets it. The locks are not in the model: each half of an operation and the handling
  of each message runs to its end before the next begins.
\<close>

section \<open>What a client does to the outside\<close>

datatype result =
    RUnit
  | RBool bool
  | RBytes "u8 list"
  | RProperty handle
  | RThrow string

datatype client_action =
    Sent PropertyTreeProtocol "u8 list"
  | TreeAdded cref
  | TreeRemoved cref
  | Updated cref
  | RpcHandled cref "u8 list"
  | Returned nat result

section \<open>The tree\<close>

text \<open>\<open>parent->children[name] = node\<close>.\<close>

definition set_child :: "cref \<Rightarrow> string \<Rightarrow> cref \<Rightarrow> Client \<Rightarrow> Client" where
  "set_child p name r c =
     c_release (c\<lparr>c_heap := (c_heap c)(p := (c_heap c p)\<lparr>cn_children :=
       om_assign name r (cn_children (c_heap c p))\<rparr>)\<rparr>)"

text \<open>
  One round of the loop of \<open>Client::addNodes\<close>. The iterator \<open>nodeIt\<close> is taken before the dummy
  parent is put into \<open>mTree\<close> and used afterwards, as the standard library the code is built with
  allows.
\<close>

definition add_node :: "NamedNode \<Rightarrow> Client \<Rightarrow> Client \<times> client_action list" where
  "add_node i c =
     (let nodeIt = ctree c (NamedNode_uuid i);
          (parentNode, c) =
            (case ctree c (NamedNode_parentUuid i) of
               Some p \<Rightarrow> (p, c)
             | None \<Rightarrow>
                 (let (dummyParent, c) = make_Node ''ghost'' None (NamedNode_parentUuid i) c
                  in (dummyParent, c\<lparr>c_Tree := um_emplace (NamedNode_parentUuid i) dummyParent (c_Tree c)\<rparr>)))
      in case nodeIt of
           Some node \<Rightarrow>
             (let oldParent = cn_parent (c_heap c node);
                  c = c\<lparr>c_heap := (c_heap c)(node := (c_heap c node)\<lparr>cn_name := NamedNode_name i,
                        cn_parent := Some parentNode\<rparr>)\<rparr>;
                  c = set_child parentNode (NamedNode_name i) node c
              in (c, if lock c oldParent = None \<and> c_TreeAddHandler c then [TreeAdded node] else []))
         | None \<Rightarrow>
             (let (newNode, c) = make_Node (NamedNode_name i) (Some parentNode) (NamedNode_uuid i) c;
                  c = c\<lparr>c_Tree := um_emplace (NamedNode_uuid i) newNode (c_Tree c)\<rparr>;
                  c = set_child parentNode (NamedNode_name i) newNode c
              in (c, if c_TreeAddHandler c then [TreeAdded newNode] else [])))"

fun addNodes :: "NamedNode list \<Rightarrow> Client \<Rightarrow> Client \<times> client_action list" where
  "addNodes [] c = (c, [])"
| "addNodes (i # is) c =
     (let (c, out) = add_node i c; (c, out') = addNodes is c in (c, out @ out'))"

definition remove_node :: "u64 \<Rightarrow> Client \<Rightarrow> Client \<times> client_action list" where
  "remove_node i c =
     (case ctree c i of
        None \<Rightarrow> (c, [])
      | Some r \<Rightarrow>
          (let out = (if c_TreeRemoveHandler c then [TreeRemoved r] else []);
               c = (case lock c (cn_parent (c_heap c r)) of
                      None \<Rightarrow> c
                    | Some parent \<Rightarrow> c\<lparr>c_heap := (c_heap c)(parent := (c_heap c parent)\<lparr>cn_children :=
                        om_erase (cn_name (c_heap c r)) (cn_children (c_heap c parent))\<rparr>)\<rparr>);
               c = c\<lparr>c_Tree := um_erase i (c_Tree c)\<rparr>
           in (c_release c, out)))"

fun removeNodes :: "u64 list \<Rightarrow> Client \<Rightarrow> Client \<times> client_action list" where
  "removeNodes [] c = (c, [])"
| "removeNodes (i # is) c =
     (let (c, out) = remove_node i c; (c, out') = removeNodes is c in (c, out @ out'))"

section \<open>Sending\<close>

definition SEND_SIZE :: nat where
  "SEND_SIZE = 512"

text \<open>
  \<open>Client::send\<close>: the frame is built in a buffer of \<open>SEND_SIZE\<close> bytes. \<open>sent\<close> says whether
  \<open>::send\<close> succeeds.
\<close>

definition client_send :: "cum \<Rightarrow> bool \<Rightarrow> PropertyTreeProtocol \<Rightarrow> fault + u8 list" where
  "client_send L sent pMsg =
     bindR (encode L pMsg SEND_SIZE) (\<lambda>buffer.
       if sent then Inr buffer else Inl (Thrown ''errno''))"

text \<open>
  \<open>Client::addTransaction\<close>: the entry is made before the request is sent, and stays if sending
  throws.
\<close>

definition next_id :: "u16 \<Rightarrow> u16 \<times> u16" where
  "next_id ctr = (if ctr = 0xFFFF then (ctr + 1, ctr + 1 + 1) else (ctr, ctr + 1))"

definition addTransaction ::
  "cum \<Rightarrow> bool \<Rightarrow> PropertyTreeMessages \<Rightarrow> Client \<Rightarrow> Client \<times> u16 \<times> (fault + u8 list)" where
  "addTransaction L sent pMsg c =
     (let (trId, ctr) = next_id (c_TransactioIdCtr c);
          c = c\<lparr>c_TransactioIdCtr := ctr,
                c_Transactions := um_emplace trId new_Transaction (c_Transactions c)\<rparr>
      in (c, trId, client_send L sent (single trId pMsg)))"

text \<open>
  \<open>Client::waitTransaction\<close>, once the wait is over: \<open>Inr None\<close> is a transaction that is not
  satisfied, for which it throws; the entry is erased only if it is.
\<close>

definition waitTransaction ::
  "u16 \<Rightarrow> Client \<Rightarrow> fault + (Client \<times> PropertyTreeMessages) option" where
  "waitTransaction pTrId c =
     (case map_of (c_Transactions c) pTrId of
        None \<Rightarrow> Inl Dangling
      | Some transaction \<Rightarrow>
          if \<not> satisfied transaction then Inr None
          else Inr (Some (c\<lparr>c_Transactions := um_erase pTrId (c_Transactions c)\<rparr>, reply transaction)))"

section \<open>What arrives\<close>

definition client_TreeUpdateNotification ::
  "TreeUpdateNotification \<Rightarrow> Client \<Rightarrow> Client \<times> client_action list" where
  "client_TreeUpdateNotification pMsg c =
     (let (c, out) = addNodes (TreeUpdateNotification_nodeToAddList pMsg) c;
          (c, out') = removeNodes (TreeUpdateNotification_nodeToDelete pMsg) c
      in (c, out @ out'))"

text \<open>The value is copied in place when the sizes agree and replaced when they do not.\<close>

definition store_value :: "cref \<Rightarrow> u8 list \<Rightarrow> Client \<Rightarrow> Client" where
  "store_value r bs c =
     c\<lparr>c_heap := (c_heap c)(r := (c_heap c r)\<lparr>cn_data :=
       (if length (cn_data (c_heap c r)) = length bs
        then bs @ drop (length bs) (cn_data (c_heap c r)) else bs)\<rparr>)\<rparr>"

definition client_UpdateNotification ::
  "UpdateNotification \<Rightarrow> Client \<Rightarrow> Client \<times> client_action list" where
  "client_UpdateNotification pMsg c =
     (case ctree c (UpdateNotification_uuid pMsg) of
        None \<Rightarrow> (c, [])
      | Some node \<Rightarrow>
          (let c = store_value node (UpdateNotification_data pMsg) c
           in (c, if cn_updateHandler (c_heap c node) then [Updated node] else [])))"

definition client_RpcRequest ::
  "cum \<Rightarrow> bool \<Rightarrow> u16 \<Rightarrow> RpcRequest \<Rightarrow> Client \<Rightarrow> fault + (Client \<times> client_action list)" where
  "client_RpcRequest L sent pTransactionId pMsg c =
     (let answer = (\<lambda>out m. bindR (client_send L sent (single pTransactionId m))
            (\<lambda>bs. Inr (c, out @ [Sent (single pTransactionId m) bs])))
      in case ctree c (RpcRequest_uuid pMsg) of
           None \<Rightarrow> answer [] (RpcReject \<lparr>RpcReject_cause = NOT_FOUND\<rparr>)
         | Some node \<Rightarrow>
             (case cn_rcpHandler (c_heap c node) of
                Some handler \<Rightarrow>
                  answer [RpcHandled node (RpcRequest_param pMsg)]
                    (RpcAccept \<lparr>RpcAccept_value = handler (RpcRequest_param pMsg)\<rparr>)
              | None \<Rightarrow> answer [] (RpcReject \<lparr>RpcReject_cause = NO_HANDLER\<rparr>)))"

text \<open>The handlers by transaction id; the template that takes all other messages does nothing.\<close>

fun client_visit ::
  "cum \<Rightarrow> bool \<Rightarrow> u16 \<Rightarrow> PropertyTreeMessages \<Rightarrow> Client \<Rightarrow> fault + (Client \<times> client_action list)" where
  "client_visit L sent t (TreeUpdateNotification m) c = Inr (client_TreeUpdateNotification m c)"
| "client_visit L sent t (UpdateNotification m) c = Inr (client_UpdateNotification m c)"
| "client_visit L sent t (RpcRequest m) c = client_RpcRequest L sent t m c"
| "client_visit L sent t _ c = Inr (c, [])"

definition client_handle_message ::
  "cum \<Rightarrow> bool \<Rightarrow> PropertyTreeMessage \<Rightarrow> Client \<Rightarrow> fault + (Client \<times> client_action list)" where
  "client_handle_message L sent pMsg c =
     (case map_of (c_Transactions c) (transactionId pMsg) of
        Some _ \<Rightarrow> Inr (c\<lparr>c_Transactions := um_assign (transactionId pMsg)
          \<lparr>satisfied = True, reply = message pMsg\<rparr> (c_Transactions c)\<rparr>, [])
      | None \<Rightarrow> client_visit L sent (transactionId pMsg) (message pMsg) c)"

fun client_handle_array ::
  "cum \<Rightarrow> bool \<Rightarrow> PropertyTreeMessage list \<Rightarrow> Client \<Rightarrow> fault + (Client \<times> client_action list)" where
  "client_handle_array L sent [] c = Inr (c, [])"
| "client_handle_array L sent (i # pMsg) c =
     bindR (client_handle_message L sent i c) (\<lambda>(c, out).
     bindR (client_handle_array L sent pMsg c) (\<lambda>(c, out'). Inr (c, out @ out')))"

fun client_handle ::
  "cum \<Rightarrow> bool \<Rightarrow> PropertyTreeProtocol \<Rightarrow> Client \<Rightarrow> fault + (Client \<times> client_action list)" where
  "client_handle L sent (PropertyTreeMessage m) c = client_handle_message L sent m c"
| "client_handle L sent (PropertyTreeMessageArray ms) c = client_handle_array L sent ms c"

text \<open>\<open>Client::handleRead\<close> with \<open>Client::decodeMessage\<close>: from the bytes of the socket to the handlers.\<close>

definition Client_handleRead ::
  "cum \<Rightarrow> bool \<Rightarrow> u8 list option \<Rightarrow> Client \<Rightarrow> fault + (Client \<times> client_action list)" where
  "Client_handleRead L sent res c =
     bindR (client_handleRead res (c_reader c)) (\<lambda>(rb, r).
       let c = c\<lparr>c_reader := rb\<rparr>
       in case r of
            Delivered body \<Rightarrow>
              bindR (decode_message L body) (\<lambda>message. client_handle L sent message c)
          | _ \<Rightarrow> Inr (c, []))"

end
