(* ===== verification/ClientOps.thy ===== *)
theory ClientOps
  imports Client Machine
begin

text \<open>
  The operations a user of the library calls (\<open>client/src/Client.cpp\<close>), and the program a client is
  part of: threads that start operations and resume when they are answered or have waited long
  enough, messages that arrive, handlers that are set, handles that are copied and dropped.
\<close>

section \<open>Operations\<close>

datatype request = Early result | Ask PropertyTreeMessages

text \<open>\<open>pProp.node()->...\<close>.\<close>

definition deref :: "handle \<Rightarrow> (cref \<Rightarrow> fault + 'a) \<Rightarrow> fault + 'a" where
  "deref p f = (case p of None \<Rightarrow> Inl NullDeref | Some r \<Rightarrow> f r)"

type_synonym response = "fault + (Client \<times> client_action list \<times> result)"

abbreviation protocol_error :: "Client \<Rightarrow> response" where
  "protocol_error c \<equiv> Inr (c, [], RThrow ''protocol error!'')"

definition signin_request :: request where
  "signin_request = Ask (SigninRequest \<lparr>SigninRequest_spare = 0\<rparr>)"

definition signin_response :: "PropertyTreeMessages \<Rightarrow> Client \<Rightarrow> response" where
  "signin_response m c =
     (case m of
        SigninAccept _ \<Rightarrow>
          (let (r, c) = make_Node '''' None 0 c
           in Inr (c_release (c\<lparr>c_Tree := um_emplace 0 r (c_Tree c), c_constructed := True\<rparr>), [], RUnit))
      | _ \<Rightarrow> Inr (c, [], RThrow ''signin failure!''))"

definition root_request :: "Client \<Rightarrow> fault + request" where
  "root_request c = (case ctree c 0 of None \<Rightarrow> Inl EndDeref | Some r \<Rightarrow> Inr (Early (RProperty (Some r))))"

definition create_request :: "handle \<Rightarrow> string \<Rightarrow> Client \<Rightarrow> fault + request" where
  "create_request pParent pName c =
     deref pParent (\<lambda>node. case map_of (cn_children (c_heap c node)) pName of
         Some r \<Rightarrow> Inr (Early (RProperty (Some r)))
       | None \<Rightarrow> Inr (Ask (CreateRequest \<lparr>CreateRequest_name = pName,
           CreateRequest_parentUuid = cn_uuid (c_heap c node)\<rparr>)))"

definition create_response :: "handle \<Rightarrow> string \<Rightarrow> PropertyTreeMessages \<Rightarrow> Client \<Rightarrow> response" where
  "create_response pParent pName m c =
     deref pParent (\<lambda>node. case m of
         CreateReject _ \<Rightarrow> Inr (c, [], RProperty (map_of (cn_children (c_heap c node)) pName))
       | CreateAccept a \<Rightarrow>
           (case ctree c (CreateAccept_uuid a) of
              Some r \<Rightarrow> Inr (c, [], RProperty (Some r))
            | None \<Rightarrow>
                (let (newNode, c) = make_Node pName (Some node) (CreateAccept_uuid a) c;
                     c = c\<lparr>c_Tree := um_emplace (CreateAccept_uuid a) newNode (c_Tree c)\<rparr>;
                     c = c\<lparr>c_heap := (c_heap c)(node := (c_heap c node)\<lparr>cn_children :=
                           om_emplace pName newNode (cn_children (c_heap c node))\<rparr>)\<rparr>
                 in Inr (c, [], RProperty (Some newNode))))
       | _ \<Rightarrow> protocol_error c)"

definition get_request :: "handle \<Rightarrow> string \<Rightarrow> bool \<Rightarrow> Client \<Rightarrow> fault + request" where
  "get_request pParent pName pRecursive c =
     deref pParent (\<lambda>node.
       let ask = Inr (Ask (TreeInfoRequest \<lparr>TreeInfoRequest_parentUuid = cn_uuid (c_heap c node),
             TreeInfoRequest_name = pName, TreeInfoRequest_recursive = (if pRecursive then 1 else 0)\<rparr>))
       in case map_of (cn_children (c_heap c node)) pName of
            Some r \<Rightarrow> if \<not> pRecursive then Inr (Early (RProperty (Some r))) else ask
          | None \<Rightarrow> ask)"

definition get_response :: "handle \<Rightarrow> string \<Rightarrow> PropertyTreeMessages \<Rightarrow> Client \<Rightarrow> response" where
  "get_response pParent pName m c =
     (case m of
        TreeInfoResponse a \<Rightarrow>
          (let (c, out) = addNodes (TreeInfoResponse_nodeToAddList a) c
           in if pName = ''.'' then Inr (c, out, RProperty pParent)
              else case TreeInfoResponse_nodeToAddList a of
                     [] \<Rightarrow> Inl EndDeref
                   | i # _ \<Rightarrow> (case ctree c (NamedNode_uuid i) of
                       None \<Rightarrow> Inl EndDeref
                     | Some r \<Rightarrow> Inr (c, out, RProperty (Some r))))
      | TreeInfoErrorResponse _ \<Rightarrow> Inr (c, [], RProperty None)
      | _ \<Rightarrow> protocol_error c)"

definition commit_request :: "handle \<Rightarrow> Client \<Rightarrow> fault + request" where
  "commit_request pProp c =
     deref pProp (\<lambda>node. Inr (Ask (SetValueRequest \<lparr>SetValueRequest_uuid = cn_uuid (c_heap c node),
       SetValueRequest_data = cn_data (c_heap c node)\<rparr>)))"

definition commit_response :: "PropertyTreeMessages \<Rightarrow> Client \<Rightarrow> response" where
  "commit_response m c = (case m of SetValueAccept _ \<Rightarrow> Inr (c, [], RUnit) | _ \<Rightarrow> protocol_error c)"

definition fetch_request :: "handle \<Rightarrow> Client \<Rightarrow> fault + request" where
  "fetch_request pProp c =
     deref pProp (\<lambda>node. Inr (Ask (GetRequest \<lparr>GetRequest_uuid = cn_uuid (c_heap c node)\<rparr>)))"

definition fetch_response :: "handle \<Rightarrow> PropertyTreeMessages \<Rightarrow> Client \<Rightarrow> response" where
  "fetch_response pProp m c =
     (case m of
        GetAccept a \<Rightarrow> deref pProp (\<lambda>node. Inr (store_value node (GetAccept_data a) c, [], RUnit))
      | GetReject _ \<Rightarrow> Inr (c, [], RUnit)
      | _ \<Rightarrow> protocol_error c)"

definition subscribe_request :: "handle \<Rightarrow> Client \<Rightarrow> fault + request" where
  "subscribe_request pProp c =
     deref pProp (\<lambda>node. Inr (Ask (SubscribeRequest \<lparr>SubscribeRequest_uuid = cn_uuid (c_heap c node)\<rparr>)))"

definition subscribe_response :: "PropertyTreeMessages \<Rightarrow> Client \<Rightarrow> response" where
  "subscribe_response m c =
     (case m of
        SubscribeResponse a \<Rightarrow> Inr (c, [], RBool (SubscribeResponse_cause a = OK))
      | _ \<Rightarrow> protocol_error c)"

definition unsubscribe_request :: "handle \<Rightarrow> Client \<Rightarrow> fault + request" where
  "unsubscribe_request pProp c =
     deref pProp (\<lambda>node. Inr (Ask (UnsubscribeRequest \<lparr>UnsubscribeRequest_uuid = cn_uuid (c_heap c node)\<rparr>)))"

definition unsubscribe_response :: "PropertyTreeMessages \<Rightarrow> Client \<Rightarrow> response" where
  "unsubscribe_response m c =
     (case m of
        UnsubscribeResponse a \<Rightarrow> Inr (c, [], RBool (UnsubscribeResponse_cause a = OK))
      | _ \<Rightarrow> protocol_error c)"

definition destroy_request :: "handle \<Rightarrow> Client \<Rightarrow> fault + request" where
  "destroy_request pProp c =
     deref pProp (\<lambda>node. Inr (Ask (DeleteRequest \<lparr>DeleteRequest_uuid = cn_uuid (c_heap c node)\<rparr>)))"

definition destroy_response :: "handle \<Rightarrow> PropertyTreeMessages \<Rightarrow> Client \<Rightarrow> response" where
  "destroy_response pProp m c =
     (case m of
        DeleteResponse a \<Rightarrow>
          if DeleteResponse_cause a \<noteq> OK then Inr (c, [], RBool False)
          else deref pProp (\<lambda>node.
            let c' = (case lock c (cn_parent (c_heap c node)) of
                        None \<Rightarrow> c
                      | Some parent \<Rightarrow> c_release (c\<lparr>c_heap := (c_heap c)(parent := (c_heap c parent)\<lparr>cn_children :=
                          om_erase (cn_name (c_heap c node)) (cn_children (c_heap c parent))\<rparr>)\<rparr>))
            in Inr (c', [], RBool True))
      | _ \<Rightarrow> protocol_error c)"

definition beat_request :: request where
  "beat_request = Ask (HearbeatRequest \<lparr>HearbeatRequest_spare = 0\<rparr>)"

definition beat_response :: "PropertyTreeMessages \<Rightarrow> Client \<Rightarrow> response" where
  "beat_response m c = (case m of HearbeatResponse _ \<Rightarrow> Inr (c, [], RUnit) | _ \<Rightarrow> protocol_error c)"

definition call_request :: "handle \<Rightarrow> u8 list \<Rightarrow> Client \<Rightarrow> fault + request" where
  "call_request pProp pValue c =
     deref pProp (\<lambda>node. Inr (Ask (RpcRequest \<lparr>RpcRequest_uuid = cn_uuid (c_heap c node),
       RpcRequest_param = pValue\<rparr>)))"

text \<open>Both tests of the code are for \<open>RpcAccept\<close>: the second branch is never taken.\<close>

definition call_response :: "PropertyTreeMessages \<Rightarrow> Client \<Rightarrow> response" where
  "call_response m c = (case m of RpcAccept a \<Rightarrow> Inr (c, [], RBytes (RpcAccept_value a)) | _ \<Rightarrow> protocol_error c)"

fun op_request :: "Op \<Rightarrow> Client \<Rightarrow> fault + request" where
  "op_request OpSignin c = Inr signin_request"
| "op_request OpRoot c = root_request c"
| "op_request (OpCreate p n) c = create_request p n c"
| "op_request (OpGet p n r) c = get_request p n r c"
| "op_request (OpCommit p) c = commit_request p c"
| "op_request (OpFetch p) c = fetch_request p c"
| "op_request (OpSubscribe p) c = subscribe_request p c"
| "op_request (OpUnsubscribe p) c = unsubscribe_request p c"
| "op_request (OpDestroy p) c = destroy_request p c"
| "op_request OpBeat c = Inr beat_request"
| "op_request (OpCall p v) c = call_request p v c"

fun op_response :: "Op \<Rightarrow> PropertyTreeMessages \<Rightarrow> Client \<Rightarrow> response" where
  "op_response OpSignin m c = signin_response m c"
| "op_response OpRoot m c = protocol_error c"
| "op_response (OpCreate p n) m c = create_response p n m c"
| "op_response (OpGet p n r) m c = get_response p n m c"
| "op_response (OpCommit p) m c = commit_response m c"
| "op_response (OpFetch p) m c = fetch_response p m c"
| "op_response (OpSubscribe p) m c = subscribe_response m c"
| "op_response (OpUnsubscribe p) m c = unsubscribe_response m c"
| "op_response (OpDestroy p) m c = destroy_response p m c"
| "op_response OpBeat m c = beat_response m c"
| "op_response (OpCall p v) m c = call_response m c"

section \<open>Threads\<close>

text \<open>An operation returns: the thread no longer waits, and holds the handle it is given.\<close>

definition returned :: "nat \<Rightarrow> result \<Rightarrow> Client \<Rightarrow> Client" where
  "returned t v c = c_release (c\<lparr>c_waiting := um_erase t (c_waiting c),
     c_held := (case v of RProperty (Some r) \<Rightarrow> r # c_held c | _ \<Rightarrow> c_held c)\<rparr>)"

definition start ::
  "cum \<Rightarrow> nat \<Rightarrow> Op \<Rightarrow> bool \<Rightarrow> Client \<Rightarrow> fault + (Client \<times> client_action list)" where
  "start L t op sent c =
     bindR (op_request op c) (\<lambda>q. case q of
         Early v \<Rightarrow> Inr (returned t v c, [Returned t v])
       | Ask m \<Rightarrow>
           (let (c, trId, res) = addTransaction L sent m c
            in case res of
                 Inr bs \<Rightarrow> Inr (c\<lparr>c_waiting := um_emplace t (trId, op) (c_waiting c)\<rparr>,
                   [Sent (single trId m) bs])
               | Inl (Thrown w) \<Rightarrow> Inr (returned t (RThrow w) c, [Returned t (RThrow w)])
               | Inl f \<Rightarrow> Inl f))"

definition resume :: "nat \<Rightarrow> Client \<Rightarrow> fault + (Client \<times> client_action list)" where
  "resume t c =
     (case map_of (c_waiting c) t of
        None \<Rightarrow> Inr (c, [])
      | Some (trId, op) \<Rightarrow>
          bindR (waitTransaction trId c) (\<lambda>w. case w of
              None \<Rightarrow> Inr (c, [])
            | Some (c, m) \<Rightarrow>
                bindR (op_response op m c) (\<lambda>(c, out, v). Inr (returned t v c, out @ [Returned t v]))))"

definition timeout :: "nat \<Rightarrow> Client \<Rightarrow> fault + (Client \<times> client_action list)" where
  "timeout t c =
     (case map_of (c_waiting c) t of
        None \<Rightarrow> Inr (c, [])
      | Some (trId, op) \<Rightarrow>
          bindR (waitTransaction trId c) (\<lambda>w. case w of
              None \<Rightarrow> Inr (returned t (RThrow ''transaction failure'') c,
                [Returned t (RThrow ''transaction failure'')])
            | Some _ \<Rightarrow> Inr (c, [])))"

text \<open>
  What can happen. The constructor runs first and once. A thread starts an operation only while it
  does not wait, and with a handle the program holds; handlers are set on nodes it holds; a handle
  can be copied from an object that exists and dropped. An event that is not possible in a state
  changes nothing.
\<close>

datatype client_event =
    Start nat Op bool
  | Resume nat
  | Timeout nat
  | Receive PropertyTreeProtocol bool
  | SetTreeAddHandler bool
  | SetTreeRemoveHandler bool
  | SetRcpHandler cref "(u8 list \<Rightarrow> u8 list) option"
  | SetUpdateHandler cref bool
  | SetData cref "u8 list"
  | Hold cref
  | Drop cref

definition may_start :: "nat \<Rightarrow> Op \<Rightarrow> Client \<Rightarrow> bool" where
  "may_start t op c \<longleftrightarrow> map_of (c_waiting c) t = None \<and>
     (if op = OpSignin then \<not> c_constructed c \<and> c_waiting c = [] else c_constructed c) \<and>
     (case op_handle op of None \<Rightarrow> True | Some r \<Rightarrow> r \<in> set (c_held c))"

fun client_step :: "cum \<Rightarrow> client_event \<Rightarrow> Client \<Rightarrow> fault + (Client \<times> client_action list)" where
  "client_step L (Start t op sent) c = (if may_start t op c then start L t op sent c else Inr (c, []))"
| "client_step L (Resume t) c = resume t c"
| "client_step L (Timeout t) c = timeout t c"
| "client_step L (Receive m sent) c = client_handle L sent m c"
| "client_step L (SetTreeAddHandler h) c = Inr (c\<lparr>c_TreeAddHandler := h\<rparr>, [])"
| "client_step L (SetTreeRemoveHandler h) c = Inr (c\<lparr>c_TreeRemoveHandler := h\<rparr>, [])"
| "client_step L (SetRcpHandler r h) c =
     Inr (if r \<in> set (c_held c)
       then c\<lparr>c_heap := (c_heap c)(r := (c_heap c r)\<lparr>cn_rcpHandler := h\<rparr>)\<rparr> else c, [])"
| "client_step L (SetUpdateHandler r h) c =
     Inr (if r \<in> set (c_held c)
       then c\<lparr>c_heap := (c_heap c)(r := (c_heap c r)\<lparr>cn_updateHandler := h\<rparr>)\<rparr> else c, [])"
| "client_step L (SetData r bs) c =
     Inr (if r \<in> set (c_held c)
       then c\<lparr>c_heap := (c_heap c)(r := (c_heap c r)\<lparr>cn_data := bs\<rparr>)\<rparr> else c, [])"
| "client_step L (Hold r) c =
     Inr (if c_live c r then c\<lparr>c_held := r # c_held c\<rparr> else c, [])"
| "client_step L (Drop r) c = Inr (c_release (c\<lparr>c_held := remove1 r (c_held c)\<rparr>), [])"

end
