(* ===== verification/ClientInv.thy ===== *)
theory ClientInv
  imports ClientOps
begin

text \<open>
  The invariant of the nodes of a client, and that the operations on them keep it. \<open>tree_wf\<close>: the
  table finds every node under its own uuid, everything that is pointed to exists.
\<close>

section \<open>The invariant of the tree\<close>

definition refs_ok :: "Client \<Rightarrow> bool" where
  "refs_ok c \<longleftrightarrow> (\<forall>r p. cn_parent (c_heap c r) = Some p \<longrightarrow> p < c_next c)"

definition tree_wf :: "Client \<Rightarrow> bool" where
  "tree_wf c \<longleftrightarrow> um_wf (c_Tree c) \<and> well_owned c \<and> refs_ok c \<and>
     (\<forall>u r. ctree c u = Some r \<longrightarrow> cn_uuid (c_heap c r) = u) \<and>
     (\<forall>r. om_wf (cn_children (c_heap c r)))"

named_theorems client_simps \<open>what the operations on the client tree leave alone\<close>

lemma set_child_same [client_simps]:
  "c_Tree (set_child p n r c) = c_Tree c" "c_Transactions (set_child p n r c) = c_Transactions c"
  "c_TransactioIdCtr (set_child p n r c) = c_TransactioIdCtr c"
  "c_TreeAddHandler (set_child p n r c) = c_TreeAddHandler c"
  "c_TreeRemoveHandler (set_child p n r c) = c_TreeRemoveHandler c"
  "c_next (set_child p n r c) = c_next c" "c_held (set_child p n r c) = c_held c"
  "c_waiting (set_child p n r c) = c_waiting c" "c_constructed (set_child p n r c) = c_constructed c"
  "cn_name (c_heap (set_child p n r c) x) = cn_name (c_heap c x)"
  "cn_data (c_heap (set_child p n r c) x) = cn_data (c_heap c x)"
  "cn_parent (c_heap (set_child p n r c) x) = cn_parent (c_heap c x)"
  "cn_uuid (c_heap (set_child p n r c) x) = cn_uuid (c_heap c x)"
  by (simp_all add: set_child_def)

lemma ctree_root: "ctree c u = Some r \<Longrightarrow> r \<in> set (roots c)"
  by (force simp: roots_def dest: map_of_SomeD)

lemma tree_live: "tree_wf c \<Longrightarrow> ctree c u = Some r \<Longrightarrow> c_live c r \<and> r < c_next c"
  using ctree_root [of c u r] by (auto simp: tree_wf_def well_owned_def)

lemma held_live: "tree_wf c \<Longrightarrow> r \<in> set (c_held c) \<Longrightarrow> c_live c r \<and> r < c_next c"
  by (auto simp: tree_wf_def well_owned_def roots_def)

lemma waiting_live: "tree_wf c \<Longrightarrow> map_of (c_waiting c) t = Some (i, op) \<Longrightarrow> op_handle op = Some r \<Longrightarrow>
    c_live c r \<and> r < c_next c"
proof -
  assume wf: "tree_wf c" and w: "map_of (c_waiting c) t = Some (i, op)" "op_handle op = Some r"
  from map_of_SomeD [OF w(1)] w(2) have "r \<in> set (roots c)"
    by (force simp: roots_def)
  with wf show ?thesis by (auto simp: tree_wf_def well_owned_def)
qed

lemma refs_okD: "tree_wf c \<Longrightarrow> cn_parent (c_heap c r) = Some p \<Longrightarrow> p < c_next c"
  by (simp add: tree_wf_def refs_ok_def)

text \<open>Updates of the store that keep the uuids and point to existing objects only.\<close>

lemma tree_wf_heap:
  assumes "tree_wf c" "\<And>r. cn_uuid (h r) = cn_uuid (c_heap c r)"
    and "\<And>r. om_wf (cn_children (h r))"
    and "\<And>r x. c_live c r \<Longrightarrow> x \<in> snd ` set (cn_children (h r)) \<Longrightarrow> c_live c x"
    and "\<And>r p. cn_parent (h r) = Some p \<Longrightarrow> p < c_next c"
  shows "tree_wf (c\<lparr>c_heap := h\<rparr>)"
  using assms by (auto simp: tree_wf_def well_owned_def roots_def refs_ok_def)

lemma tree_wf_release: "tree_wf c \<Longrightarrow> tree_wf (c_release c)"
  by (simp add: tree_wf_def well_owned_release refs_ok_def)

lemma tree_wf_roots:
  assumes "tree_wf c" "set (roots c') \<subseteq> set (roots c) \<union> {r. c_live c r}"
    and "c_heap c' = c_heap c" "c_live c' = c_live c" "c_next c' = c_next c" "um_wf (c_Tree c')"
    and "\<And>u r. ctree c' u = Some r \<Longrightarrow> cn_uuid (c_heap c r) = u"
  shows "tree_wf c'"
  using assms by (auto simp: tree_wf_def well_owned_def refs_ok_def)

lemma set_om_assign: "snd ` set (om_assign k v m) \<subseteq> insert v (snd ` set m)"
  by (induction m) auto

lemma set_om_emplace: "snd ` set (om_emplace k v m) \<subseteq> insert v (snd ` set m)"
  by (induction m) auto

lemma set_om_erase: "snd ` set (om_erase k m) \<subseteq> snd ` set m"
  by (auto simp: om_erase_def)

lemma live_children: "tree_wf c \<Longrightarrow> c_live c p \<Longrightarrow> x \<in> snd ` set (cn_children (c_heap c p)) \<Longrightarrow> c_live c x"
  by (auto simp: tree_wf_def well_owned_def)

lemma tree_wf_children:
  assumes "tree_wf c" "om_wf m" "\<And>x. c_live c p \<Longrightarrow> x \<in> snd ` set m \<Longrightarrow> c_live c x"
  shows "tree_wf (c\<lparr>c_heap := (c_heap c)(p := (c_heap c p)\<lparr>cn_children := m\<rparr>)\<rparr>)"
proof (rule tree_wf_heap [OF assms(1)], goal_cases)
  case (2 r) then show ?case using assms(1,2) by (simp add: tree_wf_def)
next
  case (3 r x) then show ?case using assms(3) live_children [OF assms(1), of r x] by (auto split: if_splits)
next
  case (4 r q) then show ?case using refs_okD [OF assms(1)] by (simp split: if_splits)
qed simp

lemma tree_wf_om: "tree_wf c \<Longrightarrow> om_wf (cn_children (c_heap c p))"
  by (simp add: tree_wf_def)

lemma tree_wf_assign_child:
  assumes "tree_wf c" "c_live c r"
  shows "tree_wf (c\<lparr>c_heap := (c_heap c)(p := (c_heap c p)\<lparr>cn_children := om_assign n r (cn_children (c_heap c p))\<rparr>)\<rparr>)"
  using set_om_assign [of n r "cn_children (c_heap c p)"] assms(2) live_children [OF assms(1)]
  by (intro tree_wf_children assms(1) om_wf_assign tree_wf_om) blast

lemma tree_wf_emplace_child:
  assumes "tree_wf c" "c_live c r"
  shows "tree_wf (c\<lparr>c_heap := (c_heap c)(p := (c_heap c p)\<lparr>cn_children := om_emplace n r (cn_children (c_heap c p))\<rparr>)\<rparr>)"
  using set_om_emplace [of n r "cn_children (c_heap c p)"] assms(2) live_children [OF assms(1)]
  by (intro tree_wf_children assms(1) om_wf_emplace tree_wf_om) blast

lemma tree_wf_erase_child:
  assumes "tree_wf c"
  shows "tree_wf (c\<lparr>c_heap := (c_heap c)(p := (c_heap c p)\<lparr>cn_children := om_erase n (cn_children (c_heap c p))\<rparr>)\<rparr>)"
  using set_om_erase [of n "cn_children (c_heap c p)"] live_children [OF assms(1)]
  by (intro tree_wf_children assms(1) om_wf_erase tree_wf_om) blast

lemma tree_wf_set_child: "tree_wf c \<Longrightarrow> c_live c r \<Longrightarrow> tree_wf (set_child p n r c)"
  unfolding set_child_def by (intro tree_wf_release tree_wf_assign_child)

text \<open>A new object, with a parent that exists or none.\<close>

lemma tree_wf_make:
  assumes "tree_wf c" "make_Node n w u c = (r, c')" "\<And>p. w = Some p \<Longrightarrow> p < c_next c"
  shows "tree_wf c'" "c_live c' r" "r = c_next c" "c_next c' = c_next c + 1" "cn_uuid (c_heap c' r) = u"
    "c_Tree c' = c_Tree c" "\<And>x. c_live c x \<Longrightarrow> c_live c' x"
    "\<And>x. x \<noteq> r \<Longrightarrow> c_heap c' x = c_heap c x" "c_heap c' r = new_ClientNode n w u"
proof -
  have c': "c' = c\<lparr>c_heap := (c_heap c)(c_next c := new_ClientNode n w u),
      c_live := (c_live c)(c_next c := True), c_next := c_next c + 1\<rparr>" and r: "r = c_next c"
    using assms(2) by (auto simp: make_Node_def)
  show "r = c_next c" "c_next c' = c_next c + 1" "c_Tree c' = c_Tree c" "c_live c' r"
    "cn_uuid (c_heap c' r) = u" "\<And>x. c_live c x \<Longrightarrow> c_live c' x" "\<And>x. x \<noteq> r \<Longrightarrow> c_heap c' x = c_heap c x"
    "c_heap c' r = new_ClientNode n w u"
    by (simp_all add: c' r new_ClientNode_def)
  have old: "x \<noteq> c_next c" if "c_live c x" for x using assms(1) that by (auto simp: tree_wf_def well_owned_def)
  have "well_owned c'"
    using assms(1) by (auto simp: c' tree_wf_def well_owned_def roots_def new_ClientNode_def intro: less_SucI)
  moreover have "refs_ok c'"
    using refs_okD [OF assms(1)] assms(3) by (auto simp: c' refs_ok_def new_ClientNode_def intro: less_SucI)
  moreover have "cn_uuid (c_heap c' x) = v" if "ctree c' v = Some x" for v x
    using that old tree_live [OF assms(1), of v x] assms(1) by (auto simp: c' tree_wf_def)
  ultimately show "tree_wf c'"
    using assms(1) by (auto simp: tree_wf_def c' new_ClientNode_def)
qed

lemma tree_wf_emplace:
  assumes "tree_wf c" "c_live c r" "cn_uuid (c_heap c r) = u"
  shows "tree_wf (c\<lparr>c_Tree := um_emplace u r (c_Tree c)\<rparr>)"
proof (rule tree_wf_roots [OF assms(1)])
  show "set (roots (c\<lparr>c_Tree := um_emplace u r (c_Tree c)\<rparr>)) \<subseteq> set (roots c) \<union> {r. c_live c r}"
    using assms(2) by (auto simp: roots_def um_emplace_def split: option.splits)
qed (use assms in \<open>auto simp: tree_wf_def dict_simps split: option.splits if_splits\<close>)

lemma tree_wf_erase:
  assumes "tree_wf c"
  shows "tree_wf (c\<lparr>c_Tree := um_erase u (c_Tree c)\<rparr>)"
proof (rule tree_wf_roots [OF assms])
  show "set (roots (c\<lparr>c_Tree := um_erase u (c_Tree c)\<rparr>)) \<subseteq> set (roots c) \<union> {r. c_live c r}"
    by (auto simp: roots_def um_erase_def)
qed (use assms in \<open>auto simp: tree_wf_def dict_simps split: if_splits\<close>)

section \<open>The operations on the tree keep it\<close>

lemma tree_wf_touch:
  assumes "tree_wf c" "\<And>p. cn_parent n = Some p \<Longrightarrow> p < c_next c" "cn_uuid n = cn_uuid (c_heap c r)"
    "cn_children n = cn_children (c_heap c r)"
  shows "tree_wf (c\<lparr>c_heap := (c_heap c)(r := n)\<rparr>)"
proof (rule tree_wf_heap [OF assms(1)], goal_cases)
  case (2 x) then show ?case using assms(1,4) by (simp add: tree_wf_def)
next
  case (3 x y) then show ?case using assms(4) live_children [OF assms(1), of x y] by (auto split: if_splits)
next
  case (4 x q) then show ?case using refs_okD [OF assms(1)] assms(2) by (simp split: if_splits)
qed (use assms(3) in simp)

lemma tree_wf_set_field:
  assumes "tree_wf c" "cn_parent n = cn_parent (c_heap c r)" "cn_uuid n = cn_uuid (c_heap c r)"
    "cn_children n = cn_children (c_heap c r)"
  shows "tree_wf (c\<lparr>c_heap := (c_heap c)(r := n)\<rparr>)"
  using assms refs_okD [OF assms(1)] by (intro tree_wf_touch) simp_all

lemma tree_wf_store_value: "tree_wf c \<Longrightarrow> tree_wf (store_value r bs c)"
  unfolding store_value_def by (rule tree_wf_touch) (auto dest: refs_okD)

text \<open>The parent of a node that is added: the known one, or a dummy that is made for it.\<close>

definition parent_for :: "u64 \<Rightarrow> Client \<Rightarrow> cref \<times> Client" where
  "parent_for u c = (case ctree c u of
     Some p \<Rightarrow> (p, c)
   | None \<Rightarrow> (let (dummyParent, c) = make_Node ''ghost'' None u c
             in (dummyParent, c\<lparr>c_Tree := um_emplace u dummyParent (c_Tree c)\<rparr>)))"

lemma tree_wf_parent_for:
  assumes "tree_wf c" "parent_for u c = (p, c')"
  shows "tree_wf c'" "c_live c' p" "ctree c' u = Some p" "\<And>v. v \<noteq> u \<Longrightarrow> ctree c' v = ctree c v"
    "\<And>x. c_live c x \<Longrightarrow> c_live c' x \<and> c_heap c' x = c_heap c x"
proof -
  have "tree_wf c' \<and> c_live c' p \<and> ctree c' u = Some p \<and> (\<forall>v. v \<noteq> u \<longrightarrow> ctree c' v = ctree c v) \<and>
    (\<forall>x. c_live c x \<longrightarrow> c_live c' x \<and> c_heap c' x = c_heap c x)"
  proof (cases "ctree c u")
    case (Some q)
    with assms tree_live [OF assms(1) Some] show ?thesis by (simp add: parent_for_def)
  next
    case None
    obtain q d where mk: "make_Node ''ghost'' None u c = (q, d)" by fastforce
    note n = tree_wf_make [OF assms(1) mk]
    have eq: "p = q" "c' = d\<lparr>c_Tree := um_emplace u q (c_Tree d)\<rparr>"
      using assms(2) None mk by (auto simp: parent_for_def)
    have "tree_wf c'" unfolding eq using n(1,2,5) by (intro tree_wf_emplace) simp_all
    moreover have "c_live c x \<Longrightarrow> x \<noteq> q" for x using n(3) assms(1) by (auto simp: tree_wf_def well_owned_def)
    ultimately show ?thesis using n None by (auto simp: eq dict_simps)
  qed
  then show "tree_wf c'" "c_live c' p" "ctree c' u = Some p" "\<And>v. v \<noteq> u \<Longrightarrow> ctree c' v = ctree c v"
    "\<And>x. c_live c x \<Longrightarrow> c_live c' x \<and> c_heap c' x = c_heap c x" by blast+
qed

text \<open>The two cases of a round of \<open>addNodes\<close>.\<close>

lemma add_node_eq:
  assumes "parent_for (NamedNode_parentUuid i) c = (p, c1)"
  shows "ctree c (NamedNode_uuid i) = Some r \<Longrightarrow> add_node i c =
      (let d = set_child p (NamedNode_name i) r (c1\<lparr>c_heap := (c_heap c1)(r := (c_heap c1 r)\<lparr>cn_name := NamedNode_name i,
             cn_parent := Some p\<rparr>)\<rparr>)
       in (d, if lock d (cn_parent (c_heap c1 r)) = None \<and> c_TreeAddHandler d then [TreeAdded r] else []))"
    and "ctree c (NamedNode_uuid i) = None \<Longrightarrow> make_Node (NamedNode_name i) (Some p) (NamedNode_uuid i) c1 = (n, c2) \<Longrightarrow>
      add_node i c = (let d = set_child p (NamedNode_name i) n (c2\<lparr>c_Tree := um_emplace (NamedNode_uuid i) n (c_Tree c2)\<rparr>)
        in (d, if c_TreeAddHandler d then [TreeAdded n] else []))"
  using assms by (simp_all add: add_node_def parent_for_def Let_def split: option.splits prod.splits)

lemma tree_wf_add_node:
  assumes "tree_wf c" "add_node i c = (c', out)"
  shows "tree_wf c'"
proof -
  obtain p c1 where pf: "parent_for (NamedNode_parentUuid i) c = (p, c1)" by fastforce
  note P = tree_wf_parent_for [OF assms(1) pf]
  have pn: "p < c_next c1" using tree_live [OF P(1,3)] by simp
  show ?thesis
  proof (cases "ctree c (NamedNode_uuid i)")
    case (Some r)
    let ?d = "c1\<lparr>c_heap := (c_heap c1)(r := (c_heap c1 r)\<lparr>cn_name := NamedNode_name i, cn_parent := Some p\<rparr>)\<rparr>"
    have "tree_wf ?d" using P(1) pn by (intro tree_wf_touch) simp_all
    moreover have "c_live ?d r" using P(5) tree_live [OF assms(1) Some] by simp
    ultimately show ?thesis
      using assms(2) add_node_eq(1) [OF pf Some] by (auto simp: Let_def intro: tree_wf_set_child)
  next
    case None
    obtain n c2 where mk: "make_Node (NamedNode_name i) (Some p) (NamedNode_uuid i) c1 = (n, c2)" by fastforce
    note N = tree_wf_make [OF P(1) mk]
    have "tree_wf (c2\<lparr>c_Tree := um_emplace (NamedNode_uuid i) n (c_Tree c2)\<rparr>)"
      using N pn by (intro tree_wf_emplace) simp_all
    with N(2) pn assms(2) add_node_eq(2) [OF pf None mk] show ?thesis
      by (auto simp: Let_def intro: tree_wf_set_child)
  qed
qed

text \<open>The loops, by their rounds.\<close>

lemma addNodes_keeps:
  assumes "P c" "addNodes xs c = (c', out)"
    and "\<And>i c c' out. i \<in> set xs \<Longrightarrow> P c \<Longrightarrow> add_node i c = (c', out) \<Longrightarrow> P c'"
  shows "P c'"
  using assms
proof (induction xs arbitrary: c out)
  case (Cons i xs)
  obtain d o1 o2 where d: "add_node i c = (d, o1)" "addNodes xs d = (c', o2)"
    using Cons.prems(2) by (auto split: prod.splits)
  show ?case
    using Cons.prems(3) [OF _ Cons.prems(1) d(1)] Cons.prems(3) by (intro Cons.IH [OF _ d(2)]) auto
qed simp

lemma removeNodes_keeps:
  assumes "P c" "removeNodes xs c = (c', out)"
    and "\<And>i c c' out. i \<in> set xs \<Longrightarrow> P c \<Longrightarrow> remove_node i c = (c', out) \<Longrightarrow> P c'"
  shows "P c'"
  using assms
proof (induction xs arbitrary: c out)
  case (Cons i xs)
  obtain d o1 o2 where d: "remove_node i c = (d, o1)" "removeNodes xs d = (c', o2)"
    using Cons.prems(2) by (auto split: prod.splits)
  show ?case
    using Cons.prems(3) [OF _ Cons.prems(1) d(1)] Cons.prems(3) by (intro Cons.IH [OF _ d(2)]) auto
qed simp

lemma tree_wf_addNodes: "tree_wf c \<Longrightarrow> addNodes xs c = (c', out) \<Longrightarrow> tree_wf c'"
  by (rule addNodes_keeps [where P = tree_wf]) (auto dest: tree_wf_add_node)

text \<open>Taking a node off the children of another.\<close>

definition unlink :: "cref option \<Rightarrow> string \<Rightarrow> Client \<Rightarrow> Client" where
  "unlink w n c = (case lock c w of
     None \<Rightarrow> c
   | Some p \<Rightarrow> c\<lparr>c_heap := (c_heap c)(p := (c_heap c p)\<lparr>cn_children := om_erase n (cn_children (c_heap c p))\<rparr>)\<rparr>)"

lemma tree_wf_unlink: "tree_wf c \<Longrightarrow> tree_wf (unlink w n c)"
  by (simp add: unlink_def tree_wf_erase_child split: option.split)

lemma unlink_same [client_simps]:
  "c_Tree (unlink w n c) = c_Tree c" "c_Transactions (unlink w n c) = c_Transactions c"
  "c_TransactioIdCtr (unlink w n c) = c_TransactioIdCtr c"
  "c_TreeAddHandler (unlink w n c) = c_TreeAddHandler c"
  "c_TreeRemoveHandler (unlink w n c) = c_TreeRemoveHandler c"
  "c_next (unlink w n c) = c_next c" "c_held (unlink w n c) = c_held c" "c_live (unlink w n c) = c_live c"
  "c_waiting (unlink w n c) = c_waiting c" "c_constructed (unlink w n c) = c_constructed c"
  "cn_name (c_heap (unlink w n c) x) = cn_name (c_heap c x)"
  "cn_data (c_heap (unlink w n c) x) = cn_data (c_heap c x)"
  "cn_parent (c_heap (unlink w n c) x) = cn_parent (c_heap c x)"
  "cn_uuid (c_heap (unlink w n c) x) = cn_uuid (c_heap c x)"
  by (simp_all add: unlink_def split: option.split)

lemma remove_node_eq: "remove_node u c = (case ctree c u of None \<Rightarrow> (c, []) | Some r \<Rightarrow>
    (c_release ((unlink (cn_parent (c_heap c r)) (cn_name (c_heap c r)) c)\<lparr>c_Tree := um_erase u (c_Tree c)\<rparr>),
     if c_TreeRemoveHandler c then [TreeRemoved r] else []))"
  by (simp add: remove_node_def unlink_def Let_def split: option.split)

lemma tree_wf_remove_node: "tree_wf c \<Longrightarrow> remove_node u c = (c', out) \<Longrightarrow> tree_wf c'"
  using tree_wf_erase [OF tree_wf_unlink, where u = u]
  by (auto simp: remove_node_eq client_simps split: option.splits intro: tree_wf_release)

lemma tree_wf_removeNodes: "tree_wf c \<Longrightarrow> removeNodes xs c = (c', out) \<Longrightarrow> tree_wf c'"
  by (rule removeNodes_keeps [where P = tree_wf]) (auto dest: tree_wf_remove_node)

end
