(* ===== verification/ClientTrans.thy ===== *)
theory ClientTrans
  imports ClientInv
begin

text \<open>
  The invariant of the transactions of a client, and that everything that can happen keeps the whole
  invariant \<open>client_inv\<close>. \<open>trans_wf\<close>: every waiting thread has an entry of its own in the table, and
  the id of notifications is no transaction's. It holds while at most \<open>2 ^ 16 - 1\<close> operations have
  been started: ids are 16 bits wide, and a timeout leaves its entry behind.
\<close>

section \<open>Transactions\<close>

text \<open>\<open>trans_wf k\<close> leaves room for \<open>k\<close> more operations.\<close>

definition trans_wf :: "nat \<Rightarrow> Client \<Rightarrow> bool" where
  "trans_wf k c \<longleftrightarrow> um_wf (c_Transactions c) \<and> um_wf (c_waiting c) \<and>
     unat (c_TransactioIdCtr c) + k < 2 ^ 16 \<and>
     (\<forall>i\<in>dom (map_of (c_Transactions c)). unat i < unat (c_TransactioIdCtr c)) \<and>
     (\<forall>t i op. map_of (c_waiting c) t = Some (i, op) \<longrightarrow>
        i \<in> dom (map_of (c_Transactions c)) \<and> (needs_handle op \<longrightarrow> op_handle op \<noteq> None)) \<and>
     (\<forall>t t' i op op'. map_of (c_waiting c) t = Some (i, op) \<longrightarrow> map_of (c_waiting c) t' = Some (i, op') \<longrightarrow> t = t')"

definition client_inv :: "nat \<Rightarrow> Client \<Rightarrow> bool" where
  "client_inv k c \<longleftrightarrow> tree_wf c \<and> trans_wf k c"

text \<open>What neither the tree operations nor the answers change.\<close>

definition same_threads :: "Client \<Rightarrow> Client \<Rightarrow> bool" where
  "same_threads c c' \<longleftrightarrow> c_Transactions c' = c_Transactions c \<and> c_waiting c' = c_waiting c \<and>
     c_TransactioIdCtr c' = c_TransactioIdCtr c \<and> c_held c' = c_held c"

lemma same_threads_refl [simp]: "same_threads c c"
  by (simp add: same_threads_def)

lemma same_threads_trans: "same_threads c d \<Longrightarrow> same_threads d e \<Longrightarrow> same_threads c e"
  by (simp add: same_threads_def)

lemma trans_wf_dom:
  assumes "trans_wf k c" "dom (map_of (c_Transactions c')) = dom (map_of (c_Transactions c))"
    "um_wf (c_Transactions c')" "c_waiting c' = c_waiting c" "c_TransactioIdCtr c' = c_TransactioIdCtr c"
  shows "trans_wf k c'"
  using assms unfolding trans_wf_def by metis

lemma trans_wf_same: "trans_wf k c \<Longrightarrow> same_threads c c' \<Longrightarrow> trans_wf k c'"
  by (simp add: trans_wf_def same_threads_def)

lemma trans_wf_other:
  "c_Transactions c' = c_Transactions c \<Longrightarrow> c_waiting c' = c_waiting c \<Longrightarrow>
     c_TransactioIdCtr c' = c_TransactioIdCtr c \<Longrightarrow> trans_wf k c' = trans_wf k c"
  by (simp add: trans_wf_def)

lemma trans_wf_upd [simp]:
  "trans_wf k (c\<lparr>c_held := h\<rparr>) = trans_wf k c" "trans_wf k (c\<lparr>c_heap := g\<rparr>) = trans_wf k c"
  "trans_wf k (c\<lparr>c_TreeAddHandler := b\<rparr>) = trans_wf k c" "trans_wf k (c\<lparr>c_reader := rb\<rparr>) = trans_wf k c"
  "trans_wf k (c\<lparr>c_TreeRemoveHandler := b\<rparr>) = trans_wf k c" "trans_wf k (c_release c) = trans_wf k c"
  by (simp_all add: trans_wf_def)

lemma same_threads_add_node: "add_node i c = (c', out) \<Longrightarrow> same_threads c c'"
  by (auto simp: add_node_def make_Node_def same_threads_def client_simps Let_def split: option.splits)

lemma same_threads_remove_node: "remove_node u c = (c', out) \<Longrightarrow> same_threads c c'"
  by (auto simp: remove_node_eq same_threads_def client_simps split: option.splits)

lemma same_threads_addNodes: "addNodes xs c = (c', out) \<Longrightarrow> same_threads c c'"
  by (rule addNodes_keeps [where P = "same_threads c"])
    (auto dest: same_threads_add_node intro: same_threads_trans)

lemma same_threads_removeNodes: "removeNodes xs c = (c', out) \<Longrightarrow> same_threads c c'"
  by (rule removeNodes_keeps [where P = "same_threads c"])
    (auto dest: same_threads_remove_node intro: same_threads_trans)

lemmas same_threads_nodes = same_threads_addNodes same_threads_removeNodes

section \<open>Messages keep the invariant\<close>

lemma client_visit_wf:
  assumes "tree_wf c" "client_visit L sent t m c = Inr (c', out)"
  shows "tree_wf c'" "same_threads c c'"
proof -
  have "tree_wf c' \<and> same_threads c c'"
  proof (cases m)
    case (TreeUpdateNotification x)
    then obtain d o1 o2 where d: "addNodes (TreeUpdateNotification_nodeToAddList x) c = (d, o1)"
      "removeNodes (TreeUpdateNotification_nodeToDelete x) d = (c', o2)"
      using assms(2) by (auto simp: client_TreeUpdateNotification_def Let_def split: prod.splits)
    then show ?thesis
      using tree_wf_removeNodes [OF tree_wf_addNodes [OF assms(1) d(1)] d(2)]
        same_threads_trans [OF same_threads_addNodes same_threads_removeNodes] by blast
  next
    case (UpdateNotification x)
    with assms show ?thesis
      by (auto simp: client_UpdateNotification_def Let_def tree_wf_store_value split: option.splits)
        (simp add: same_threads_def store_value_def)
  next
    case (RpcRequest x)
    with assms show ?thesis
      by (auto simp: client_RpcRequest_def Let_def split: option.splits)
  qed (use assms in auto)
  then show "tree_wf c'" "same_threads c c'" by auto
qed

lemma tree_wf_transactions [simp]: "tree_wf (c\<lparr>c_Transactions := T\<rparr>) = tree_wf c"
  by (simp add: tree_wf_def well_owned_def roots_def refs_ok_def)

lemma client_handle_message_inv:
  assumes "client_inv k c" "client_handle_message L sent m c = Inr (c', out)"
  shows "client_inv k c'"
proof (cases "map_of (c_Transactions c) (transactionId m)")
  case None
  with assms client_visit_wf [of c L sent "transactionId m" "message m" c' out] show ?thesis
    by (auto simp: client_handle_message_def client_inv_def intro: trans_wf_same)
next
  case (Some x)
  then have c': "c' = c\<lparr>c_Transactions := um_assign (transactionId m)
      \<lparr>satisfied = True, reply = message m\<rparr> (c_Transactions c)\<rparr>"
    using assms(2) by (simp add: client_handle_message_def)
  have "trans_wf k c'"
    by (rule trans_wf_dom [of k c])
      (use assms(1) Some in \<open>auto simp: c' client_inv_def trans_wf_def dict_simps split: if_splits\<close>)
  with assms(1) show ?thesis by (simp add: client_inv_def c')
qed

lemma client_handle_array_keeps:
  assumes "P c" "client_handle_array L sent ms c = Inr (c', out)"
    and "\<And>m c c' out. m \<in> set ms \<Longrightarrow> P c \<Longrightarrow> client_handle_message L sent m c = Inr (c', out) \<Longrightarrow> P c'"
  shows "P c'"
  using assms
proof (induction ms arbitrary: c out)
  case (Cons m ms)
  obtain d o1 o2 where d: "client_handle_message L sent m c = Inr (d, o1)"
    "client_handle_array L sent ms d = Inr (c', o2)"
    using Cons.prems(2) by auto
  show ?case
    using Cons.prems(3) [OF _ Cons.prems(1) d(1)] Cons.prems(3) by (intro Cons.IH [OF _ d(2)]) auto
qed simp

fun units :: "PropertyTreeProtocol \<Rightarrow> PropertyTreeMessage list" where
  "units (PropertyTreeMessage m) = [m]"
| "units (PropertyTreeMessageArray ms) = ms"

lemma client_handle_keeps:
  assumes "P c" "client_handle L sent m c = Inr (c', out)"
    and "\<And>i c c' out. i \<in> set (units m) \<Longrightarrow> P c \<Longrightarrow> client_handle_message L sent i c = Inr (c', out) \<Longrightarrow> P c'"
  shows "P c'"
  using assms client_handle_array_keeps [of P c L sent _ c' out] by (cases m) auto

lemma client_handle_inv: "client_inv k c \<Longrightarrow> client_handle L sent m c = Inr (c', out) \<Longrightarrow> client_inv k c'"
  by (rule client_handle_keeps [where P = "client_inv k"]) (auto dest: client_handle_message_inv)

section \<open>Operations keep the invariant\<close>

lemma deref_Inr [simp]: "(deref p f = Inr x) = (\<exists>r. p = Some r \<and> f r = Inr x)"
  by (cases p) (simp_all add: deref_def)

lemma deref_Inl [simp]: "(deref p f = Inl e) = (p = None \<and> e = NullDeref \<or> (\<exists>r. p = Some r \<and> f r = Inl e))"
  by (cases p) (auto simp: deref_def)

text \<open>The result of an operation refers to an object that exists.\<close>

definition result_live :: "Client \<Rightarrow> result \<Rightarrow> bool" where
  "result_live c v \<longleftrightarrow> (\<forall>r. v = RProperty (Some r) \<longrightarrow> c_live c r)"

lemma result_live_simps [simp]: "result_live c RUnit" "result_live c (RBool b)" "result_live c (RBytes bs)"
  "result_live c (RThrow w)" "result_live c (RProperty None)" "result_live c (RProperty (Some r)) = c_live c r"
  by (simp_all add: result_live_def)

lemma child_live: "tree_wf c \<Longrightarrow> c_live c p \<Longrightarrow> map_of (cn_children (c_heap c p)) n = Some r \<Longrightarrow> c_live c r"
  by (rule live_children) (auto dest!: map_of_SomeD intro: image_eqI [of _ _ "(n, r)"])

definition response_ok :: "Client \<Rightarrow> Client \<times> client_action list \<times> result \<Rightarrow> bool" where
  "response_ok c x \<longleftrightarrow> tree_wf (fst x) \<and> same_threads c (fst x) \<and> result_live (fst x) (snd (snd x))"

lemma tree_wf_constructed [simp]: "tree_wf (c\<lparr>c_constructed := b\<rparr>) = tree_wf c"
  by (simp add: tree_wf_def well_owned_def roots_def refs_ok_def)

lemma signin_ok:
  assumes "tree_wf c" "signin_response m c = Inr x"
  shows "response_ok c x"
proof (cases m)
  case (SigninAccept a)
  obtain r d where mk: "make_Node '''' None 0 c = (r, d)" by fastforce
  note n = tree_wf_make [OF assms(1) mk]
  have "tree_wf (d\<lparr>c_Tree := um_emplace 0 r (c_Tree d)\<rparr>)" using n by (intro tree_wf_emplace) simp_all
  then have "tree_wf ((d\<lparr>c_Tree := um_emplace 0 r (c_Tree d)\<rparr>)\<lparr>c_constructed := True\<rparr>)"
    by (simp only: tree_wf_constructed)
  then have "tree_wf (c_release (d\<lparr>c_Tree := um_emplace 0 r (c_Tree d), c_constructed := True\<rparr>))"
    by (intro tree_wf_release) simp
  moreover have "x = (c_release (d\<lparr>c_Tree := um_emplace 0 r (c_Tree d), c_constructed := True\<rparr>), [], RUnit)"
    using assms(2) SigninAccept mk by (simp add: signin_response_def)
  ultimately show ?thesis using mk by (auto simp: response_ok_def same_threads_def make_Node_def)
qed (use assms in \<open>auto simp: signin_response_def response_ok_def\<close>)

lemma create_ok:
  assumes "tree_wf c" "pParent = Some p" "c_live c p" "create_response pParent pName m c = Inr x"
  shows "response_ok c x"
proof (cases m)
  case (CreateAccept a)
  let ?u = "CreateAccept_uuid a"
  show ?thesis
  proof (cases "ctree c ?u")
    case (Some r)
    with assms CreateAccept tree_live [OF assms(1) Some] show ?thesis
      by (auto simp: create_response_def response_ok_def deref_def)
  next
    case None
    obtain r d where mk: "make_Node pName (Some p) ?u c = (r, d)" by fastforce
    have p: "p < c_next c" using assms(1,3) by (auto simp: tree_wf_def well_owned_def)
    note n = tree_wf_make [OF assms(1) mk]
    let ?e = "d\<lparr>c_Tree := um_emplace ?u r (c_Tree d)\<rparr>"
    have "tree_wf ?e" using n p by (intro tree_wf_emplace) simp_all
    then have "tree_wf (?e\<lparr>c_heap := (c_heap ?e)(p := (c_heap ?e p)\<lparr>cn_children :=
        om_emplace pName r (cn_children (c_heap ?e p))\<rparr>)\<rparr>)"
      using n p by (intro tree_wf_emplace_child) simp_all
    with None mk assms(2,4) CreateAccept n(2) p show ?thesis
      by (auto simp: create_response_def response_ok_def deref_def same_threads_def make_Node_def)
  qed
next
  case (CreateReject a)
  with assms child_live [OF assms(1,3)] show ?thesis
    by (cases "map_of (cn_children (c_heap c p)) pName") (auto simp: create_response_def response_ok_def deref_def)
qed (use assms in \<open>auto simp: create_response_def response_ok_def deref_def\<close>)

lemma get_ok:
  assumes "tree_wf c" "map_of (c_waiting c) t = Some (i, OpGet pParent pName rec)"
    and "get_response pParent pName m c = Inr x"
  shows "response_ok c x"
proof (cases m)
  case (TreeInfoResponse a)
  obtain d out where d: "addNodes (TreeInfoResponse_nodeToAddList a) c = (d, out)" by fastforce
  note wf = tree_wf_addNodes [OF assms(1) d] and sm = same_threads_addNodes [OF d]
  have "c_live d r" if "pParent = Some r" for r
    using waiting_live [OF wf, of t i "OpGet pParent pName rec" r] sm assms(2) that by (simp add: same_threads_def)
  with wf sm assms(3) TreeInfoResponse d tree_live [OF wf] show ?thesis
    by (cases pParent) (auto simp: get_response_def response_ok_def split: if_splits list.splits option.splits)
qed (use assms in \<open>auto simp: get_response_def response_ok_def\<close>)

lemma same_threads_store_value: "same_threads c (store_value r bs c)"
  by (simp add: same_threads_def store_value_def)

lemma fetch_ok:
  assumes "tree_wf c" "fetch_response pProp m c = Inr x"
  shows "response_ok c x"
  using assms by (cases m)
    (auto simp: fetch_response_def response_ok_def tree_wf_store_value same_threads_store_value)

lemma destroy_eq: "destroy_response p m c = (case m of
    DeleteResponse a \<Rightarrow>
      if DeleteResponse_cause a \<noteq> OK then Inr (c, [], RBool False)
      else deref p (\<lambda>node. Inr (if lock c (cn_parent (c_heap c node)) = None then c
        else c_release (unlink (cn_parent (c_heap c node)) (cn_name (c_heap c node)) c), [], RBool True))
  | _ \<Rightarrow> protocol_error c)"
  by (cases p; cases m) (auto simp: destroy_response_def unlink_def deref_def split: option.split)

lemma destroy_ok:
  assumes "tree_wf c" "destroy_response pProp m c = Inr x"
  shows "response_ok c x"
proof (cases m)
  case (DeleteResponse a)
  with assms show ?thesis
    by (cases pProp) (auto simp: destroy_eq response_ok_def deref_def same_threads_def client_simps
        tree_wf_release tree_wf_unlink split: if_splits)
qed (use assms in \<open>auto simp: destroy_eq response_ok_def\<close>)

lemma op_response_ok:
  assumes "tree_wf c" "map_of (c_waiting c) t = Some (i, op)" "op_response op m c = Inr x"
  shows "response_ok c x"
proof (cases op)
  case (OpCreate p n)
  then obtain r where r: "p = Some r" using assms(3) by (auto simp: create_response_def)
  with create_ok [OF assms(1) r _ ] assms OpCreate waiting_live [OF assms(1,2)] show ?thesis by simp
next
  case (OpGet p n rec)
  with get_ok [OF assms(1) assms(2) [unfolded OpGet]] assms(3) show ?thesis by simp
next
  case OpSignin
  with assms signin_ok show ?thesis by simp
next
  case (OpFetch p)
  with assms fetch_ok show ?thesis by simp
next
  case (OpDestroy p)
  with assms destroy_ok show ?thesis by simp
qed (use assms(1,3) in \<open>cases m; simp add: response_ok_def commit_response_def subscribe_response_def
    unsubscribe_response_def beat_response_def call_response_def; fastforce\<close>)+

section \<open>Threads keep the invariant\<close>

text \<open>Changes of what is held and who waits.\<close>

lemma tree_wf_threads:
  assumes "tree_wf c" "set h \<subseteq> set (c_held c) \<union> {r. c_live c r}"
    and "\<And>t i op r. (t, (i, op)) \<in> set w \<Longrightarrow> op_handle op = Some r \<Longrightarrow> c_live c r"
  shows "tree_wf (c\<lparr>c_waiting := w, c_held := h\<rparr>)"
proof (rule tree_wf_roots [OF assms(1)])
  show "set (roots (c\<lparr>c_waiting := w, c_held := h\<rparr>)) \<subseteq> set (roots c) \<union> {r. c_live c r}"
    using assms(2,3) by (fastforce simp: roots_def split: option.splits)
qed (use assms(1) in \<open>auto simp: tree_wf_def\<close>)

lemma waiting_refs: "tree_wf c \<Longrightarrow> (t, (i, op)) \<in> set (c_waiting c) \<Longrightarrow> op_handle op = Some r \<Longrightarrow> c_live c r"
proof -
  assume wf: "tree_wf c" and w: "(t, (i, op)) \<in> set (c_waiting c)" "op_handle op = Some r"
  then have "r \<in> set (roots c)" by (force simp: roots_def)
  with wf show "c_live c r" by (simp add: tree_wf_def well_owned_def)
qed

lemma returned_eq: "returned t v c = c_release (c\<lparr>c_waiting := um_erase t (c_waiting c), c_held :=
    (case v of RProperty (Some r) \<Rightarrow> r # c_held c | _ \<Rightarrow> c_held c)\<rparr>)"
  by (simp add: returned_def)

lemma tree_wf_returned:
  assumes "tree_wf c" "result_live c v"
  shows "tree_wf (returned t v c)"
  unfolding returned_eq
  using assms waiting_refs [OF assms(1)]
  by (intro tree_wf_release tree_wf_threads) (auto simp: um_erase_def split: result.splits option.splits)

lemma returned_same [simp]:
  "c_Tree (returned t v c) = c_Tree c" "c_Transactions (returned t v c) = c_Transactions c"
  "c_TransactioIdCtr (returned t v c) = c_TransactioIdCtr c" "c_heap (returned t v c) = c_heap c"
  "c_waiting (returned t v c) = um_erase t (c_waiting c)" "c_constructed (returned t v c) = c_constructed c"
  "c_TreeAddHandler (returned t v c) = c_TreeAddHandler c"
  by (simp_all add: returned_def)

lemma trans_wf_returned: "trans_wf k c \<Longrightarrow> trans_wf k (returned t v c)"
  by (auto simp: trans_wf_def dict_simps split: if_splits)

text \<open>An answered transaction is taken off the table together with the thread that waited for it.\<close>

lemma trans_wf_answered:
  assumes "trans_wf k c" "map_of (c_waiting c) t = Some (i, op)"
    and "c_Transactions c' = um_erase i (c_Transactions c)" "c_waiting c' = um_erase t (c_waiting c)"
    and "c_TransactioIdCtr c' = c_TransactioIdCtr c"
  shows "trans_wf k c'"
  using assms unfolding trans_wf_def by (auto simp: dict_simps split: if_splits)

lemma next_id_plain:
  assumes "unat ctr + Suc k < 2 ^ 16"
  shows "next_id ctr = (ctr, ctr + 1)" "unat (ctr + 1) = unat ctr + 1"
proof -
  have "unat ctr \<noteq> unat (0xFFFF :: u16)" using assms by simp
  then show "next_id ctr = (ctr, ctr + 1)" by (auto simp: next_id_def)
  show "unat (ctr + 1) = unat ctr + 1" using assms by (simp add: unat_word_ariths)
qed

lemma trans_wf_started:
  assumes "trans_wf (Suc k) c" "map_of (c_waiting c) t = None" "needs_handle op \<longrightarrow> op_handle op \<noteq> None"
    and "c_Transactions c' = um_emplace (c_TransactioIdCtr c) new_Transaction (c_Transactions c)"
    and "c_waiting c' = um_emplace t (c_TransactioIdCtr c, op) (c_waiting c)"
    and "c_TransactioIdCtr c' = c_TransactioIdCtr c + 1"
  shows "trans_wf k c'"
proof -
  let ?i = "c_TransactioIdCtr c"
  have wf: "um_wf (c_Transactions c)" "um_wf (c_waiting c)" "unat ?i + Suc k < 2 ^ 16"
    and old: "\<And>j. j \<in> dom (map_of (c_Transactions c)) \<Longrightarrow> unat j < unat ?i"
    and wait: "\<And>s j op. map_of (c_waiting c) s = Some (j, op) \<Longrightarrow>
        j \<in> dom (map_of (c_Transactions c)) \<and> (needs_handle op \<longrightarrow> op_handle op \<noteq> None)"
    and one: "\<And>s s' j op op'. map_of (c_waiting c) s = Some (j, op) \<Longrightarrow> map_of (c_waiting c) s' = Some (j, op') \<Longrightarrow> s = s'"
    using assms(1) unfolding trans_wf_def by blast+
  have fresh: "map_of (c_Transactions c) ?i = None" using old [of ?i] by blast
  have free: "map_of (c_waiting c) s \<noteq> Some (?i, op')" for s op' using wait [of s ?i op'] fresh by blast
  have T: "map_of (c_Transactions c') = (map_of (c_Transactions c))(?i \<mapsto> new_Transaction)"
    using fresh by (simp add: assms(4) dict_simps)
  have W: "map_of (c_waiting c') = (map_of (c_waiting c))(t \<mapsto> (?i, op))"
    using assms(2) by (simp add: assms(5) dict_simps)
  note ctr = next_id_plain(2) [OF wf(3)]
  show ?thesis
    unfolding trans_wf_def
  proof (intro conjI ballI allI impI, goal_cases)
    case 1 show ?case using wf(1) by (simp add: assms(4) dict_simps)
  next
    case 2 show ?case using wf(2) by (simp add: assms(5) dict_simps)
  next
    case 3 show ?case using wf(3) ctr by (simp add: assms(6))
  next
    case (4 j)
    then have "j = ?i \<or> j \<in> dom (map_of (c_Transactions c))" by (auto simp: T split: if_splits)
    then show ?case using old [of j] ctr by (elim disjE) (simp_all add: assms(6))
  next
    case (5 s j op') then show ?case using wait [of s j op'] by (auto simp: T W split: if_splits)
  next
    case (6 s j op') then show ?case using wait [of s j op'] assms(3) by (auto simp: W split: if_splits)
  next
    case (7 s s' j op' op'') then show ?case using one [of s j op' s' op''] free [of s] free [of s']
      by (auto simp: W split: if_splits)
  qed
qed

fun client_cost :: "client_event \<Rightarrow> nat" where
  "client_cost (Start _ _ _) = 1"
| "client_cost _ = 0"

lemma trans_wf_less: "trans_wf (Suc k) c \<Longrightarrow> trans_wf k c"
  by (simp add: trans_wf_def)

lemma request_handle: "op_request op c = Inr (Ask m) \<Longrightarrow> needs_handle op \<longrightarrow> op_handle op \<noteq> None"
  by (cases op) (auto simp: create_request_def get_request_def commit_request_def fetch_request_def
      subscribe_request_def unsubscribe_request_def destroy_request_def call_request_def)

lemma early_live:
  assumes "tree_wf c" "op_request op c = Inr (Early v)" "\<And>r. op_handle op = Some r \<Longrightarrow> c_live c r"
  shows "result_live c v"
  using assms tree_live [OF assms(1)] child_live [OF assms(1)]
  by (cases op) (auto simp: signin_request_def root_request_def create_request_def get_request_def commit_request_def fetch_request_def
      subscribe_request_def unsubscribe_request_def destroy_request_def beat_request_def call_request_def Let_def
      split: option.splits if_splits)

lemma start_inv:
  assumes "client_inv (Suc k) c" "may_start t op c" "start L t op sent c = Inr (c', out)"
  shows "client_inv k c'"
proof -
  have wf: "tree_wf c" and tr: "trans_wf (Suc k) c" using assms(1) by (simp_all add: client_inv_def)
  have free: "map_of (c_waiting c) t = None" using assms(2) by (simp add: may_start_def)
  have arg: "c_live c r" if "op_handle op = Some r" for r
    using assms(2) that held_live [OF wf] by (simp add: may_start_def)
  obtain q where q: "op_request op c = Inr q" using assms(3) by (auto simp: start_def)
  show ?thesis
  proof (cases q)
    case (Early v)
    with q assms(3) have "c' = returned t v c" by (simp add: start_def)
    with tree_wf_returned [OF wf early_live [OF wf q [unfolded Early] arg]] trans_wf_returned [OF trans_wf_less [OF tr]]
    show ?thesis by (simp add: client_inv_def)
  next
    case (Ask m)
    let ?i = "c_TransactioIdCtr c"
    let ?c = "c\<lparr>c_TransactioIdCtr := ?i + 1, c_Transactions := um_emplace ?i new_Transaction (c_Transactions c)\<rparr>"
    have i: "next_id ?i = (?i, ?i + 1)" using tr by (intro next_id_plain [of _ k]) (simp add: trans_wf_def)
    have wfc: "tree_wf ?c" using wf by (simp add: tree_wf_def well_owned_def roots_def refs_ok_def)
    let ?w = "?c\<lparr>c_waiting := um_emplace t (?i, op) (c_waiting c)\<rparr>"
    have trw: "trans_wf k ?w"
      by (rule trans_wf_started [OF tr free request_handle [OF q [unfolded Ask]]]) simp_all
    show ?thesis
    proof (cases "client_send L sent (single ?i m)")
      case (Inr bs)
      then have "c' = ?w" using assms(3) q Ask i by (simp add: start_def addTransaction_def)
      moreover have "tree_wf (?c\<lparr>c_waiting := um_emplace t (?i, op) (c_waiting c), c_held := c_held c\<rparr>)"
        using wfc waiting_refs [OF wf] arg
        by (intro tree_wf_threads) (auto simp: um_emplace_def split: option.splits)
      ultimately show ?thesis using trw by (simp add: client_inv_def)
    next
      case (Inl f)
      then obtain w where "c' = returned t (RThrow w) ?c"
        using assms(3) q Ask i by (cases f) (auto simp: start_def addTransaction_def)
      moreover have "um_erase t (um_emplace t (?i, op) (c_waiting c)) = um_erase t (c_waiting c)"
        using free by (simp add: um_erase_def um_emplace_def)
      then have "trans_wf k (returned t (RThrow w) ?c)"
        by (intro trans_wf_other [THEN iffD2, OF _ _ _ trans_wf_returned [OF trw, of t "RThrow w"]]) simp_all
      ultimately show ?thesis using tree_wf_returned [OF wfc, of "RThrow w" t] by (simp add: client_inv_def)
    qed
  qed
qed

lemma resume_inv:
  assumes "client_inv k c" "resume t c = Inr (c', out)"
  shows "client_inv k c'"
proof (cases "map_of (c_waiting c) t")
  case (Some x)
  obtain i op where x: "x = (i, op)" by fastforce
  have wf: "tree_wf c" and tr: "trans_wf k c" using assms(1) by (simp_all add: client_inv_def)
  show ?thesis
  proof (cases "\<exists>tr. map_of (c_Transactions c) i = Some tr \<and> satisfied tr")
    case True
    then obtain m d o1 v where r: "op_response op m (c\<lparr>c_Transactions := um_erase i (c_Transactions c)\<rparr>) = Inr (d, o1, v)"
      and c': "c' = returned t v d"
      using assms(2) Some x by (auto simp: resume_def waitTransaction_def)
    let ?c = "c\<lparr>c_Transactions := um_erase i (c_Transactions c)\<rparr>"
    have "response_ok ?c (d, o1, v)"
      using wf Some x r by (intro op_response_ok [of _ t i op m]) simp_all
    then have d: "tree_wf d" "same_threads ?c d" "result_live d v" by (simp_all add: response_ok_def)
    have "trans_wf k c'"
      using d(2) by (intro trans_wf_answered [OF tr Some [unfolded x]]) (simp_all add: c' same_threads_def)
    with tree_wf_returned [OF d(1,3)] show ?thesis by (simp add: c' client_inv_def)
  next
    case False
    with assms Some x show ?thesis by (auto simp: resume_def waitTransaction_def split: option.splits if_splits)
  qed
qed (use assms in \<open>simp add: resume_def\<close>)

lemma timeout_inv: "client_inv k c \<Longrightarrow> timeout t c = Inr (c', out) \<Longrightarrow> client_inv k c'"
  by (auto simp: timeout_def waitTransaction_def client_inv_def tree_wf_returned trans_wf_returned
      split: option.splits if_splits)

text \<open>What the user does with handles and handlers.\<close>

lemma tree_wf_held: "tree_wf c \<Longrightarrow> set h \<subseteq> set (c_held c) \<union> {r. c_live c r} \<Longrightarrow> tree_wf (c\<lparr>c_held := h\<rparr>)"
  using tree_wf_threads [of c h "c_waiting c"] waiting_refs [of c] by simp

lemma tree_wf_flags [simp]: "tree_wf (c\<lparr>c_TreeAddHandler := b\<rparr>) = tree_wf c"
  "tree_wf (c\<lparr>c_TreeRemoveHandler := b\<rparr>) = tree_wf c" "tree_wf (c\<lparr>c_reader := rb\<rparr>) = tree_wf c"
  by (simp_all add: tree_wf_def well_owned_def roots_def refs_ok_def)

lemma client_step_inv:
  assumes "client_inv (client_cost e + k) c" "client_step L e c = Inr (c', out)"
  shows "client_inv k c'"
proof (cases e)
  case (Start t op sent)
  show ?thesis
  proof (cases "may_start t op c")
    case True
    with Start assms show ?thesis by (auto intro: start_inv)
  next
    case False
    with Start assms trans_wf_less [of k c] show ?thesis by (auto simp: client_inv_def)
  qed
next
  case (Receive m sent)
  with assms show ?thesis by (auto intro: client_handle_inv)
next
  case (Drop r)
  have "set (remove1 r (c_held c)) \<subseteq> set (c_held c)" by (rule set_remove1_subset)
  with Drop assms show ?thesis
    by (auto simp: client_inv_def intro!: tree_wf_release tree_wf_held)
next
  case (Hold r)
  with assms show ?thesis
    by (auto simp: client_inv_def intro!: tree_wf_held)
next
  case (Resume t)
  with assms show ?thesis by (auto intro: resume_inv)
next
  case (Timeout t)
  with assms show ?thesis by (auto intro: timeout_inv)
next
  case (SetRcpHandler r h)
  have "tree_wf c" using assms(1) by (simp add: client_inv_def)
  then have "tree_wf (c\<lparr>c_heap := (c_heap c)(r := (c_heap c r)\<lparr>cn_rcpHandler := h\<rparr>)\<rparr>)"
    by (rule tree_wf_set_field) simp_all
  with SetRcpHandler assms show ?thesis by (auto simp: client_inv_def)
next
  case (SetUpdateHandler r h)
  have "tree_wf c" using assms(1) by (simp add: client_inv_def)
  then have "tree_wf (c\<lparr>c_heap := (c_heap c)(r := (c_heap c r)\<lparr>cn_updateHandler := h\<rparr>)\<rparr>)"
    by (rule tree_wf_set_field) simp_all
  with SetUpdateHandler assms show ?thesis by (auto simp: client_inv_def)
next
  case (SetData r bs)
  have "tree_wf c" using assms(1) by (simp add: client_inv_def)
  then have "tree_wf (c\<lparr>c_heap := (c_heap c)(r := (c_heap c r)\<lparr>cn_data := bs\<rparr>)\<rparr>)"
    by (rule tree_wf_set_field) simp_all
  with SetData assms show ?thesis by (auto simp: client_inv_def)
qed (use assms in \<open>auto simp: client_inv_def\<close>)

end
