(* ===== verification/ClientRun.thy ===== *)
theory ClientRun
  imports ClientTrans SimpleCum
begin

text \<open>
  Runs of a client: the invariant as a \<open>bounded_machine\<close>, what can go wrong in a state that
  satisfies it, and the facts about transactions and results the properties of the theory
  ClientProps rest on.
\<close>

interpretation cl: bounded_machine "client_step L" client_cost client_inv for L
  by unfold_locales (rule client_step_inv)

lemma client_inv_init: "k < 2 ^ 16 \<Longrightarrow> client_inv k (init_Client junk)"
  by (simp add: client_inv_def tree_wf_def trans_wf_def well_owned_def roots_def refs_ok_def init_Client_def
      new_ClientNode_def)

lemma client_reachable:
  assumes "sum_list (map client_cost es) + k < 2 ^ 16"
    and "run_steps (client_step L) es (init_Client junk) = Inr (c, out)"
  shows "client_inv k c"
  using cl.run_inv [OF client_inv_init [OF assms(1)] assms(2)] .

section \<open>Faults\<close>

lemma client_send_fault: "encode_throws L \<Longrightarrow> client_send L sent m = Inl f \<Longrightarrow> thrown f"
  by (fastforce simp: client_send_def encode_throws_def split: if_splits)

text \<open>The three events that are undefined behaviour.\<close>

definition null_argument :: "client_event \<Rightarrow> Client \<Rightarrow> bool" where
  "null_argument e c \<longleftrightarrow> (\<exists>t op sent. e = Start t op sent \<and> may_start t op c \<and> needs_handle op \<and> op_handle op = None)"

definition lost_root :: "client_event \<Rightarrow> Client \<Rightarrow> bool" where
  "lost_root e c \<longleftrightarrow> (\<exists>t sent. e = Start t OpRoot sent \<and> may_start t OpRoot c \<and> ctree c 0 = None)"

definition empty_answer :: "client_event \<Rightarrow> Client \<Rightarrow> bool" where
  "empty_answer e c \<longleftrightarrow> (\<exists>t i p n b a. e = Resume t \<and> map_of (c_waiting c) t = Some (i, OpGet p n b) \<and> n \<noteq> ''.'' \<and>
     map_of (c_Transactions c) i = Some \<lparr>satisfied = True, reply = TreeInfoResponse a\<rparr> \<and>
     TreeInfoResponse_nodeToAddList a = [])"

lemma request_fault:
  assumes "op_request op c = Inl f"
  shows "needs_handle op \<and> op_handle op = None \<and> f = NullDeref \<or> op = OpRoot \<and> ctree c 0 = None \<and> f = EndDeref"
  using assms
  by (cases op) (auto simp: root_request_def create_request_def get_request_def commit_request_def fetch_request_def
      subscribe_request_def unsubscribe_request_def destroy_request_def call_request_def Let_def
      split: option.splits if_splits)

lemma request_faults: "needs_handle op \<and> op_handle op = None \<Longrightarrow> op_request op c = Inl NullDeref"
  by (cases op) (auto simp: create_request_def get_request_def commit_request_def fetch_request_def
      subscribe_request_def unsubscribe_request_def destroy_request_def call_request_def deref_def)

lemma start_fault:
  assumes "encode_throws L" "start L t op sent c = Inl f"
  shows "op_request op c = Inl f"
proof (cases "op_request op c")
  case (Inr q)
  show ?thesis
  proof (cases q)
    case (Ask m)
    obtain i ctr where i: "next_id (c_TransactioIdCtr c) = (i, ctr)" by fastforce
    show ?thesis
    proof (cases "client_send L sent (single i m)")
      case (Inl g)
      with client_send_fault [OF assms(1) Inl] obtain w where "g = Thrown w" by (cases g) auto
      with assms(2) Inr Ask i Inl show ?thesis by (simp add: start_def addTransaction_def)
    qed (use assms(2) Inr Ask i in \<open>simp add: start_def addTransaction_def\<close>)
  qed (use assms(2) Inr in \<open>simp add: start_def\<close>)
qed (use assms(2) in \<open>simp add: start_def\<close>)

text \<open>A node that is in the list is found afterwards.\<close>

lemma ctree_add_node:
  assumes "tree_wf c" "add_node i c = (c', out)"
  shows "dom (ctree c') = insert (NamedNode_parentUuid i) (insert (NamedNode_uuid i) (dom (ctree c)))"
proof -
  obtain p c1 where pf: "parent_for (NamedNode_parentUuid i) c = (p, c1)" by fastforce
  note P = tree_wf_parent_for [OF assms(1) pf]
  have d: "dom (ctree c1) = insert (NamedNode_parentUuid i) (dom (ctree c))"
  proof (rule set_eqI)
    fix v show "v \<in> dom (ctree c1) \<longleftrightarrow> v \<in> insert (NamedNode_parentUuid i) (dom (ctree c))"
      using P(3) P(4) [of v] by (cases "v = NamedNode_parentUuid i") (simp_all add: domIff)
  qed
  show ?thesis
  proof (cases "ctree c (NamedNode_uuid i)")
    case (Some r)
    have "c_Tree c' = c_Tree c1"
      using assms(2) unfolding add_node_eq(1) [OF pf Some] Let_def by (auto simp: client_simps)
    then show ?thesis
      using domI [of "ctree c", OF Some] by (simp only: d insert_absorb)
  next
    case None
    obtain n c2 where mk: "make_Node (NamedNode_name i) (Some p) (NamedNode_uuid i) c1 = (n, c2)" by fastforce
    have "c_Tree c2 = c_Tree c1" using tree_wf_make(6) [OF P(1) mk] tree_live [OF P(1,3)] by simp
    moreover have "um_wf (c_Tree c1)" using P(1) by (simp add: tree_wf_def)
    moreover have "c_Tree c' = um_emplace (NamedNode_uuid i) n (c_Tree c2)"
      using assms(2) unfolding add_node_eq(2) [OF pf None mk] Let_def by (auto simp: client_simps)
    ultimately show ?thesis
      by (simp only: um.dom_emplace d insert_commute)
  qed
qed

lemma ctree_addNodes_mono:
  assumes "tree_wf c" "addNodes xs c = (c', out)"
  shows "dom (ctree c) \<union> NamedNode_uuid ` set xs \<subseteq> dom (ctree c')"
  using assms
proof (induction xs arbitrary: c out)
  case (Cons i xs)
  obtain d o1 o2 where d: "add_node i c = (d, o1)" "addNodes xs d = (c', o2)"
    using Cons.prems(2) by (auto split: prod.splits)
  show ?case
    using Cons.IH [OF tree_wf_add_node [OF Cons.prems(1) d(1)] d(2)] ctree_add_node [OF Cons.prems(1) d(1)] by auto
qed simp

lemma response_fault:
  assumes "tree_wf c" "op_response op m c = Inl f" "needs_handle op \<longrightarrow> op_handle op \<noteq> None"
  shows "\<exists>p n b a. op = OpGet p n b \<and> n \<noteq> ''.'' \<and> m = TreeInfoResponse a \<and> TreeInfoResponse_nodeToAddList a = [] \<and> f = EndDeref"
proof (cases op)
  case (OpGet p n b)
  with assms(2) obtain a where a: "m = TreeInfoResponse a"
    by (cases m) (auto simp: get_response_def)
  obtain d out where d: "addNodes (TreeInfoResponse_nodeToAddList a) c = (d, out)" by fastforce
  from ctree_addNodes_mono [OF assms(1) d] assms(2) a d OpGet show ?thesis
    by (auto simp: get_response_def split: if_splits list.splits option.splits)
qed (use assms(2,3) in \<open>cases m; auto simp: signin_response_def create_response_def commit_response_def
    fetch_response_def subscribe_response_def unsubscribe_response_def destroy_eq beat_response_def
    call_response_def Let_def split: option.splits prod.splits if_splits\<close>)+

lemma visit_fault: "encode_throws L \<Longrightarrow> client_visit L sent t m c = Inl f \<Longrightarrow> thrown f"
  by (cases m) (auto simp: client_RpcRequest_def Let_def split: option.splits dest: client_send_fault)

lemma message_fault: "encode_throws L \<Longrightarrow> client_handle_message L sent m c = Inl f \<Longrightarrow> thrown f"
  by (auto simp: client_handle_message_def split: option.splits dest: visit_fault)

lemma array_fault: "encode_throws L \<Longrightarrow> client_handle_array L sent ms c = Inl f \<Longrightarrow> thrown f"
  by (induction ms arbitrary: c) (auto dest: message_fault)

lemma client_handle_fault: "encode_throws L \<Longrightarrow> client_handle L sent m c = Inl f \<Longrightarrow> thrown f"
  by (cases m) (auto dest: message_fault array_fault)

lemma waiting_entry:
  assumes "client_inv k c" "map_of (c_waiting c) t = Some (i, op)"
  shows "\<exists>tr. map_of (c_Transactions c) i = Some tr" "needs_handle op \<longrightarrow> op_handle op \<noteq> None"
  using assms unfolding client_inv_def trans_wf_def by blast+

lemma waiting_unique:
  assumes "client_inv k c" "map_of (c_waiting c) t = Some (i, op)" "map_of (c_waiting c) t' = Some (i, op')"
  shows "t = t'"
  using assms unfolding client_inv_def trans_wf_def by blast

text \<open>The end of a wait, by what is in the table.\<close>

lemma resume_cases:
  assumes "map_of (c_waiting c) t = Some (i, op)" "map_of (c_Transactions c) i = Some tr"
  shows "\<not> satisfied tr \<Longrightarrow> resume t c = Inr (c, [])"
    and "satisfied tr \<Longrightarrow> resume t c =
      bindR (op_response op (reply tr) (c\<lparr>c_Transactions := um_erase i (c_Transactions c)\<rparr>))
        (\<lambda>(c, out, v). Inr (returned t v c, out @ [Returned t v]))"
  using assms by (simp_all add: resume_def waitTransaction_def)

lemma resume_fault:
  assumes "client_inv k c" "resume t c = Inl f"
  shows "empty_answer (Resume t) c \<and> f = EndDeref"
proof -
  obtain i op where w: "map_of (c_waiting c) t = Some (i, op)"
    using assms(2) by (cases "map_of (c_waiting c) t") (auto simp: resume_def)
  obtain tr where tr: "map_of (c_Transactions c) i = Some tr" using waiting_entry(1) [OF assms(1) w] by blast
  note rc = resume_cases [OF w tr]
  have sat: "satisfied tr" using rc(1) assms(2) by auto
  have "op_response op (reply tr) (c\<lparr>c_Transactions := um_erase i (c_Transactions c)\<rparr>) = Inl f"
    using assms(2) unfolding rc(2) [OF sat] by (auto split: prod.splits)
  from response_fault [OF _ this waiting_entry(2) [OF assms(1) w]] assms(1) show ?thesis
    using w tr sat by (cases tr) (auto simp: client_inv_def empty_answer_def)
qed

lemma timeout_fault: "client_inv k c \<Longrightarrow> timeout t c \<noteq> Inl f"
  using waiting_entry(1) [of k c t]
  by (fastforce simp: timeout_def waitTransaction_def split: option.splits prod.splits if_splits)

lemma empty_answer_fault:
  assumes "empty_answer e c" shows "\<exists>t. e = Resume t \<and> resume t c = Inl EndDeref"
proof -
  from assms obtain t i p n b a where e: "e = Resume t" and w: "map_of (c_waiting c) t = Some (i, OpGet p n b)" "n \<noteq> ''.''"
    "map_of (c_Transactions c) i = Some \<lparr>satisfied = True, reply = TreeInfoResponse a\<rparr>"
    "TreeInfoResponse_nodeToAddList a = []" unfolding empty_answer_def by blast
  have "resume t c = Inl EndDeref"
    using resume_cases(2) [OF w(1,3)] w(2,4) by (simp add: get_response_def)
  with e show ?thesis by blast
qed

lemma client_step_fault:
  assumes "encode_throws L" "client_inv (client_cost e + k) c" "client_step L e c = Inl f"
  shows "thrown f \<or> null_argument e c \<or> lost_root e c \<or> empty_answer e c"
proof (cases e)
  case (Start t op sent)
  with assms(3) have s: "may_start t op c" "start L t op sent c = Inl f" by (simp_all split: if_splits)
  from request_fault [OF start_fault [OF assms(1) s(2)]] s(1) Start show ?thesis
    by (auto simp: null_argument_def lost_root_def)
qed (use assms resume_fault [of k c] timeout_fault [of k c] client_handle_fault in auto)

lemma client_step_faults:
  assumes "null_argument e c \<or> lost_root e c \<or> empty_answer e c"
  shows "\<exists>f. client_step L e c = Inl f \<and> \<not> thrown f"
proof -
  consider (null) "null_argument e c" | (root) "lost_root e c" | (empty) "empty_answer e c" using assms by blast
  then show ?thesis
  proof cases
    case null
    then show ?thesis by (auto simp: null_argument_def start_def request_faults)
  next
    case root
    then show ?thesis by (auto simp: lost_root_def start_def root_request_def)
  next
    case empty
    from empty_answer_fault [OF this] show ?thesis by auto
  qed
qed

section \<open>A transaction from the answer to the end of the wait\<close>

text \<open>\<open>has_answer t i op m c\<close>: thread \<open>t\<close> waits on transaction \<open>i\<close>, which has been answered by \<open>m\<close>.\<close>

definition waits :: "nat \<Rightarrow> u16 \<Rightarrow> Op \<Rightarrow> Client \<Rightarrow> bool" where
  "waits t i op c \<longleftrightarrow> map_of (c_waiting c) t = Some (i, op)"

definition has_answer :: "nat \<Rightarrow> u16 \<Rightarrow> Op \<Rightarrow> PropertyTreeMessages \<Rightarrow> Client \<Rightarrow> bool" where
  "has_answer t i op m c \<longleftrightarrow> waits t i op c \<and>
     map_of (c_Transactions c) i = Some \<lparr>satisfied = True, reply = m\<rparr>"

text \<open>The events in between: \<open>t\<close> sleeps, and nothing else arrives under the id \<open>i\<close>.\<close>

fun not_for :: "nat \<Rightarrow> u16 \<Rightarrow> client_event \<Rightarrow> bool" where
  "not_for t i (Resume s) = (s \<noteq> t)"
| "not_for t i (Receive m sent) = (\<forall>u\<in>set (units m). transactionId u \<noteq> i)"
| "not_for t i _ = True"

lemma message_answers:
  assumes "um_wf (c_Transactions c)" "map_of (c_Transactions c) i = Some tr"
  shows "client_handle_message L sent \<lparr>transactionId = i, message = m\<rparr> c =
    Inr (c\<lparr>c_Transactions := um_assign i \<lparr>satisfied = True, reply = m\<rparr> (c_Transactions c)\<rparr>, [])"
  using assms(2) by (simp add: client_handle_message_def)

lemma message_other:
  assumes "has_answer t i op m c" "tree_wf c" "client_handle_message L sent u c = Inr (c', out)" "transactionId u \<noteq> i"
  shows "has_answer t i op m c' \<and> tree_wf c'"
proof (cases "map_of (c_Transactions c) (transactionId u)")
  case None
  with assms client_visit_wf [of c L sent "transactionId u" "message u" c' out] show ?thesis
    by (auto simp: client_handle_message_def has_answer_def waits_def same_threads_def)
next
  case (Some tr)
  with assms show ?thesis
    by (auto simp: client_handle_message_def has_answer_def waits_def map_of_um_assign)
qed

lemma um_emplace_keeps: "map_of w l = Some y \<Longrightarrow> map_of (um_emplace k v w) l = Some y"
  by (auto simp: um_emplace_def map_add_def split: option.split)

lemma answered_start:
  assumes "has_answer t i op m c" "may_start s op' c" "start L s op' sent c = Inr (c', out)"
  shows "has_answer t i op m c'"
proof -
  have st: "s \<noteq> t" using assms(1,2) by (auto simp: may_start_def has_answer_def waits_def)
  obtain q where q: "op_request op' c = Inr q" using assms(3) by (auto simp: start_def)
  show ?thesis
  proof (cases q)
    case (Early v)
    with q assms st show ?thesis by (auto simp: start_def has_answer_def waits_def um_find_erase)
  next
    case (Ask x)
    obtain j ctr where j: "next_id (c_TransactioIdCtr c) = (j, ctr)" by fastforce
    show ?thesis
    proof (cases "client_send L sent (single j x)")
      case (Inr bs)
      with q Ask j assms show ?thesis
        by (auto intro: um_emplace_keeps simp: start_def addTransaction_def has_answer_def waits_def)
    next
      case (Inl f)
      with q Ask j assms st show ?thesis
        by (cases f) (auto intro: um_emplace_keeps simp: start_def addTransaction_def has_answer_def waits_def um_find_erase)
    qed
  qed
qed

lemma answered_resume:
  assumes "client_inv k c" "has_answer t i op m c" "resume s c = Inr (c', out)" "s \<noteq> t"
  shows "has_answer t i op m c'"
proof (cases "map_of (c_waiting c) s")
  case (Some x)
  obtain j op' where x: "x = (j, op')" by fastforce
  have ji: "j \<noteq> i" using waiting_unique [OF assms(1), of s j op' t op] Some x assms(2,4) by (auto simp: has_answer_def waits_def)
  obtain tr where tr: "map_of (c_Transactions c) j = Some tr" using waiting_entry(1) [OF assms(1)] Some x by blast
  note rc = resume_cases [OF Some [unfolded x] tr]
  show ?thesis
  proof (cases "satisfied tr")
    case True
    let ?c = "c\<lparr>c_Transactions := um_erase j (c_Transactions c)\<rparr>"
    obtain d o1 v where d: "op_response op' (reply tr) ?c = Inr (d, o1, v)" "c' = returned s v d"
      using assms(3) rc(2) [OF True] by auto
    have "response_ok ?c (d, o1, v)"
      using assms(1) Some x d(1) by (intro op_response_ok [of _ s j op' "reply tr"]) (simp_all add: client_inv_def)
    then have "same_threads ?c d" by (simp add: response_ok_def)
    with assms(2,4) d(2) ji show ?thesis by (auto simp: has_answer_def waits_def same_threads_def um_find_erase)
  qed (use rc assms(2,3) in auto)
qed (use assms in \<open>simp add: resume_def\<close>)

lemma answered_timeout:
  assumes "has_answer t i op m c" "timeout s c = Inr (c', out)"
  shows "has_answer t i op m c'"
proof (cases "s = t")
  case True
  with assms show ?thesis by (simp add: timeout_def waitTransaction_def has_answer_def waits_def)
next
  case False
  have "c' = c \<or> (\<exists>v. c' = returned s v c)"
    using assms(2) by (auto simp: timeout_def waitTransaction_def split: option.splits if_splits)
  with assms(1) False show ?thesis by (auto simp: has_answer_def waits_def um_find_erase)
qed

lemma answered_keeps:
  assumes "client_inv k c" "has_answer t i op m c" "not_for t i e" "client_step L e c = Inr (c', out)"
  shows "has_answer t i op m c'"
proof (cases e)
  case (Start s op' sent)
  with assms answered_start show ?thesis by (fastforce split: if_splits)
next
  case (Resume s)
  with assms answered_resume show ?thesis by auto
next
  case (Timeout s)
  with assms answered_timeout show ?thesis by auto
next
  case (Receive u sent)
  have "has_answer t i op m c' \<and> tree_wf c'"
  proof (rule client_handle_keeps [where P = "\<lambda>c. has_answer t i op m c \<and> tree_wf c"])
    show "has_answer t i op m c \<and> tree_wf c" using assms(1,2) by (simp add: client_inv_def)
    show "client_handle L sent u c = Inr (c', out)" using assms(4) Receive by simp
  next
    fix x d d' o'
    assume x: "x \<in> set (units u)" "has_answer t i op m d \<and> tree_wf d" "client_handle_message L sent x d = Inr (d', o')"
    have "transactionId x \<noteq> i" using assms(3) Receive x(1) by simp
    with x(2,3) show "has_answer t i op m d' \<and> tree_wf d'" by (blast dest: message_other)
  qed
  then show ?thesis by simp
qed (use assms in \<open>auto simp: has_answer_def waits_def\<close>)

end
