(* ===== verification/ClientView.thy ===== *)
theory ClientView
  imports ClientRun
begin

text \<open>
  What a client knows of the tree, without pointers: for every uuid the name of the node and the uuid
  of its parent (\<open>cview\<close>), and its value (\<open>cvalue\<close>). What the messages of the server do to it, in
  these terms: a node that is announced under a known parent is set, one that is removed is taken
  away, a value that is announced is stored, and nothing else changes.
\<close>

type_synonym view = "u64 \<Rightarrow> (string \<times> u64 option) option"
type_synonym vals = "u64 \<Rightarrow> u8 list option"

definition node_view :: "Client \<Rightarrow> cref \<Rightarrow> string \<times> u64 option" where
  "node_view c r = (cn_name (c_heap c r), map_option (\<lambda>p. cn_uuid (c_heap c p)) (cn_parent (c_heap c r)))"

definition cview :: "Client \<Rightarrow> view" where
  "cview c u = map_option (node_view c) (ctree c u)"

definition cvalue :: "Client \<Rightarrow> vals" where
  "cvalue c u = map_option (\<lambda>r. cn_data (c_heap c r)) (ctree c u)"

lemma cview_None [simp]: "cview c u = None \<longleftrightarrow> ctree c u = None"
  by (simp add: cview_def)

lemma cvalue_None [simp]: "cvalue c u = None \<longleftrightarrow> ctree c u = None"
  by (simp add: cvalue_def)

lemma tree_uuid: "tree_wf c \<Longrightarrow> ctree c u = Some r \<Longrightarrow> cn_uuid (c_heap c r) = u"
  by (simp add: tree_wf_def)

lemma view_cong:
  assumes "c_Tree c' = c_Tree c"
    and "\<And>r. cn_name (c_heap c' r) = cn_name (c_heap c r)" "\<And>r. cn_parent (c_heap c' r) = cn_parent (c_heap c r)"
    and "\<And>r. cn_uuid (c_heap c' r) = cn_uuid (c_heap c r)"
  shows "cview c' = cview c"
  using assms by (simp add: cview_def node_view_def fun_eq_iff cong: option.map_cong)

lemma value_cong:
  "c_Tree c' = c_Tree c \<Longrightarrow> (\<And>r. cn_data (c_heap c' r) = cn_data (c_heap c r)) \<Longrightarrow> cvalue c' = cvalue c"
  by (simp add: cvalue_def fun_eq_iff)

lemma set_child_view [simp]: "cview (set_child p n r c) = cview c" "cvalue (set_child p n r c) = cvalue c"
  by (rule view_cong value_cong; simp add: client_simps)+

lemma unlink_view [simp]: "cview (unlink w n c) = cview c" "cvalue (unlink w n c) = cvalue c"
  by (rule view_cong value_cong; simp add: client_simps)+

lemma release_view [simp]: "cview (c_release c) = cview c" "cvalue (c_release c) = cvalue c"
  by (rule view_cong value_cong; simp)+

section \<open>Nodes that are added\<close>

lemma make_view:
  assumes wf: "tree_wf c" and p: "ctree c pu = Some p" and mk: "make_Node n (Some p) u c = (r, d)" and "ctree c u = None"
  shows "cview (d\<lparr>c_Tree := um_emplace u r (c_Tree d)\<rparr>) = (cview c)(u \<mapsto> (n, Some pu))"
    and "cvalue (d\<lparr>c_Tree := um_emplace u r (c_Tree d)\<rparr>) = (cvalue c)(u \<mapsto> [])"
proof -
  have pn: "p < c_next c" using tree_live [OF wf p] by simp
  note N = tree_wf_make [OF wf mk]
  have tree: "map_of (um_emplace u r (c_Tree d)) = (ctree c)(u \<mapsto> r)"
    using assms(4) N(6) pn by (simp add: dict_simps)
  have old: "c_heap d x = c_heap c x" if "x < c_next c" for x using N(3,8) pn that by simp
  have new: "node_view d r = (n, Some pu)"
    using N(9) pn old [OF pn] tree_uuid [OF wf p] by (simp add: node_view_def new_ClientNode_def)
  have same: "node_view d x = node_view c x" if "ctree c v = Some x" for v x
  proof -
    have x: "x < c_next c" using tree_live [OF wf that] by simp
    show ?thesis using old [OF x] refs_okD [OF wf, of x] old by (cases "cn_parent (c_heap c x)") (auto simp: node_view_def)
  qed
  show "cview (d\<lparr>c_Tree := um_emplace u r (c_Tree d)\<rparr>) = (cview c)(u \<mapsto> (n, Some pu))"
  proof
    fix v
    show "cview (d\<lparr>c_Tree := um_emplace u r (c_Tree d)\<rparr>) v = ((cview c)(u \<mapsto> (n, Some pu))) v"
      using new same [of v] by (cases "ctree c v") (auto simp: cview_def tree node_view_def)
  qed
  have "cn_data (c_heap d r) = []" using N(9) pn by (simp add: new_ClientNode_def)
  moreover have "cn_data (c_heap d x) = cn_data (c_heap c x)" if "ctree c v = Some x" for v x
    using old tree_live [OF wf that] by simp
  ultimately show "cvalue (d\<lparr>c_Tree := um_emplace u r (c_Tree d)\<rparr>) = (cvalue c)(u \<mapsto> [])"
    by (auto simp: cvalue_def tree fun_eq_iff split: option.splits intro!: option.map_cong0)
qed

lemma add_node_view:
  assumes wf: "tree_wf c" and add: "add_node i c = (c', out)" and p: "ctree c (NamedNode_parentUuid i) = Some p"
  shows "cview c' = (cview c)(NamedNode_uuid i \<mapsto> (NamedNode_name i, Some (NamedNode_parentUuid i)))"
    and "cvalue c' = (if ctree c (NamedNode_uuid i) = None then (cvalue c)(NamedNode_uuid i \<mapsto> []) else cvalue c)"
proof -
  have pf: "parent_for (NamedNode_parentUuid i) c = (p, c)" using p by (simp add: parent_for_def)
  let ?u = "NamedNode_uuid i" and ?pu = "NamedNode_parentUuid i" and ?n = "NamedNode_name i"
  have "cview c' = (cview c)(?u \<mapsto> (?n, Some ?pu)) \<and>
    cvalue c' = (if ctree c ?u = None then (cvalue c)(?u \<mapsto> []) else cvalue c)"
  proof (cases "ctree c ?u")
    case (Some r)
    let ?d = "c\<lparr>c_heap := (c_heap c)(r := (c_heap c r)\<lparr>cn_name := ?n, cn_parent := Some p\<rparr>)\<rparr>"
    have c': "c' = set_child p ?n r ?d" using add add_node_eq(1) [OF pf Some] by (simp add: Let_def)
    have u: "cn_uuid (c_heap ?d x) = cn_uuid (c_heap c x)" for x by simp
    have other: "node_view ?d x = node_view c x" if "x \<noteq> r" for x
      using that by (cases "cn_parent (c_heap c x)") (simp_all add: node_view_def)
    have r: "node_view ?d r = (?n, Some ?pu)" using tree_uuid [OF wf p] by (auto simp: node_view_def)
    have "cview ?d = (cview c)(?u \<mapsto> (?n, Some ?pu))"
    proof
      fix v
      show "cview ?d v = ((cview c)(?u \<mapsto> (?n, Some ?pu))) v"
      proof (cases "ctree c v")
        case (Some x)
        show ?thesis
        proof (cases "x = r")
          case True
          with tree_uuid [OF wf Some] tree_uuid [OF wf \<open>ctree c ?u = Some r\<close>] have "v = ?u" by simp
          with r Some True show ?thesis by (simp add: cview_def)
        next
          case False
          with \<open>ctree c ?u = Some r\<close> Some have "v \<noteq> ?u" by auto
          with other [OF False] Some show ?thesis by (simp add: cview_def)
        qed
      qed (use \<open>ctree c ?u = Some r\<close> in \<open>auto simp: cview_def\<close>)
    qed
    moreover have "cvalue ?d = cvalue c" by (rule value_cong) simp_all
    ultimately show ?thesis using Some by (simp add: c')
  next
    case None
    obtain r d where mk: "make_Node ?n (Some p) ?u c = (r, d)" by fastforce
    have c': "c' = set_child p ?n r (d\<lparr>c_Tree := um_emplace ?u r (c_Tree d)\<rparr>)"
      using add add_node_eq(2) [OF pf None mk] by (simp add: Let_def)
    from make_view [OF wf p mk None] None show ?thesis by (simp add: c')
  qed
  then show "cview c' = (cview c)(?u \<mapsto> (?n, Some ?pu))"
    "cvalue c' = (if ctree c ?u = None then (cvalue c)(?u \<mapsto> []) else cvalue c)" by simp_all
qed

text \<open>Nothing is lost when nodes are added.\<close>

lemma add_node_keeps:
  assumes wf: "tree_wf c" and add: "add_node i c = (c', out)" and p: "ctree c (NamedNode_parentUuid i) = Some p"
  shows "ctree c \<subseteq>\<^sub>m ctree c'"
proof -
  have pf: "parent_for (NamedNode_parentUuid i) c = (p, c)" using p by (simp add: parent_for_def)
  show ?thesis
  proof (cases "ctree c (NamedNode_uuid i)")
    case (Some r)
    have "c_Tree c' = c_Tree c" using add unfolding add_node_eq(1) [OF pf Some] Let_def by (auto simp: client_simps)
    then show ?thesis by simp
  next
    case None
    obtain r d where mk: "make_Node (NamedNode_name i) (Some p) (NamedNode_uuid i) c = (r, d)" by fastforce
    have pn: "p < c_next c" using tree_live [OF wf p] by simp
    have "c_Tree c' = um_emplace (NamedNode_uuid i) r (c_Tree c)"
      using add tree_wf_make(6) [OF wf mk] pn unfolding add_node_eq(2) [OF pf None mk] Let_def by (auto simp: client_simps)
    then show ?thesis using None by (auto simp: map_le_def um_emplace_def)
  qed
qed

section \<open>Nodes that are removed, values that change\<close>

lemma erase_view:
  "cview (c\<lparr>c_Tree := um_erase u (c_Tree c)\<rparr>) = (cview c)(u := None)"
  "cvalue (c\<lparr>c_Tree := um_erase u (c_Tree c)\<rparr>) = (cvalue c)(u := None)"
  by (simp_all add: cview_def cvalue_def um_find_erase fun_eq_iff node_view_def cong: option.map_cong)

lemma remove_node_view:
  assumes "remove_node u c = (c', out)"
  shows "cview c' = (cview c)(u := None)" "cvalue c' = (cvalue c)(u := None)"
proof -
  have "cview c' = (cview c)(u := None) \<and> cvalue c' = (cvalue c)(u := None)"
  proof (cases "ctree c u")
    case None
    with assms show ?thesis by (auto simp: remove_node_eq fun_eq_iff)
  next
    case (Some r)
    let ?d = "unlink (cn_parent (c_heap c r)) (cn_name (c_heap c r)) c"
    have "c' = c_release (?d\<lparr>c_Tree := um_erase u (c_Tree ?d)\<rparr>)"
      using assms Some by (simp add: remove_node_eq client_simps)
    then show ?thesis by (simp add: erase_view del: unlink_same)
  qed
  then show "cview c' = (cview c)(u := None)" "cvalue c' = (cvalue c)(u := None)" by simp_all
qed

lemma store_value_eq: "store_value r bs c = c\<lparr>c_heap := (c_heap c)(r := (c_heap c r)\<lparr>cn_data := bs\<rparr>)\<rparr>"
  by (simp add: store_value_def)

lemma store_value_view: "cview (store_value r bs c) = cview c"
  by (rule view_cong) (simp_all add: store_value_eq)

lemma store_value_value:
  assumes "tree_wf c" "ctree c u = Some r"
  shows "cvalue (store_value r bs c) = (cvalue c)(u \<mapsto> bs)"
proof
  fix v
  show "cvalue (store_value r bs c) v = ((cvalue c)(u \<mapsto> bs)) v"
    using tree_uuid [OF assms(1), of v r] tree_uuid [OF assms] assms(2)
    by (cases "ctree c v") (auto simp: cvalue_def store_value_eq)
qed

end
