(* ===== verification/ClientLinks.thy ===== *)
theory ClientLinks
  imports ClientView
begin

text \<open>
  The children a node of the client lists are the nodes of the tree that have it as their parent, and
  a parent that is remembered is a node of the tree: what a client finds by name without asking is
  what its tree says.
\<close>

abbreviation cchild :: "Client \<Rightarrow> cref \<Rightarrow> string \<Rightarrow> cref option" where
  "cchild c r \<equiv> map_of (cn_children (c_heap c r))"

definition linked :: "Client \<Rightarrow> cref \<Rightarrow> string \<Rightarrow> cref \<Rightarrow> bool" where
  "linked c p n d \<longleftrightarrow> ctree c (cn_uuid (c_heap c d)) = Some d \<and> cn_name (c_heap c d) = n \<and> cn_parent (c_heap c d) = Some p"

definition links_ok :: "Client \<Rightarrow> bool" where
  "links_ok c \<longleftrightarrow> (\<forall>u p n d. ctree c u = Some p \<longrightarrow> (cchild c p n = Some d \<longleftrightarrow> linked c p n d)) \<and>
     (\<forall>u d p. ctree c u = Some d \<longrightarrow> cn_parent (c_heap c d) = Some p \<longrightarrow> ctree c (cn_uuid (c_heap c p)) = Some p)"

lemma linked_view: "linked c p n d \<Longrightarrow> cview c (cn_uuid (c_heap c d)) = Some (n, Some (cn_uuid (c_heap c p)))"
  by (simp add: linked_def cview_def node_view_def)

lemma links_same:
  assumes "links_ok c" "c_Tree c' = c_Tree c"
    and "\<And>r. cn_children (c_heap c' r) = cn_children (c_heap c r)" "\<And>r. cn_name (c_heap c' r) = cn_name (c_heap c r)"
    and "\<And>r. cn_parent (c_heap c' r) = cn_parent (c_heap c r)" "\<And>r. cn_uuid (c_heap c' r) = cn_uuid (c_heap c r)"
  shows "links_ok c'"
  using assms by (simp add: links_ok_def linked_def)

lemma links_release [simp]: "links_ok (c_release c) = links_ok c"
  by (simp add: links_ok_def linked_def)

lemma set_child_children: "om_wf (cn_children (c_heap c p)) \<Longrightarrow>
    cchild (set_child p n r c) x = (if x = p then (cchild c x)(n \<mapsto> r) else cchild c x)"
  by (simp add: set_child_def map_of_om_assign)

lemma tree_uuid_unique: "tree_wf c \<Longrightarrow> ctree c u = Some r \<Longrightarrow> ctree c v = Some r \<Longrightarrow> u = v"
  by (metis tree_uuid)

lemma links_okI:
  assumes "\<And>w x m d. ctree c w = Some x \<Longrightarrow> cchild c x m = Some d \<Longrightarrow> linked c x m d"
    and "\<And>w x m d. ctree c w = Some x \<Longrightarrow> linked c x m d \<Longrightarrow> cchild c x m = Some d"
    and "\<And>w d p. ctree c w = Some d \<Longrightarrow> cn_parent (c_heap c d) = Some p \<Longrightarrow> ctree c (cn_uuid (c_heap c p)) = Some p"
  shows "links_ok c"
  using assms unfolding links_ok_def by blast

lemma links_okD: "links_ok c \<Longrightarrow> ctree c w = Some x \<Longrightarrow> cchild c x m = Some d \<longleftrightarrow> linked c x m d"
  by (simp add: links_ok_def)

lemma links_parent:
  "links_ok c \<Longrightarrow> ctree c u = Some d \<Longrightarrow> cn_parent (c_heap c d) = Some p \<Longrightarrow> ctree c (cn_uuid (c_heap c p)) = Some p"
  unfolding links_ok_def by blast

text \<open>The children by name are those the tree says.\<close>

lemma links_child:
  assumes wf: "tree_wf c" and ok: "links_ok c" and r: "ctree c u = Some r"
  shows "cchild c r n = Some d \<longleftrightarrow> (\<exists>v. ctree c v = Some d \<and> cview c v = Some (n, Some u))"
proof
  assume "cchild c r n = Some d"
  with links_okD [OF ok r] have l: "linked c r n d" by simp
  from linked_view [OF l] l tree_uuid [OF wf r] show "\<exists>v. ctree c v = Some d \<and> cview c v = Some (n, Some u)"
    by (auto simp: linked_def)
next
  assume "\<exists>v. ctree c v = Some d \<and> cview c v = Some (n, Some u)"
  then obtain v where v: "ctree c v = Some d" "cview c v = Some (n, Some u)" by blast
  then obtain p where p: "cn_name (c_heap c d) = n" "cn_parent (c_heap c d) = Some p" "cn_uuid (c_heap c p) = u"
    by (auto simp: cview_def node_view_def)
  with links_parent [OF ok v(1) p(2)] r have "p = r" by simp
  with p v tree_uuid [OF wf v(1)] have "linked c r n d" by (simp add: linked_def)
  with links_okD [OF ok r] show "cchild c r n = Some d" by simp
qed

text \<open>
  A node that is announced under a known parent: it is new, or what is announced is known; and no
  other node has its place.
\<close>

lemma links_add_node:
  assumes wf: "tree_wf c" and ok: "links_ok c" and add: "add_node i c = (c', out)"
    and p: "ctree c (NamedNode_parentUuid i) = Some p"
    and known: "cview c (NamedNode_uuid i) \<noteq> None \<Longrightarrow>
      cview c (NamedNode_uuid i) = Some (NamedNode_name i, Some (NamedNode_parentUuid i))"
    and place: "\<And>v. cview c v = Some (NamedNode_name i, Some (NamedNode_parentUuid i)) \<Longrightarrow> v = NamedNode_uuid i"
  shows "links_ok c'"
proof -
  let ?u = "NamedNode_uuid i" and ?pu = "NamedNode_parentUuid i" and ?n = "NamedNode_name i"
  have pf: "parent_for ?pu c = (p, c)" using p by (simp add: parent_for_def)
  show ?thesis
  proof (cases "ctree c ?u")
    case (Some r)
    let ?d = "c\<lparr>c_heap := (c_heap c)(r := (c_heap c r)\<lparr>cn_name := ?n, cn_parent := Some p\<rparr>)\<rparr>"
    have c': "c' = set_child p ?n r ?d" using add add_node_eq(1) [OF pf Some] by (simp add: Let_def)
    have ru: "cn_uuid (c_heap c r) = ?u" using tree_uuid [OF wf Some] .
    have view: "cn_name (c_heap c r) = ?n" "map_option (\<lambda>p. cn_uuid (c_heap c p)) (cn_parent (c_heap c r)) = Some ?pu"
      using known Some by (simp_all add: cview_def node_view_def)
    have heap: "cchild c' x = (if x = p then (cchild c x)(?n \<mapsto> r) else cchild c x)"
      "cn_name (c_heap c' x) = cn_name (c_heap c x)" "cn_uuid (c_heap c' x) = cn_uuid (c_heap c x)"
      "cn_parent (c_heap c' x) = (if x = r then Some p else cn_parent (c_heap c x))" for x
      using tree_wf_om [OF wf] by (simp_all add: c' set_child_children client_simps view)
    have tree: "c_Tree c' = c_Tree c" by (simp add: c' client_simps)
    have down: "linked c' x m d" if x': "ctree c' w = Some x" and d: "cchild c' x m = Some d" for w x m d
    proof (cases "x = p \<and> m = ?n")
      case True
      with d have "d = r" by (simp add: heap)
      with True Some ru view show ?thesis by (simp add: linked_def heap tree)
    next
      case False
      have x: "ctree c w = Some x" using x' by (simp add: tree)
      from False have "cchild c x m = Some d" using d by (auto simp: heap split: if_splits)
      with ok x have old: "linked c x m d" by (simp add: links_okD)
      moreover have "x = p" if "d = r"
      proof -
        have "cn_uuid (c_heap c x) = ?pu" using old view(2) that by (simp add: linked_def)
        with x p tree_uuid [OF wf x] show ?thesis by simp
      qed
      ultimately show ?thesis by (simp add: linked_def heap tree)
    qed
    have up: "cchild c' x m = Some d" if x: "ctree c' w = Some x" and l: "linked c' x m d" for w x m d
    proof (cases "d = r")
      case True
      with l have "x = p" "m = ?n" using view by (simp_all add: linked_def heap)
      with True show ?thesis by (simp add: heap)
    next
      case False
      with l have old: "linked c x m d" by (simp add: linked_def heap tree)
      have "\<not> (x = p \<and> m = ?n)"
      proof
        assume "x = p \<and> m = ?n"
        with linked_view [OF old] tree_uuid [OF wf p] have "cn_uuid (c_heap c d) = ?u" by (intro place) simp
        with old Some False show False by (simp add: linked_def)
      qed
      moreover have "cchild c x m = Some d" using old x links_okD [OF ok] by (simp add: tree)
      ultimately show ?thesis by (auto simp: heap)
    qed
    have par: "ctree c' (cn_uuid (c_heap c' q)) = Some q" if "ctree c' w = Some d" "cn_parent (c_heap c' d) = Some q" for w d q
      using that p tree_uuid [OF wf p] links_parent [OF ok] by (auto simp: heap tree split: if_splits)
    show ?thesis by (rule links_okI) (fact down up par)+
  next
    case None
    obtain r d where mk: "make_Node ?n (Some p) ?u c = (r, d)" by fastforce
    have c': "c' = set_child p ?n r (d\<lparr>c_Tree := um_emplace ?u r (c_Tree d)\<rparr>)"
      using add add_node_eq(2) [OF pf None mk] by (simp add: Let_def)
    have pn: "p < c_next c" using tree_live [OF wf p] by simp
    note N = tree_wf_make [OF wf mk]
    have tree: "ctree c' = (ctree c)(?u \<mapsto> r)" using None N(6) pn by (simp add: c' client_simps dict_simps)
    have old: "c_heap d x = c_heap c x" if "x < c_next c" for x using N(3,8) pn that by simp
    have new: "cchild d r = Map.empty" "cn_name (c_heap d r) = ?n" "cn_parent (c_heap d r) = Some p" "cn_uuid (c_heap d r) = ?u"
      using N(9) pn by (simp_all add: new_ClientNode_def)
    have heap: "cchild c' x = (if x = p then (cchild d x)(?n \<mapsto> r) else cchild d x)"
      "cn_name (c_heap c' x) = cn_name (c_heap d x)" "cn_uuid (c_heap c' x) = cn_uuid (c_heap d x)"
      "cn_parent (c_heap c' x) = cn_parent (c_heap d x)" for x
      using tree_wf_om [OF N(1)] pn by (simp_all add: c' set_child_children client_simps)
    have "r \<noteq> p" using N(3) pn by simp
    have down: "linked c' x m e" if x: "ctree c' w = Some x" and e: "cchild c' x m = Some e" for w x m e
    proof (cases "x = p \<and> m = ?n")
      case True
      with e have "e = r" by (simp add: heap)
      with True new show ?thesis by (simp add: linked_def heap tree)
    next
      case False
      then have ce: "cchild d x m = Some e" using e by (auto simp: heap split: if_splits)
      then have "x \<noteq> r" using new by auto
      then have cx: "ctree c w = Some x" using x by (auto simp: tree split: if_splits)
      then have "x < c_next c" using tree_live [OF wf cx] by simp
      with ce old have "cchild c x m = Some e" by simp
      with ok cx have l: "linked c x m e" by (simp add: links_okD)
      then have "e < c_next c" using tree_live [OF wf, of _ e] by (auto simp: linked_def)
      with l None show ?thesis by (auto simp: linked_def heap tree old)
    qed
    have up: "cchild c' x m = Some e" if x: "ctree c' w = Some x" and l: "linked c' x m e" for w x m e
    proof (cases "e = r")
      case True
      with l new show ?thesis by (simp add: linked_def heap)
    next
      case False
      then have e: "ctree c (cn_uuid (c_heap d e)) = Some e" using l by (auto simp: linked_def heap tree split: if_splits)
      then have "e < c_next c" using tree_live [OF wf] by blast
      then have he: "c_heap d e = c_heap c e" by (rule old)
      have "cn_parent (c_heap c e) = Some x" using l he by (simp add: linked_def heap)
      then have xn: "x < c_next c" using wf by (simp add: tree_wf_def refs_ok_def)
      then have "x \<noteq> r" using N(3) pn by auto
      then have cx: "ctree c w = Some x" using x by (auto simp: tree split: if_splits)
      have oldl: "linked c x m e" using l e he by (simp add: linked_def heap)
      have "\<not> (x = p \<and> m = ?n)"
      proof
        assume "x = p \<and> m = ?n"
        with linked_view [OF oldl] tree_uuid [OF wf p] have "cn_uuid (c_heap c e) = ?u" by (intro place) simp
        with oldl None show False by (simp add: linked_def)
      qed
      moreover have "cchild d x m = Some e" using links_okD [OF ok cx] oldl old [OF xn] by simp
      ultimately show ?thesis by (auto simp: heap)
    qed
    have par: "ctree c' (cn_uuid (c_heap c' q)) = Some q" if e: "ctree c' w = Some e" "cn_parent (c_heap c' e) = Some q" for w e q
    proof (cases "e = r")
      case True
      then have "q = p" using e(2) new by (simp add: heap)
      with p None tree_uuid [OF wf p] old [OF pn] show ?thesis by (auto simp: heap tree)
    next
      case False
      then have ce: "ctree c w = Some e" using e(1) by (auto simp: tree split: if_splits)
      then have he: "c_heap d e = c_heap c e" using tree_live [OF wf] by (intro old) blast
      then have q: "cn_parent (c_heap c e) = Some q" using e(2) by (simp add: heap)
      then have "q < c_next c" using wf by (simp add: tree_wf_def refs_ok_def)
      with links_parent [OF ok ce q] None old show ?thesis by (auto simp: heap tree)
    qed
    show ?thesis by (rule links_okI) (fact down up par)+
  qed
qed

lemma links_remove_node:
  assumes wf: "tree_wf c" and ok: "links_ok c" and rem: "remove_node u c = (c', out)"
    and leaf: "\<And>v n. cview c v \<noteq> Some (n, Some u)"
  shows "links_ok c'"
proof (cases "ctree c u")
  case None
  with rem ok show ?thesis by (simp add: remove_node_eq)
next
  case (Some r)
  let ?q = "cn_parent (c_heap c r)" and ?m = "cn_name (c_heap c r)"
  let ?d = "(unlink ?q ?m c)\<lparr>c_Tree := um_erase u (c_Tree c)\<rparr>"
  have c': "c' = c_release ?d" using rem Some by (simp add: remove_node_eq)
  have ch: "cchild (unlink ?q ?m c) x = (if lock c ?q = Some x then (cchild c x)(?m := None) else cchild c x)" for x
    by (auto simp: unlink_def om_find_erase split: option.split)
  have down: "linked ?d x m d" if x: "ctree ?d w = Some x" and d: "cchild ?d x m = Some d" for w x m d
  proof -
    have cx: "ctree c w = Some x" "w \<noteq> u" using x by (auto simp: um_find_erase split: if_splits)
    have cd: "cchild c x m = Some d" "\<not> (lock c ?q = Some x \<and> m = ?m)" using d by (auto simp: ch split: if_splits)
    with ok cx have l: "linked c x m d" by (simp add: links_okD)
    have "cn_uuid (c_heap c d) \<noteq> u"
    proof
      assume "cn_uuid (c_heap c d) = u"
      with l Some have "d = r" by (simp add: linked_def)
      with l have "?q = Some x" "m = ?m" by (simp_all add: linked_def)
      moreover have "c_live c x" using tree_live [OF wf cx(1)] by simp
      ultimately show False using cd(2) by (simp add: lock_def)
    qed
    with l show ?thesis by (simp add: linked_def client_simps um_find_erase)
  qed
  have up: "cchild ?d x m = Some d" if x: "ctree ?d w = Some x" and l: "linked ?d x m d" for w x m d
  proof -
    have cx: "ctree c w = Some x" using x by (auto simp: um_find_erase split: if_splits)
    have old: "linked c x m d" "cn_uuid (c_heap c d) \<noteq> u"
      using l by (auto simp: linked_def client_simps um_find_erase split: if_splits)
    have "\<not> (lock c ?q = Some x \<and> m = ?m)"
    proof
      assume a: "lock c ?q = Some x \<and> m = ?m"
      then have "?q = Some x" by (auto simp: lock_def split: option.splits if_splits)
      with Some tree_uuid [OF wf Some] have "linked c x ?m r" by (simp add: linked_def)
      with a old(1) links_okD [OF ok cx] have "d = r" by (metis option.inject)
      with old(2) tree_uuid [OF wf Some] show False by simp
    qed
    with old(1) links_okD [OF ok cx] show ?thesis by (auto simp: ch)
  qed
  have par: "ctree ?d (cn_uuid (c_heap ?d q)) = Some q" if d: "ctree ?d w = Some d" "cn_parent (c_heap ?d d) = Some q" for w d q
  proof -
    have cd: "ctree c w = Some d" "cn_parent (c_heap c d) = Some q"
      using d by (auto simp: um_find_erase client_simps split: if_splits)
    from cd leaf [of w "cn_name (c_heap c d)"] have "cn_uuid (c_heap c q) \<noteq> u" by (auto simp: cview_def node_view_def)
    with links_parent [OF ok cd] show ?thesis by (simp add: um_find_erase client_simps)
  qed
  show ?thesis unfolding c' links_release by (rule links_okI) (fact down up par)+
qed

end
