(* ===== verification/Mirror.thy ===== *)
theory Mirror
  imports RunFacts ClientLinks
begin

text \<open>
  A client beside the server. \<open>handle_news\<close>: a message the server handles changes the tree in at
  most one way, and every connection that is signed in is told so. \<open>deliver_news\<close>: a client that is
  told so changes its own tree in the same way. Together they say that a client which once agrees
  with the server goes on to agree with it.
\<close>

section \<open>What the server knows\<close>

definition sview :: "ProtocolHandler \<Rightarrow> view" where
  "sview s u = map_option (\<lambda>a. (a_name a, a_parent a)) (abs_tree s u)"

definition svalue :: "ProtocolHandler \<Rightarrow> vals" where
  "svalue s u = map_option a_data (abs_tree s u)"

lemma sview_None [simp]: "sview s u = None \<longleftrightarrow> tree s u = None"
  by (simp add: sview_def)

lemma same_abs: "abs_tree s' = abs_tree s \<Longrightarrow> sview s' = sview s \<and> svalue s' = svalue s"
  by (simp add: sview_def svalue_def fun_eq_iff)

section \<open>News\<close>

datatype news = Created string u64 u64 | Deleted u64 | Changed u64 "u8 list"

fun announce :: "news \<Rightarrow> PropertyTreeMessages" where
  "announce (Created n u p) = TreeUpdateNotification \<lparr>TreeUpdateNotification_nodeToAddList =
     [\<lparr>NamedNode_name = n, NamedNode_uuid = u, NamedNode_parentUuid = p\<rparr>], TreeUpdateNotification_nodeToDelete = []\<rparr>"
| "announce (Deleted u) = TreeUpdateNotification \<lparr>TreeUpdateNotification_nodeToAddList = [],
     TreeUpdateNotification_nodeToDelete = [u]\<rparr>"
| "announce (Changed u d) = UpdateNotification \<lparr>UpdateNotification_uuid = u, UpdateNotification_data = d\<rparr>"

fun new_view :: "news \<Rightarrow> view \<Rightarrow> view" where
  "new_view (Created n u p) V = V(u \<mapsto> (n, Some p))"
| "new_view (Deleted u) V = V(u := None)"
| "new_view (Changed u d) V = V"

fun new_value :: "news \<Rightarrow> vals \<Rightarrow> vals" where
  "new_value (Created n u p) D = D(u \<mapsto> [])"
| "new_value (Deleted u) D = D(u := None)"
| "new_value (Changed u d) D = D(u \<mapsto> d)"

text \<open>When news make sense, and who is told: everybody, of a value those who have subscribed.\<close>

fun timely :: "news \<Rightarrow> view \<Rightarrow> bool" where
  "timely (Created n u p) V = (V u = None \<and> V p \<noteq> None)"
| "timely (Deleted u) V = True"
| "timely (Changed u d) V = (V u \<noteq> None)"

fun concerns :: "news \<Rightarrow> u32 \<Rightarrow> ProtocolHandler \<Rightarrow> bool" where
  "concerns (Changed u d) i s = subscribed u i s"
| "concerns _ i s = True"

text \<open>All other messages.\<close>

fun plain_message :: "PropertyTreeMessages \<Rightarrow> bool" where
  "plain_message (TreeUpdateNotification _) = False"
| "plain_message (UpdateNotification _) = False"
| "plain_message _ = True"

definition plain :: "PropertyTreeProtocol \<Rightarrow> bool" where
  "plain m \<longleftrightarrow> (\<exists>t x. m = single t x \<and> plain_message x)"

lemma plain_single [simp]: "plain (single t x) = plain_message x"
  by (auto simp: plain_def)

definition tells :: "conn \<Rightarrow> news option \<Rightarrow> action list \<Rightarrow> bool" where
  "tells w news out \<longleftrightarrow> (\<forall>y. Send w y \<in> set out \<longrightarrow>
     plain y \<or> (\<exists>x. news = Some x \<and> y = single notification_id (announce x)))"

definition happened :: "conn \<Rightarrow> u32 \<Rightarrow> news \<Rightarrow> ProtocolHandler \<Rightarrow> ProtocolHandler \<Rightarrow> action list \<Rightarrow> bool" where
  "happened w i x s s' out \<longleftrightarrow> timely x (sview s) \<and> sview s' = new_view x (sview s) \<and>
     svalue s' = new_value x (svalue s) \<and>
     (concerns x i s \<longrightarrow> Send w (single notification_id (announce x)) \<in> set out)"

definition nothing_new :: "ProtocolHandler \<Rightarrow> ProtocolHandler \<Rightarrow> bool" where
  "nothing_new s s' \<longleftrightarrow> sview s' = sview s \<and> svalue s' = svalue s"

lemma broadcast_sends: "Send w y \<in> set (broadcast s m) \<Longrightarrow> y = m"
  by (auto simp: broadcast_def send_to_def split: option.splits)

lemma broadcast_member:
  assumes "session_inv s" "signed_in w i s" "mSessions s' = mSessions s"
  shows "Send w m \<in> set (broadcast s' m)"
proof -
  have "map_of (mSessions s') i = Some \<lparr>connectionSession = Some w\<rparr>"
    using assms session_of_held [of s w i] by (simp add: signed_in_def)
  then have "(i, \<lparr>connectionSession = Some w\<rparr>) \<in> set (mSessions s')" by (rule map_of_SomeD)
  then show ?thesis by (force simp: broadcast_def)
qed

text \<open>The messages that change the tree, one by one.\<close>

lemma news_Create:
  assumes inv: "proto_inv (Suc k) s" and w: "signed_in w i s"
  shows "let (s', out) = handle_CreateRequest t m c s in
    \<exists>news. tells w news out \<and> (case news of None \<Rightarrow> nothing_new s s' | Some x \<Rightarrow> happened w i x s s' out)"
proof -
  have tr: "tree_inv s" and ss: "session_inv s" using inv by (simp_all add: proto_inv_def)
  obtain s' out where eq: "handle_CreateRequest t m c s = (s', out)" by fastforce
  note ref = refine_Create [OF inv, of t m c, unfolded eq fst_conv]
  consider (ok) p sid where "tree s (CreateRequest_parentUuid m) = Some p" "session_of s c = Some sid"
      "CreateRequest_name m \<notin> fst ` set (node_children (heap s p))"
    | (no) "s' = s" "tells w None out"
    using eq by (auto simp: handle_CreateRequest_eq tells_def split: option.splits if_splits)
  then have "\<exists>news. tells w news out \<and> (case news of None \<Rightarrow> nothing_new s s' | Some x \<Rightarrow> happened w i x s s' out)"
  proof cases
    case ok
    let ?u = "ucast (mUuidCtr s) :: u64" and ?p = "CreateRequest_parentUuid m" and ?n = "CreateRequest_name m"
    have s': "s' = inserted s p ?n sid" and out: "out = Send c (single t (CreateAccept \<lparr>CreateAccept_uuid = ?u\<rparr>)) #
        broadcast s' (single notification_id (announce (Created ?n ?u (node_uuid (heap s' p)))))"
      using eq ok by (auto simp: handle_CreateRequest_eq Let_def)
    have "p \<noteq> nextRef s" using tree_fresh_ref [OF tr ok(1)] .
    then have pu: "node_uuid (heap s' p) = ?p" using tree_nodeD(3) [OF tr ok(1)] by (simp add: s' inserted_def)
    have none: "tree s ?u = None" by (rule tree_fresh_uuid [OF tr])
    have "\<not> has_child (abs_tree s) ?p ?n" using ok has_child_abs [OF tr ok(1)] by (simp add: map_of_eq_None_iff)
    with ref ok have abs: "abs_tree s' = (abs_tree s)(?u \<mapsto> \<lparr>a_name = ?n, a_parent = Some ?p, a_owner = sid,
        a_data = [], a_subscribers = {}\<rparr>)" by simp
    have "mSessions s' = mSessions s" by (simp add: s' inserted_def)
    note told = broadcast_member [OF ss w this]
    have "happened w i (Created ?n ?u ?p) s s' out"
      using none ok(1) told by (simp add: happened_def out pu sview_def svalue_def abs fun_eq_iff)
    moreover have "tells w (Some (Created ?n ?u ?p)) out"
      by (auto simp: tells_def out pu dest: broadcast_sends)
    ultimately show ?thesis by (intro exI [of _ "Some (Created ?n ?u ?p)"]) simp
  next
    case no
    then show ?thesis by (intro exI [of _ None]) (simp add: nothing_new_def)
  qed
  then show ?thesis by (simp add: eq)
qed

lemma news_Delete:
  assumes inv: "proto_inv (Suc k) s" and w: "signed_in w i s" and eq: "handle_DeleteRequest t m c s = Inr (s', out)"
  shows "\<exists>news. tells w news out \<and> (case news of None \<Rightarrow> nothing_new s s' | Some x \<Rightarrow> happened w i x s s' out)"
proof -
  have tr: "tree_inv s" and ss: "session_inv s" using inv by (simp_all add: proto_inv_def)
  let ?u = "DeleteRequest_uuid m"
  note ref = refine_Delete [OF inv eq, of None 0]
  consider (ok) r where "tree s ?u = Some r" "node_children (heap s r) = []" "?u \<noteq> 0"
    | (no) "s' = s" "tells w None out"
    using eq by (auto simp: handle_DeleteRequest_eq [OF tr] tells_def Let_def split: option.splits if_splits)
  then show ?thesis
  proof cases
    case ok
    define p where "p = the (node_parent (heap s r))"
    have s': "s' = (removed s ?u r p)\<lparr>live := (live s)(r := False)\<rparr>" and
      out: "out = Send c (single t (DeleteResponse \<lparr>DeleteResponse_cause = OK\<rparr>)) #
        broadcast s' (single notification_id (announce (Deleted ?u)))"
      using eq ok by (auto simp: handle_DeleteRequest_eq [OF tr] Let_def p_def)
    have "\<not> is_parent (abs_tree s) ?u" using is_parent_abs [OF tr ok(1)] ok(2) by simp
    with ref ok(1) have abs: "abs_tree s' = (abs_tree s)(?u := None)" by (simp del: abs_tree_None add: abs_tree_Some)
    have "mSessions s' = mSessions s" by (simp add: s' removed_def)
    note told = broadcast_member [OF ss w this]
    have "happened w i (Deleted ?u) s s' out"
      using told by (simp add: happened_def out sview_def svalue_def abs fun_eq_iff)
    moreover have "tells w (Some (Deleted ?u)) out"
      by (auto simp: tells_def out dest: broadcast_sends)
    ultimately show ?thesis by (intro exI [of _ "Some (Deleted ?u)"]) simp
  next
    case no
    then show ?thesis by (intro exI [of _ None]) (simp add: nothing_new_def)
  qed
qed

lemma news_SetValue:
  assumes inv: "proto_inv (Suc k) s" and w: "signed_in w i s" and eq: "handle_SetValueRequest held t m c s = (s', out)"
  shows "\<exists>news. tells w news out \<and> (case news of None \<Rightarrow> nothing_new s s' | Some x \<Rightarrow> happened w i x s s' out)"
proof -
  have tr: "tree_inv s" using inv by (simp add: proto_inv_def)
  let ?u = "SetValueRequest_uuid m" and ?d = "SetValueRequest_data m"
  consider (ok) r where "tree s ?u = Some r" "tree_request (SetValueRequest m)" | (no) "s' = s" "tells w None out"
    using eq by (auto simp: handle_SetValueRequest_eq [OF inv] tells_def split: option.splits if_splits)
  then show ?thesis
  proof cases
    case ok
    have out: "out = Send c (single t (SetValueAccept \<lparr>SetValueAccept_spare = 0\<rparr>)) #
        map (\<lambda>v. Send v (single notification_id (announce (Changed ?u ?d)))) (subscribers (c # held) s r)"
      using eq ok tree_nodeD(3) [OF tr ok(1)] by (auto simp: handle_SetValueRequest_eq [OF inv])
    have "abs_tree s' = fst (spec_handle None 0 (SetValueRequest m) (abs_tree s))"
      using refine_SetValue [OF inv ok(2), of held t c None 0] eq by simp
    then have abs: "abs_tree s' = (abs_tree s)(?u \<mapsto> (abs_node s r)\<lparr>a_data := ?d\<rparr>)"
      using ok(1) by (simp add: abs_tree_Some)
    have "Send w (single notification_id (announce (Changed ?u ?d))) \<in> set out" if "subscribed ?u i s"
      using subscriber_listed [OF inv ok(1) w that, of "c # held"] by (simp add: out)
    then have "happened w i (Changed ?u ?d) s s' out"
      using ok(1) by (simp add: happened_def sview_def svalue_def abs fun_eq_iff abs_tree_Some)
    moreover have "tells w (Some (Changed ?u ?d)) out"
      by (auto simp: tells_def out)
    ultimately show ?thesis by (intro exI [of _ "Some (Changed ?u ?d)"]) simp
  next
    case no
    then show ?thesis by (intro exI [of _ None]) (simp add: nothing_new_def)
  qed
qed

text \<open>The requests that only read, and those about subscriptions.\<close>

fun quiet :: "PropertyTreeMessages \<Rightarrow> bool" where
  "quiet (GetRequest _) = True"
| "quiet (SubscribeRequest _) = True"
| "quiet (UnsubscribeRequest _) = True"
| "quiet _ = False"

lemma spec_quiet: "quiet m \<Longrightarrow> map_option (\<lambda>a. (a_name a, a_parent a, a_data a)) (fst (spec_handle sid n m A) v) =
    map_option (\<lambda>a. (a_name a, a_parent a, a_data a)) (A v)"
  by (cases m) (auto split: option.splits)

lemma same_views:
  assumes "\<And>v. map_option (\<lambda>a. (a_name a, a_parent a, a_data a)) (abs_tree s' v) =
      map_option (\<lambda>a. (a_name a, a_parent a, a_data a)) (abs_tree s v)"
  shows "nothing_new s s'"
proof -
  have "sview x v = map_option (\<lambda>(n, p, d). (n, p)) (map_option (\<lambda>a. (a_name a, a_parent a, a_data a)) (abs_tree x v))"
    "svalue x v = map_option (\<lambda>(n, p, d). d) (map_option (\<lambda>a. (a_name a, a_parent a, a_data a)) (abs_tree x v))" for x v
    by (simp_all add: sview_def svalue_def option.map_comp o_def)
  with assms show ?thesis by (simp add: nothing_new_def fun_eq_iff)
qed

lemma quiet_handle:
  assumes "proto_inv (Suc k) s" "handle held t m c s = Inr (s', out)" "quiet m"
  shows "nothing_new s s' \<and> tells w None out"
proof
  have "tree_request m" using assms(3) by (cases m) simp_all
  then have "abs_tree s' = fst (spec_handle (session_of s c) (ucast (mUuidCtr s)) m (abs_tree s))"
    using refine_handle [OF assms(1,2)] by simp
  with spec_quiet [OF assms(3)] show "nothing_new s s'" by (intro same_views) simp
  show "tells w None out"
    using assms(2,3) by (cases m) (auto simp: tells_def handle_GetRequest_def handle_SubscribeRequest_def
        handle_UnsubscribeRequest_def Let_def split: option.splits)
qed

lemma other_tells:
  assumes "tree_inv s" "handle held t m c s = Inr (s', out)"
    and "\<not> tree_request m" "\<not> (\<exists>x. m = SetValueRequest x)"
  shows "tells w None out"
proof (cases m)
  case (TreeInfoRequest x)
  with assms handle_TreeInfoRequest_ok [OF assms(1), of t x c] show ?thesis
    by (auto simp: tells_def handle_TreeInfoRequest_def Let_def split: option.splits if_splits)
qed (use assms in \<open>auto simp: tells_def handle_SigninRequest_def handle_RpcRequest_def handleRpc_def
    handle_HearbeatRequest_def Let_def send_to_def split: option.splits\<close>)

text \<open>Every message changes the tree in at most one way, and those who are signed in hear of it.\<close>

lemma handle_news:
  assumes inv: "proto_inv (Suc k) s" and w: "signed_in w i s" and step: "handle held t m c s = Inr (s', out)"
  shows "\<exists>news. tells w news out \<and> (case news of None \<Rightarrow> nothing_new s s' | Some x \<Rightarrow> happened w i x s s' out)"
proof -
  have tr: "tree_inv s" using inv by (simp add: proto_inv_def)
  consider x where "m = CreateRequest x" | x where "m = DeleteRequest x" | x where "m = SetValueRequest x"
    | "quiet m" | "\<not> tree_request m" "\<not> (\<exists>x. m = SetValueRequest x)"
    by (cases m) auto
  then show ?thesis
  proof cases
    case (1 x)
    with news_Create [OF inv w, of t x c] step show ?thesis by simp
  next
    case (2 x)
    with news_Delete [OF inv w, of t x c s' out] step show ?thesis by simp
  next
    case (3 x)
    with news_SetValue [OF inv w, of held t x c s' out] step show ?thesis by simp
  next
    case 4
    with quiet_handle [OF inv step] show ?thesis by (intro exI [of _ None]) simp
  next
    case 5
    have "nothing_new s s'" using same_abs [OF other_handle [OF inv step 5(1)]] by (simp add: nothing_new_def)
    with other_tells [OF tr step 5] show ?thesis by (intro exI [of _ None]) simp
  qed
qed

section \<open>A client that is told\<close>

text \<open>What the server sends to a connection, in order.\<close>

fun inbox :: "conn \<Rightarrow> action list \<Rightarrow> PropertyTreeProtocol list" where
  "inbox w [] = []"
| "inbox w (Send c m # out) = (if c = w then m # inbox w out else inbox w out)"
| "inbox w (Terminate # out) = inbox w out"

lemma set_inbox: "set (inbox w out) = {m. Send w m \<in> set out}"
  by (induction w out rule: inbox.induct) auto

text \<open>A plain message leaves the tree of the client alone.\<close>

lemma plain_delivered:
  assumes "plain m" "client_handle L sent m c = Inr (c', out)"
  shows "cview c' = cview c \<and> cvalue c' = cvalue c"
proof -
  obtain t x where m: "m = single t x" "plain_message x" using assms(1) by (auto simp: plain_def)
  have "c_Tree c' = c_Tree c \<and> c_heap c' = c_heap c"
  proof (cases "map_of (c_Transactions c) t")
    case None
    with assms(2) m show ?thesis
      by (cases x) (auto simp: single_def client_handle_message_def client_RpcRequest_def Let_def split: option.splits)
  next
    case (Some y)
    with assms(2) m show ?thesis by (auto simp: single_def client_handle_message_def)
  qed
  then show ?thesis by (simp add: cview_def cvalue_def node_view_def fun_eq_iff cong: option.map_cong)
qed

lemma news_delivered:
  assumes wf: "tree_wf c" and id: "map_of (c_Transactions c) notification_id = None"
    and "timely x (cview c) \<or> cview c = new_view x V \<and> timely x V \<and> cvalue c = new_value x D"
    and step: "client_handle L sent (single notification_id (announce x)) c = Inr (c', out)"
  shows "cview c' = new_view x (cview c) \<and> cvalue c' = new_value x (cvalue c)"
proof (cases x)
  case (Created n u p)
  let ?i = "\<lparr>NamedNode_name = n, NamedNode_uuid = u, NamedNode_parentUuid = p\<rparr>"
  obtain o1 where d: "add_node ?i c = (c', o1)"
    using step id Created by (auto simp: single_def client_handle_message_def client_TreeUpdateNotification_def split: prod.splits)
  have "cview c p \<noteq> None" using assms(3) Created by (cases "p = u") (auto simp del: cview_None)
  then obtain q where "ctree c (NamedNode_parentUuid ?i) = Some q" by auto
  note v = add_node_view [OF wf d this]
  show ?thesis
  proof (cases "ctree c u")
    case None
    with v Created show ?thesis by simp
  next
    case (Some r)
    then have "cview c u \<noteq> None" by simp
    with assms(3) Created have "cvalue c = D(u \<mapsto> [])" by (auto simp del: cview_None)
    with v Created Some show ?thesis by simp
  qed
next
  case (Deleted u)
  obtain o1 where d: "remove_node u c = (c', o1)"
    using step id Deleted by (auto simp: single_def client_handle_message_def client_TreeUpdateNotification_def split: prod.splits)
  from remove_node_view [OF d] Deleted show ?thesis by simp
next
  case (Changed u d)
  have "ctree c u \<noteq> None" using assms(3) Changed by (auto simp del: cview_None simp flip: cview_None)
  then obtain r where r: "ctree c u = Some r" by auto
  then have "c' = store_value r d c"
    using step id Changed by (auto simp: single_def client_handle_message_def client_UpdateNotification_def Let_def)
  with store_value_view store_value_value [OF wf r] Changed show ?thesis by simp
qed

lemma client_handle_same:
  assumes "tree_wf c" "map_of (c_Transactions c) i = None" "client_handle L sent (single t m) c = Inr (c', out)"
  shows "tree_wf c' \<and> map_of (c_Transactions c') i = None"
proof (cases "map_of (c_Transactions c) t")
  case None
  with assms client_visit_wf [of c L sent t m c' out] show ?thesis
    by (auto simp: single_def client_handle_message_def same_threads_def)
next
  case (Some y)
  with assms show ?thesis by (auto simp: single_def client_handle_message_def map_of_um_assign)
qed

lemma new_view_twice: "new_view x (new_view x V) = new_view x V"
  by (cases x) simp_all

lemma new_value_twice: "new_value x (new_value x D) = new_value x D"
  by (cases x) simp_all

text \<open>
  A sequence of plain messages and copies of one piece of news has the effect of the news, if it
  occurs at all: a connection that is signed in twice is told twice.
\<close>

lemma told:
  assumes "tree_wf c" "map_of (c_Transactions c) notification_id = None"
    and "\<forall>m\<in>set ms. plain m \<or> m = single notification_id (announce x)"
    and "timely x V" "cview c = V \<and> cvalue c = D \<or> cview c = new_view x V \<and> cvalue c = new_value x D"
    and "run_steps (client_handle L sent) ms c = Inr (c', out)"
  shows "(cview c' = new_view x V \<and> cvalue c' = new_value x D) \<or>
    single notification_id (announce x) \<notin> set ms \<and> cview c' = cview c \<and> cvalue c' = cvalue c"
  using assms
proof (induction ms arbitrary: c out)
  case (Cons m ms)
  obtain d o1 o2 where d: "client_handle L sent m c = Inr (d, o1)" "run_steps (client_handle L sent) ms d = Inr (c', o2)"
    using Cons.prems(6) by auto
  have "\<exists>t y. m = single t y" using Cons.prems(3) by (auto simp: plain_def)
  then have wf: "tree_wf d" "map_of (c_Transactions d) notification_id = None"
    using client_handle_same [OF Cons.prems(1,2)] d(1) by blast+
  show ?case
  proof (cases "m = single notification_id (announce x)")
    case True
    have "cview d = new_view x (cview c) \<and> cvalue d = new_value x (cvalue c)"
      using Cons.prems(4,5) d(1) True by (intro news_delivered [OF Cons.prems(1,2), of x V D]) auto
    with Cons.prems(5) have "cview d = new_view x V \<and> cvalue d = new_value x D"
      by (auto simp: new_view_twice new_value_twice)
    with Cons.IH [OF wf _ Cons.prems(4) _ d(2)] Cons.prems(3) show ?thesis by auto
  next
    case False
    with Cons.prems(3) have "plain m" by auto
    with plain_delivered [OF this d(1)] Cons.IH [OF wf _ Cons.prems(4) _ d(2)] Cons.prems(3,5) False show ?thesis by auto
  qed
qed auto

lemma untold:
  assumes "\<forall>m\<in>set ms. plain m" "run_steps (client_handle L sent) ms c = Inr (c', out)"
  shows "cview c' = cview c \<and> cvalue c' = cvalue c"
  using assms
proof (induction ms arbitrary: c out)
  case (Cons m ms)
  obtain d o1 o2 where d: "client_handle L sent m c = Inr (d, o1)" "run_steps (client_handle L sent) ms d = Inr (c', o2)"
    using Cons.prems(2) by auto
  with Cons.IH [OF _ d(2)] plain_delivered [OF _ d(1)] Cons.prems(1) show ?case by simp
qed simp

section \<open>Agreement\<close>

text \<open>
  \<open>mirrored w i U s c\<close>: connection \<open>w\<close> is signed in as session \<open>i\<close>, its client \<open>c\<close> has the same
  tree as the server, and the same values for the nodes \<open>U\<close>, which it has subscribed to or which are
  gone.
\<close>

definition mirrored :: "conn \<Rightarrow> u32 \<Rightarrow> u64 set \<Rightarrow> ProtocolHandler \<Rightarrow> Client \<Rightarrow> bool" where
  "mirrored w i U s c \<longleftrightarrow> signed_in w i s \<and> cview c = sview s \<and>
     (\<forall>u\<in>U. cvalue c u = svalue s u \<and> (subscribed u i s \<or> gone u s))"

definition client_ready :: "Client \<Rightarrow> bool" where
  "client_ready c \<longleftrightarrow> tree_wf c \<and> map_of (c_Transactions c) notification_id = None"

lemma inbox_single:
  assumes "tells w news out" "m \<in> set (inbox w out)"
  shows "\<exists>t x. m = single t x"
  using assms by (auto simp: tells_def set_inbox plain_def)

lemma ready_delivered:
  assumes "client_ready c" "\<forall>m\<in>set ms. \<exists>t x. m = single t x" "run_steps (client_handle L sent) ms c = Inr (c', out)"
  shows "client_ready c'"
  using assms
proof (induction ms arbitrary: c out)
  case (Cons m ms)
  obtain d o1 o2 where d: "client_handle L sent m c = Inr (d, o1)" "run_steps (client_handle L sent) ms d = Inr (c', o2)"
    using Cons.prems(3) by auto
  have "client_ready d"
    using client_handle_same [of c notification_id L sent _ _ d o1] Cons.prems(1,2) d(1) by (auto simp: client_ready_def)
  with Cons.IH [OF _ _ d(2)] Cons.prems(2) show ?case by simp
qed simp

text \<open>A subscription ends with the node, or when its owner gives it up.\<close>

lemma subscription_or_gone:
  assumes inv: "proto_inv (Suc k) s" and step: "handle held t m d s = Inr (s', out)" and w: "signed_in w i s"
    and sub: "subscribed u i s \<or> gone u s" and keep: "\<not> (d = w \<and> unsubscribes u m)"
  shows "subscribed u i s' \<or> gone u s'"
proof (cases "gone u s")
  case True
  with gone_handle [OF inv step] show ?thesis by simp
next
  case False
  with sub have sub: "subscribed u i s" by simp
  show ?thesis
  proof (cases "deletes u m")
    case False
    with subscription_handle [OF inv step w sub] keep show ?thesis by (simp add: keeps_subscription_def)
  next
    case True
    then have m: "m = DeleteRequest \<lparr>DeleteRequest_uuid = u\<rparr>" by (simp add: deletes_def)
    have tr: "tree_inv s" using inv by (simp add: proto_inv_def)
    from sub obtain a where a: "abs_tree s u = Some a" "i \<in> a_subscribers a" by (auto simp: subscribed_def)
    then obtain r where "tree s u = Some r" by (auto simp: abs_tree_def)
    from tree_nodeD(4) [OF tr this] uuid_counter_handle [OF inv step]
    have lt: "unat u < unat (mUuidCtr s')" by simp
    have "abs_tree s' = abs_tree s \<or> abs_tree s' = (abs_tree s)(u := None)"
      using handle_abs [OF inv step] m by (auto split: if_splits)
    then show ?thesis
    proof
      assume "abs_tree s' = abs_tree s"
      with sub show ?thesis by (simp add: subscribed_def)
    next
      assume "abs_tree s' = (abs_tree s)(u := None)"
      then have "abs_tree s' u = None" by (simp del: abs_tree_None)
      with lt show ?thesis by (simp add: gone_def)
    qed
  qed
qed

lemma mirrored_handle:
  assumes inv: "proto_inv (Suc k) s" and step: "handle held t m d s = Inr (s', out)"
    and mir: "mirrored w i U s c" and ready: "client_ready c"
    and keep: "\<forall>u\<in>U. \<not> (d = w \<and> unsubscribes u m)"
    and run: "run_steps (client_handle L sent) (inbox w out) c = Inr (c', out')"
  shows "mirrored w i U s' c' \<and> client_ready c'"
proof -
  have tr: "tree_inv s" using inv by (simp add: proto_inv_def)
  have w: "signed_in w i s" and view: "cview c = sview s"
    and vals: "\<And>u. u \<in> U \<Longrightarrow> cvalue c u = svalue s u \<and> (subscribed u i s \<or> gone u s)"
    using mir by (auto simp: mirrored_def)
  have w': "signed_in w i s'" using signed_in_handle [OF tr step w] .
  have sub: "subscribed u i s' \<or> gone u s'" if "u \<in> U" for u
    using subscription_or_gone [OF inv step w] vals [OF that] keep that by blast
  obtain news where news: "tells w news out"
    "case news of None \<Rightarrow> nothing_new s s' | Some x \<Rightarrow> happened w i x s s' out"
    using handle_news [OF inv w step] by blast
  have rdy: "client_ready c'" using ready_delivered [OF ready _ run] inbox_single [OF news(1)] by blast
  show ?thesis
  proof (cases news)
    case None
    with news(1) have "\<forall>m\<in>set (inbox w out). plain m" by (auto simp: tells_def set_inbox)
    from untold [OF this run] None news(2) view vals w' sub rdy show ?thesis
      by (simp add: mirrored_def nothing_new_def)
  next
    case (Some x)
    with news have h: "timely x (sview s)" "sview s' = new_view x (sview s)" "svalue s' = new_value x (svalue s)"
      "concerns x i s \<Longrightarrow> Send w (single notification_id (announce x)) \<in> set out" by (auto simp: happened_def)
    have "\<forall>m\<in>set (inbox w out). plain m \<or> m = single notification_id (announce x)"
      using news(1) Some by (auto simp: tells_def set_inbox)
    from told [OF _ _ this, of c "sview s" "cvalue c", OF _ _ h(1) _ run] ready view
    consider (yes) "cview c' = new_view x (sview s)" "cvalue c' = new_value x (cvalue c)"
      | (no) "single notification_id (announce x) \<notin> set (inbox w out)" "cview c' = cview c" "cvalue c' = cvalue c"
      by (auto simp: client_ready_def)
    then show ?thesis
    proof cases
      case yes
      have "cvalue c' u = svalue s' u" if "u \<in> U" for u
        using yes(2) h(3) vals [OF that] by (cases x) auto
      with yes(1) h(2) w' sub rdy show ?thesis by (simp add: mirrored_def)
    next
      case no
      with h(4) have "\<not> concerns x i s" by (auto simp: set_inbox)
      then obtain v b where x: "x = Changed v b" "\<not> subscribed v i s" by (cases x) auto
      have "v \<notin> U" using vals [of v] x h(1) by (auto simp: gone_def)
      then have "cvalue c' u = svalue s' u" if "u \<in> U" for u
        using that no(3) h(3) vals [OF that] x(1) by auto
      with no(2) view h(2) x(1) w' sub rdy show ?thesis by (simp add: mirrored_def)
    qed
  qed
qed

lemma inbox_append: "inbox w (xs @ ys) = inbox w xs @ inbox w ys"
  by (induction w xs rule: inbox.induct) auto

lemma mirrored_array:
  assumes "proto_inv (length ms + k) s" "onMsg_array held ms d s = Inr (s', out)" "mirrored w i U s c" "client_ready c"
    and "\<forall>m\<in>set ms. \<forall>u\<in>U. \<not> (d = w \<and> unsubscribes u (message m))"
    and "run_steps (client_handle L sent) (inbox w out) c = Inr (c', out')"
  shows "mirrored w i U s' c' \<and> client_ready c'"
  using assms
proof (induction ms arbitrary: s c out out')
  case (Cons m ms)
  obtain s1 o1 o2 where s1: "handle held (transactionId m) (message m) d s = Inr (s1, o1)"
    "onMsg_array held ms d s1 = Inr (s', o2)" "out = o1 @ o2"
    using Cons.prems(2) by (auto simp: onMsg_message_def)
  obtain c1 p1 p2 where c1: "run_steps (client_handle L sent) (inbox w o1) c = Inr (c1, p1)"
    "run_steps (client_handle L sent) (inbox w o2) c1 = Inr (c', p2)"
    using Cons.prems(6) by (auto simp: s1(3) inbox_append run_steps_append)
  have inv: "proto_inv (Suc (length ms + k)) s" using Cons.prems(1) by simp
  have "mirrored w i U s1 c1 \<and> client_ready c1"
    using mirrored_handle [OF inv s1(1) Cons.prems(3,4) _ c1(1)] Cons.prems(5) by simp
  with Cons.IH [OF inv_handle [OF inv s1(1)] s1(2) _ _ _ c1(2)] Cons.prems(5) show ?case by simp
qed simp

section \<open>The server and one of its clients\<close>

text \<open>
  An event of the server, after which the client handles what the server has sent it, or something
  the client does on its own.
\<close>

datatype pair_event = Serve proto_event | Local client_event

fun pair_step :: "cum \<Rightarrow> bool \<Rightarrow> conn \<Rightarrow> pair_event \<Rightarrow> ProtocolHandler \<times> Client \<Rightarrow>
    fault + ((ProtocolHandler \<times> Client) \<times> client_action list)" where
  "pair_step L sent w (Serve e) (s, c) =
     bindR (proto_step e s) (\<lambda>(s, out).
     bindR (run_steps (client_handle L sent) (inbox w out) c) (\<lambda>(c, out'). Inr ((s, c), out')))"
| "pair_step L sent w (Local e) (s, c) = bindR (client_step L e c) (\<lambda>(c, out). Inr ((s, c), out))"

fun pair_cost :: "pair_event \<Rightarrow> nat" where
  "pair_cost (Serve e) = proto_cost e"
| "pair_cost (Local e) = client_cost e"

fun pair_inv :: "nat \<Rightarrow> ProtocolHandler \<times> Client \<Rightarrow> bool" where
  "pair_inv k (s, c) = (proto_inv k s \<and> client_inv k c)"

lemma client_inv_mono: "client_inv k c \<Longrightarrow> j \<le> k \<Longrightarrow> client_inv j c"
  by (auto simp: client_inv_def trans_wf_def)

lemma client_run_inv:
  "client_inv k c \<Longrightarrow> run_steps (client_handle L sent) ms c = Inr (c', out) \<Longrightarrow> client_inv k c'"
  by (induction ms arbitrary: c out) (auto dest: client_handle_inv)

lemma pair_step_inv:
  assumes "pair_inv (pair_cost e + k) x" "pair_step L sent w e x = Inr (x', out)"
  shows "pair_inv k x'"
proof -
  obtain s c where x: "x = (s, c)" by fastforce
  show ?thesis
  proof (cases e)
    case (Serve f)
    obtain s' o1 c' where s': "proto_step f s = Inr (s', o1)"
      "run_steps (client_handle L sent) (inbox w o1) c = Inr (c', out)" "x' = (s', c')"
      using assms(2) x Serve by auto
    have "proto_inv k s'" using ph.step_inv [of f k s s' o1] assms(1) x Serve s'(1) by simp
    moreover have "client_inv k c'"
      using client_run_inv [OF _ s'(2)] assms(1) x Serve client_inv_mono [of "proto_cost f + k" c k] by simp
    ultimately show ?thesis using s'(3) by simp
  next
    case (Local f)
    obtain c' where c': "client_step L f c = Inr (c', out)" "x' = (s, c')"
      using assms(2) x Local by auto
    have "client_inv k c'" using client_step_inv [of f k c L c' out] assms(1) x Local c'(1) by simp
    moreover have "proto_inv k s" using assms(1) x Local proto_inv_mono [of "client_cost f + k" s k] by simp
    ultimately show ?thesis using c'(2) by simp
  qed
qed

interpretation pair: bounded_machine "pair_step L sent w" pair_cost pair_inv for L sent w
  by unfold_locales (rule pair_step_inv)

text \<open>
  What may happen while the two agree: anything at the server but the disconnection of the client
  and its own unsubscriptions; at the client everything but the end of an operation, which may act
  on an answer that is out of date, and writes to a value.
\<close>

fun undisturbed :: "conn \<Rightarrow> u64 set \<Rightarrow> pair_event \<Rightarrow> bool" where
  "undisturbed w U (Serve (Message held p d)) = (\<forall>m\<in>set (units p). \<forall>u\<in>U. \<not> (d = w \<and> unsubscribes u (message m)))"
| "undisturbed w U (Serve (Disconnect d)) = (d \<noteq> w)"
| "undisturbed w U (Local (Resume t)) = False"
| "undisturbed w U (Local (Receive m sent)) = False"
| "undisturbed w U (Local (SetData r bs)) = False"
| "undisturbed w U (Local e) = True"

lemma local_views:
  assumes "client_step L e c = Inr (c', out)" "undisturbed w U (Local e)"
  shows "cview c' = cview c \<and> cvalue c' = cvalue c"
proof -
  have "c_Tree c' = c_Tree c \<and> (\<forall>r. cn_name (c_heap c' r) = cn_name (c_heap c r) \<and> cn_data (c_heap c' r) = cn_data (c_heap c r) \<and>
    cn_parent (c_heap c' r) = cn_parent (c_heap c r) \<and> cn_uuid (c_heap c' r) = cn_uuid (c_heap c r))"
  proof (cases e)
    case (Start t op sent)
    show ?thesis
    proof (cases "may_start t op c")
      case True
      with Start assms obtain q where q: "op_request op c = Inr q" by (auto simp: start_def)
      show ?thesis
      proof (cases q)
        case (Ask m)
        obtain i ctr where i: "next_id (c_TransactioIdCtr c) = (i, ctr)" by fastforce
        show ?thesis
        proof (cases "client_send L sent (single i m)")
          case (Inl f)
          with Start True assms q Ask i show ?thesis by (cases f) (auto simp: start_def addTransaction_def)
        qed (use Start True assms q Ask i in \<open>auto simp: start_def addTransaction_def\<close>)
      qed (use Start True assms q in \<open>auto simp: start_def\<close>)
    qed (use Start assms in auto)
  next
    case (Timeout t)
    with assms show ?thesis by (auto simp: timeout_def waitTransaction_def split: option.splits if_splits)
  qed (use assms in auto)
  then have "cview c' = cview c" "cvalue c' = cvalue c" by (blast intro: view_cong value_cong)+
  then show ?thesis by simp
qed

lemma ready_inv: "client_inv k c \<Longrightarrow> client_ready c"
proof -
  assume inv: "client_inv k c"
  have "notification_id \<notin> dom (map_of (c_Transactions c))"
  proof
    assume "notification_id \<in> dom (map_of (c_Transactions c))"
    moreover have "\<forall>i\<in>dom (map_of (c_Transactions c)). unat i < unat (c_TransactioIdCtr c)"
      "unat (c_TransactioIdCtr c) < 2 ^ 16" using inv unfolding client_inv_def trans_wf_def by simp_all
    ultimately have "unat notification_id < unat (c_TransactioIdCtr c)" by blast
    with \<open>unat (c_TransactioIdCtr c) < 2 ^ 16\<close> show False by simp
  qed
  then have "map_of (c_Transactions c) notification_id = None" by (simp add: domIff)
  with inv show ?thesis by (simp add: client_ready_def client_inv_def)
qed

lemma mirrored_step:
  assumes inv: "pair_inv (pair_cost e + k) (s, c)" and mir: "mirrored w i U s c" and ok: "undisturbed w U e"
    and step: "pair_step L sent w e (s, c) = Inr ((s', c'), out)"
  shows "mirrored w i U s' c'"
proof (cases e)
  case (Serve f)
  have ready: "client_ready c" using inv ready_inv by auto
  obtain o1 where s': "proto_step f s = Inr (s', o1)" "run_steps (client_handle L sent) (inbox w o1) c = Inr (c', out)"
    using step Serve by auto
  show ?thesis
  proof (cases f)
    case (Message held p d)
    show ?thesis
    proof (cases p)
      case (PropertyTreeMessage m)
      with mirrored_handle [OF _ _ mir ready _ s'(2), of k held "transactionId m" "message m" d s'] inv s'(1) ok Serve Message
      show ?thesis by (simp add: onMsg_message_def)
    next
      case (PropertyTreeMessageArray ms)
      with mirrored_array [OF _ _ mir ready _ s'(2), of ms k held d s'] inv s'(1) ok Serve Message
      show ?thesis by simp
    qed
  next
    case (Disconnect d)
    then have d: "onDisconnect d s = Inr s'" "o1 = []" "d \<noteq> w" using s'(1) ok Serve by auto
    have "session_of s' w = session_of s w"
      using d(1,3) by (auto simp: onDisconnect_def Let_def um_find_erase split: option.splits)
    with d s'(2) mir same_abs [OF onDisconnect_abs [OF d(1)]] gone_onDisconnect [OF d(1)] onDisconnect_abs [OF d(1)]
    show ?thesis by (auto simp: mirrored_def signed_in_def subscribed_def)
  qed
next
  case (Local f)
  then have "client_step L f c = Inr (c', out)" "s' = s" using step by auto
  with local_views [of L f c c' out w U] ok Local mir show ?thesis by (simp add: mirrored_def)
qed

section \<open>Children\<close>

definition child_uuid :: "ProtocolHandler \<Rightarrow> u64 \<Rightarrow> string \<Rightarrow> u64 option" where
  "child_uuid s u n = (case tree s u of None \<Rightarrow> None | Some p \<Rightarrow> map_option (\<lambda>e. node_uuid (heap s e)) (child s p n))"

text \<open>The child of a node, by what the server's tree says of it.\<close>

lemma child_uuid_view:
  assumes tr: "tree_inv s"
  shows "child_uuid s u n = Some v \<longleftrightarrow> sview s v = Some (n, Some u)"
proof
  assume "child_uuid s u n = Some v"
  then obtain p e where p: "tree s u = Some p" "child s p n = Some e" "v = node_uuid (heap s e)"
    by (auto simp: child_uuid_def split: option.splits)
  from tree_childE [OF tr p(1,2)] have "tree s v = Some e" "node_name (heap s e) = n" "node_parent (heap s e) = Some p"
    using tree_nodeD(3) [OF tr] p(3) by auto
  then show "sview s v = Some (n, Some u)"
    using tree_nodeD(3) [OF tr p(1)] by (simp add: sview_def abs_tree_Some abs_node_def)
next
  assume sv: "sview s v = Some (n, Some u)"
  then obtain e where e: "tree s v = Some e" by (cases "tree s v") (simp_all add: sview_def abs_tree_def)
  with sv have n: "node_name (heap s e) = n" "map_option (\<lambda>p. node_uuid (heap s p)) (node_parent (heap s e)) = Some u"
    by (simp_all add: sview_def abs_tree_Some abs_node_def)
  have "v \<noteq> 0" using n(2) root_parent [OF tr] e by auto
  from tree_parentE [OF tr e this] obtain x q where q: "node_parent (heap s e) = Some q" "tree s x = Some q"
    "child s q (node_name (heap s e)) = Some e" by metis
  have "x = u" using n(2) q(1) tree_nodeD(3) [OF tr q(2)] by simp
  with q n(1) tree_nodeD(3) [OF tr e] show "child_uuid s u n = Some v" by (simp add: child_uuid_def)
qed

definition siblings_ok :: "view \<Rightarrow> bool" where
  "siblings_ok V \<longleftrightarrow> (\<forall>u v n p. V u = Some (n, Some p) \<longrightarrow> V v = Some (n, Some p) \<longrightarrow> u = v)"

lemma sview_siblings: "tree_inv s \<Longrightarrow> siblings_ok (sview s)"
  unfolding siblings_ok_def by (metis child_uuid_view option.inject)

section \<open>A client that asks\<close>

text \<open>
  Nodes that are added parents first under known parents are in the tree afterwards as they were
  listed: \<open>V\<close> is the truth the list agrees with.
\<close>

lemma addNodes_view:
  assumes "tree_wf c" "addNodes xs c = (c', out)" "parents_first K xs" "K \<subseteq> dom (cview c)"
    and "\<forall>i\<in>set xs. V (NamedNode_uuid i) = Some (NamedNode_name i, Some (NamedNode_parentUuid i))"
  shows "cview c' u = (if u \<in> NamedNode_uuid ` set xs then V u else cview c u)"
    and "links_ok c \<Longrightarrow> cview c \<subseteq>\<^sub>m V \<Longrightarrow> siblings_ok V \<Longrightarrow> links_ok c'"
    and "ctree c \<subseteq>\<^sub>m ctree c' \<and> (\<forall>u. ctree c u \<noteq> None \<longrightarrow> cvalue c' u = cvalue c u)"
proof -
  have "(\<forall>u. cview c' u = (if u \<in> NamedNode_uuid ` set xs then V u else cview c u)) \<and>
    (links_ok c \<and> cview c \<subseteq>\<^sub>m V \<and> siblings_ok V \<longrightarrow> links_ok c') \<and>
    ctree c \<subseteq>\<^sub>m ctree c' \<and> (\<forall>u. ctree c u \<noteq> None \<longrightarrow> cvalue c' u = cvalue c u)"
    using assms
  proof (induction xs arbitrary: c out K)
    case (Cons i xs)
    obtain d o1 o2 where d: "add_node i c = (d, o1)" "addNodes xs d = (c', o2)"
      using Cons.prems(2) by (auto split: prod.splits)
    have "NamedNode_parentUuid i \<in> K" using Cons.prems(3) by simp
    with Cons.prems(4) have "cview c (NamedNode_parentUuid i) \<noteq> None" by blast
    then obtain p where p: "ctree c (NamedNode_parentUuid i) = Some p" by auto
    note v = add_node_view(1) [OF Cons.prems(1) d(1) p]
    have K: "insert (NamedNode_uuid i) K \<subseteq> dom (cview d)" using Cons.prems(4) by (auto simp: v)
    have ih: "(\<forall>u. cview c' u = (if u \<in> NamedNode_uuid ` set xs then V u else cview d u)) \<and>
        (links_ok d \<and> cview d \<subseteq>\<^sub>m V \<and> siblings_ok V \<longrightarrow> links_ok c') \<and>
        ctree d \<subseteq>\<^sub>m ctree c' \<and> (\<forall>u. ctree d u \<noteq> None \<longrightarrow> cvalue c' u = cvalue d u)"
      using Cons.IH [OF tree_wf_add_node [OF Cons.prems(1) d(1)] d(2) _ K] Cons.prems(3,5) by simp
    have "links_ok d \<and> cview d \<subseteq>\<^sub>m V" if c: "links_ok c" "cview c \<subseteq>\<^sub>m V" "siblings_ok V"
    proof
      have true: "V (NamedNode_uuid i) = Some (NamedNode_name i, Some (NamedNode_parentUuid i))" using Cons.prems(5) by simp
      then show "cview d \<subseteq>\<^sub>m V" using c(2) by (auto simp: v map_le_def)
      show "links_ok d"
      proof (rule links_add_node [OF Cons.prems(1) c(1) d(1) p])
        assume "cview c (NamedNode_uuid i) \<noteq> None"
        with c(2) true show "cview c (NamedNode_uuid i) = Some (NamedNode_name i, Some (NamedNode_parentUuid i))"
          unfolding map_le_def by (metis domIff)
      next
        fix v assume "cview c v = Some (NamedNode_name i, Some (NamedNode_parentUuid i))"
        with c(2) have "V v = Some (NamedNode_name i, Some (NamedNode_parentUuid i))" unfolding map_le_def by (metis domI)
        with c(3) true show "v = NamedNode_uuid i" unfolding siblings_ok_def by metis
      qed
    qed
    moreover have keep: "ctree c \<subseteq>\<^sub>m ctree d" by (rule add_node_keeps [OF Cons.prems(1) d(1) p])
    moreover have "cvalue d u = cvalue c u" if "ctree c u \<noteq> None" for u
      using add_node_view(2) [OF Cons.prems(1) d(1) p] that by auto
    moreover have "ctree d u \<noteq> None" if "ctree c u \<noteq> None" for u
      using keep that unfolding map_le_def by (metis domIff)
    ultimately show ?case using ih Cons.prems(5) map_le_trans [of "ctree c" "ctree d" "ctree c'"] by (auto simp: v)
  qed simp
  then show "cview c' u = (if u \<in> NamedNode_uuid ` set xs then V u else cview c u)"
    and "links_ok c \<Longrightarrow> cview c \<subseteq>\<^sub>m V \<Longrightarrow> siblings_ok V \<Longrightarrow> links_ok c'"
    "ctree c \<subseteq>\<^sub>m ctree c' \<and> (\<forall>u. ctree c u \<noteq> None \<longrightarrow> cvalue c' u = cvalue c u)" by blast+
qed

lemma entry_true:
  assumes tr: "tree_inv s" and d: "tree s v = Some d" "v \<noteq> 0"
  shows "sview s (NamedNode_uuid (entry_of s d)) =
    Some (NamedNode_name (entry_of s d), Some (NamedNode_parentUuid (entry_of s d)))"
proof -
  from tree_parentE [OF tr d] obtain w p where p: "node_parent (heap s d) = Some p" by blast
  have "node_uuid (heap s d) = v" using tree_nodeD(3) [OF tr d(1)] .
  with d(1) p show ?thesis by (simp add: sview_def abs_tree_Some abs_node_def entry_of_def)
qed

lemma below_root:
  assumes tr: "tree_inv s" and r: "tree s 0 = Some r" and d: "tree s v = Some d" "v \<noteq> 0"
  shows "below s r d"
  using d
proof (induction "unat v" arbitrary: v d rule: less_induct)
  case less
  from tree_parentE [OF tr less.prems] obtain w p where p: "node_parent (heap s d) = Some p" "tree s w = Some p"
    "child s p (node_name (heap s d)) = Some d" "unat w < unat v" by metis
  show ?case
  proof (cases "w = 0")
    case True
    with p r show ?thesis by (auto intro: below_child)
  next
    case False
    from less.hyps [OF p(4,2) False] p(3) show ?thesis
      by (induction rule: below.induct) (auto intro: below.intros)
  qed
qed

lemma listed_in_tree:
  assumes tr: "tree_inv s" and r: "asked_node s m = Some r" and d: "d \<in> listed s m r"
  shows "\<exists>v. tree s v = Some d \<and> v \<noteq> 0"
proof -
  obtain u where u: "tree s u = Some r" using asked_in_tree [OF tr r] by blast
  have down: "\<exists>v. tree s v = Some e \<and> v \<noteq> 0" if "below s r e" for e
    using below_parent [OF that tr u] below_in_tree [OF that tr u] root_parent [OF tr]
    by (fastforce simp: ran_def dest: tree_inj [OF tr])
  show ?thesis
  proof (cases "d = r \<and> TreeInfoRequest_name m \<noteq> ''.''")
    case True
    then obtain p where "tree s (TreeInfoRequest_parentUuid m) = Some p" "child s p (TreeInfoRequest_name m) = Some d"
      using r by (auto simp: asked_node_def split: option.splits)
    with tree_childE [OF tr this] show ?thesis using root_parent [OF tr] by (metis option.simps(3))
  next
    case False
    with d have "below s r d" by (auto simp: listed_def intro: below_child split: if_splits)
    with down show ?thesis by blast
  qed
qed

end
