(* ===== verification/ClientProps.thy ===== *)
theory ClientProps
  imports ClientRun FramingProps CodecProps
begin

text \<open>
  The properties of a client: what can go wrong, that answers reach the operation they are for, what
  operations return, and the two places where the order of events defeats the code.
\<close>

section \<open>A client that has signed in\<close>

definition client_events :: "client_event list" where
  "client_events = [Start 0 OpSignin True,
     Receive (single 0 (SigninAccept \<lparr>SigninAccept_sessionId = 0\<rparr>)) True, Resume 0]"

definition sample_client :: Client where
  "sample_client = (case run_steps (client_step simple_cum) client_events (init_Client []) of
     Inl _ \<Rightarrow> init_Client [] | Inr (c, _) \<Rightarrow> c)"

lemma le_bytes_2: "le_bytes 2 x = [of_nat (x mod 256), of_nat (x div 256 mod 256)]"
  by (simp add: numeral_2_eq_2)

lemma client_handle_single [simp]:
  "client_handle L sent (single t m) c = client_handle_message L sent \<lparr>transactionId = t, message = m\<rparr> c"
  by (simp add: single_def)

lemma simple_encode_signin: "client_send simple_cum True (single t (SigninRequest \<lparr>SigninRequest_spare = 0\<rparr>)) =
    Inr ([5, 0, 0] @ le_bytes 2 (unat t) @ [0, 0])"
  by (simp add: client_send_def encode_def SEND_SIZE_def enc_PropertyTreeProtocol_def single_def
      enc_PropertyTreeMessage_def enc_PropertyTreeMessages_def enc_SigninRequest_def
      simple_cum_def put_int_def put_def le_bytes_2 Let_def)

lemma sample_client_run: "\<exists>out. run_steps (client_step simple_cum) client_events (init_Client []) = Inr (sample_client, out)"
proof -
  have "\<exists>c out. run_steps (client_step simple_cum) client_events (init_Client []) = Inr (c, out)"
    by (simp add: client_events_def init_Client_def may_start_def start_def signin_request_def addTransaction_def
        next_id_def simple_encode_signin um_emplace_def client_handle_message_def resume_def
        waitTransaction_def signin_response_def make_Node_def)
  then show ?thesis by (auto simp: sample_client_def)
qed

lemma sample_client:
  "c_Tree sample_client = [(0, 0)]" "c_Transactions sample_client = []" "c_waiting sample_client = []"
  "c_TransactioIdCtr sample_client = 1" "c_constructed sample_client" "c_held sample_client = []"
  "c_next sample_client = 1" "c_heap sample_client 0 = new_ClientNode '''' None 0" "c_live sample_client 0"
  by (simp_all add: sample_client_def client_events_def init_Client_def may_start_def start_def signin_request_def addTransaction_def
      next_id_def simple_encode_signin um_emplace_def client_handle_message_def resume_def
      waitTransaction_def signin_response_def make_Node_def um_erase_def returned_def c_release_def orphans_def c_owned_def roots_def
      new_ClientNode_def)

lemma client_sample_reachable: "client_inv 65534 sample_client"
proof -
  from sample_client_run obtain out where "run_steps (client_step simple_cum) client_events (init_Client []) = Inr (sample_client, out)"
    by blast
  from client_reachable [OF _ this, of 65534] show ?thesis by (simp add: client_events_def)
qed

section \<open>Faults\<close>



section \<open>Answers\<close>

text \<open>
  C9: An operation gets the answer to its own request: after a message under the id a thread waits
  on has arrived, whatever else happens (other threads start, return or time out, other messages
  arrive, handles are dropped), the end of its wait runs the second half of its own operation on the
  contents of that message. The entry of the transaction and the wait are gone afterwards: no answer
  is used twice.
\<close>

theorem answer_delivered:
  assumes "run_steps (client_step L) pre (init_Client junk) = Inr (c0, out0)" "waits t i op c0"
    and "client_step L (Receive (single i m) sent) c0 = Inr (c1, out1)"
    and "list_all (not_for t i) mid" "run_steps (client_step L) mid c1 = Inr (c2, out2)"
    and "sum_list (map client_cost (pre @ mid)) < 2 ^ 16"
  shows "out1 = [] \<and>
    client_step L (Resume t) c2 =
      bindR (op_response op m (c2\<lparr>c_Transactions := um_erase i (c_Transactions c2)\<rparr>))
        (\<lambda>(c, out, v). Inr (returned t v c, out @ [Returned t v])) \<and>
    (\<forall>c3 out3. client_step L (Resume t) c2 = Inr (c3, out3) \<longrightarrow>
      map_of (c_waiting c3) t = None \<and> map_of (c_Transactions c3) i = None)"
proof -
  have inv: "client_inv (sum_list (map client_cost mid) + 0) c0"
    using client_reachable [OF _ assms(1)] assms(6) by (simp add: add.commute)
  have w: "map_of (c_waiting c0) t = Some (i, op)" using assms(2) by (simp add: waits_def)
  from waiting_entry(1) [OF inv w] obtain tr where tr: "map_of (c_Transactions c0) i = Some tr" by blast
  have "um_wf (c_Transactions c0)" using inv by (simp add: client_inv_def trans_wf_def)
  from message_answers [OF this tr, of L sent m] assms(3) have c1: "out1 = []"
    "c1 = c0\<lparr>c_Transactions := um_assign i \<lparr>satisfied = True, reply = m\<rparr> (c_Transactions c0)\<rparr>" by simp_all
  have "has_answer t i op m c1" using w by (simp add: has_answer_def waits_def c1 map_of_um_assign)
  moreover have inv1: "client_inv (sum_list (map client_cost mid) + 0) c1"
    using client_step_inv [of "Receive (single i m) sent"] inv assms(3) by simp
  ultimately have ans: "has_answer t i op m c2"
    using cl.run_keeps [where P = "has_answer t i op m" and Q = "\<lambda>_. True", OF inv1 _ assms(4,5)] answered_keeps
    by (auto simp: list_all_iff)
  have inv2: "client_inv 0 c2" using cl.run_inv [OF inv1 assms(5)] .
  let ?c = "c2\<lparr>c_Transactions := um_erase i (c_Transactions c2)\<rparr>"
  have w2: "map_of (c_waiting c2) t = Some (i, op)" and
    T2: "map_of (c_Transactions c2) i = Some \<lparr>satisfied = True, reply = m\<rparr>"
    using ans by (simp_all add: has_answer_def waits_def)
  have res: "client_step L (Resume t) c2 =
      bindR (op_response op m ?c) (\<lambda>(c, out, v). Inr (returned t v c, out @ [Returned t v]))"
    using resume_cases(2) [OF w2 T2] by simp
  have "map_of (c_waiting c3) t = None \<and> map_of (c_Transactions c3) i = None"
    if step: "client_step L (Resume t) c2 = Inr (c3, out3)" for c3 out3
  proof -
    obtain d o1 v where d: "op_response op m ?c = Inr (d, o1, v)" "c3 = returned t v d"
      using step unfolding res by auto
    have "response_ok ?c (d, o1, v)"
      using inv2 w2 d(1) by (intro op_response_ok [of _ t i op m]) (simp_all add: client_inv_def)
    then have "same_threads ?c d" by (simp add: response_ok_def)
    with d(2) show ?thesis by (simp add: same_threads_def um_find_erase)
  qed
  with res c1(1) show ?thesis by blast
qed

text \<open>A wait of the sample client, answered while another event comes in between.\<close>

definition sample_waiting :: "client_event list" where
  "sample_waiting = [Start 0 OpSignin True]"

lemma answer_delivered_witness:
  "\<exists>c1 c2. client_step simple_cum (Receive (single 0 (SigninAccept \<lparr>SigninAccept_sessionId = 0\<rparr>)) True) c1 = Inr (c2, []) \<and>
     client_step simple_cum (Resume 0) (c2\<lparr>c_TreeAddHandler := True\<rparr>) =
       bindR (signin_response (SigninAccept \<lparr>SigninAccept_sessionId = 0\<rparr>)
         (c2\<lparr>c_TreeAddHandler := True, c_Transactions := um_erase 0 (c_Transactions c2)\<rparr>))
         (\<lambda>(c, out, v). Inr (returned 0 v c, out @ [Returned 0 v]))"
proof -
  obtain c0 out0 where run: "run_steps (client_step simple_cum) sample_waiting (init_Client []) = Inr (c0, out0)"
    and w: "waits 0 0 OpSignin c0" "map_of (c_Transactions c0) 0 = Some new_Transaction"
    by (auto simp: sample_waiting_def init_Client_def may_start_def start_def signin_request_def addTransaction_def
        next_id_def simple_encode_signin um_emplace_def waits_def)
  let ?a = "SigninAccept \<lparr>SigninAccept_sessionId = 0\<rparr>"
  have r: "client_step simple_cum (Receive (single 0 ?a) True) c0 =
      Inr (c0\<lparr>c_Transactions := um_assign 0 \<lparr>satisfied = True, reply = ?a\<rparr> (c_Transactions c0)\<rparr>, [])"
    using w(2) by (simp add: client_handle_message_def)
  let ?c1 = "c0\<lparr>c_Transactions := um_assign 0 \<lparr>satisfied = True, reply = ?a\<rparr> (c_Transactions c0)\<rparr>"
  have "client_step simple_cum (Resume 0) (?c1\<lparr>c_TreeAddHandler := True\<rparr>) =
      bindR (op_response OpSignin ?a (?c1\<lparr>c_TreeAddHandler := True, c_Transactions := um_erase 0 (c_Transactions ?c1)\<rparr>))
        (\<lambda>(c, out, v). Inr (returned 0 v c, out @ [Returned 0 v]))"
    using answer_delivered [OF run w(1) r, of "[SetTreeAddHandler True]" "?c1\<lparr>c_TreeAddHandler := True\<rparr>" "[]"]
    by (simp add: sample_waiting_def)
  with r show ?thesis by (intro exI [of _ c0] exI [of _ ?c1] conjI) simp_all
qed

section \<open>What operations return\<close>

text \<open>The return type of every operation; any of them can throw.\<close>

fun has_type :: "Op \<Rightarrow> result \<Rightarrow> bool" where
  "has_type op (RThrow w) = True"
| "has_type op RUnit = (case op of OpSignin \<Rightarrow> True | OpBeat \<Rightarrow> True | OpCommit _ \<Rightarrow> True | OpFetch _ \<Rightarrow> True | _ \<Rightarrow> False)"
| "has_type op (RBool b) = (case op of OpSubscribe _ \<Rightarrow> True | OpUnsubscribe _ \<Rightarrow> True | OpDestroy _ \<Rightarrow> True | _ \<Rightarrow> False)"
| "has_type op (RBytes bs) = (case op of OpCall _ _ \<Rightarrow> True | _ \<Rightarrow> False)"
| "has_type op (RProperty h) = (case op of OpRoot \<Rightarrow> True | OpCreate _ _ \<Rightarrow> True | OpGet _ _ _ \<Rightarrow> True | _ \<Rightarrow> False)"

definition no_return :: "client_action list \<Rightarrow> bool" where
  "no_return out \<longleftrightarrow> (\<forall>t v. Returned t v \<notin> set out)"

lemma no_return_simps [simp]: "no_return []" "no_return (a # out) \<longleftrightarrow> (\<forall>t v. a \<noteq> Returned t v) \<and> no_return out"
  "no_return (out @ out') \<longleftrightarrow> no_return out \<and> no_return out'"
  by (auto simp: no_return_def)

lemma add_node_silent: "add_node i c = (c', out) \<Longrightarrow> no_return out"
  by (auto simp: add_node_def Let_def split: option.splits prod.splits if_splits)

lemma addNodes_silent: "addNodes xs c = (c', out) \<Longrightarrow> no_return out"
  by (induction xs arbitrary: c c' out) (auto split: prod.splits dest: add_node_silent)

lemma removeNodes_silent: "removeNodes xs c = (c', out) \<Longrightarrow> no_return out"
  by (induction xs arbitrary: c c' out) (auto simp: remove_node_def Let_def split: prod.splits option.splits if_splits)

lemma visit_silent: "client_visit L sent t m c = Inr (c', out) \<Longrightarrow> no_return out"
  by (cases m) (auto simp: client_TreeUpdateNotification_def client_UpdateNotification_def client_RpcRequest_def Let_def
      split: prod.splits option.splits if_splits dest: addNodes_silent removeNodes_silent)

lemma message_silent: "client_handle_message L sent m c = Inr (c', out) \<Longrightarrow> no_return out"
  by (auto simp: client_handle_message_def split: option.splits dest: visit_silent)

lemma handle_silent: "client_handle L sent m c = Inr (c', out) \<Longrightarrow> no_return out"
proof -
  have "client_handle_array L sent ms c = Inr (c', out) \<Longrightarrow> no_return out" for ms c c' out
    by (induction ms arbitrary: c c' out) (auto dest: message_silent)
  then show "client_handle L sent m c = Inr (c', out) \<Longrightarrow> no_return out"
    by (cases m) (auto dest: message_silent)
qed

lemma request_typed: "op_request op c = Inr (Early v) \<Longrightarrow> has_type op v"
  by (cases op) (auto simp: signin_request_def root_request_def create_request_def get_request_def commit_request_def
      fetch_request_def subscribe_request_def unsubscribe_request_def destroy_request_def beat_request_def
      call_request_def Let_def split: option.splits if_splits)

lemma get_typed: "get_response p n m c = Inr (c', out, v) \<Longrightarrow> (\<exists>w. v = RThrow w) \<or> (\<exists>h. v = RProperty h)"
  by (cases m) (auto simp: get_response_def split: prod.splits if_splits list.splits option.splits)

lemma get_silent: "get_response p n m c = Inr (c', out, v) \<Longrightarrow> no_return out"
  by (cases m) (auto simp: get_response_def split: prod.splits if_splits list.splits option.splits dest: addNodes_silent add_node_silent)

lemma response_typed: "op_response op m c = Inr (c', out, v) \<Longrightarrow> has_type op v \<and> no_return out"
  by (cases op; cases m) (auto simp: signin_response_def create_response_def commit_response_def fetch_response_def
      subscribe_response_def unsubscribe_response_def destroy_eq beat_response_def call_response_def Let_def
      split: option.splits prod.splits if_splits dest: get_typed get_silent)

lemma returned_held: "v = RProperty (Some r) \<Longrightarrow> r \<in> set (c_held (returned t v c))"
  by (simp add: returned_def)

text \<open>An event that lets an operation return, and the operation.\<close>

lemma step_returns:
  assumes "client_step L e c = Inr (c', out)" "Returned t v \<in> set out"
  shows "(\<exists>d. c' = returned t v d) \<and>
    (\<exists>op. ((\<exists>sent. e = Start t op sent) \<or> (\<exists>i. waits t i op c) \<and> (e = Resume t \<or> e = Timeout t)) \<and> has_type op v)"
proof (cases e)
  case (Start s op sent)
  with assms have st: "start L s op sent c = Inr (c', out)" by (auto split: if_splits)
  obtain q where q: "op_request op c = Inr q" using st by (auto simp: start_def)
  show ?thesis
  proof (cases q)
    case (Early w)
    with st q request_typed [of op c w] assms(2) Start show ?thesis by (auto simp: start_def)
  next
    case (Ask m)
    obtain i ctr where i: "next_id (c_TransactioIdCtr c) = (i, ctr)" by fastforce
    show ?thesis
    proof (cases "client_send L sent (single i m)")
      case (Inl f)
      with st q Ask i assms(2) Start show ?thesis by (cases f) (auto simp: start_def addTransaction_def)
    qed (use st q Ask i assms(2) in \<open>auto simp: start_def addTransaction_def\<close>)
  qed
next
  case (Resume s)
  obtain i op where w: "map_of (c_waiting c) s = Some (i, op)"
    using assms Resume by (cases "map_of (c_waiting c) s") (auto simp: resume_def)
  obtain m d d' o1 x where "op_response op m d = Inr (d', o1, x)" "c' = returned s x d'" "out = o1 @ [Returned s x]"
    using assms Resume w by (auto simp: resume_def waitTransaction_def split: option.splits if_splits)
  with response_typed [of op m d d' o1 x] assms(2) Resume w show ?thesis
    by (auto simp: no_return_def waits_def)
next
  case (Timeout s)
  obtain i op where w: "map_of (c_waiting c) s = Some (i, op)"
    using assms Timeout by (cases "map_of (c_waiting c) s") (auto simp: timeout_def)
  with assms Timeout show ?thesis
    by (auto simp: timeout_def waitTransaction_def waits_def split: option.splits if_splits)
next
  case (Receive m sent)
  with assms handle_silent [of L sent m c c' out] show ?thesis by (auto simp: no_return_def)
qed (use assms in auto)

text \<open>
  C32: Whatever the server answers, an operation that returns in a reachable state returns a value of
  its own return type or throws, to the thread that called it. A \<open>Property\<close> it returns is empty or
  refers to a node that exists and that the caller now holds.
\<close>

theorem client_typed:
  assumes "sum_list (map client_cost es) + client_cost e < 2 ^ 16"
    and "run_steps (client_step L) es (init_Client junk) = Inr (c, out)"
    and "client_step L e c = Inr (c', out')" "Returned t v \<in> set out'"
  shows "(\<exists>op. ((\<exists>sent. e = Start t op sent) \<or> (\<exists>i. waits t i op c) \<and> (e = Resume t \<or> e = Timeout t)) \<and> has_type op v) \<and>
    (\<forall>r. v = RProperty (Some r) \<longrightarrow> r \<in> set (c_held c') \<and> c_live c' r)"
proof -
  have "client_inv (client_cost e + 0) c" using client_reachable [OF _ assms(2)] assms(1) by simp
  then have "client_inv 0 c'" using assms(3) by (rule client_step_inv)
  then have "tree_wf c'" by (simp add: client_inv_def)
  with step_returns [OF assms(3,4)] returned_held held_live show ?thesis by blast
qed

lemma client_typed_witness:
  "\<exists>c'. client_step simple_cum (Start 7 OpRoot True) sample_client = Inr (c', [Returned 7 (RProperty (Some 0))]) \<and> c_live c' 0"
proof -
  from sample_client_run obtain out where run:
    "run_steps (client_step simple_cum) client_events (init_Client []) = Inr (sample_client, out)" by blast
  have "client_step simple_cum (Start 7 OpRoot True) sample_client =
      Inr (returned 7 (RProperty (Some 0)) sample_client, [Returned 7 (RProperty (Some 0))])"
    by (simp add: may_start_def sample_client start_def root_request_def)
  with client_typed [OF _ run this, of 7 "RProperty (Some 0)"] show ?thesis by (simp add: client_events_def)
qed

section \<open>Where the order of events defeats the code\<close>

text \<open>
  C33: A request that times out leaves its entry in the table. If its answer arrives late it is kept
  there, and the next operation that is given the same id, after the 16-bit counter has come round,
  sends its own request but takes the old answer for its own without waiting.
\<close>

theorem late_answer_reused:
  assumes "waits t i op c" "map_of (c_Transactions c) i = Some tr" "\<not> satisfied tr"
  shows "(\<exists>c1. run_steps (client_step L) [Timeout t, Receive (single i m) sent] c =
        Inr (c1, [Returned t (RThrow ''transaction failure'')]) \<and>
      map_of (c_Transactions c1) i = Some \<lparr>satisfied = True, reply = m\<rparr>) \<and>
    (\<forall>c2 t' op' q sent' bs. map_of (c_Transactions c2) i = Some \<lparr>satisfied = True, reply = m\<rparr> \<and>
        c_TransactioIdCtr c2 = i \<and> i \<noteq> 0xFFFF \<and> may_start t' op' c2 \<and> op_request op' c2 = Inr (Ask q) \<and>
        client_send L sent' (single i q) = Inr bs \<longrightarrow>
      (\<exists>c3. client_step L (Start t' op' sent') c2 = Inr (c3, [Sent (single i q) bs]) \<and>
        client_step L (Resume t') c3 = bindR (op_response op' m (c3\<lparr>c_Transactions := um_erase i (c_Transactions c3)\<rparr>))
          (\<lambda>(c, out, v). Inr (returned t' v c, out @ [Returned t' v]))))"
proof (intro conjI allI impI, goal_cases)
  case 1
  show ?case
    using assms by (auto simp: timeout_def waitTransaction_def waits_def client_handle_message_def map_of_um_assign)
next
  case (2 c2 t' op' q sent' bs)
  let ?c = "c2\<lparr>c_TransactioIdCtr := i + 1, c_Transactions := um_emplace i new_Transaction (c_Transactions c2),
      c_waiting := um_emplace t' (i, op') (c_waiting c2)\<rparr>"
  have "client_step L (Start t' op' sent') c2 = Inr (?c, [Sent (single i q) bs])"
    using 2 by (simp add: start_def addTransaction_def next_id_def)
  moreover have "map_of (c_waiting ?c) t' = Some (i, op')"
    using 2 by (simp add: um_emplace_def may_start_def map_add_def split: option.split)
  moreover have "map_of (c_Transactions ?c) i = Some \<lparr>satisfied = True, reply = m\<rparr>"
    using 2 by (simp add: um_emplace_keeps)
  ultimately show ?case using resume_cases(2) [of ?c t' i op'] by (intro exI [of _ ?c]) simp
qed

lemma late_answer_reused_witness:
  "\<exists>c0 out0 c1. run_steps (client_step simple_cum) [Start 0 OpSignin True] (init_Client []) = Inr (c0, out0) \<and>
     run_steps (client_step simple_cum) [Timeout 0, Receive (single 0 (SigninRequest \<lparr>SigninRequest_spare = 0\<rparr>)) True] c0 =
       Inr (c1, [Returned 0 (RThrow ''transaction failure'')]) \<and> c_Transactions c1 \<noteq> []"
proof -
  obtain c0 out0 where run: "run_steps (client_step simple_cum) [Start 0 OpSignin True] (init_Client []) = Inr (c0, out0)"
    and w: "waits 0 0 OpSignin c0" "map_of (c_Transactions c0) 0 = Some new_Transaction"
    by (auto simp: init_Client_def may_start_def start_def signin_request_def addTransaction_def
        next_id_def simple_encode_signin um_emplace_def waits_def)
  have "\<not> satisfied new_Transaction" by (simp add: new_Transaction_def)
  from late_answer_reused [OF w this, of simple_cum "SigninRequest \<lparr>SigninRequest_spare = 0\<rparr>" True]
  obtain c1 where c1: "run_steps (client_step simple_cum) [Timeout 0, Receive (single 0 (SigninRequest \<lparr>SigninRequest_spare = 0\<rparr>)) True] c0 =
      Inr (c1, [Returned 0 (RThrow ''transaction failure'')])"
    "map_of (c_Transactions c1) 0 = Some \<lparr>satisfied = True, reply = SigninRequest \<lparr>SigninRequest_spare = 0\<rparr>\<rparr>" by blast
  from c1(2) have "c_Transactions c1 \<noteq> []" by auto
  with run c1(1) show ?thesis by blast
qed

text \<open>
  C34: The constructor puts the root into the tree only after its answer has been handled by the
  calling thread. A notification that the reactor thread handles in between makes a dummy for the
  unknown parent, and the root of this client stays a node with the name \<open>ghost\<close>.
\<close>

theorem root_is_ghost:
  assumes "client_send L True (single 0 (SigninRequest \<lparr>SigninRequest_spare = 0\<rparr>)) = Inr bs" "u \<noteq> 0"
  shows "\<exists>c out r. run_steps (client_step L) [Start t OpSignin True, Receive (single 0 (SigninAccept a)) True,
      Receive (single notification_id (TreeUpdateNotification \<lparr>TreeUpdateNotification_nodeToAddList =
        [\<lparr>NamedNode_name = n, NamedNode_uuid = u, NamedNode_parentUuid = 0\<rparr>],
        TreeUpdateNotification_nodeToDelete = []\<rparr>)) True, Resume t, Start t OpRoot True] (init_Client junk) =
      Inr (c, out @ [Returned t (RProperty (Some r))]) \<and> c_constructed c \<and> cn_name (c_heap c r) = ''ghost''"
proof -
  let ?i = "\<lparr>NamedNode_name = n, NamedNode_uuid = u, NamedNode_parentUuid = 0\<rparr>"
  let ?T = "[(0 :: u16, \<lparr>satisfied = True, reply = SigninAccept a\<rparr>)]"
  let ?c = "(init_Client junk)\<lparr>c_TransactioIdCtr := 1, c_Transactions := ?T, c_waiting := [(t, (0, OpSignin))]\<rparr>"
  have start: "client_step L (Start t OpSignin True) (init_Client junk) = Inr ((init_Client junk)\<lparr>c_TransactioIdCtr := 1,
      c_Transactions := [(0, new_Transaction)], c_waiting := [(t, (0, OpSignin))]\<rparr>, [Sent (single 0 (SigninRequest \<lparr>SigninRequest_spare = 0\<rparr>)) bs])"
    using assms(1) by (simp add: init_Client_def may_start_def start_def signin_request_def addTransaction_def next_id_def um_emplace_def)
  obtain d out where d: "add_node ?i ?c = (d, out)" by fastforce
  have D: "c_Tree d = [(0, 0), (u, 1)]" "cn_name (c_heap d 0) = ''ghost''" "c_next d = 2" "c_Transactions d = ?T"
    "c_waiting d = [(t, (0, OpSignin))]"
    using d assms(2) by (auto simp: add_node_def make_Node_def um_emplace_def init_Client_def new_ClientNode_def client_simps Let_def)
  let ?e = "c_release (d\<lparr>c_Transactions := [], c_heap := (c_heap d)(2 := new_ClientNode '''' None 0),
      c_live := (c_live d)(2 := True), c_next := 3, c_Tree := [(0, 0), (u, 1)], c_constructed := True\<rparr>)"
  let ?f = "returned t RUnit ?e"
  let ?n = "Receive (single notification_id (TreeUpdateNotification \<lparr>TreeUpdateNotification_nodeToAddList = [?i],
      TreeUpdateNotification_nodeToDelete = []\<rparr>)) True"
  have "client_step L (Receive (single 0 (SigninAccept a)) True) ((init_Client junk)\<lparr>c_TransactioIdCtr := 1,
      c_Transactions := [(0, new_Transaction)], c_waiting := [(t, (0, OpSignin))]\<rparr>) = Inr (?c, [])"
    by (simp add: client_handle_message_def)
  moreover have "client_step L ?n ?c = Inr (d, out)"
    using d by (simp add: client_handle_message_def client_TreeUpdateNotification_def)
  moreover have "client_step L (Resume t) d = Inr (?f, [Returned t RUnit])"
    using D by (simp add: resume_def waitTransaction_def um_erase_def signin_response_def make_Node_def um_emplace_def)
  moreover have "client_step L (Start t OpRoot True) ?f = Inr (returned t (RProperty (Some 0)) ?f, [Returned t (RProperty (Some 0))])"
    using D by (simp add: may_start_def start_def root_request_def um_erase_def)
  ultimately have "run_steps (client_step L) [Start t OpSignin True, Receive (single 0 (SigninAccept a)) True, ?n,
      Resume t, Start t OpRoot True] (init_Client junk) = Inr (returned t (RProperty (Some 0)) ?f,
      (Sent (single 0 (SigninRequest \<lparr>SigninRequest_spare = 0\<rparr>)) bs # out @ [Returned t RUnit]) @ [Returned t (RProperty (Some 0))])"
    using start by (simp del: client_step.simps)
  then show ?thesis
    by (intro exI [of _ "returned t (RProperty (Some 0)) ?f"] exI conjI, assumption) (simp_all add: D(2))
qed

lemma root_is_ghost_witness:
  "\<exists>c out r. run_steps (client_step simple_cum) [Start 0 OpSignin True,
      Receive (single 0 (SigninAccept \<lparr>SigninAccept_sessionId = 0\<rparr>)) True,
      Receive (single notification_id (TreeUpdateNotification \<lparr>TreeUpdateNotification_nodeToAddList =
        [\<lparr>NamedNode_name = ''a'', NamedNode_uuid = 1, NamedNode_parentUuid = 0\<rparr>],
        TreeUpdateNotification_nodeToDelete = []\<rparr>)) True, Resume 0, Start 0 OpRoot True] (init_Client []) =
      Inr (c, out @ [Returned 0 (RProperty (Some r))]) \<and> c_constructed c \<and> cn_name (c_heap c r) = ''ghost''"
  by (rule root_is_ghost [OF simple_encode_signin]) simp

section \<open>Frames\<close>

lemma client_send_size:
  assumes "client_send L sent m = Inr bs"
  shows "\<exists>n. n \<le> 510 \<and> take 2 bs = le_bytes 2 n"
proof -
  from assms obtain body room where "bs = take (unat (of_nat (512 - room - 2) :: u16) + 2)
      (le_bytes 2 (unat (of_nat (512 - room - 2) :: u16)) @ body)"
    by (auto simp: client_send_def encode_def SEND_SIZE_def Let_def split: if_splits)
  moreover have "unat (of_nat (512 - room - 2) :: u16) \<le> 510"
    by (simp add: unat_of_nat)
  ultimately show ?thesis by (intro exI [of _ "unat (of_nat (512 - room - 2) :: u16)"]) simp
qed

text \<open>
  C35: A client cannot overflow the server: whatever it sends, the size in front of the frame is at
  most 510, and the read loop of the server takes a body of that size, split in any way, within its
  buffer of 512 bytes.
\<close>

theorem client_frame_fits:
  assumes "client_send L sent m = Inr bs" "at_header SERVER_BUFFER rb"
    and "[] \<notin> set cs" "cs \<noteq> []" "length (concat cs) = le_nat (take 2 bs)"
  shows "\<exists>rb'. read_all server_handleRead (take 2 bs # cs) rb = Inr (rb', [concat cs]) \<and> at_header SERVER_BUFFER rb'"
proof -
  from client_send_size [OF assms(1)] obtain n where n: "n \<le> 510" "take 2 bs = le_bytes 2 n" by blast
  have "le_nat (le_bytes 2 n) = n" using n(1) by (simp add: le_nat_le_bytes)
  with assms(5) n have "length (concat cs) = n" by simp
  with sr.read_frame [OF assms(2-4)] n show ?thesis by (simp add: SERVER_BUFFER_def)
qed

lemma client_frame_fits_witness:
  "\<exists>rb'. read_all server_handleRead [[5, 0], [0, 0, 0], [0, 0]] (init_ReadBuffer (replicate SERVER_BUFFER 0)) =
     Inr (rb', [[0, 0, 0, 0, 0]])"
proof -
  have "at_header SERVER_BUFFER (init_ReadBuffer (replicate SERVER_BUFFER 0))"
    by (simp add: at_header_def init_ReadBuffer_def)
  from client_frame_fits [OF simple_encode_signin [of 0] this, of "[[0, 0, 0], [0, 0]]"] show ?thesis by auto
qed

text \<open>The handlers neither read nor write the receive buffer.\<close>

abbreviation with_reader :: "ReadBuffer \<Rightarrow> Client \<Rightarrow> Client" where
  "with_reader rb c \<equiv> c\<lparr>c_reader := rb\<rparr>"

lemma push_reader:
  "(with_reader rb c)\<lparr>c_live := l\<rparr> = with_reader rb (c\<lparr>c_live := l\<rparr>)"
  "(with_reader rb c)\<lparr>c_heap := h\<rparr> = with_reader rb (c\<lparr>c_heap := h\<rparr>)"
  "(with_reader rb c)\<lparr>c_Tree := m\<rparr> = with_reader rb (c\<lparr>c_Tree := m\<rparr>)"
  "(with_reader rb c)\<lparr>c_next := n\<rparr> = with_reader rb (c\<lparr>c_next := n\<rparr>)"
  "(with_reader rb c)\<lparr>c_Transactions := t\<rparr> = with_reader rb (c\<lparr>c_Transactions := t\<rparr>)"
  by simp_all

lemma orphans_reader: "orphans (with_reader rb c) = orphans c"
  by (simp add: orphans_def c_owned_def roots_def)

lemma collect_reader: "collect n (with_reader rb c) = with_reader rb (collect n c)"
  by (induction n arbitrary: c) (simp_all add: orphans_reader push_reader split: list.split)

lemma release_reader: "c_release (with_reader rb c) = with_reader rb (c_release c)"
  by (simp add: c_release_def collect_reader)

lemma set_child_reader: "set_child p n r (with_reader rb c) = with_reader rb (set_child p n r c)"
  by (simp add: set_child_def push_reader release_reader)

lemma unlink_reader: "unlink w n (with_reader rb c) = with_reader rb (unlink w n c)"
  by (simp add: unlink_def lock_def push_reader split: option.split)

definition reader_on :: "ReadBuffer \<Rightarrow> Client \<times> client_action list \<Rightarrow> Client \<times> client_action list" where
  "reader_on rb x = (with_reader rb (fst x), snd x)"

lemma add_node_reader: "add_node i (with_reader rb c) = reader_on rb (add_node i c)"
proof -
  obtain p d where pd: "parent_for (NamedNode_parentUuid i) c = (p, d)" by fastforce
  then have pr: "parent_for (NamedNode_parentUuid i) (with_reader rb c) = (p, with_reader rb d)"
    by (auto simp: parent_for_def make_Node_def push_reader split: option.splits)
  show ?thesis
  proof (cases "ctree c (NamedNode_uuid i)")
    case (Some r)
    then have "ctree (with_reader rb c) (NamedNode_uuid i) = Some r" by simp
    from add_node_eq(1) [OF pr this] add_node_eq(1) [OF pd Some] show ?thesis
      by (simp add: Let_def push_reader set_child_reader reader_on_def lock_def split: option.split)
  next
    case None
    then have n: "ctree (with_reader rb c) (NamedNode_uuid i) = None" by simp
    obtain r e where mk: "make_Node (NamedNode_name i) (Some p) (NamedNode_uuid i) d = (r, e)" by fastforce
    then have "make_Node (NamedNode_name i) (Some p) (NamedNode_uuid i) (with_reader rb d) = (r, with_reader rb e)"
      by (auto simp: make_Node_def push_reader)
    from add_node_eq(2) [OF pr n this] add_node_eq(2) [OF pd None mk] show ?thesis
      by (simp add: Let_def push_reader set_child_reader reader_on_def)
  qed
qed

lemma remove_node_reader: "remove_node u (with_reader rb c) = reader_on rb (remove_node u c)"
  by (simp add: remove_node_eq unlink_reader push_reader release_reader reader_on_def split: option.split)

lemma addNodes_reader: "addNodes xs (with_reader rb c) = reader_on rb (addNodes xs c)"
  by (induction xs arbitrary: c) (simp_all add: add_node_reader reader_on_def split: prod.split)

lemma removeNodes_reader: "removeNodes xs (with_reader rb c) = reader_on rb (removeNodes xs c)"
  by (induction xs arbitrary: c) (simp_all add: remove_node_reader reader_on_def split: prod.split)

lemma visit_reader: "client_visit L sent t m (with_reader rb c) =
    bindR (client_visit L sent t m c) (\<lambda>x. Inr (reader_on rb x))"
proof (cases m)
  case (TreeUpdateNotification x)
  obtain d o1 where d: "addNodes (TreeUpdateNotification_nodeToAddList x) c = (d, o1)" by fastforce
  obtain e o2 where e: "removeNodes (TreeUpdateNotification_nodeToDelete x) d = (e, o2)" by fastforce
  show ?thesis
    by (simp add: TreeUpdateNotification client_TreeUpdateNotification_def addNodes_reader removeNodes_reader
        d e reader_on_def)
next
  case (UpdateNotification x)
  then show ?thesis
    by (simp add: client_UpdateNotification_def store_value_def push_reader reader_on_def Let_def split: option.split)
next
  case (RpcRequest x)
  have "bindR (case client_send L sent y of Inl e \<Rightarrow> Inl e | Inr bs \<Rightarrow> Inr (c, f bs)) g =
      bindR (client_send L sent y) (\<lambda>bs. g (c, f bs))" for y f g
    by (cases "client_send L sent y") simp_all
  with RpcRequest show ?thesis
    by (simp add: client_RpcRequest_def bindR_assoc reader_on_def split: option.split)
qed (simp_all add: reader_on_def)

lemma message_reader: "client_handle_message L sent m (with_reader rb c) =
    bindR (client_handle_message L sent m c) (\<lambda>x. Inr (reader_on rb x))"
  by (simp add: client_handle_message_def visit_reader push_reader reader_on_def split: option.split)

lemma array_reader: "client_handle_array L sent ms (with_reader rb c) =
    bindR (client_handle_array L sent ms c) (\<lambda>x. Inr (reader_on rb x))"
proof (induction ms arbitrary: c)
  case (Cons m ms)
  show ?case
  proof (cases "client_handle_message L sent m c")
    case (Inr x)
    obtain d o1 where d: "x = (d, o1)" by fastforce
    from Inr d Cons.IH [of d] show ?thesis
      by (cases "client_handle_array L sent ms d") (auto simp: message_reader reader_on_def)
  qed (simp add: message_reader)
qed (simp add: reader_on_def)

lemma handle_reader: "client_handle L sent m (with_reader rb c) =
    bindR (client_handle L sent m c) (\<lambda>x. Inr (reader_on rb x))"
  by (cases m) (simp_all add: message_reader array_reader)

text \<open>What a client does with a body, and with a sequence of them.\<close>

definition handle_body :: "cum \<Rightarrow> bool \<Rightarrow> u8 list \<Rightarrow> Client \<Rightarrow> fault + (Client \<times> client_action list)" where
  "handle_body L sent body c = bindR (decode_message L body) (\<lambda>m. client_handle L sent m c)"

lemma handle_body_reader: "handle_body L sent b (with_reader rb c) = bindR (handle_body L sent b c) (\<lambda>x. Inr (reader_on rb x))"
  by (cases "decode_message L b") (simp_all add: handle_body_def handle_reader)

lemma bodies_reader: "run_steps (handle_body L sent) bs c = Inr (c', out) \<Longrightarrow>
    run_steps (handle_body L sent) bs (with_reader rb c) = Inr (with_reader rb c', out)"
  by (induction bs arbitrary: c out) (fastforce simp: handle_body_reader reader_on_def)+

lemma client_reads:
  assumes "[] \<notin> set chunks" "read_all client_handleRead chunks (c_reader c) = Inr (rb, bodies)"
    and "run_steps (handle_body L sent) bodies c = Inr (c', out)"
  shows "run_steps (\<lambda>b. Client_handleRead L sent (Some b)) chunks c = Inr (with_reader rb c', out)"
  using assms
proof (induction chunks arbitrary: c c' bodies out)
  case (Cons b chunks)
  obtain rb1 r rest where r: "client_handleRead (Some b) (c_reader c) = Inr (rb1, r)"
    "read_all client_handleRead chunks rb1 = Inr (rb, rest)"
    and bodies: "bodies = (case r of Delivered x \<Rightarrow> x # rest | _ \<Rightarrow> rest)"
    using Cons.prems(2) by auto
  have ih: "run_steps (\<lambda>b. Client_handleRead L sent (Some b)) chunks (with_reader rb1 d) = Inr (with_reader rb c', o2)"
    if "run_steps (handle_body L sent) rest d = Inr (c', o2)" for d o2
    using Cons.IH [of "with_reader rb1 d" rest "with_reader rb1 c'" o2] Cons.prems(1) r(2)
      bodies_reader [OF that, of rb1] by simp
  show ?case
  proof (cases r)
    case (Delivered x)
    obtain d o1 o2 where d: "handle_body L sent x c = Inr (d, o1)" "run_steps (handle_body L sent) rest d = Inr (c', o2)"
      "out = o1 @ o2" using Cons.prems(3) bodies Delivered by auto
    have "Client_handleRead L sent (Some b) c = Inr (with_reader rb1 d, o1)"
      using d(1) r(1) Delivered by (auto simp: Client_handleRead_def handle_body_def handle_reader reader_on_def)
    with ih [OF d(2)] d(3) show ?thesis by simp
  next
    case Pending
    with bodies Cons.prems(3) have "run_steps (handle_body L sent) rest c = Inr (c', out)" by simp
    moreover have "Client_handleRead L sent (Some b) c = Inr (with_reader rb1 c, [])"
      using r(1) Pending by (simp add: Client_handleRead_def)
    ultimately show ?thesis using ih [of c out] by simp
  next
    case Closed
    with bodies Cons.prems(3) have "run_steps (handle_body L sent) rest c = Inr (c', out)" by simp
    moreover have "Client_handleRead L sent (Some b) c = Inr (with_reader rb1 c, [])"
      using r(1) Closed by (simp add: Client_handleRead_def)
    ultimately show ?thesis using ih [of c out] by simp
  qed
qed simp

text \<open>
  C36: From bytes to messages, on the side of the client: if the server sends any number of frames,
  split in any way, the client does exactly what handling the decoded messages one after the other
  does, and is ready for the next frame.
\<close>

theorem client_end_to_end:
  assumes "at_header CLIENT_BUFFER (c_reader c)"
    and "list_all2 (\<lambda>cs m. [] \<notin> set cs \<and> cs \<noteq> [] \<and> length (concat cs) < 2 ^ 16 \<and>
      decode_message L (concat cs) = Inr m) css ms"
    and "run_steps (client_handle L sent) ms c = Inr (c', out)"
  shows "\<exists>rb. run_steps (\<lambda>b. Client_handleRead L sent (Some b))
      (concat (map (\<lambda>cs. le_bytes 2 (length (concat cs)) # cs) css)) c = Inr (c'\<lparr>c_reader := rb\<rparr>, out) \<and>
    at_header CLIENT_BUFFER rb"
proof -
  let ?reads = "concat (map (\<lambda>cs. le_bytes 2 (length (concat cs)) # cs) css)"
  have each: "[] \<notin> set cs \<and> cs \<noteq> [] \<and> length (concat cs) < 2 ^ 16" if "cs \<in> set css" for cs
    using assms(2) that by (auto simp: list_all2_conv_all_nth in_set_conv_nth)
  then obtain rb where rb: "read_all client_handleRead ?reads (c_reader c) = Inr (rb, map concat css)"
    "at_header CLIENT_BUFFER rb"
    using cr.read_frames [OF assms(1), of css] by (fastforce simp: CLIENT_BUFFER_def)
  have "list_all2 (\<lambda>b m. decode_message L b = Inr m) (map concat css) ms"
    using assms(2) by (auto simp: list_all2_conv_all_nth)
  then have "run_steps (handle_body L sent) (map concat css) c = run_steps (client_handle L sent) ms c"
    by (induction "map concat css" ms arbitrary: css c rule: list_all2_induct) (auto simp: handle_body_def)
  with assms(3) have "run_steps (handle_body L sent) (map concat css) c = Inr (c', out)" by simp
  moreover have "[] \<notin> set ?reads" using each by (auto simp: numeral_2_eq_2)
  ultimately show ?thesis using client_reads [OF _ rb(1)] rb(2) by blast
qed

lemma client_end_to_end_witness:
  "\<exists>c' rb. run_steps (\<lambda>b. Client_handleRead simple_cum True (Some b)) [[5, 0], [0, 7], [0, 25, 0]]
      (init_Client (replicate CLIENT_BUFFER 0)) = Inr (c', []) \<and> c' = (init_Client [])\<lparr>c_reader := rb\<rparr>"
proof -
  let ?m = "single 7 (HearbeatRequest \<lparr>HearbeatRequest_spare = 0\<rparr>)"
  have "decode_message simple_cum [0, 7, 0, 25, 0] = Inr ?m"
    by (simp add: decode_message_def dec_PropertyTreeProtocol_def dec_PropertyTreeMessage_def
        dec_PropertyTreeMessages_def dec_alternative_def dec_HearbeatRequest_def simple_cum_def
        get_int_def take_bytes_def single_def)
  then have msgs: "list_all2 (\<lambda>cs m. [] \<notin> set cs \<and> cs \<noteq> [] \<and> length (concat cs) < 2 ^ 16 \<and>
      decode_message simple_cum (concat cs) = Inr m) [[[0, 7], [0, 25, 0]]] [?m]" by simp
  have start: "at_header CLIENT_BUFFER (c_reader (init_Client (replicate CLIENT_BUFFER 0)))"
    by (simp add: at_header_def init_ReadBuffer_def init_Client_def)
  have run: "run_steps (client_handle simple_cum True) [?m] (init_Client (replicate CLIENT_BUFFER 0)) =
      Inr (init_Client (replicate CLIENT_BUFFER 0), [])"
    by (simp add: client_handle_message_def init_Client_def)
  from client_end_to_end [OF start msgs run] show ?thesis
    by (auto simp: le_bytes_2 init_Client_def)
qed

end
