(* ===== verification/Exchange.thy ===== *)
theory Exchange
  imports Mirror ClientProps
begin

text \<open>
  One operation of a client, from its start to its return, with the server in between: the request
  goes out, the server handles it, the client handles what it has been sent, and the thread resumes.
  \<open>exchange\<close> says what is left of this for the operation itself: the second half of the operation,
  on the server's answer, in a state with the tree the client had, changed by the messages that came
  after the answer.
\<close>

section \<open>Requests and answers\<close>

definition same_tree :: "Client \<Rightarrow> Client \<Rightarrow> bool" where
  "same_tree c d \<longleftrightarrow> c_Tree d = c_Tree c \<and> c_heap d = c_heap c"

lemma same_tree_views: "same_tree c d \<Longrightarrow> cview d = cview c \<and> cvalue d = cvalue c"
  by (simp add: same_tree_def cview_def cvalue_def node_view_def fun_eq_iff cong: option.map_cong)

text \<open>A thread that has just sent a request.\<close>

definition asking :: "nat \<Rightarrow> Op \<Rightarrow> Client \<Rightarrow> Client" where
  "asking t op c = c\<lparr>c_TransactioIdCtr := c_TransactioIdCtr c + 1,
     c_Transactions := um_emplace (c_TransactioIdCtr c) new_Transaction (c_Transactions c),
     c_waiting := um_emplace t (c_TransactioIdCtr c, op) (c_waiting c)\<rparr>"

definition replied :: "nat \<Rightarrow> Op \<Rightarrow> PropertyTreeMessages \<Rightarrow> Client \<Rightarrow> Client" where
  "replied t op m c = (asking t op c)\<lparr>c_Transactions :=
     um_assign (c_TransactioIdCtr c) \<lparr>satisfied = True, reply = m\<rparr> (c_Transactions (asking t op c))\<rparr>"

lemma same_tree_answered: "same_tree c (replied t op m c)"
  by (simp add: same_tree_def replied_def asking_def)

lemma fresh_id:
  assumes "client_inv (Suc k) c"
  shows "map_of (c_Transactions c) (c_TransactioIdCtr c) = None" "c_TransactioIdCtr c \<noteq> 0xFFFF"
proof -
  from assms have ids: "\<forall>i\<in>dom (map_of (c_Transactions c)). unat i < unat (c_TransactioIdCtr c)"
    and lt: "unat (c_TransactioIdCtr c) + Suc k < 2 ^ 16" unfolding client_inv_def trans_wf_def by blast+
  show "map_of (c_Transactions c) (c_TransactioIdCtr c) = None" using ids by (fastforce simp: domIff)
  show "c_TransactioIdCtr c \<noteq> 0xFFFF" using lt by auto
qed

lemma start_asking:
  assumes "client_inv (Suc k) c" "may_start t op c" "op_request op c = Inr (Ask q)"
    and "client_send L sent (single (c_TransactioIdCtr c) q) = Inr bs"
  shows "client_step L (Start t op sent) c = Inr (asking t op c, [Sent (single (c_TransactioIdCtr c) q) bs])"
  using assms(2-4) fresh_id [OF assms(1)] by (simp add: start_def addTransaction_def next_id_def asking_def)

lemma asking_waits:
  assumes "client_inv (Suc k) c" "may_start t op c"
  shows "waits t (c_TransactioIdCtr c) op (asking t op c)"
    "map_of (c_Transactions (asking t op c)) (c_TransactioIdCtr c) = Some new_Transaction"
  using assms(2) fresh_id [OF assms(1)]
  by (simp_all add: waits_def asking_def um_emplace_def may_start_def map_add_def split: option.split)

lemma answer_handled:
  assumes "client_inv (Suc k) c" "may_start t op c" "op_request op c = Inr (Ask q)"
    and "client_send L sent' (single (c_TransactioIdCtr c) q) = Inr bs"
  shows "client_handle L sent (single (c_TransactioIdCtr c) m) (asking t op c) = Inr (replied t op m c, [])"
    and "has_answer t (c_TransactioIdCtr c) op m (replied t op m c)" and "client_inv k (replied t op m c)"
proof -
  have "client_inv k (asking t op c)"
    using client_step_inv [of "Start t op sent'" k c L] start_asking [OF assms] assms(1) by simp
  moreover from this have "um_wf (c_Transactions (asking t op c))" by (simp add: client_inv_def trans_wf_def)
  note ans = message_answers [OF this asking_waits(2) [OF assms(1,2)]]
  from ans [of L sent m] show h: "client_handle L sent (single (c_TransactioIdCtr c) m) (asking t op c) = Inr (replied t op m c, [])"
    by (simp add: single_def replied_def)
  show "has_answer t (c_TransactioIdCtr c) op m (replied t op m c)"
    using asking_waits(1) [OF assms(1,2)] by (simp add: has_answer_def waits_def replied_def map_of_um_assign)
  ultimately show "client_inv k (replied t op m c)" using client_handle_inv [OF _ h] by blast
qed

text \<open>The end of the wait.\<close>

lemma resume_answered:
  assumes "has_answer t i op m c"
  shows "client_step L (Resume t) c = bindR (op_response op m (c\<lparr>c_Transactions := um_erase i (c_Transactions c)\<rparr>))
    (\<lambda>(c, out, v). Inr (returned t v c, out @ [Returned t v]))"
  using assms resume_cases(2) [of c t i op] by (simp add: has_answer_def waits_def)

lemma returned_view [simp]: "cview (returned t v c) = cview c" "cvalue (returned t v c) = cvalue c"
proof -
  have "same_tree c (c\<lparr>c_waiting := um_erase t (c_waiting c),
     c_held := (case v of RProperty (Some r) \<Rightarrow> r # c_held c | _ \<Rightarrow> c_held c)\<rparr>)" by (simp add: same_tree_def)
  from same_tree_views [OF this] show "cview (returned t v c) = cview c" "cvalue (returned t v c) = cvalue c"
    by (simp_all add: returned_def)
qed

lemma returned_tree [simp]: "c_Tree (returned t v c) = c_Tree c"
  by (simp add: returned_def)

lemma returned_links [simp]: "links_ok (returned t v c) = links_ok c"
  by (simp add: returned_def links_ok_def linked_def)

lemma erased_view [simp]: "cview (c\<lparr>c_Transactions := T\<rparr>) = cview c" "cvalue (c\<lparr>c_Transactions := T\<rparr>) = cvalue c"
  using same_tree_views [of c "c\<lparr>c_Transactions := T\<rparr>"] by (simp_all add: same_tree_def)

section \<open>The whole exchange\<close>

abbreviation round_trip :: "nat \<Rightarrow> Op \<Rightarrow> bool \<Rightarrow> conn list \<Rightarrow> u16 \<Rightarrow> PropertyTreeMessages \<Rightarrow> conn \<Rightarrow> pair_event list" where
  "round_trip t op sent held i q w \<equiv>
     [Local (Start t op sent), Serve (Message held (single i q) w), Local (Resume t)]"

text \<open>Announcements do not fail, and leave the answer of a thread alone.\<close>

lemma announced_handled:
  assumes "client_inv k c" "has_answer t i op m c" "i \<noteq> notification_id"
  shows "\<exists>d o1. client_handle L sent (single notification_id (announce x)) c = Inr (d, o1) \<and> client_inv k d \<and> has_answer t i op m d"
proof -
  have "map_of (c_Transactions c) notification_id = None" using ready_inv [OF assms(1)] by (simp add: client_ready_def)
  then have "client_handle L sent (single notification_id (announce x)) c \<noteq> Inl f" for f
    by (cases x) (simp_all add: single_def client_handle_message_def)
  then obtain d o1 where d: "client_handle L sent (single notification_id (announce x)) c = Inr (d, o1)"
    by (metis old.prod.exhaust old.sum.exhaust)
  moreover have "client_handle_message L sent \<lparr>transactionId = notification_id, message = announce x\<rparr> c = Inr (d, o1)"
    using d by (simp add: single_def)
  with message_other [OF assms(2) _ this] assms(1,3) have "has_answer t i op m d" by (simp add: client_inv_def)
  ultimately show ?thesis using client_handle_inv [OF assms(1)] by blast
qed

lemma announcements_handled:
  assumes "client_inv k c" "has_answer t i op m c" "i \<noteq> notification_id" "\<forall>y\<in>set ms. \<exists>x. y = single notification_id (announce x)"
  shows "\<exists>d o1. run_steps (client_handle L sent) ms c = Inr (d, o1) \<and> client_inv k d \<and> has_answer t i op m d"
  using assms
proof (induction ms arbitrary: c)
  case (Cons y ms)
  then obtain x where y: "y = single notification_id (announce x)" by auto
  from announced_handled [OF Cons.prems(1-3), of L sent x] obtain d o1 where
    d: "client_handle L sent y c = Inr (d, o1)" "client_inv k d" "has_answer t i op m d" unfolding y by blast
  from Cons.IH [OF d(2,3)] Cons.prems(3,4) d(1) show ?case by auto
qed simp

text \<open>The answer comes first; announcements may follow it.\<close>

lemma exchange:
  assumes inv: "client_inv (Suc k) c" and st: "may_start t op c" "op_request op c = Inr (Ask q)"
    and snd: "client_send L sent' (single (c_TransactioIdCtr c) q) = Inr bs"
    and srv: "handle held (c_TransactioIdCtr c) q w s = Inr (s', out)"
    and box: "inbox w out = single (c_TransactioIdCtr c) m # ms" "\<forall>y\<in>set ms. \<exists>x. y = single notification_id (announce x)"
  shows "\<exists>d o1. run_steps (client_handle L sent) (inbox w out) (asking t op c) = Inr (d, o1) \<and> client_inv k d \<and>
    run_steps (client_handle L sent) ms (replied t op m c) = Inr (d, o1) \<and>
    run_steps (pair_step L sent w) (round_trip t op sent' held (c_TransactioIdCtr c) q w) (s, c) =
      bindR (op_response op m (d\<lparr>c_Transactions := um_erase (c_TransactioIdCtr c) (c_Transactions d)\<rparr>))
        (\<lambda>(c', out, v). Inr ((s', returned t v c'), Sent (single (c_TransactioIdCtr c) q) bs # o1 @ out @ [Returned t v]))"
proof -
  let ?i = "c_TransactioIdCtr c" and ?a = "replied t op m c"
  note start = start_asking [OF inv st snd]
  note ans = answer_handled(1) [OF inv st snd, of sent m] answer_handled(2,3) [OF inv st snd, of m]
  have "unat (c_TransactioIdCtr c) + Suc k < 2 ^ 16" using inv unfolding client_inv_def trans_wf_def by blast
  then have "?i \<noteq> notification_id" by auto
  from announcements_handled [OF ans(3,2) this box(2), of L sent] obtain d o1 where
    d: "run_steps (client_handle L sent) ms ?a = Inr (d, o1)" "client_inv k d" "has_answer t ?i op m d" by blast
  have all: "run_steps (client_handle L sent) (inbox w out) (asking t op c) = Inr (d, o1)" using d(1) ans(1) box(1) by simp
  have step: "pair_step L sent w (Serve (Message held (single ?i q) w)) (s, asking t op c) = Inr ((s', d), o1)"
    using srv all by (simp add: single_def onMsg_message_def)
  let ?d = "d\<lparr>c_Transactions := um_erase ?i (c_Transactions d)\<rparr>"
  have "run_steps (pair_step L sent w) (round_trip t op sent' held ?i q w) (s, c) =
      bindR (op_response op m ?d) (\<lambda>(c', out, v). Inr ((s', returned t v c'), Sent (single ?i q) bs # o1 @ out @ [Returned t v]))"
  proof (cases "op_response op m ?d")
    case (Inr x)
    obtain c' o2 v where x: "x = (c', o2, v)" by (metis prod_cases3)
    with start step resume_answered [OF d(3), of L] Inr show ?thesis
      by (simp del: client_step.simps pair_step.simps(1) add: pair_step.simps(2))
  qed (use start step resume_answered [OF d(3), of L] in
    \<open>simp del: client_step.simps pair_step.simps(1) add: pair_step.simps(2)\<close>)
  with all d show ?thesis by blast
qed

text \<open>The answer alone: the operation ends on the tree it began with.\<close>

lemma plain_exchange:
  assumes "client_inv (Suc k) c" "may_start t op c" "op_request op c = Inr (Ask q)"
    and "client_send L sent' (single (c_TransactioIdCtr c) q) = Inr bs"
    and "handle held (c_TransactioIdCtr c) q w s = Inr (s', out)"
    and "inbox w out = [single (c_TransactioIdCtr c) m]"
  shows "\<exists>d. run_steps (pair_step L sent w) (round_trip t op sent' held (c_TransactioIdCtr c) q w) (s, c) =
      bindR (op_response op m d) (\<lambda>(c', out, v). Inr ((s', returned t v c'),
        Sent (single (c_TransactioIdCtr c) q) bs # out @ [Returned t v])) \<and>
    same_tree c d \<and> tree_wf d"
proof -
  let ?i = "c_TransactioIdCtr c" and ?a = "replied t op m c"
  let ?d = "?a\<lparr>c_Transactions := um_erase ?i (c_Transactions ?a)\<rparr>"
  from exchange [OF assms, of sent] have "client_inv k ?a"
    "run_steps (pair_step L sent w) (round_trip t op sent' held ?i q w) (s, c) =
      bindR (op_response op m ?d) (\<lambda>(c', out, v). Inr ((s', returned t v c'), Sent (single ?i q) bs # out @ [Returned t v]))"
    by (auto simp del: run_steps.simps(2))
  moreover have "same_tree c ?d" using same_tree_answered [of c t op m] by (simp add: same_tree_def)
  ultimately show ?thesis by (intro exI [of _ ?d]) (simp add: client_inv_def del: run_steps.simps(2))
qed

section \<open>Asking for nodes\<close>

text \<open>
  \<open>knows c s\<close>: the client knows some of the tree and nothing that is wrong.
\<close>

abbreviation knows :: "Client \<Rightarrow> ProtocolHandler \<Rightarrow> bool" where
  "knows c s \<equiv> cview c \<subseteq>\<^sub>m sview s"

lemma knowsD: "knows c s \<Longrightarrow> cview c u \<noteq> None \<Longrightarrow> cview c u = sview s u"
  unfolding map_le_def by (metis domIff)

text \<open>A client that only learns.\<close>

definition grows :: "Client \<Rightarrow> Client \<Rightarrow> bool" where
  "grows c d \<longleftrightarrow> ctree c \<subseteq>\<^sub>m ctree d \<and> (\<forall>u. ctree c u \<noteq> None \<longrightarrow> cvalue d u = cvalue c u)"

lemma growsD: "grows c d \<Longrightarrow> ctree c u = Some r \<Longrightarrow> ctree d u = Some r \<and> cn_data (c_heap d r) = cn_data (c_heap c r)"
  unfolding grows_def map_le_def cvalue_def by (metis domI option.sel option.simps(3) option.simps(9))

lemma same_tree_grows: "same_tree c d \<Longrightarrow> grows c d"
  using same_tree_views [of c d] by (simp add: grows_def same_tree_def)

lemma grows_trans [trans]: "grows a b \<Longrightarrow> grows b c \<Longrightarrow> grows a c"
  unfolding grows_def map_le_def by (metis domIff)

text \<open>The answer to a request for the tree, added to what is known.\<close>

lemma listed_view:
  assumes tr: "tree_inv s" and r: "asked_node s m = Some r"
    and l: "l = (if TreeInfoRequest_name m = ''.'' then [] else [entry_of s r]) @
       descend (unat (mUuidCtr s)) (heap s) (TreeInfoRequest_recursive m \<noteq> 0) r (node_children (heap s r))"
    and wf: "tree_wf c" and add: "addNodes l c = (c', out)" and par: "ctree c (TreeInfoRequest_parentUuid m) = Some p"
  shows "cview c' u = (if u \<in> (\<lambda>d. node_uuid (heap s d)) ` listed s m r then sview s u else cview c u)"
    and "links_ok c \<Longrightarrow> knows c s \<Longrightarrow> links_ok c'" and "grows c c'"
proof -
  from tree_info_facts [OF tr r l] have set: "set l = entry_of s ` listed s m r"
    and first: "parents_first (if TreeInfoRequest_name m = ''.'' then {node_uuid (heap s r)}
      else {TreeInfoRequest_parentUuid m}) l" by blast+
  have "node_uuid (heap s r) = TreeInfoRequest_parentUuid m" if "TreeInfoRequest_name m = ''.''"
    using r that tree_nodeD(3) [OF tr] by (auto simp: asked_node_def split: option.splits)
  with first have "parents_first {TreeInfoRequest_parentUuid m} l" by (simp split: if_splits)
  note first = this
  have known: "{TreeInfoRequest_parentUuid m} \<subseteq> dom (cview c)" using par by (simp add: domIff)
  have true: "\<forall>i\<in>set l. sview s (NamedNode_uuid i) = Some (NamedNode_name i, Some (NamedNode_parentUuid i))"
    using listed_in_tree [OF tr r] entry_true [OF tr] by (fastforce simp: set)
  note all = addNodes_view [OF wf add first known true]
  have "NamedNode_uuid ` set l = (\<lambda>d. node_uuid (heap s d)) ` listed s m r"
    by (simp add: set image_image entry_of_def)
  with all(1) show "cview c' u = (if u \<in> (\<lambda>d. node_uuid (heap s d)) ` listed s m r then sview s u else cview c u)" by simp
  show "links_ok c \<Longrightarrow> knows c s \<Longrightarrow> links_ok c'" using all(2) sview_siblings [OF tr] by blast
  show "grows c c'" using all(3) by (simp add: grows_def)
qed

text \<open>What the request of an operation \<open>get\<close> leads to at the server.\<close>

lemma knows_parent:
  assumes "tree_wf c" "ctree c u = Some r"
  shows "cn_uuid (c_heap c r) = u"
  using tree_uuid [OF assms] .

lemma get_asks:
  assumes "op_request (OpGet (Some r) n rc) c = Inr (Ask q)" "cn_uuid (c_heap c r) = u"
  shows "q = TreeInfoRequest \<lparr>TreeInfoRequest_parentUuid = u, TreeInfoRequest_name = n,
    TreeInfoRequest_recursive = (if rc then 1 else 0)\<rparr>"
  using assms by (auto simp: get_request_def deref_def Let_def split: option.splits if_splits)

lemma get_exchange:
  assumes inv: "client_inv (Suc k) c" "proto_inv j s" and op: "op = OpGet (Some r) n rc" and par: "ctree c u = Some r"
    and st: "may_start t op c" "op_request op c = Inr (Ask q)" "client_send L sent' (single (c_TransactioIdCtr c) q) = Inr bs"
    and rq: "m = \<lparr>TreeInfoRequest_parentUuid = u, TreeInfoRequest_name = n, TreeInfoRequest_recursive = (if rc then 1 else 0)\<rparr>"
    and d: "asked_node s m = Some d"
  shows "\<exists>c1 c' out v. run_steps (pair_step L sent w) (round_trip t op sent' held (c_TransactioIdCtr c) q w) (s, c) =
      Inr ((s, c'), out @ [Returned t v]) \<and> cview c' = cview c1 \<and> tree_wf c1 \<and> ctree c' = ctree c1 \<and>
    (\<forall>x. cview c1 x = (if x \<in> (\<lambda>d. node_uuid (heap s d)) ` listed s m d then sview s x else cview c x)) \<and>
    (links_ok c \<and> knows c s \<longrightarrow> links_ok c') \<and> grows c c' \<and> no_return out \<and>
    v = (if n = ''.'' then RProperty (Some r) else RProperty (ctree c1 (node_uuid (heap s d))))"
proof -
  have tr: "tree_inv s" using inv(2) by (simp add: proto_inv_def)
  have wf: "tree_wf c" using inv(1) by (simp add: client_inv_def)
  have q: "q = TreeInfoRequest m" using get_asks [of r n rc c q u] st(2) tree_uuid [OF wf par] op rq by simp
  define l where "l = (if TreeInfoRequest_name m = ''.'' then [] else [entry_of s d]) @
       descend (unat (mUuidCtr s)) (heap s) (TreeInfoRequest_recursive m \<noteq> 0) d (node_children (heap s d))"
  let ?a = "TreeInfoResponse \<lparr>TreeInfoResponse_nodeToAddList = l\<rparr>"
  have srv: "handle held (c_TransactioIdCtr c) q w s = Inr (s, [Send w (single (c_TransactioIdCtr c) ?a)])"
    using tree_info_list [OF tr d refl] by (simp add: q l_def)
  then obtain e where e: "run_steps (pair_step L sent w) (round_trip t op sent' held (c_TransactioIdCtr c) q w) (s, c) =
      bindR (op_response op ?a e) (\<lambda>(c', out, v). Inr ((s, returned t v c'),
        Sent (single (c_TransactioIdCtr c) q) bs # out @ [Returned t v]))" "same_tree c e" "tree_wf e"
    using plain_exchange [OF inv(1) st srv, of "?a" sent] by auto
  obtain c1 o1 where c1: "addNodes l e = (c1, o1)" by fastforce
  have "ctree e (TreeInfoRequest_parentUuid m) = Some r" using e(2) par rq by (simp add: same_tree_def)
  note after = listed_view [OF tr d l_def e(3) c1 this]
  have links: "links_ok c1" if "links_ok c" "knows c s"
  proof (rule after(2))
    show "links_ok e" by (rule links_same [OF that(1)]) (use e(2) in \<open>simp_all add: same_tree_def\<close>)
    show "knows e s" using that(2) same_tree_views [OF e(2)] by simp
  qed
  have grow: "grows c (returned t v c1)" for v
    using grows_trans [OF same_tree_grows [OF e(2)] after(3)] by (simp add: grows_def)
  from after(1) same_tree_views [OF e(2)]
  have view: "cview c1 x = (if x \<in> (\<lambda>d. node_uuid (heap s d)) ` listed s m d then sview s x else cview c x)" for x by simp
  obtain v where dv: "tree s v = Some d" using asked_in_tree [OF tr d] by blast
  have found: "ctree c1 (node_uuid (heap s d)) \<noteq> None" if "n \<noteq> ''.''"
  proof -
    have "d \<in> listed s m d" using that rq by (simp add: listed_def)
    moreover have "sview s (node_uuid (heap s d)) \<noteq> None" using dv tree_nodeD(3) [OF tr dv] by simp
    ultimately have "cview c1 (node_uuid (heap s d)) \<noteq> None" unfolding view by auto
    then show ?thesis by simp
  qed
  let ?v = "if n = ''.'' then RProperty (Some r) else RProperty (ctree c1 (node_uuid (heap s d)))"
  have "op_response op ?a e = Inr (c1, o1, ?v)"
  proof (cases "n = ''.''")
    case False
    then obtain l' where l: "l = entry_of s d # l'" by (simp add: l_def rq)
    from found [OF False] obtain x where "ctree c1 (node_uuid (heap s d)) = Some x" by blast
    moreover have "NamedNode_uuid (entry_of s d) = node_uuid (heap s d)" by (simp add: entry_of_def)
    ultimately show ?thesis using c1 False by (simp add: op get_response_def l)
  qed (use c1 in \<open>simp add: op get_response_def\<close>)
  then have run: "run_steps (pair_step L sent w) (round_trip t op sent' held (c_TransactioIdCtr c) q w) (s, c) =
      Inr ((s, returned t ?v c1), (Sent (single (c_TransactioIdCtr c) q) bs # o1) @ [Returned t ?v])"
    unfolding e(1) by simp
  show ?thesis
    by (intro exI conjI allI, rule run) (use tree_wf_addNodes [OF e(3) c1] view links grow addNodes_silent [OF c1] in simp_all)
qed

text \<open>A child of the server's that is asked for by name.\<close>

lemma get_child:
  assumes "client_inv (Suc k) c" "proto_inv j s" "knows c s" "ctree c u = Some r"
    and "tree s u = Some p" "child s p n = Some d" "n \<noteq> ''.''"
    and "may_start t (OpGet (Some r) n rc) c" "op_request (OpGet (Some r) n rc) c = Inr (Ask q)"
    and "client_send L sent' (single (c_TransactioIdCtr c) q) = Inr bs"
  shows "\<exists>c' out x. run_steps (pair_step L sent w)
      (round_trip t (OpGet (Some r) n rc) sent' held (c_TransactioIdCtr c) q w) (s, c) =
      Inr ((s, c'), out @ [Returned t (RProperty (Some x))]) \<and> knows c' s \<and>
    ctree c' (node_uuid (heap s d)) = Some x \<and> cview c' (node_uuid (heap s d)) = Some (n, Some u) \<and>
    no_return out \<and> (links_ok c \<longrightarrow> links_ok c') \<and> grows c c'"
proof -
  let ?m = "\<lparr>TreeInfoRequest_parentUuid = u, TreeInfoRequest_name = n, TreeInfoRequest_recursive = (if rc then 1 else 0)\<rparr>"
  let ?v = "node_uuid (heap s d)"
  have tr: "tree_inv s" using assms(2) by (simp add: proto_inv_def)
  have asked: "asked_node s ?m = Some d" using assms(5-7) by (simp add: asked_node_def)
  from get_exchange [OF assms(1,2) refl assms(4,8,9,10) refl asked, of sent w held] assms(3,7)
  obtain c1 c' out where run: "run_steps (pair_step L sent w)
      (round_trip t (OpGet (Some r) n rc) sent' held (c_TransactioIdCtr c) q w) (s, c) =
      Inr ((s, c'), out @ [Returned t (RProperty (ctree c1 ?v))])" "no_return out"
    and links: "links_ok c \<longrightarrow> links_ok c'" "grows c c'"
    and view: "cview c' = cview c1" "ctree c' = ctree c1"
      "cview c1 x = (if x \<in> (\<lambda>d. node_uuid (heap s d)) ` listed s ?m d then sview s x else cview c x)" for x
    by (simp del: run_steps.simps pair_step.simps) blast
  have "knows c' s" using knowsD [OF assms(3)] unfolding map_le_def view(1,3) by (auto simp: domIff simp del: cview_None sview_None)
  from tree_childE [OF tr assms(5,6)]
  have dv: "tree s ?v = Some d" "node_name (heap s d) = n" "node_parent (heap s d) = Some p"
    using tree_nodeD(3) [OF tr] by auto
  then have truth: "sview s ?v = Some (n, Some u)"
    using tree_nodeD(3) [OF tr assms(5)] by (simp add: sview_def abs_tree_Some abs_node_def)
  have "d \<in> listed s ?m d" using assms(7) by (simp add: listed_def)
  then have new: "cview c1 ?v = Some (n, Some u)" using truth unfolding view(3) by auto
  then obtain x where x: "ctree c1 ?v = Some x" by (cases "ctree c1 ?v") (simp_all add: cview_def)
  with run view(1,2) new \<open>knows c' s\<close> links x show ?thesis
    by (intro exI [of _ c'] exI [of _ out] exI [of _ x] conjI) simp_all
qed

text \<open>A value that is set: acknowledged, and announced to the client itself if it has subscribed.\<close>

lemma set_value_box:
  assumes "proto_inv (Suc k) s" "tree s u = Some r" "u = 0 \<longrightarrow> \<not> terminate_value d"
  shows "\<exists>s' out ms. handle held t (SetValueRequest \<lparr>SetValueRequest_uuid = u, SetValueRequest_data = d\<rparr>) w s = Inr (s', out) \<and>
    inbox w out = single t (SetValueAccept \<lparr>SetValueAccept_spare = 0\<rparr>) # ms \<and>
    (\<forall>y\<in>set ms. y = single notification_id (announce (Changed u d))) \<and>
    sview s' = sview s \<and> svalue s' = (svalue s)(u \<mapsto> d)"
proof -
  have tr: "tree_inv s" using assms(1) by (simp add: proto_inv_def)
  let ?x = "single notification_id (announce (Changed u d))"
  let ?m = "\<lparr>SetValueRequest_uuid = u, SetValueRequest_data = d\<rparr>"
  let ?s = "s\<lparr>heap := (heap s)(r := (heap s r)\<lparr>node_data := d\<rparr>)\<rparr>"
  have eq: "handle_SetValueRequest held t ?m w s = (?s, Send w (single t (SetValueAccept \<lparr>SetValueAccept_spare = 0\<rparr>)) #
      map (\<lambda>v. Send v ?x) (subscribers (w # held) s r))"
    using assms(2,3) tree_nodeD(3) [OF tr assms(2)] by (auto simp: handle_SetValueRequest_eq [OF assms(1)])
  have "inbox w (map (\<lambda>v. Send v ?x) vs) = map (\<lambda>_. ?x) (filter (\<lambda>v. v = w) vs)" for vs by (induction vs) simp_all
  moreover have "tree_request (SetValueRequest ?m)" using assms(3) by simp
  then have "abs_tree ?s = (abs_tree s)(u \<mapsto> (abs_node s r)\<lparr>a_data := d\<rparr>)"
    using refine_SetValue [OF assms(1), of ?m held t w None 0] assms(2) eq by (simp add: abs_tree_Some)
  then have "sview ?s = sview s" "svalue ?s = (svalue s)(u \<mapsto> d)"
    using assms(2) by (auto simp: sview_def svalue_def fun_eq_iff abs_tree_Some)
  ultimately show ?thesis by (simp add: eq)
qed

end
