(* ===== verification/Property.thy ===== *)
theory Property
  imports ClientOps
begin

text \<open>
  The handles users of the library work with (\<open>client/src/Property.hpp\<close>). A method of \<open>Property\<close>
  reads and writes the node it refers to and calls operations of the client, which block. Code that
  does so is a \<open>prog\<close>: what it does next, up to the next operation, as a function of the client it
  looks at and of the results it gets; who runs it decides what an operation does
  (\<open>run_prog\<close>).
\<close>

section \<open>Programs that use a client\<close>

datatype 'a prog =
    Done 'a
  | Fail fault
  | Look "Client \<Rightarrow> 'a prog"
  | Change "Client \<Rightarrow> Client" "'a prog"
  | Invoke Op "result \<Rightarrow> 'a prog"

primrec bindP :: "'a prog \<Rightarrow> ('a \<Rightarrow> 'b prog) \<Rightarrow> 'b prog" where
  "bindP (Done a) f = f a"
| "bindP (Fail e) f = Fail e"
| "bindP (Look g) f = Look (\<lambda>c. bindP (g c) f)"
| "bindP (Change h p) f = Change h (bindP p f)"
| "bindP (Invoke op k) f = Invoke op (\<lambda>v. bindP (k v) f)"

text \<open>
  Running a program in a world that contains the client: \<open>get_client\<close> and \<open>put_client\<close> reach it,
  \<open>op_env\<close> says what an operation does to the world and what it returns.
\<close>

primrec run_prog :: "('w \<Rightarrow> Client) \<Rightarrow> (Client \<Rightarrow> 'w \<Rightarrow> 'w) \<Rightarrow> (Op \<Rightarrow> 'w \<Rightarrow> fault + ('w \<times> result)) \<Rightarrow>
    'a prog \<Rightarrow> 'w \<Rightarrow> fault + ('w \<times> 'a)" where
  "run_prog gc pc env (Done a) = (\<lambda>w. Inr (w, a))"
| "run_prog gc pc env (Fail e) = (\<lambda>w. Inl e)"
| "run_prog gc pc env (Look g) = (\<lambda>w. run_prog gc pc env (g (gc w)) w)"
| "run_prog gc pc env (Change h p) = (\<lambda>w. run_prog gc pc env p (pc (h (gc w)) w))"
| "run_prog gc pc env (Invoke op k) = (\<lambda>w. bindR (env op w) (\<lambda>(w, v). run_prog gc pc env (k v) w))"

lemma run_bindP: "run_prog gc pc env (bindP p f) w =
    bindR (run_prog gc pc env p w) (\<lambda>(w, a). run_prog gc pc env (f a) w)"
proof (induction p arbitrary: w)
  case (Invoke op k)
  then show ?case by (cases "env op w") auto
qed auto

lemma bindP_assoc: "bindP (bindP p f) g = bindP p (\<lambda>a. bindP (f a) g)"
  by (induction p) simp_all

lemma bindP_Done [simp]: "bindP p Done = p"
  by (induction p) simp_all

section \<open>Properties\<close>

text \<open>The pointer to the client is null in a default constructed \<open>Property\<close> only.\<close>

record Property =
  mClient :: bool
  mNode :: handle

definition empty_Property :: Property where
  "empty_Property = \<lparr>mClient = False, mNode = None\<rparr>"

text \<open>\<open>Property(*this, node)\<close>, which is what the operations of the client return.\<close>

definition make_Property :: "handle \<Rightarrow> Property" where
  "make_Property h = \<lparr>mClient = True, mNode = h\<rparr>"

text \<open>\<open>operator bool\<close>\<close>

definition to_bool :: "Property \<Rightarrow> bool" where
  "to_bool p \<longleftrightarrow> mNode p \<noteq> None"

text \<open>\<open>mNode->\<close>\<close>

definition on_node :: "Property \<Rightarrow> (cref \<Rightarrow> 'a prog) \<Rightarrow> 'a prog" where
  "on_node p f = (case mNode p of None \<Rightarrow> Fail NullDeref | Some r \<Rightarrow> f r)"

text \<open>\<open>mClient->\<close>; an exception of the operation passes through.\<close>

definition on_client :: "Property \<Rightarrow> Op \<Rightarrow> (result \<Rightarrow> 'a prog) \<Rightarrow> 'a prog" where
  "on_client p op k = (if mClient p then Invoke op (\<lambda>v. case v of RThrow w \<Rightarrow> Fail (Thrown w) | _ \<Rightarrow> k v)
     else Fail NullDeref)"

text \<open>An operation that returns a \<open>Property\<close>, bytes or a truth value.\<close>

definition as_Property :: "result \<Rightarrow> Property" where
  "as_Property v = (case v of RProperty h \<Rightarrow> make_Property h | _ \<Rightarrow> empty_Property)"

definition as_bytes :: "result \<Rightarrow> u8 list" where
  "as_bytes v = (case v of RBytes bs \<Rightarrow> bs | _ \<Rightarrow> [])"

definition as_bool :: "result \<Rightarrow> bool" where
  "as_bool v = (case v of RBool b \<Rightarrow> b | _ \<Rightarrow> False)"

definition write_node :: "cref \<Rightarrow> (u8 list \<Rightarrow> u8 list) \<Rightarrow> Client \<Rightarrow> Client" where
  "write_node r f c = c\<lparr>c_heap := (c_heap c)(r := (c_heap c r)\<lparr>cn_data := f (cn_data (c_heap c r))\<rparr>)\<rparr>"

section \<open>Values\<close>

text \<open>
  A value of a trivially copyable type is its bytes; \<open>sizeof(T)\<close> is their number. Placement \<open>new\<close>
  writes them over the bytes that are there, \<open>resize\<close> cuts off or pads with zeros.
\<close>

definition place :: "u8 list \<Rightarrow> u8 list \<Rightarrow> u8 list" where
  "place bs d = bs @ drop (length bs) d"

definition resize :: "nat \<Rightarrow> u8 list \<Rightarrow> u8 list" where
  "resize n d = take n d @ replicate (n - length d) 0"

definition prop_assign :: "u8 list \<Rightarrow> Property \<Rightarrow> unit prog" where
  "prop_assign pOther p = on_node p (\<lambda>r. Look (\<lambda>c.
     let d = cn_data (c_heap c r) in
     Change (write_node r (\<lambda>d. if length pOther = length d then place pOther d
       else place pOther (resize (length pOther) d)))
     (on_client p (OpCommit (mNode p)) (\<lambda>_. Done ()))))"

definition prop_set :: "u8 list \<Rightarrow> Property \<Rightarrow> unit prog" where
  "prop_set pValue p = on_node p (\<lambda>r. Change (write_node r (\<lambda>_. pValue))
     (on_client p (OpCommit (mNode p)) (\<lambda>_. Done ())))"

definition prop_value :: "nat \<Rightarrow> Property \<Rightarrow> u8 list option prog" where
  "prop_value n p = on_node p (\<lambda>r. Look (\<lambda>c.
     Done (if n = length (cn_data (c_heap c r)) then Some (cn_data (c_heap c r)) else None)))"

definition prop_raw :: "Property \<Rightarrow> u8 list prog" where
  "prop_raw p = on_node p (\<lambda>r. Look (\<lambda>c. Done (cn_data (c_heap c r))))"

section \<open>Operations\<close>

definition prop_fetch :: "Property \<Rightarrow> unit prog" where
  "prop_fetch p = on_client p (OpFetch (mNode p)) (\<lambda>_. Done ())"

definition prop_create :: "string \<Rightarrow> Property \<Rightarrow> Property prog" where
  "prop_create pName p = on_client p (OpCreate (mNode p) pName) (\<lambda>v. Done (as_Property v))"

definition prop_get :: "string \<Rightarrow> Property \<Rightarrow> Property prog" where
  "prop_get pName p = on_client p (OpGet (mNode p) pName False) (\<lambda>v. Done (as_Property v))"

definition prop_createOrGet :: "string \<Rightarrow> Property \<Rightarrow> Property prog" where
  "prop_createOrGet pName p = bindP (prop_get pName p) (\<lambda>rv.
     if \<not> to_bool rv then prop_create pName p else Done rv)"

definition prop_subscribe :: "Property \<Rightarrow> unit prog" where
  "prop_subscribe p = on_client p (OpSubscribe (mNode p)) (\<lambda>_. Done ())"

definition prop_unsubscribe :: "Property \<Rightarrow> unit prog" where
  "prop_unsubscribe p = on_client p (OpUnsubscribe (mNode p)) (\<lambda>_. Done ())"

definition prop_destroy :: "Property \<Rightarrow> bool prog" where
  "prop_destroy p = on_client p (OpDestroy (mNode p)) (\<lambda>v. Done (as_bool v))"

definition prop_loadChildren :: "bool \<Rightarrow> Property \<Rightarrow> unit prog" where
  "prop_loadChildren pRecursive p = on_client p (OpGet (mNode p) ''.'' pRecursive) (\<lambda>_. Done ())"

definition prop_call :: "u8 list \<Rightarrow> Property \<Rightarrow> u8 list prog" where
  "prop_call pValue p = on_client p (OpCall (mNode p) pValue) (\<lambda>v. Done (as_bytes v))"

text \<open>What a program asks the client itself for.\<close>

definition client_root :: "Property prog" where
  "client_root = on_client (make_Property None) OpRoot (\<lambda>v. Done (as_Property v))"

definition client_beat :: "unit prog" where
  "client_beat = on_client (make_Property None) OpBeat (\<lambda>_. Done ())"

section \<open>The node\<close>

text \<open>A \<open>Property\<close> that is made from a pointer holds the node.\<close>

definition hold :: "cref list \<Rightarrow> Client \<Rightarrow> Client" where
  "hold rs c = c\<lparr>c_held := rs @ c_held c\<rparr>"

definition prop_children :: "Property \<Rightarrow> (string \<times> Property) list prog" where
  "prop_children p = on_node p (\<lambda>r. Look (\<lambda>c. Change (hold (map snd (cn_children (c_heap c r))))
     (Done (map (\<lambda>(n, d). (n, make_Property (Some d))) (cn_children (c_heap c r))))))"

definition prop_childrenSize :: "Property \<Rightarrow> nat prog" where
  "prop_childrenSize p = on_node p (\<lambda>r. Look (\<lambda>c. Done (length (cn_children (c_heap c r)))))"

definition with_rcpHandler :: "cref \<Rightarrow> (u8 list \<Rightarrow> u8 list) option \<Rightarrow> Client \<Rightarrow> Client" where
  "with_rcpHandler r h c = c\<lparr>c_heap := (c_heap c)(r := (c_heap c r)\<lparr>cn_rcpHandler := h\<rparr>)\<rparr>"

definition with_updateHandler :: "cref \<Rightarrow> bool \<Rightarrow> Client \<Rightarrow> Client" where
  "with_updateHandler r h c = c\<lparr>c_heap := (c_heap c)(r := (c_heap c r)\<lparr>cn_updateHandler := h\<rparr>)\<rparr>"

definition prop_setHRcpHandler :: "(u8 list \<Rightarrow> u8 list) option \<Rightarrow> Property \<Rightarrow> unit prog" where
  "prop_setHRcpHandler pHandler p = on_node p (\<lambda>r. Change (with_rcpHandler r pHandler) (Done ()))"

definition prop_setUpdateHandler :: "bool \<Rightarrow> Property \<Rightarrow> unit prog" where
  "prop_setUpdateHandler pHandler p = on_node p (\<lambda>r. Change (with_updateHandler r pHandler) (Done ()))"

definition prop_uuid :: "Property \<Rightarrow> u64 prog" where
  "prop_uuid p = on_node p (\<lambda>r. Look (\<lambda>c. Done (cn_uuid (c_heap c r))))"

definition prop_name :: "Property \<Rightarrow> string prog" where
  "prop_name p = on_node p (\<lambda>r. Look (\<lambda>c. Done (cn_name (c_heap c r))))"

definition prop_parent :: "Property \<Rightarrow> Property option prog" where
  "prop_parent p = on_node p (\<lambda>r. Look (\<lambda>c. case lock c (cn_parent (c_heap c r)) of
     Some q \<Rightarrow> Change (hold [q]) (Done (Some (make_Property (Some q))))
   | None \<Rightarrow> Done None))"

lemmas prop_defs = prop_assign_def prop_set_def prop_value_def prop_raw_def prop_fetch_def prop_create_def
  prop_get_def prop_createOrGet_def prop_subscribe_def prop_unsubscribe_def prop_destroy_def
  prop_loadChildren_def prop_call_def prop_children_def prop_childrenSize_def prop_setHRcpHandler_def
  prop_setUpdateHandler_def prop_uuid_def prop_name_def prop_parent_def on_node_def on_client_def

lemma prop_assign_set: "prop_assign bs p = on_node p (\<lambda>r. Look (\<lambda>c. Change (write_node r (\<lambda>_. bs))
     (on_client p (OpCommit (mNode p)) (\<lambda>_. Done ()))))"
proof -
  have "(if length bs = length d then place bs d else place bs (resize (length bs) d)) = bs" for d
    by (simp add: place_def resize_def)
  then show ?thesis by (simp add: prop_assign_def)
qed

end
