(* ===== verification/Perform.thy ===== *)
theory Perform
  imports Exchange Property
begin

text \<open>
  Operations of a client whose server answers: \<open>perform\<close> is what an operation does when the request is
  sent, the server handles it, the client handles what it is sent, and the thread resumes, or gives
  up if it has not been answered. For every operation: what it returns and does to both.
\<close>

section \<open>What stays of a client\<close>

text \<open>A client stays set up, and keeps what is held until it is dropped.\<close>

definition steady :: "Client \<Rightarrow> Client \<Rightarrow> bool" where
  "steady c d \<longleftrightarrow> (c_constructed c \<longrightarrow> c_constructed d) \<and> set (c_held c) \<subseteq> set (c_held d)"

lemma steady_refl [simp]: "steady c c"
  by (simp add: steady_def)

lemma steady_trans [trans]: "steady a b \<Longrightarrow> steady b c \<Longrightarrow> steady a c"
  by (auto simp: steady_def)

lemma steady_same: "c_constructed d = c_constructed c \<Longrightarrow> c_held d = c_held c \<Longrightarrow> steady c d"
  by (simp add: steady_def)

lemma steady_nodes:
  "add_node i c = (c', out) \<Longrightarrow> steady c c'"
  "remove_node u c = (c', out) \<Longrightarrow> steady c c'"
  by (rule steady_same; auto simp: add_node_def remove_node_eq make_Node_def client_simps Let_def split: option.splits)+

lemma steady_addNodes: "addNodes xs c = (c', out) \<Longrightarrow> steady c c'"
  by (rule addNodes_keeps [where P = "steady c"]) (auto intro: steady_trans steady_nodes)

lemma steady_removeNodes: "removeNodes xs c = (c', out) \<Longrightarrow> steady c c'"
  by (rule removeNodes_keeps [where P = "steady c"]) (auto intro: steady_trans steady_nodes)

lemma steady_visit:
  assumes "client_visit L sent t m c = Inr (c', out)"
  shows "steady c c'"
proof (cases m)
  case (TreeUpdateNotification x)
  then obtain d o1 o2 where d: "addNodes (TreeUpdateNotification_nodeToAddList x) c = (d, o1)"
    "removeNodes (TreeUpdateNotification_nodeToDelete x) d = (c', o2)"
    using assms by (auto simp: client_TreeUpdateNotification_def split: prod.splits)
  show ?thesis using steady_trans [OF steady_addNodes [OF d(1)] steady_removeNodes [OF d(2)]] .
qed (use assms in \<open>auto simp: client_UpdateNotification_def client_RpcRequest_def store_value_def Let_def steady_def
  split: option.splits\<close>)

lemma steady_handle: "client_handle L sent m c = Inr (c', out) \<Longrightarrow> steady c c'"
  by (rule client_handle_keeps [where P = "steady c"])
    (auto simp: client_handle_message_def steady_same split: option.splits dest: steady_visit intro: steady_trans)

lemma steady_handled: "run_steps (client_handle L sent) ms c = Inr (c', out) \<Longrightarrow> steady c c'"
  by (induction ms arbitrary: c out) (auto dest!: steady_handle intro: steady_trans)

lemma steady_response:
  assumes "op_response op m c = Inr (c', out, v)"
  shows "steady c c'"
proof (cases op)
  case (OpGet p n rc)
  show ?thesis
  proof (cases m)
    case (TreeInfoResponse a)
    obtain d o1 where d: "addNodes (TreeInfoResponse_nodeToAddList a) c = (d, o1)" by fastforce
    moreover have "c' = d" using assms OpGet TreeInfoResponse d
      by (auto simp: get_response_def split: if_splits list.splits option.splits)
    ultimately show ?thesis using steady_addNodes by simp
  qed (use assms OpGet in \<open>auto simp: get_response_def\<close>)
qed (use assms in \<open>cases m; auto simp: signin_response_def create_response_def commit_response_def fetch_response_def
      subscribe_response_def unsubscribe_response_def destroy_eq beat_response_def call_response_def store_value_def
      make_Node_def client_simps steady_def Let_def split: option.splits if_splits\<close>)+

lemma steady_returned: "steady c (returned t v c)"
  by (auto simp: returned_def steady_def split: result.split option.split)

lemma steady_start:
  assumes "client_step L (Start t op sent) c = Inr (c', out)"
  shows "steady c c'"
proof (cases "may_start t op c")
  case True
  with assms obtain q where q: "op_request op c = Inr q" by (auto simp: start_def)
  show ?thesis
  proof (cases q)
    case (Early v)
    with assms True q show ?thesis by (auto simp: start_def intro: steady_returned)
  next
    case (Ask m)
    obtain i ctr where i: "next_id (c_TransactioIdCtr c) = (i, ctr)" by fastforce
    let ?d = "c\<lparr>c_TransactioIdCtr := ctr, c_Transactions := um_emplace i new_Transaction (c_Transactions c)\<rparr>"
    have d: "steady c ?d" by (simp add: steady_same)
    show ?thesis
    proof (cases "client_send L sent (single i m)")
      case (Inl f)
      with True assms q Ask i obtain w where "c' = returned t (RThrow w) ?d"
        by (cases f) (auto simp: start_def addTransaction_def)
      with steady_trans [OF d steady_returned] show ?thesis by simp
    qed (use True assms q Ask i in \<open>auto simp: start_def addTransaction_def steady_same\<close>)
  qed
qed (use assms in simp)

lemma steady_resume:
  assumes "client_step L (Resume t) c = Inr (c', out)"
  shows "steady c c'"
proof (cases "map_of (c_waiting c) t")
  case (Some x)
  obtain i op where x: "x = (i, op)" by fastforce
  obtain w where w: "waitTransaction i c = Inr w" using assms Some x by (auto simp: resume_def)
  show ?thesis
  proof (cases w)
    case (Some y)
    obtain d m where y: "y = (d, m)" by fastforce
    have "steady c d" using w Some y by (auto simp: waitTransaction_def steady_same split: option.splits if_splits)
    moreover obtain e o1 v where "op_response op m d = Inr (e, o1, v)" "c' = returned t v e"
      using assms \<open>map_of (c_waiting c) t = Some x\<close> x w Some y by (auto simp: resume_def)
    ultimately show ?thesis using steady_response steady_returned by (blast intro: steady_trans)
  qed (use assms Some x w in \<open>auto simp: resume_def\<close>)
qed (use assms in \<open>auto simp: resume_def\<close>)

text \<open>What an operation does to the client, and to the server: what the specification says.\<close>

definition does :: "conn \<Rightarrow> PropertyTreeMessages \<Rightarrow> ProtocolHandler \<Rightarrow> ProtocolHandler \<Rightarrow> bool" where
  "does w q s s' \<longleftrightarrow> session_of s' w = session_of s w \<and>
     abs_tree s' = fst (spec_handle (session_of s w) (ucast (mUuidCtr s)) q (abs_tree s))"

text \<open>What a request to set a value does to what the clients can see.\<close>

lemma does_set:
  assumes "does w (SetValueRequest \<lparr>SetValueRequest_uuid = u, SetValueRequest_data = d\<rparr>) s s'" "tree s u \<noteq> None"
  shows "sview s' = sview s" "svalue s' = (svalue s)(u \<mapsto> d)"
  using assms by (auto simp: does_def sview_def svalue_def abs_tree_Some fun_eq_iff)

lemma steady_round_trip:
  assumes "run_steps (pair_step L sent w) (round_trip t op sent' held i q w) (s, c) = Inr ((s', c'), out)"
    and "proto_inv (Suc k) s"
  shows "steady c c'" and "session_of s w = Some j \<Longrightarrow> session_of s' w = Some j"
    and "tree_request q \<Longrightarrow> abs_tree s' = fst (spec_handle (session_of s w) (ucast (mUuidCtr s)) q (abs_tree s))"
proof -
  obtain c1 c2 o1 o2 o3 o4 where steps: "client_step L (Start t op sent') c = Inr (c1, o1)"
    "handle held i q w s = Inr (s', o2)" "run_steps (client_handle L sent) (inbox w o2) c1 = Inr (c2, o3)"
    "client_step L (Resume t) c2 = Inr (c', o4)"
    using assms(1) by (auto simp: single_def onMsg_message_def simp del: client_step.simps)
  show "steady c c'"
    using steady_start [OF steps(1)] steady_handled [OF steps(3)] steady_resume [OF steps(4)] by (blast intro: steady_trans)
  show "session_of s w = Some j \<Longrightarrow> session_of s' w = Some j"
    using signed_in_handle [OF _ steps(2)] assms(2) by (auto simp: signed_in_def proto_inv_def)
  show "tree_request q \<Longrightarrow> abs_tree s' = fst (spec_handle (session_of s w) (ucast (mUuidCtr s)) q (abs_tree s))"
    using refine_handle [OF assms(2) steps(2)] by simp
qed

section \<open>Operations that are answered\<close>

fun sent_messages :: "client_action list \<Rightarrow> PropertyTreeProtocol list" where
  "sent_messages [] = []"
| "sent_messages (Sent m bs # out) = m # sent_messages out"
| "sent_messages (_ # out) = sent_messages out"

fun return_of :: "nat \<Rightarrow> client_action list \<Rightarrow> result option" where
  "return_of t [] = None"
| "return_of t (Returned u v # out) = (if u = t then Some v else return_of t out)"
| "return_of t (_ # out) = return_of t out"

definition perform :: "cum \<Rightarrow> conn \<Rightarrow> conn list \<Rightarrow> Op \<Rightarrow> ProtocolHandler \<times> Client \<Rightarrow>
    fault + ((ProtocolHandler \<times> Client) \<times> result)" where
  "perform L w held op x =
     bindR (pair_step L True w (Local (Start 0 op True)) x) (\<lambda>(x, out).
     bindR (run_steps (pair_step L True w) (map (\<lambda>m. Serve (Message held m w)) (sent_messages out) @
       [Local (Resume 0), Local (Timeout 0)]) x) (\<lambda>(x, out').
     case return_of 0 (out @ out') of None \<Rightarrow> Inl Diverges | Some v \<Rightarrow> Inr (x, v)))"

lemma return_of_silent: "no_return out \<Longrightarrow> return_of t (out @ out') = return_of t out'"
proof (induction out)
  case (Cons a out)
  then show ?case by (cases a) (auto simp: no_return_def)
qed simp

lemma returned_waiting: "map_of (c_waiting (returned t v c)) t = None"
  by (simp add: returned_def um_find_erase)

lemma pair_serve_silent:
  assumes "pair_step L sent w (Serve e) x = Inr (x', out)"
  shows "no_return out"
proof -
  obtain s c where x: "x = (s, c)" by fastforce
  have run: "run_steps (client_handle L sent) ms c = Inr (c', out) \<Longrightarrow> no_return out" for ms c c' out
    by (induction ms arbitrary: c out) (auto dest: handle_silent)
  show ?thesis using assms x by (auto dest: run)
qed

lemma perform_round_trip:
  assumes inv: "client_inv (Suc k) c" and st: "may_start 0 op c" "op_request op c = Inr (Ask q)"
    and snd: "client_send L True (single (c_TransactioIdCtr c) q) = Inr bs"
    and run: "run_steps (pair_step L True w) (round_trip 0 op True held (c_TransactioIdCtr c) q w) (s, c) =
      Inr ((s', c'), out @ [Returned 0 v])" and quiet: "no_return out"
  shows "perform L w held op (s, c) = Inr ((s', c'), v)" and "map_of (c_waiting c') 0 = None"
    and "\<exists>d. c' = returned 0 v d"
proof -
  let ?i = "c_TransactioIdCtr c"
  have start: "pair_step L True w (Local (Start 0 op True)) (s, c) = Inr ((s, asking 0 op c), [Sent (single ?i q) bs])"
    using start_asking [OF inv st snd] by simp
  obtain x o2 o3 where steps: "pair_step L True w (Serve (Message held (single ?i q) w)) (s, asking 0 op c) = Inr (x, o2)"
    "pair_step L True w (Local (Resume 0)) x = Inr ((s', c'), o3)" "Sent (single ?i q) bs # o2 @ o3 = out @ [Returned 0 v]"
    using run start by (auto simp del: pair_step.simps)
  have "no_return o2" using pair_serve_silent [OF steps(1)] .
  moreover have "Returned 0 v \<in> set (Sent (single ?i q) bs # o2 @ o3)" unfolding steps(3) by simp
  ultimately have "o3 \<noteq> []" by (auto simp: no_return_def)
  then have "last o3 = Returned 0 v" using arg_cong [OF steps(3), of last] by simp
  with \<open>o3 \<noteq> []\<close> have "Returned 0 v \<in> set o3" by (metis last_in_set)
  moreover obtain s1 c1 where x: "x = (s1, c1)" by fastforce
  ultimately show "\<exists>d. c' = returned 0 v d"
    using steps(2) step_returns [of L "Resume 0" c1 c' o3 0 v] by auto
  then show "map_of (c_waiting c') 0 = None" by (elim exE) (simp only: returned_waiting)
  then have "pair_step L True w (Local (Timeout 0)) (s', c') = Inr ((s', c'), [])" by (simp add: timeout_def)
  moreover have "return_of 0 (o2 @ o3) = Some v"
    using return_of_silent [OF quiet, of 0 "[Returned 0 v]"] unfolding steps(3) [symmetric] by simp
  ultimately show "perform L w held op (s, c) = Inr ((s', c'), v)"
    using start steps(1,2) by (simp add: perform_def del: pair_step.simps)
qed

text \<open>An operation that needs no request.\<close>

lemma perform_early:
  assumes "may_start 0 op c" "op_request op c = Inr (Early v)"
  shows "perform L w held op (s, c) = Inr ((s, returned 0 v c), v)"
proof -
  have "pair_step L True w (Local (Start 0 op True)) (s, c) = Inr ((s, returned 0 v c), [Returned 0 v])"
    using assms by (simp add: start_def)
  moreover have "client_step L (Resume 0) (returned 0 v c) = Inr (returned 0 v c, [])"
    "client_step L (Timeout 0) (returned 0 v c) = Inr (returned 0 v c, [])"
    by (simp_all only: client_step.simps resume_def timeout_def returned_waiting option.case)
  ultimately show ?thesis by (simp add: perform_def del: client_step.simps)
qed

section \<open>A client beside its server\<close>

text \<open>
  What holds between the operations of a client on connection \<open>w\<close>: it is set up, signed in and does
  not wait, it knows nothing of the tree that is wrong and finds its children as the tree says. \<open>k\<close>
  bounds the messages that can still be exchanged.
\<close>

fun usable :: "conn \<Rightarrow> nat \<Rightarrow> ProtocolHandler \<times> Client \<Rightarrow> bool" where
  "usable w k (s, c) = (client_inv k c \<and> proto_inv k s \<and> c_constructed c \<and> map_of (c_waiting c) 0 = None \<and>
     links_ok c \<and> knows c s \<and> ctree c 0 \<noteq> None \<and> session_of s w \<noteq> None)"

lemma usable_wf: "usable w k (s, c) \<Longrightarrow> tree_wf c" "usable w k (s, c) \<Longrightarrow> tree_inv s"
  by (simp_all add: client_inv_def proto_inv_def)

lemma usable_mono: "usable w k x \<Longrightarrow> j \<le> k \<Longrightarrow> usable w j x"
  by (cases x) (auto intro: client_inv_mono proto_inv_mono)

lemma usable_start:
  assumes "usable w k (s, c)" "op \<noteq> OpSignin" "\<And>r. op_handle op = Some r \<Longrightarrow> r \<in> set (c_held c)"
  shows "may_start 0 op c"
  using assms by (auto simp: may_start_def split: option.split)

text \<open>A node the client knows is there at the server.\<close>

lemma usable_node:
  assumes "usable w k (s, c)" "ctree c u = Some r"
  obtains p where "tree s u = Some p"
proof -
  have "cview c u \<noteq> None" using assms(2) by simp
  with knowsD [of c s u] assms(1) have "sview s u \<noteq> None" by (metis usable.simps)
  then show ?thesis using that by auto
qed

lemma usable_root:
  assumes "usable w k (s, c)"
  shows "tree s 0 \<noteq> None"
proof -
  obtain r where "ctree c 0 = Some r" using assms by auto
  then show ?thesis using usable_node [OF assms] by blast
qed

text \<open>The round trip of an operation that keeps what is known.\<close>

lemma usable_round_trip:
  assumes use: "usable w (Suc (Suc k)) (s, c)" and st: "may_start 0 op c" "op_request op c = Inr (Ask q)"
    and snd: "client_send L True (single (c_TransactioIdCtr c) q) = Inr bs"
    and run: "run_steps (pair_step L True w) (round_trip 0 op True held (c_TransactioIdCtr c) q w) (s, c) =
      Inr ((s', c'), out @ [Returned 0 v])" and quiet: "no_return out"
    and keep: "links_ok c'" "knows c' s'" "ctree c' 0 \<noteq> None"
  shows "perform L w held op (s, c) = Inr ((s', c'), v) \<and> usable w k (s', c') \<and> steady c c' \<and>
    (\<forall>r. v = RProperty (Some r) \<longrightarrow> r \<in> set (c_held c')) \<and> (tree_request q \<longrightarrow> does w q s s')"
proof -
  have inv: "client_inv (Suc (Suc k)) c" "proto_inv (Suc (Suc k)) s" and con: "c_constructed c" using use by simp_all
  obtain j where j: "session_of s w = Some j" using use by auto
  note p = perform_round_trip [OF inv(1) st snd run quiet]
  have "pair_inv (sum_list (map pair_cost (round_trip 0 op True held (c_TransactioIdCtr c) q w)) + k) (s, c)"
    using inv by (simp add: single_def)
  from pair.run_inv [OF this run] have "pair_inv k (s', c')" .
  moreover note steady_round_trip(1,3) [OF run inv(2)] steady_round_trip(2) [OF run inv(2) j]
  ultimately show ?thesis using p keep con j returned_held by (auto simp: steady_def does_def)
qed

lemma usable_early:
  assumes use: "usable w (Suc k) (s, c)" and st: "may_start 0 op c" "op_request op c = Inr (Early v)"
  shows "perform L w held op (s, c) = Inr ((s, returned 0 v c), v) \<and> usable w k (s, returned 0 v c)"
proof -
  have "client_step L (Start 0 op True) c = Inr (returned 0 v c, [Returned 0 v])" using st by (simp add: start_def)
  with use client_step_inv [of "Start 0 op True" k c L] have "client_inv k (returned 0 v c)" by simp
  moreover have "c_constructed (returned 0 v c)" using use steady_returned [of c 0 v] by (simp add: steady_def)
  moreover have "proto_inv k s" using use proto_inv_mono [of "Suc k" s k] by simp
  moreover have "map_of (c_waiting (returned 0 v c)) 0 = None" by (rule returned_waiting)
  ultimately show ?thesis using use perform_early [OF st] by simp
qed

abbreviation learns :: "Client \<Rightarrow> Client \<Rightarrow> bool" where
  "learns c d \<equiv> steady c d \<and> grows c d"

lemma returned_learns: "learns c (returned t v c)"
  using steady_returned by (simp add: grows_def)

abbreviation ask_child :: "u64 \<Rightarrow> string \<Rightarrow> PropertyTreeMessages" where
  "ask_child u n \<equiv> TreeInfoRequest \<lparr>TreeInfoRequest_parentUuid = u, TreeInfoRequest_name = n, TreeInfoRequest_recursive = 0\<rparr>"

section \<open>The root and its descendants\<close>

lemma perform_root:
  assumes "usable w (Suc k) (s, c)" "ctree c 0 = Some r"
  shows "\<exists>c'. perform L w held OpRoot (s, c) = Inr ((s, c'), RProperty (Some r)) \<and> usable w k (s, c') \<and>
    learns c c' \<and> r \<in> set (c_held c')"
proof -
  have st: "may_start 0 OpRoot c" by (rule usable_start [OF assms(1)]) simp_all
  have "op_request OpRoot c = Inr (Early (RProperty (Some r)))" using assms(2) by (simp add: root_request_def)
  from usable_early [OF assms(1) st this, of L held] show ?thesis
    by (intro exI [of _ "returned 0 (RProperty (Some r)) c"]) (auto simp: returned_learns returned_held simp del: usable.simps)
qed

text \<open>A child that the client knows is the child the server has.\<close>

lemma known_child:
  assumes use: "usable w k (s, c)" and r: "ctree c u = Some r" and d: "cchild c r n = Some d"
  shows "\<exists>v. child_uuid s u n = Some v \<and> ctree c v = Some d"
proof -
  have wf: "tree_wf c" and links: "links_ok c" and know: "knows c s" and tr: "tree_inv s"
    using use by (simp_all add: client_inv_def proto_inv_def)
  have l: "linked c r n d" using links_okD [OF links r] d by simp
  have "cview c (cn_uuid (c_heap c d)) = Some (n, Some u)" using linked_view [OF l] tree_uuid [OF wf r] by simp
  with know have "sview s (cn_uuid (c_heap c d)) = Some (n, Some u)" unfolding map_le_def by (metis domI)
  with l show ?thesis using child_uuid_view [OF tr] by (auto simp: linked_def)
qed

text \<open>The node a client knows besides the root has a parent it knows.\<close>

lemma usable_parent:
  assumes use: "usable w k (s, c)" and r: "ctree c v = Some r" "v \<noteq> 0"
  obtains u q n where "cview c v = Some (n, Some u)" "ctree c u = Some q" "linked c q n r"
proof -
  have tr: "tree_inv s" and wf: "tree_wf c" using usable_wf [OF use] by simp_all
  obtain d where d: "tree s v = Some d" using usable_node [OF use r(1)] .
  from tree_parentE [OF tr d r(2)] obtain x q where "node_parent (heap s d) = Some q" "tree s x = Some q" by metis
  then have "sview s v = Some (node_name (heap s d), Some x)"
    using d tree_nodeD(3) [OF tr] by (simp add: sview_def abs_tree_Some abs_node_def)
  then have v: "cview c v = Some (node_name (heap s d), Some x)" using use r(1) knowsD [of c s v] by simp
  then obtain p where p: "cn_name (c_heap c r) = node_name (heap s d)" "cn_parent (c_heap c r) = Some p" "cn_uuid (c_heap c p) = x"
    using r(1) by (auto simp: cview_def node_view_def)
  have "ctree c x = Some p" using links_parent [OF _ r(1) p(2)] use p(3) by simp
  moreover have "linked c p (node_name (heap s d)) r"
    using p r(1) tree_uuid [OF wf r(1)] by (simp add: linked_def)
  ultimately show ?thesis using that v by blast
qed

definition sends :: "cum \<Rightarrow> PropertyTreeMessages \<Rightarrow> bool" where
  "sends L q \<longleftrightarrow> (\<forall>t. \<exists>bs. client_send L True (single t q) = Inr bs)"

text \<open>The handle of a node that may be missing.\<close>

definition finds :: "Client \<Rightarrow> u64 option \<Rightarrow> handle \<Rightarrow> bool" where
  "finds c w h \<longleftrightarrow> (case w of None \<Rightarrow> h = None
     | Some v \<Rightarrow> \<exists>d. h = Some d \<and> ctree c v = Some d \<and> d \<in> set (c_held c))"

lemma finds_simps [simp]: "finds c None h \<longleftrightarrow> h = None"
  "finds c (Some v) h \<longleftrightarrow> (\<exists>d. h = Some d \<and> ctree c v = Some d \<and> d \<in> set (c_held c))"
  by (simp_all add: finds_def)

lemma perform_get:
  assumes use: "usable w (Suc (Suc k)) (s, c)" and r: "ctree c u = Some r" "r \<in> set (c_held c)"
    and n: "n \<noteq> ''.''" and send: "sends L (ask_child u n)"
  shows "\<exists>c' h. perform L w held (OpGet (Some r) n False) (s, c) = Inr ((s, c'), RProperty h) \<and> usable w k (s, c') \<and> learns c c' \<and>
    finds c' (child_uuid s u n) h"
proof -
  let ?op = "OpGet (Some r) n False" and ?i = "c_TransactioIdCtr c"
  have inv: "client_inv (Suc (Suc k)) c" "proto_inv (Suc (Suc k)) s" and links: "links_ok c" and know: "knows c s"
    and wf: "tree_wf c" and root: "ctree c 0 \<noteq> None" using use by (simp_all add: client_inv_def)
  have st: "may_start 0 ?op c" using usable_start [OF use, of ?op] r(2) by simp
  have u: "cn_uuid (c_heap c r) = u" using tree_uuid [OF wf r(1)] .
  obtain p where p: "tree s u = Some p" using usable_node [OF use r(1)] .
  show ?thesis
  proof (cases "cchild c r n")
    case (Some d)
    from known_child [OF use r(1) Some] obtain v where v: "child_uuid s u n = Some v" "ctree c v = Some d" by blast
    have early: "op_request ?op c = Inr (Early (RProperty (Some d)))" using Some by (simp add: get_request_def deref_def)
    have "usable w (Suc k) (s, c)" by (rule usable_mono [OF use]) simp
    from usable_early [OF this st early, of L held] v show ?thesis
      by (intro exI [of _ "returned 0 (RProperty (Some d)) c"] exI [of _ "Some d"]) (simp add: returned_held returned_learns del: usable.simps)
  next
    case None
    then have ask: "op_request ?op c = Inr (Ask (ask_child u n))" using u by (simp add: get_request_def deref_def)
    obtain bs where bs: "client_send L True (single ?i (ask_child u n)) = Inr bs" using send by (auto simp: sends_def)
    show ?thesis
    proof (cases "child s p n")
      case (Some e)
      from get_child [OF inv know r(1) p Some n st ask bs, of True w held] links obtain c' out x where
        run: "run_steps (pair_step L True w) (round_trip 0 ?op True held ?i (ask_child u n) w) (s, c) =
          Inr ((s, c'), out @ [Returned 0 (RProperty (Some x))])" "no_return out"
        and keep: "knows c' s" "links_ok c'" "ctree c' (node_uuid (heap s e)) = Some x" "cview c' (node_uuid (heap s e)) = Some (n, Some u)"
        and more: "grows c c'"
        by blast
      have "ctree c' 0 \<noteq> None" using more root growsD by blast
      from usable_round_trip [OF use st ask bs run keep(2,1) this] keep(3) show ?thesis
        by (intro exI [of _ c'] exI [of _ "Some x"]) (simp add: child_uuid_def p Some more del: usable.simps)
    next
      case None
      have srv: "handle held ?i (ask_child u n) w s =
          Inr (s, [Send w (single ?i (TreeInfoErrorResponse \<lparr>TreeInfoErrorResponse_cause = NOT_FOUND\<rparr>))])"
        using p None n by (simp add: handle_TreeInfoRequest_def Let_def)
      from plain_exchange [OF inv(1) st ask bs srv, of _ True] obtain d where
        d: "run_steps (pair_step L True w) (round_trip 0 ?op True held ?i (ask_child u n) w) (s, c) =
          bindR (op_response ?op (TreeInfoErrorResponse \<lparr>TreeInfoErrorResponse_cause = NOT_FOUND\<rparr>) d) (\<lambda>(c', out, v). Inr ((s, returned 0 v c'),
          Sent (single ?i (ask_child u n)) bs # out @ [Returned 0 v]))" "same_tree c d" by auto
      let ?c = "returned 0 (RProperty None) d"
      have run: "run_steps (pair_step L True w) (round_trip 0 ?op True held ?i (ask_child u n) w) (s, c) =
          Inr ((s, ?c), [Sent (single ?i (ask_child u n)) bs] @ [Returned 0 (RProperty None)])"
        unfolding d(1) by (simp add: get_response_def)
      have "links_ok d" by (rule links_same [OF links]) (use d(2) in \<open>simp_all add: same_tree_def\<close>)
      then have keep: "links_ok ?c" "knows ?c s" "ctree ?c 0 \<noteq> None"
        using same_tree_views [OF d(2)] know root d(2) by (simp_all add: same_tree_def)
      from usable_round_trip [OF use st ask bs run _ keep] show ?thesis
        by (intro exI [of _ ?c] exI [of _ None])
          (simp add: child_uuid_def p None grows_trans [OF same_tree_grows [OF d(2)]] returned_learns del: usable.simps)
    qed
  qed
qed

section \<open>Values\<close>

abbreviation ask_set :: "u64 \<Rightarrow> u8 list \<Rightarrow> PropertyTreeMessages" where
  "ask_set u bs \<equiv> SetValueRequest \<lparr>SetValueRequest_uuid = u, SetValueRequest_data = bs\<rparr>"

lemma store_value_same: "cn_data (c_heap c r) = d \<Longrightarrow> store_value r d c = c"
proof -
  assume "cn_data (c_heap c r) = d"
  then have "(c_heap c r)\<lparr>cn_data := d\<rparr> = c_heap c r" by (cases "c_heap c r") simp
  then have "(c_heap c)(r := (c_heap c r)\<lparr>cn_data := d\<rparr>) = c_heap c" by simp
  then show ?thesis unfolding store_value_eq by (cases c) simp
qed

text \<open>A client that is told a value it has.\<close>

lemma known_value_handled:
  assumes "\<forall>y\<in>set ms. y = single notification_id (announce (Changed u d))"
    and "map_of (c_Transactions c) notification_id = None" "\<forall>r. ctree c u = Some r \<longrightarrow> cn_data (c_heap c r) = d"
    and "run_steps (client_handle L sent) ms c = Inr (c', out)"
  shows "c' = c"
  using assms
proof (induction ms arbitrary: out)
  case (Cons y ms)
  obtain e o1 o2 where e: "client_handle L sent y c = Inr (e, o1)" "run_steps (client_handle L sent) ms e = Inr (c', o2)"
    using Cons.prems(4) by auto
  have y: "y = single notification_id (announce (Changed u d))" using Cons.prems(1) by simp
  have "e = c"
    using e(1) Cons.prems(2,3) by (auto simp: y single_def client_handle_message_def client_UpdateNotification_def Let_def
      store_value_same split: option.splits)
  with Cons.IH e(2) Cons.prems show ?case by simp
qed simp

lemma handled_silent: "run_steps (client_handle L sent) ms c = Inr (c', out) \<Longrightarrow> no_return out"
  by (induction ms arbitrary: c out) (auto dest: handle_silent)

lemma perform_commit:
  assumes use: "usable w (Suc (Suc k)) (s, c)" and r: "ctree c u = Some r" "r \<in> set (c_held c)"
    and d: "cn_data (c_heap c r) = d" "u = 0 \<longrightarrow> \<not> terminate_value d"
    and send: "sends L (SetValueRequest \<lparr>SetValueRequest_uuid = u, SetValueRequest_data = d\<rparr>)"
  shows "\<exists>s' c'. perform L w held (OpCommit (Some r)) (s, c) = Inr ((s', c'), RUnit) \<and> usable w k (s', c') \<and>
    sview s' = sview s \<and> svalue s' = (svalue s)(u \<mapsto> d) \<and> steady c c' \<and> same_tree c c' \<and>
    does w (SetValueRequest \<lparr>SetValueRequest_uuid = u, SetValueRequest_data = d\<rparr>) s s'"
proof -
  let ?op = "OpCommit (Some r)" and ?i = "c_TransactioIdCtr c"
  let ?q = "SetValueRequest \<lparr>SetValueRequest_uuid = u, SetValueRequest_data = d\<rparr>"
  let ?m = "SetValueAccept \<lparr>SetValueAccept_spare = 0\<rparr>"
  have inv: "client_inv (Suc (Suc k)) c" "proto_inv (Suc (Suc k)) s" and links: "links_ok c" and know: "knows c s"
    and wf: "tree_wf c" and root: "ctree c 0 \<noteq> None" using use by (simp_all add: client_inv_def)
  have st: "may_start 0 ?op c" using usable_start [OF use, of ?op] r(2) by simp
  have ask: "op_request ?op c = Inr (Ask ?q)" using tree_uuid [OF wf r(1)] d by (simp add: commit_request_def deref_def)
  obtain bs where bs: "client_send L True (single ?i ?q) = Inr bs" using send by (auto simp: sends_def)
  obtain p where p: "tree s u = Some p" using usable_node [OF use r(1)] .
  from set_value_box [OF inv(2) p d(2), of held ?i w] obtain s' out ms where
    srv: "handle held ?i ?q w s = Inr (s', out)" and box: "inbox w out = single ?i ?m # ms"
      "\<forall>y\<in>set ms. y = single notification_id (announce (Changed u d))"
    and s': "sview s' = sview s" "svalue s' = (svalue s)(u \<mapsto> d)" by blast
  have "\<forall>y\<in>set ms. \<exists>x. y = single notification_id (announce x)" using box(2) by blast
  from exchange [OF inv(1) st ask bs srv box(1) this, of True] obtain e o1 where
    e: "run_steps (client_handle L True) ms (replied 0 ?op ?m c) = Inr (e, o1)"
      "run_steps (pair_step L True w) (round_trip 0 ?op True held ?i ?q w) (s, c) =
      bindR (op_response ?op ?m (e\<lparr>c_Transactions := um_erase ?i (c_Transactions e)\<rparr>))
        (\<lambda>(c', out, v). Inr ((s', returned 0 v c'), Sent (single ?i ?q) bs # o1 @ out @ [Returned 0 v]))" by blast
  have a: "same_tree c (replied 0 ?op ?m c)" by (rule same_tree_answered)
  have "map_of (c_Transactions (replied 0 ?op ?m c)) notification_id = None"
    using ready_inv [OF answer_handled(3) [OF inv(1) st ask bs]] by (simp add: client_ready_def)
  then have "e = replied 0 ?op ?m c" using known_value_handled [OF box(2) _ _ e(1)] a d(1) r(1) by (simp add: same_tree_def)
  let ?c = "returned 0 RUnit (e\<lparr>c_Transactions := um_erase ?i (c_Transactions e)\<rparr>)"
  have same: "same_tree c ?c" using a \<open>e = _\<close> by (simp add: same_tree_def returned_def)
  have run: "run_steps (pair_step L True w) (round_trip 0 ?op True held ?i ?q w) (s, c) =
      Inr ((s', ?c), (Sent (single ?i ?q) bs # o1) @ [Returned 0 RUnit])"
    unfolding e(2) by (simp add: commit_response_def)
  have "links_ok ?c" by (rule links_same [OF links]) (use same in \<open>simp_all add: same_tree_def\<close>)
  then have keep: "links_ok ?c" "knows ?c s'" "ctree ?c 0 \<noteq> None"
    using same_tree_views [OF same] know s'(1) root same by (simp_all add: same_tree_def)
  have "no_return (Sent (single ?i ?q) bs # o1)" using handled_silent [OF e(1)] by simp
  moreover have "tree_request ?q" using d(2) by simp
  ultimately show ?thesis using usable_round_trip [OF use st ask bs run _ keep] s' same by blast
qed

text \<open>Two states of a client with the same nodes but for their values.\<close>

definition same_nodes :: "Client \<Rightarrow> Client \<Rightarrow> bool" where
  "same_nodes c d \<longleftrightarrow> c_Tree d = c_Tree c \<and> (\<forall>x. cn_children (c_heap d x) = cn_children (c_heap c x) \<and>
     cn_name (c_heap d x) = cn_name (c_heap c x) \<and> cn_parent (c_heap d x) = cn_parent (c_heap c x) \<and>
     cn_uuid (c_heap d x) = cn_uuid (c_heap c x))"

lemma same_tree_nodes: "same_tree c d \<Longrightarrow> same_nodes c d"
  by (simp add: same_tree_def same_nodes_def)

lemma same_nodes_trans [trans]: "same_nodes a b \<Longrightarrow> same_nodes b c \<Longrightarrow> same_nodes a c"
  by (simp add: same_nodes_def)

lemma same_nodes_links: "same_nodes c d \<Longrightarrow> links_ok c \<Longrightarrow> links_ok d"
  by (rule links_same [of c]) (simp_all add: same_nodes_def)

lemma same_nodes_view: "same_nodes c d \<Longrightarrow> cview d = cview c"
  by (rule view_cong) (simp_all add: same_nodes_def)

lemma perform_fetch:
  assumes use: "usable w (Suc (Suc k)) (s, c)" and r: "ctree c u = Some r" "r \<in> set (c_held c)"
    and d: "svalue s u = Some d" and send: "sends L (GetRequest \<lparr>GetRequest_uuid = u\<rparr>)"
  shows "\<exists>c'. perform L w held (OpFetch (Some r)) (s, c) = Inr ((s, c'), RUnit) \<and> usable w k (s, c') \<and>
    cn_data (c_heap c' r) = d \<and> (\<forall>x. x \<noteq> r \<longrightarrow> cn_data (c_heap c' x) = cn_data (c_heap c x)) \<and>
    steady c c' \<and> same_nodes c c'"
proof -
  let ?op = "OpFetch (Some r)" and ?i = "c_TransactioIdCtr c" and ?q = "GetRequest \<lparr>GetRequest_uuid = u\<rparr>"
  have inv: "client_inv (Suc (Suc k)) c" "proto_inv (Suc (Suc k)) s" and links: "links_ok c" and know: "knows c s"
    and wf: "tree_wf c" and root: "ctree c 0 \<noteq> None" using use by (simp_all add: client_inv_def)
  have st: "may_start 0 ?op c" using usable_start [OF use, of ?op] r(2) by simp
  have ask: "op_request ?op c = Inr (Ask ?q)" using tree_uuid [OF wf r(1)] by (simp add: fetch_request_def deref_def)
  obtain bs where bs: "client_send L True (single ?i ?q) = Inr bs" using send by (auto simp: sends_def)
  obtain a where "abs_tree s u = Some a" "a_data a = d" using d by (auto simp: svalue_def)
  then have srv: "handle held ?i ?q w s = Inr (s, [Send w (single ?i (GetAccept \<lparr>GetAccept_data = d\<rparr>))])"
    by (auto simp: handle_GetRequest_def abs_tree_def abs_node_def)
  from plain_exchange [OF inv(1) st ask bs srv, of _ True] obtain e where
    e: "run_steps (pair_step L True w) (round_trip 0 ?op True held ?i ?q w) (s, c) =
      bindR (op_response ?op (GetAccept \<lparr>GetAccept_data = d\<rparr>) e) (\<lambda>(c', out, v). Inr ((s, returned 0 v c'),
        Sent (single ?i ?q) bs # out @ [Returned 0 v]))" "same_tree c e" by auto
  let ?c = "returned 0 RUnit (store_value r d e)"
  have run: "run_steps (pair_step L True w) (round_trip 0 ?op True held ?i ?q w) (s, c) =
      Inr ((s, ?c), [Sent (single ?i ?q) bs] @ [Returned 0 RUnit])"
    unfolding e(1) by (simp add: fetch_response_def deref_def)
  have same: "same_nodes c ?c" using e(2) by (simp add: same_nodes_def same_tree_def store_value_eq returned_def)
  with root have "ctree ?c 0 \<noteq> None" by (simp add: same_nodes_def)
  moreover have "links_ok ?c" "knows ?c s" using same_nodes_links [OF same links] same_nodes_view [OF same] know by simp_all
  moreover have "cn_data (c_heap ?c r) = d" "\<forall>x. x \<noteq> r \<longrightarrow> cn_data (c_heap ?c x) = cn_data (c_heap c x)"
    using e(2) by (simp_all add: returned_def store_value_eq same_tree_def)
  ultimately show ?thesis using usable_round_trip [OF use st ask bs run] same by (intro exI [of _ ?c]) simp
qed

section \<open>What the program does itself\<close>

text \<open>Steps of the program that leave the nodes alone but for their values and handlers.\<close>

lemma usable_local:
  assumes use: "usable w k (s, c)" and step: "client_step simple_cum e c = Inr (c', [])" "client_cost e = 0"
    and same: "same_nodes c c'" "c_constructed c' = c_constructed c" "c_waiting c' = c_waiting c"
  shows "usable w k (s, c')"
proof -
  have "client_inv k c'" using client_step_inv [of e k c simple_cum c' "[]"] step use by simp
  with use same same_nodes_links [OF same(1)] same_nodes_view [OF same(1)] show ?thesis by (simp add: same_nodes_def)
qed

lemma usable_write:
  assumes "usable w k (s, c)" "r \<in> set (c_held c)"
  shows "usable w k (s, write_node r f c)"
  by (rule usable_local [OF assms(1), of "SetData r (f (cn_data (c_heap c r)))"])
    (use assms(2) in \<open>simp_all add: write_node_def same_nodes_def\<close>)

lemma usable_rcp:
  assumes "usable w k (s, c)" "r \<in> set (c_held c)"
  shows "usable w k (s, with_rcpHandler r h c)"
  by (rule usable_local [OF assms(1), of "SetRcpHandler r h"])
    (use assms(2) in \<open>simp_all add: with_rcpHandler_def same_nodes_def\<close>)

lemma usable_watch:
  assumes "usable w k (s, c)" "r \<in> set (c_held c)"
  shows "usable w k (s, with_updateHandler r b c)"
  by (rule usable_local [OF assms(1), of "SetUpdateHandler r b"])
    (use assms(2) in \<open>simp_all add: with_updateHandler_def same_nodes_def\<close>)

lemma usable_hold:
  assumes "usable w k (s, c)" "set rs \<subseteq> ran (ctree c)"
  shows "usable w k (s, hold rs c)"
  using assms
proof (induction rs)
  case Nil
  then show ?case by (simp add: hold_def)
next
  case (Cons r rs)
  then have use: "usable w k (s, hold rs c)" by simp
  obtain u where "ctree c u = Some r" using Cons.prems(2) by (auto simp: ran_def)
  then have "c_live (hold rs c) r" using tree_live [OF usable_wf(1) [OF Cons.prems(1)]] by (simp add: hold_def)
  then show ?case by (intro usable_local [OF use, of "Hold r"]) (simp_all add: hold_def same_nodes_def)
qed

lemma null_request: "needs_handle op \<Longrightarrow> op_handle op = None \<Longrightarrow> op_request op c = Inl NullDeref"
  by (cases op) (auto simp: create_request_def get_request_def commit_request_def fetch_request_def
    subscribe_request_def unsubscribe_request_def destroy_request_def call_request_def deref_def)

lemma usable_null:
  assumes "usable w k (s, c)" "needs_handle op" "op_handle op = None"
  shows "perform L w held op (s, c) = Inl NullDeref"
proof -
  have "may_start 0 op c" by (rule usable_start [OF assms(1)]) (use assms(2,3) in auto)
  with null_request [OF assms(2,3)] show ?thesis by (simp add: perform_def start_def)
qed

end
