(* ===== verification/PerformTree.thy ===== *)
theory PerformTree
  imports Perform
begin

text \<open>
  The operations that list, create and delete nodes and that subscribe to values, performed on a
  server that answers.
\<close>

section \<open>Listing\<close>

text \<open>The client knows every node below one of the server's.\<close>

definition knows_below :: "Client \<Rightarrow> ProtocolHandler \<Rightarrow> ref \<Rightarrow> bool" where
  "knows_below c s p \<longleftrightarrow> (\<forall>d. below s p d \<longrightarrow> ctree c (node_uuid (heap s d)) \<noteq> None)"

abbreviation ask_all :: "u64 \<Rightarrow> PropertyTreeMessages" where
  "ask_all u \<equiv> TreeInfoRequest \<lparr>TreeInfoRequest_parentUuid = u, TreeInfoRequest_name = ''.'', TreeInfoRequest_recursive = 1\<rparr>"

lemma perform_load:
  assumes use: "usable w (Suc (Suc k)) (s, c)" and r: "ctree c u = Some r" "r \<in> set (c_held c)"
    and p: "tree s u = Some p" and send: "sends L (ask_all u)"
  shows "\<exists>c'. perform L w held (OpGet (Some r) ''.'' True) (s, c) = Inr ((s, c'), RProperty (Some r)) \<and>
    usable w k (s, c') \<and> learns c c' \<and> knows_below c' s p"
proof -
  let ?op = "OpGet (Some r) ''.'' True" and ?i = "c_TransactioIdCtr c"
  let ?m = "\<lparr>TreeInfoRequest_parentUuid = u, TreeInfoRequest_name = ''.'', TreeInfoRequest_recursive = 1\<rparr>"
  have inv: "client_inv (Suc (Suc k)) c" "proto_inv (Suc (Suc k)) s" and links: "links_ok c" and know: "knows c s"
    and root: "ctree c 0 \<noteq> None" using use by simp_all
  have tr: "tree_inv s" and wf: "tree_wf c" using usable_wf [OF use] by simp_all
  have st: "may_start 0 ?op c" using usable_start [OF use, of ?op] r(2) by simp
  have ask: "op_request ?op c = Inr (Ask (ask_all u))"
    using tree_uuid [OF wf r(1)] by (simp add: get_request_def deref_def Let_def split: option.split)
  obtain bs where bs: "client_send L True (single ?i (ask_all u)) = Inr bs" using send by (auto simp: sends_def)
  have asked: "asked_node s ?m = Some p" using p by (simp add: asked_node_def)
  have "?m = \<lparr>TreeInfoRequest_parentUuid = u, TreeInfoRequest_name = ''.'', TreeInfoRequest_recursive = (if True then 1 else 0)\<rparr>"
    by simp
  from get_exchange [OF inv refl r(1) st ask bs this asked, of True w held] links know
  obtain c1 c' out where run: "run_steps (pair_step L True w) (round_trip 0 ?op True held ?i (ask_all u) w) (s, c) =
      Inr ((s, c'), out @ [Returned 0 (RProperty (Some r))])" "no_return out"
    and view: "cview c' x = (if x \<in> (\<lambda>d. node_uuid (heap s d)) ` listed s ?m p then sview s x else cview c x)"
    and keep: "links_ok c'" "grows c c'" for x
    by (simp del: run_steps.simps pair_step.simps) metis
  have know': "knows c' s" using knowsD [OF know] unfolding map_le_def view by (auto simp: domIff simp del: cview_None sview_None)
  have "knows_below c' s p" unfolding knows_below_def
  proof (intro allI impI)
    fix d assume d: "below s p d"
    then have "d \<in> listed s ?m p" by (simp add: listed_def)
    moreover obtain v where "tree s v = Some d" using listed_in_tree [OF tr asked \<open>d \<in> listed s ?m p\<close>] by blast
    then have "sview s (node_uuid (heap s d)) \<noteq> None" using tree_nodeD(3) [OF tr] by (simp only: sview_None) blast
    ultimately have "cview c' (node_uuid (heap s d)) \<noteq> None" unfolding view by auto
    then show "ctree c' (node_uuid (heap s d)) \<noteq> None" by simp
  qed
  moreover have "ctree c' 0 \<noteq> None" using keep(2) root growsD by blast
  ultimately show ?thesis using usable_round_trip [OF use st ask bs run(1,2) keep(1) know'] keep(2) by blast
qed

section \<open>Creating\<close>

text \<open>The announcement of a new node under a parent the client knows.\<close>

lemma created_handled:
  assumes "client_ready c" "ctree c u = Some p" "links_ok c" "cview c \<subseteq>\<^sub>m V" "siblings_ok V" "V v = Some (n, Some u)"
    and "\<forall>y\<in>set ms. y = single notification_id (announce (Created n v u))"
    and "run_steps (client_handle L sent) ms c = Inr (c', out)"
  shows "cview c' \<subseteq>\<^sub>m V \<and> links_ok c' \<and> grows c c' \<and> (ms \<noteq> [] \<longrightarrow> cview c' v = Some (n, Some u))"
  using assms
proof (induction ms arbitrary: c p out)
  case (Cons y ms)
  let ?i = "\<lparr>NamedNode_name = n, NamedNode_uuid = v, NamedNode_parentUuid = u\<rparr>"
  obtain e o1 o2 where e: "client_handle L sent y c = Inr (e, o1)" "run_steps (client_handle L sent) ms e = Inr (c', o2)"
    using Cons.prems(8) by auto
  have y: "y = single notification_id (announce (Created n v u))" using Cons.prems(7) by simp
  have wf: "tree_wf c" using Cons.prems(1) by (simp add: client_ready_def)
  obtain o3 where add: "addNodes [?i] c = (e, o3)"
    using e(1) Cons.prems(1) by (auto simp: y single_def client_handle_message_def client_TreeUpdateNotification_def
      client_ready_def split: prod.splits)
  have "parents_first {u} [?i]" "{u} \<subseteq> dom (cview c)" "\<forall>i\<in>set [?i]. V (NamedNode_uuid i) = Some (NamedNode_name i, Some (NamedNode_parentUuid i))"
    using Cons.prems(2,6) by (simp_all add: domIff)
  note A = addNodes_view [OF wf add this]
  have grow: "grows c e" using A(3) by (simp add: grows_def)
  have view: "cview e x = (if x = v then Some (n, Some u) else cview c x)" for x using A(1) Cons.prems(6) by simp
  have "cview e \<subseteq>\<^sub>m V" using Cons.prems(4,6) by (auto simp: map_le_def view)
  moreover have "client_ready e" using ready_delivered [of c "[y]" L sent e] Cons.prems(1) e(1) y by auto
  moreover have "ctree e u = Some p" using growsD [OF grow Cons.prems(2)] by simp
  moreover have "links_ok e" by (rule A(2) [OF Cons.prems(3-5)])
  ultimately have "cview c' \<subseteq>\<^sub>m V \<and> links_ok c' \<and> grows e c' \<and> (ms \<noteq> [] \<longrightarrow> cview c' v = Some (n, Some u))"
    using Cons.IH [OF _ _ _ _ Cons.prems(5,6) _ e(2)] Cons.prems(7) by simp
  moreover have "ms = [] \<Longrightarrow> cview c' v = Some (n, Some u)" using e(2) view by simp
  ultimately show ?case using grows_trans [OF grow] by blast
qed (simp add: grows_def)

lemma child_fresh:
  assumes tr: "tree_inv s" and p: "tree s u = Some p"
  shows "child_uuid s u n = None \<longleftrightarrow> n \<notin> fst ` set (node_children (heap s p))"
  using p by (simp add: child_uuid_def map_of_eq_None_iff)

lemma child_unique: "tree_inv s \<Longrightarrow> tree s u = Some p \<Longrightarrow> has_child (abs_tree s) u n \<longleftrightarrow> child_uuid s u n \<noteq> None"
  by (simp add: has_child_abs child_uuid_def)

abbreviation ask_create :: "u64 \<Rightarrow> string \<Rightarrow> PropertyTreeMessages" where
  "ask_create u n \<equiv> CreateRequest \<lparr>CreateRequest_name = n, CreateRequest_parentUuid = u\<rparr>"

text \<open>A name that is taken: the client gets the node if it knows it, and nothing otherwise.\<close>

lemma perform_create_taken:
  assumes use: "usable w (Suc (Suc k)) (s, c)" and r: "ctree c u = Some r" "r \<in> set (c_held c)"
    and v: "child_uuid s u n = Some v" and send: "sends L (ask_create u n)"
  shows "\<exists>c'. perform L w held (OpCreate (Some r) n) (s, c) = Inr ((s, c'), RProperty (cchild c r n)) \<and>
    usable w k (s, c') \<and> learns c c' \<and> (\<forall>x. cchild c r n = Some x \<longrightarrow> ctree c' v = Some x \<and> x \<in> set (c_held c'))"
proof (cases "cchild c r n")
  case (Some x)
  let ?op = "OpCreate (Some r) n"
  from known_child [OF use r(1) Some] v have x: "ctree c v = Some x" by simp
  have st: "may_start 0 ?op c" using usable_start [OF use, of ?op] r(2) by simp
  have early: "op_request ?op c = Inr (Early (RProperty (Some x)))" using Some by (simp add: create_request_def deref_def)
  have "usable w (Suc k) (s, c)" by (rule usable_mono [OF use]) simp
  from usable_early [OF this st early, of L held] x Some show ?thesis
    by (intro exI [of _ "returned 0 (RProperty (Some x)) c"]) (simp add: returned_held returned_learns del: usable.simps)
next
  case None
  let ?op = "OpCreate (Some r) n" and ?i = "c_TransactioIdCtr c"
  let ?m = "CreateReject \<lparr>CreateReject_cause = ALREADY_EXIST\<rparr>"
  have inv: "client_inv (Suc (Suc k)) c" and links: "links_ok c" and know: "knows c s" and root: "ctree c 0 \<noteq> None"
    using use by simp_all
  have tr: "tree_inv s" and wf: "tree_wf c" using usable_wf [OF use] by simp_all
  have st: "may_start 0 ?op c" using usable_start [OF use, of ?op] r(2) by simp
  have ask: "op_request ?op c = Inr (Ask (ask_create u n))"
    using tree_uuid [OF wf r(1)] None by (simp add: create_request_def deref_def)
  obtain bs where bs: "client_send L True (single ?i (ask_create u n)) = Inr bs" using send by (auto simp: sends_def)
  obtain p where p: "tree s u = Some p" using usable_node [OF use r(1)] .
  have "n \<in> fst ` set (node_children (heap s p))" using child_fresh [OF tr p, of n] v by auto
  moreover obtain j where "session_of s w = Some j" using use by auto
  ultimately have srv: "handle held ?i (ask_create u n) w s = Inr (s, [Send w (single ?i ?m)])"
    using p by (simp add: handle_CreateRequest_eq)
  from plain_exchange [OF inv st ask bs srv, of _ True] obtain e where
    e: "run_steps (pair_step L True w) (round_trip 0 ?op True held ?i (ask_create u n) w) (s, c) =
      bindR (op_response ?op ?m e) (\<lambda>(c', out, v). Inr ((s, returned 0 v c'),
        Sent (single ?i (ask_create u n)) bs # out @ [Returned 0 v]))" "same_tree c e" by auto
  have "cchild e r n = None" using e(2) None by (simp add: same_tree_def)
  then have run: "run_steps (pair_step L True w) (round_trip 0 ?op True held ?i (ask_create u n) w) (s, c) =
      Inr ((s, returned 0 (RProperty None) e), [Sent (single ?i (ask_create u n)) bs] @ [Returned 0 (RProperty None)])"
    unfolding e(1) by (simp add: create_response_def deref_def)
  have "links_ok e" by (rule links_same [OF links]) (use e(2) in \<open>simp_all add: same_tree_def\<close>)
  then have "links_ok (returned 0 (RProperty None) e)" "knows (returned 0 (RProperty None) e) s"
    "ctree (returned 0 (RProperty None) e) 0 \<noteq> None"
    using same_tree_views [OF e(2)] know root e(2) by (simp_all add: same_tree_def)
  from usable_round_trip [OF use st ask bs run _ this] None show ?thesis
    by (intro exI [of _ "returned 0 (RProperty None) e"])
      (simp add: grows_trans [OF same_tree_grows [OF e(2)]] returned_learns del: usable.simps)
qed

lemma perform_create:
  assumes use: "usable w (Suc (Suc k)) (s, c)" and r: "ctree c u = Some r" "r \<in> set (c_held c)"
    and new: "child_uuid s u n = None" and send: "sends L (ask_create u n)"
  shows "\<exists>s' c' x. perform L w held (OpCreate (Some r) n) (s, c) = Inr ((s', c'), RProperty (Some x)) \<and>
    usable w k (s', c') \<and> learns c c' \<and> does w (ask_create u n) s s' \<and>
    ctree c' (ucast (mUuidCtr s)) = Some x \<and> x \<in> set (c_held c') \<and> cview c' (ucast (mUuidCtr s)) = Some (n, Some u)"
proof -
  let ?op = "OpCreate (Some r) n" and ?i = "c_TransactioIdCtr c" and ?v = "ucast (mUuidCtr s) :: u64"
  let ?q = "ask_create u n" and ?m = "CreateAccept \<lparr>CreateAccept_uuid = ?v\<rparr>"
  have inv: "client_inv (Suc (Suc k)) c" "proto_inv (Suc (Suc k)) s" and links: "links_ok c" and know: "knows c s"
    and root: "ctree c 0 \<noteq> None" using use by simp_all
  have tr: "tree_inv s" and wf: "tree_wf c" using usable_wf [OF use] by simp_all
  have ss: "session_inv s" using inv by (simp add: proto_inv_def)
  obtain p where p: "tree s u = Some p" using usable_node [OF use r(1)] .
  have "cchild c r n = None" using known_child [OF use r(1), of n] new by (cases "cchild c r n") auto
  then have ask: "op_request ?op c = Inr (Ask ?q)" using tree_uuid [OF wf r(1)] by (simp add: create_request_def deref_def)
  have st: "may_start 0 ?op c" using usable_start [OF use, of ?op] r(2) by simp
  obtain bs where bs: "client_send L True (single ?i ?q) = Inr bs" using send by (auto simp: sends_def)
  obtain j where j: "session_of s w = Some j" using use by auto
  let ?s = "inserted s p n j"
  let ?x = "single notification_id (announce (Created n ?v u))"
  have fresh: "n \<notin> fst ` set (node_children (heap s p))" using new child_fresh [OF tr p] by simp
  have "node_uuid (heap ?s p) = u" using tree_nodeD(3) [OF tr p] tree_fresh_ref [OF tr p] by (simp add: inserted_def)
  with fresh have srv: "handle held ?i ?q w s = Inr (?s, Send w (single ?i ?m) # broadcast ?s ?x)"
    using p j by (simp add: handle_CreateRequest_eq Let_def)
  have box: "inbox w (Send w (single ?i ?m) # broadcast ?s ?x) = single ?i ?m # inbox w (broadcast ?s ?x)" by simp
  have told: "\<forall>y\<in>set (inbox w (broadcast ?s ?x)). y = ?x" by (auto simp only: set_inbox mem_Collect_eq dest!: broadcast_sends)
  have "Send w ?x \<in> set (broadcast ?s ?x)"
    using broadcast_member [OF ss, of w j ?s ?x] j by (simp add: signed_in_def inserted_def)
  then have "?x \<in> set (inbox w (broadcast ?s ?x))" by (simp add: set_inbox)
  then have some: "inbox w (broadcast ?s ?x) \<noteq> []" by (cases "inbox w (broadcast ?s ?x)") auto
  have "\<forall>y\<in>set (inbox w (broadcast ?s ?x)). \<exists>z. y = single notification_id (announce z)" using told by blast
  from exchange [OF inv(1) st ask bs srv box this, of True] obtain d o1 where
    d: "run_steps (client_handle L True) (inbox w (broadcast ?s ?x)) (replied 0 ?op ?m c) = Inr (d, o1)"
    and run: "run_steps (pair_step L True w) (round_trip 0 ?op True held ?i ?q w) (s, c) =
      bindR (op_response ?op ?m (d\<lparr>c_Transactions := um_erase ?i (c_Transactions d)\<rparr>))
        (\<lambda>(c', out, v). Inr ((?s, returned 0 v c'), Sent (single ?i ?q) bs # o1 @ out @ [Returned 0 v]))" by blast
  have a: "same_tree c (replied 0 ?op ?m c)" by (rule same_tree_answered)
  have does: "does w ?q s ?s" using refine_handle [OF inv(2) srv] j by (simp add: does_def inserted_def)
  have absent: "sview s ?v = None" using tree_fresh_uuid [OF tr] by simp
  have "\<not> has_child (abs_tree s) u n" using child_unique [OF tr p] new by simp
  then have abs: "abs_tree ?s = (abs_tree s)(?v \<mapsto> \<lparr>a_name = n, a_parent = Some u, a_owner = j, a_data = [], a_subscribers = {}\<rparr>)"
    using does j p by (simp add: does_def)
  then have sv: "sview ?s = (sview s)(?v \<mapsto> (n, Some u))" by (simp add: sview_def fun_eq_iff)
  have le: "sview s \<subseteq>\<^sub>m sview ?s" using absent by (auto simp: sv map_le_def simp del: sview_None)
  have "tree_inv ?s" using inv_handle [OF inv(2) srv] by (simp add: proto_inv_def)
  then have sib: "siblings_ok (sview ?s)" by (rule sview_siblings)
  have "client_ready (replied 0 ?op ?m c)" by (rule ready_inv [OF answer_handled(3) [OF inv(1) st ask bs]])
  moreover have "links_ok (replied 0 ?op ?m c)" by (rule links_same [OF links]) (use a in \<open>simp_all add: same_tree_def\<close>)
  moreover have "cview (replied 0 ?op ?m c) \<subseteq>\<^sub>m sview ?s" using same_tree_views [OF a] know le map_le_trans by auto
  moreover have "ctree (replied 0 ?op ?m c) u = Some r" "sview ?s ?v = Some (n, Some u)" using a r(1) by (simp_all add: same_tree_def sv)
  ultimately have after: "cview d \<subseteq>\<^sub>m sview ?s" "links_ok d" "grows (replied 0 ?op ?m c) d" "cview d ?v = Some (n, Some u)"
    using created_handled [OF _ _ _ _ sib _ told d] some by blast+
  then obtain x where x: "ctree d ?v = Some x" by (cases "ctree d ?v") (simp_all add: cview_def)
  let ?d = "d\<lparr>c_Transactions := um_erase ?i (c_Transactions d)\<rparr>"
  let ?c = "returned 0 (RProperty (Some x)) ?d"
  have run: "run_steps (pair_step L True w) (round_trip 0 ?op True held ?i ?q w) (s, c) =
      Inr ((?s, ?c), (Sent (single ?i ?q) bs # o1) @ [Returned 0 (RProperty (Some x))])"
    unfolding run using x by (simp add: create_response_def deref_def)
  have "grows d ?c" by (simp add: grows_def)
  with after(3) grows_trans [OF same_tree_grows [OF a]] have grow: "grows c ?c" by (blast intro: grows_trans)
  have "links_ok ?d" by (rule links_same [OF after(2)]) simp_all
  then have keep: "links_ok ?c" "knows ?c ?s" "ctree ?c 0 \<noteq> None"
    using after(1) root growsD [OF grow] by auto
  have "no_return (Sent (single ?i ?q) bs # o1)" using handled_silent [OF d] by simp
  from usable_round_trip [OF use st ask bs run this keep] does grow x after(4) show ?thesis
    by (intro exI [of _ ?s] exI [of _ ?c] exI [of _ x]) (simp del: usable.simps)
qed

section \<open>Deleting\<close>

lemma is_parent_view: "is_parent (abs_tree s) u \<longleftrightarrow> (\<exists>x n. sview s x = Some (n, Some u))"
  by (auto simp: is_parent_def has_child_def sview_def)

lemma childless: "tree_inv s \<Longrightarrow> tree s v = Some d \<Longrightarrow> node_children (heap s d) = [] \<longleftrightarrow> \<not> is_parent (abs_tree s) v"
  by (simp add: is_parent_abs)

abbreviation ask_delete :: "u64 \<Rightarrow> PropertyTreeMessages" where
  "ask_delete v \<equiv> DeleteRequest \<lparr>DeleteRequest_uuid = v\<rparr>"

text \<open>
  What creating a node does to the server, as the other requests see it: the node has no children, and
  deleting it takes the server back.
\<close>

lemma does_created:
  assumes tr: "tree_inv s" and ses: "session_of s w \<noteq> None" and u: "tree s u \<noteq> None" and free: "child_uuid s u n = None"
    and does: "does w (ask_create u n) s s1"
  defines "v \<equiv> ucast (mUuidCtr s) :: u64"
  shows "tree s v = None" "v \<noteq> 0" "v \<noteq> u" "sview s1 = (sview s)(v \<mapsto> (n, Some u))" "svalue s1 = (svalue s)(v \<mapsto> [])"
    and "\<not> is_parent (abs_tree s1) v" "(abs_tree s1)(v := None) = abs_tree s"
proof -
  obtain p where p: "tree s u = Some p" using u by blast
  obtain a where a: "abs_tree s1 = (abs_tree s)(v \<mapsto> a)" "a_name a = n" "a_parent a = Some u" "a_data a = []"
    using does free ses p by (auto simp: does_def v_def child_unique [OF tr])
  show fresh: "tree s v = None" unfolding v_def by (rule tree_fresh_uuid [OF tr])
  then have none: "abs_tree s v = None" by simp
  obtain r where "tree s 0 = Some r" using tr by (rule tree_root)
  with fresh p show "v \<noteq> 0" and vu: "v \<noteq> u" by auto
  show "sview s1 = (sview s)(v \<mapsto> (n, Some u))" "svalue s1 = (svalue s)(v \<mapsto> [])"
    using a by (auto simp: sview_def svalue_def fun_eq_iff)
  have "a_parent b \<noteq> Some v" if "abs_tree s y = Some b" for y b
  proof
    assume "a_parent b = Some v"
    with that have "sview s y = Some (a_name b, Some v)" by (simp add: sview_def)
    then have "child_uuid s v (a_name b) = Some y" using child_uuid_view [OF tr] by simp
    with fresh show False by (simp add: child_uuid_def)
  qed
  with a vu show "\<not> is_parent (abs_tree s1) v"
    unfolding is_parent_def has_child_def by (metis fun_upd_apply option.inject)
  show "(abs_tree s1)(v := None) = abs_tree s" using none by (metis a(1) fun_upd_triv fun_upd_upd)
qed

lemma does_deleted:
  assumes "does w (ask_delete v) s s'" "tree s v \<noteq> None" "\<not> is_parent (abs_tree s) v"
  shows "abs_tree s' = (abs_tree s)(v := None)" "sview s' = (sview s)(v := None)" "svalue s' = (svalue s)(v := None)"
  using assms by (auto simp: does_def sview_def svalue_def fun_eq_iff)

text \<open>What is left of the nodes of a client without one of them.\<close>

definition pruned :: "u64 \<Rightarrow> cref \<Rightarrow> string \<Rightarrow> Client \<Rightarrow> Client \<Rightarrow> bool" where
  "pruned v p n c d \<longleftrightarrow> c_Tree d = um_erase v (c_Tree c) \<and> (\<forall>x. cn_name (c_heap d x) = cn_name (c_heap c x) \<and>
     cn_parent (c_heap d x) = cn_parent (c_heap c x) \<and> cn_uuid (c_heap d x) = cn_uuid (c_heap c x) \<and>
     cn_data (c_heap d x) = cn_data (c_heap c x) \<and> cn_children (c_heap d x) =
       (if x = p then om_erase n (cn_children (c_heap c x)) else cn_children (c_heap c x)))"

lemma pruned_views:
  assumes "pruned v p n c d"
  shows "cview d = (cview c)(v := None)" "cvalue d = (cvalue c)(v := None)"
  using assms by (auto simp: pruned_def cview_def cvalue_def node_view_def um_find_erase fun_eq_iff cong: option.map_cong)

lemma pruned_tree: "pruned v p n c d \<Longrightarrow> ctree d = (ctree c)(v := None)"
  by (simp add: pruned_def um_find_erase)

lemma pruned_same: "same_tree c c1 \<Longrightarrow> pruned v p n c1 d \<Longrightarrow> pruned v p n c d"
  by (simp add: pruned_def same_tree_def)

lemma om_erase_twice [simp]: "om_erase n (om_erase n m) = om_erase n m"
  by (simp add: om_erase_def)

text \<open>Taking the node off its parent once more changes nothing.\<close>

lemma pruned_again:
  assumes "pruned v p n c e"
  shows "pruned v p n c (c_release (unlink (Some p) n e))"
    and "cn_children (c_heap (c_release (unlink (Some p) n e)) x) = cn_children (c_heap e x)"
  using assms by (auto simp: pruned_def unlink_def lock_def)

lemma deleted_handled:
  assumes "map_of (c_Transactions c) notification_id = None" "ctree c v = Some r" "cn_parent (c_heap c r) = Some p" "c_live c p"
    and "\<forall>y\<in>set ms. y = single notification_id (announce (Deleted v))" "ms \<noteq> []" "tree_wf c" "links_ok c"
    and leaf: "\<And>x m. cview c x \<noteq> Some (m, Some v)"
    and "run_steps (client_handle L sent) ms c = Inr (c', out)"
  shows "pruned v p (cn_name (c_heap c r)) c c' \<and> links_ok c'"
proof -
  obtain y ns where ms: "ms = y # ns" using assms(6) by (cases ms) auto
  let ?y = "single notification_id (announce (Deleted v))"
  obtain e o1 o2 where e: "client_handle L sent ?y c = Inr (e, o1)" "run_steps (client_handle L sent) ns e = Inr (c', o2)"
    using assms(5,10) ms by auto
  obtain o3 where rem: "remove_node v c = (e, o3)"
    using e(1) assms(1) by (auto simp: single_def client_handle_message_def client_TreeUpdateNotification_def split: prod.splits)
  then have e': "e = c_release ((unlink (Some p) (cn_name (c_heap c r)) c)\<lparr>c_Tree := um_erase v (c_Tree c)\<rparr>)"
    using assms(2,3) by (simp add: remove_node_eq)
  have pr: "pruned v p (cn_name (c_heap c r)) c e" using assms(4) by (simp add: pruned_def e' unlink_def lock_def)
  have links: "links_ok e" by (rule links_remove_node [OF assms(7,8) rem leaf])
  have gone: "ctree e v = None" using pruned_tree [OF pr] by simp
  have id: "map_of (c_Transactions e) notification_id = None" using assms(1) by (simp add: e' client_simps)
  have "run_steps (client_handle L sent) ns e = Inr (c', o2) \<Longrightarrow> c' = e"
    using assms(5) unfolding ms
  proof (induction ns arbitrary: o2)
    case (Cons z ns)
    have "client_handle L sent ?y e = Inr (e, [])"
      using gone id by (simp add: single_def client_handle_message_def client_TreeUpdateNotification_def remove_node_def)
    with Cons show ?case by auto
  qed simp
  with e(2) pr links show ?thesis by simp
qed

lemma perform_destroy:
  assumes use: "usable w (Suc (Suc k)) (s, c)" and r: "ctree c v = Some r" "r \<in> set (c_held c)" "v \<noteq> 0"
    and p: "ctree c u = Some p" "linked c p n r"
    and leaf: "\<not> is_parent (abs_tree s) v" and send: "sends L (ask_delete v)"
  shows "\<exists>s' c'. perform L w held (OpDestroy (Some r)) (s, c) = Inr ((s', c'), RBool True) \<and>
    usable w k (s', c') \<and> steady c c' \<and> does w (ask_delete v) s s' \<and> pruned v p n c c'"
proof -
  let ?op = "OpDestroy (Some r)" and ?i = "c_TransactioIdCtr c"
  let ?q = "ask_delete v" and ?m = "DeleteResponse \<lparr>DeleteResponse_cause = OK\<rparr>"
  have inv: "client_inv (Suc (Suc k)) c" "proto_inv (Suc (Suc k)) s" and links: "links_ok c" and know: "knows c s"
    and root: "ctree c 0 \<noteq> None" using use by simp_all
  have tr: "tree_inv s" and wf: "tree_wf c" using usable_wf [OF use] by simp_all
  have ss: "session_inv s" using inv by (simp add: proto_inv_def)
  obtain d where d: "tree s v = Some d" using usable_node [OF use r(1)] .
  have ask: "op_request ?op c = Inr (Ask ?q)" using tree_uuid [OF wf r(1)] by (simp add: destroy_request_def deref_def)
  have st: "may_start 0 ?op c" using usable_start [OF use, of ?op] r(2) by simp
  obtain bs where bs: "client_send L True (single ?i ?q) = Inr bs" using send by (auto simp: sends_def)
  obtain j where j: "session_of s w = Some j" using use by auto
  let ?x = "single notification_id (announce (Deleted v))"
  have "node_children (heap s d) = []" using childless [OF tr d] leaf by simp
  then obtain s' where srv: "handle held ?i ?q w s = Inr (s', Send w (single ?i ?m) # broadcast s' ?x)"
      and tab: "mSessions s' = mSessions s" "session_of s' w = session_of s w"
    using d r(3) by (auto simp: handle_DeleteRequest_eq [OF tr] Let_def removed_def)
  have box: "inbox w (Send w (single ?i ?m) # broadcast s' ?x) = single ?i ?m # inbox w (broadcast s' ?x)" by simp
  have told: "\<forall>y\<in>set (inbox w (broadcast s' ?x)). y = ?x" by (auto simp only: set_inbox mem_Collect_eq dest!: broadcast_sends)
  have "Send w ?x \<in> set (broadcast s' ?x)"
    using broadcast_member [OF ss, of w j s' ?x] j tab(1) by (simp add: signed_in_def)
  then have "?x \<in> set (inbox w (broadcast s' ?x))" by (simp add: set_inbox)
  then have some: "inbox w (broadcast s' ?x) \<noteq> []" by (cases "inbox w (broadcast s' ?x)") auto
  have "\<forall>y\<in>set (inbox w (broadcast s' ?x)). \<exists>z. y = single notification_id (announce z)" using told by blast
  from exchange [OF inv(1) st ask bs srv box this, of True] obtain e o1 where
    e: "run_steps (client_handle L True) (inbox w (broadcast s' ?x)) (replied 0 ?op ?m c) = Inr (e, o1)" "client_inv (Suc k) e"
    and run: "run_steps (pair_step L True w) (round_trip 0 ?op True held ?i ?q w) (s, c) =
      bindR (op_response ?op ?m (e\<lparr>c_Transactions := um_erase ?i (c_Transactions e)\<rparr>))
        (\<lambda>(c', out, v). Inr ((s', returned 0 v c'), Sent (single ?i ?q) bs # o1 @ out @ [Returned 0 v]))" by blast
  let ?a = "replied 0 ?op ?m c"
  have a: "same_tree c ?a" by (rule same_tree_answered)
  have live: "c_live ?a p" using tree_live [OF wf p(1)] by (simp add: replied_def asking_def)
  have pn: "cn_parent (c_heap ?a r) = Some p" "cn_name (c_heap ?a r) = n" "ctree ?a v = Some r"
    using a p(2) r(1) by (simp_all add: same_tree_def linked_def)
  have "client_ready ?a" by (rule ready_inv [OF answer_handled(3) [OF inv(1) st ask bs]])
  then have "map_of (c_Transactions ?a) notification_id = None" "tree_wf ?a" by (simp_all add: client_ready_def)
  moreover have "links_ok ?a" by (rule links_same [OF links]) (use a in \<open>simp_all add: same_tree_def\<close>)
  moreover have "cview ?a x \<noteq> Some (m, Some v)" for x m
  proof
    assume "cview ?a x = Some (m, Some v)"
    then have "sview s x = Some (m, Some v)" using knowsD [OF know, of x] same_tree_views [OF a] by auto
    then have "has_child (abs_tree s) v m" by (auto simp: has_child_def sview_def)
    with leaf show False by (auto simp: is_parent_def)
  qed
  ultimately have after: "pruned v p n ?a e" "links_ok e"
    using deleted_handled [OF _ pn(3,1) live told some _ _ _ e(1)] pn(2) by blast+
  have pr: "pruned v p n c e" by (rule pruned_same [OF a after(1)])
  let ?e = "e\<lparr>c_Transactions := um_erase ?i (c_Transactions e)\<rparr>"
  have ep: "cn_parent (c_heap ?e r) = Some p" "cn_name (c_heap ?e r) = n" using after(1) pn by (simp_all add: pruned_def)
  obtain f where f: "op_response ?op ?m ?e = Inr (f, [], RBool True)" "f = ?e \<or> f = c_release (unlink (Some p) n ?e)"
    using ep by (auto simp: destroy_eq deref_def)
  have "pruned v p n c ?e" using pr by (simp add: pruned_def)
  with f(2) pruned_again [of v p n c ?e] have ff: "pruned v p n c f" "\<forall>x. cn_children (c_heap f x) = cn_children (c_heap e x)"
    by auto
  let ?c = "returned 0 (RBool True) f"
  have run: "run_steps (pair_step L True w) (round_trip 0 ?op True held ?i ?q w) (s, c) =
      Inr ((s', ?c), (Sent (single ?i ?q) bs # o1) @ [Returned 0 (RBool True)])"
    unfolding run using f(1) by simp
  have cut: "pruned v p n c ?c" and same: "\<forall>x. cn_children (c_heap ?c x) = cn_children (c_heap e x)"
    using ff pr by (simp_all add: returned_def pruned_def)
  have "links_ok ?c" by (rule links_same [OF after(2)]) (use same pr cut in \<open>simp_all add: pruned_def\<close>)
  moreover have does: "does w ?q s s'" using refine_handle [OF inv(2) srv] tab(2) r(3) by (simp add: does_def)
  then have "sview s' = (sview s)(v := None)" using leaf d by (simp add: does_def sview_def fun_eq_iff)
  then have "knows ?c s'" using know pruned_views(1) [OF cut] by (auto simp: map_le_def)
  moreover have "ctree ?c 0 \<noteq> None" using pruned_tree [OF cut] root r(3) by simp
  moreover have "no_return (Sent (single ?i ?q) bs # o1)" using handled_silent [OF e(1)] by simp
  ultimately show ?thesis using usable_round_trip [OF use st ask bs run] does cut by blast
qed

text \<open>A node with children is not deleted.\<close>

lemma perform_destroy_refused:
  assumes use: "usable w (Suc (Suc k)) (s, c)" and r: "ctree c v = Some r" "r \<in> set (c_held c)"
    and inner: "is_parent (abs_tree s) v" and send: "sends L (ask_delete v)"
  shows "\<exists>c'. perform L w held (OpDestroy (Some r)) (s, c) = Inr ((s, c'), RBool False) \<and>
    usable w k (s, c') \<and> learns c c'"
proof -
  let ?op = "OpDestroy (Some r)" and ?i = "c_TransactioIdCtr c" and ?q = "ask_delete v"
  let ?m = "DeleteResponse \<lparr>DeleteResponse_cause = NOT_EMPTY\<rparr>"
  have inv: "client_inv (Suc (Suc k)) c" and links: "links_ok c" and know: "knows c s" and root: "ctree c 0 \<noteq> None"
    using use by simp_all
  have tr: "tree_inv s" and wf: "tree_wf c" using usable_wf [OF use] by simp_all
  obtain d where d: "tree s v = Some d" using usable_node [OF use r(1)] .
  have ask: "op_request ?op c = Inr (Ask ?q)" using tree_uuid [OF wf r(1)] by (simp add: destroy_request_def deref_def)
  have st: "may_start 0 ?op c" using usable_start [OF use, of ?op] r(2) by simp
  obtain bs where bs: "client_send L True (single ?i ?q) = Inr bs" using send by (auto simp: sends_def)
  have srv: "handle held ?i ?q w s = Inr (s, [Send w (single ?i ?m)])"
    using childless [OF tr d] inner d by (simp add: handle_DeleteRequest_def Let_def)
  from plain_exchange [OF inv st ask bs srv, of _ True] obtain e where
    e: "run_steps (pair_step L True w) (round_trip 0 ?op True held ?i ?q w) (s, c) =
      bindR (op_response ?op ?m e) (\<lambda>(c', out, v). Inr ((s, returned 0 v c'),
        Sent (single ?i ?q) bs # out @ [Returned 0 v]))" "same_tree c e" by auto
  have run: "run_steps (pair_step L True w) (round_trip 0 ?op True held ?i ?q w) (s, c) =
      Inr ((s, returned 0 (RBool False) e), [Sent (single ?i ?q) bs] @ [Returned 0 (RBool False)])"
    unfolding e(1) by (simp add: destroy_response_def)
  have "links_ok e" by (rule links_same [OF links]) (use e(2) in \<open>simp_all add: same_tree_def\<close>)
  then have "links_ok (returned 0 (RBool False) e)" "knows (returned 0 (RBool False) e) s"
    "ctree (returned 0 (RBool False) e) 0 \<noteq> None"
    using same_tree_views [OF e(2)] know root e(2) by (simp_all add: same_tree_def)
  from usable_round_trip [OF use st ask bs run _ this] show ?thesis
    by (intro exI [of _ "returned 0 (RBool False) e"])
      (simp add: grows_trans [OF same_tree_grows [OF e(2)]] returned_learns del: usable.simps)
qed

section \<open>Subscriptions\<close>

text \<open>
  Requests that are answered and change nothing a client knows: the client ends with the tree it
  began with.
\<close>

lemma perform_told:
  assumes use: "usable w (Suc (Suc k)) (s, c)" and st: "may_start 0 op c" "op_request op c = Inr (Ask q)"
    and send: "sends L q" and srv: "handle held (c_TransactioIdCtr c) q w s = Inr (s', [Send w (single (c_TransactioIdCtr c) m)])"
    and res: "\<And>d. op_response op m d = Inr (d, [], v)" and same: "sview s' = sview s"
  shows "\<exists>c'. perform L w held op (s, c) = Inr ((s', c'), v) \<and> usable w k (s', c') \<and> steady c c' \<and> same_tree c c' \<and>
    (tree_request q \<longrightarrow> does w q s s')"
proof -
  let ?i = "c_TransactioIdCtr c"
  have inv: "client_inv (Suc (Suc k)) c" and links: "links_ok c" and know: "knows c s" and root: "ctree c 0 \<noteq> None"
    using use by simp_all
  obtain bs where bs: "client_send L True (single ?i q) = Inr bs" using send by (auto simp: sends_def)
  from plain_exchange [OF inv st bs srv, of m True] obtain e where
    e: "run_steps (pair_step L True w) (round_trip 0 op True held ?i q w) (s, c) =
      bindR (op_response op m e) (\<lambda>(c', out, v). Inr ((s', returned 0 v c'), Sent (single ?i q) bs # out @ [Returned 0 v]))"
      "same_tree c e" by auto
  let ?c = "returned 0 v e"
  have tree: "same_tree c ?c" using e(2) by (simp add: same_tree_def returned_def)
  have run: "run_steps (pair_step L True w) (round_trip 0 op True held ?i q w) (s, c) =
      Inr ((s', ?c), [Sent (single ?i q) bs] @ [Returned 0 v])"
    unfolding e(1) res by simp
  have "links_ok ?c" by (rule links_same [OF links]) (use tree in \<open>simp_all add: same_tree_def\<close>)
  then have "links_ok ?c" "knows ?c s'" "ctree ?c 0 \<noteq> None"
    using same_tree_views [OF tree] know root tree same by (simp_all add: same_tree_def)
  from usable_round_trip [OF use st bs run _ this] tree show ?thesis by (intro exI [of _ ?c]) simp
qed

text \<open>A sign of life.\<close>

lemma perform_beat:
  assumes use: "usable w (Suc (Suc k)) (s, c)" and send: "sends L (HearbeatRequest \<lparr>HearbeatRequest_spare = 0\<rparr>)"
  shows "\<exists>c'. perform L w held OpBeat (s, c) = Inr ((s, c'), RUnit) \<and> usable w k (s, c') \<and> steady c c' \<and> same_tree c c'"
proof -
  let ?i = "c_TransactioIdCtr c" and ?q = "HearbeatRequest \<lparr>HearbeatRequest_spare = 0\<rparr>"
  let ?m = "HearbeatResponse \<lparr>HearbeatResponse_spare = 0\<rparr>"
  have st: "may_start 0 OpBeat c" using usable_start [OF use, of OpBeat] by simp
  have "handle held ?i ?q w s = Inr (s, [Send w (single ?i ?m)])" by (simp add: handle_HearbeatRequest_def)
  from perform_told [OF use st _ send this, of RUnit] show ?thesis by (auto simp: beat_request_def beat_response_def)
qed

lemma does_quiet:
  assumes "does w q s s'" "quiet q"
  shows "sview s' = sview s" "svalue s' = svalue s"
proof -
  have "nothing_new s s'" using assms spec_quiet [OF assms(2)] by (intro same_views) (simp add: does_def)
  then show "sview s' = sview s" "svalue s' = svalue s" by (simp_all add: nothing_new_def)
qed

lemma perform_subscribe:
  assumes use: "usable w (Suc (Suc k)) (s, c)" and r: "ctree c u = Some r" "r \<in> set (c_held c)"
    and send: "sends L (SubscribeRequest \<lparr>SubscribeRequest_uuid = u\<rparr>)"
  shows "\<exists>s' c'. perform L w held (OpSubscribe (Some r)) (s, c) = Inr ((s', c'), RBool True) \<and>
    usable w k (s', c') \<and> steady c c' \<and> same_tree c c' \<and> does w (SubscribeRequest \<lparr>SubscribeRequest_uuid = u\<rparr>) s s'"
proof -
  let ?op = "OpSubscribe (Some r)" and ?i = "c_TransactioIdCtr c" and ?q = "SubscribeRequest \<lparr>SubscribeRequest_uuid = u\<rparr>"
  let ?m = "SubscribeResponse \<lparr>SubscribeResponse_cause = OK\<rparr>"
  have wf: "tree_wf c" using usable_wf [OF use] by simp
  have inv: "proto_inv (Suc (Suc k)) s" using use by simp
  have st: "may_start 0 ?op c" using usable_start [OF use, of ?op] r(2) by simp
  have ask: "op_request ?op c = Inr (Ask ?q)" using tree_uuid [OF wf r(1)] by (simp add: subscribe_request_def deref_def)
  obtain p where p: "tree s u = Some p" using usable_node [OF use r(1)] .
  obtain j where "session_of s w = Some j" using use by auto
  with p obtain s' where srv: "handle held ?i ?q w s = Inr (s', [Send w (single ?i ?m)])"
    by (simp add: handle_SubscribeRequest_def)
  have "sview s' = sview s" using quiet_handle [OF inv srv] by (simp add: nothing_new_def)
  from perform_told [OF use st ask send srv _ this] show ?thesis by (auto simp: subscribe_response_def)
qed

lemma perform_unsubscribe:
  assumes use: "usable w (Suc (Suc k)) (s, c)" and r: "ctree c u = Some r" "r \<in> set (c_held c)"
    and sub: "session_of s w = Some j" "subscribed u j s"
    and send: "sends L (UnsubscribeRequest \<lparr>UnsubscribeRequest_uuid = u\<rparr>)"
  shows "\<exists>s' c'. perform L w held (OpUnsubscribe (Some r)) (s, c) = Inr ((s', c'), RBool True) \<and>
    usable w k (s', c') \<and> steady c c' \<and> same_tree c c' \<and> does w (UnsubscribeRequest \<lparr>UnsubscribeRequest_uuid = u\<rparr>) s s'"
proof -
  let ?op = "OpUnsubscribe (Some r)" and ?i = "c_TransactioIdCtr c" and ?q = "UnsubscribeRequest \<lparr>UnsubscribeRequest_uuid = u\<rparr>"
  let ?m = "UnsubscribeResponse \<lparr>UnsubscribeResponse_cause = OK\<rparr>"
  have wf: "tree_wf c" using usable_wf [OF use] by simp
  have inv: "proto_inv (Suc (Suc k)) s" using use by simp
  have st: "may_start 0 ?op c" using usable_start [OF use, of ?op] r(2) by simp
  have ask: "op_request ?op c = Inr (Ask ?q)" using tree_uuid [OF wf r(1)] by (simp add: unsubscribe_request_def deref_def)
  obtain p where p: "tree s u = Some p" using usable_node [OF use r(1)] .
  have "map_of (node_listener (heap s p)) j \<noteq> None"
    using sub(2) p by (auto simp: subscribed_def abs_tree_Some abs_node_def dom_map_of_conv_image_fst [symmetric])
  with p sub(1) obtain s' where srv: "handle held ?i ?q w s = Inr (s', [Send w (single ?i ?m)])"
    by (auto simp: handle_UnsubscribeRequest_def)
  have "sview s' = sview s" using quiet_handle [OF inv srv] by (simp add: nothing_new_def)
  from perform_told [OF use st ask send srv _ this] show ?thesis by (auto simp: unsubscribe_response_def)
qed

end
