(* ===== verification/Operations.thy ===== *)
theory Operations
  imports PerformTree
begin

text \<open>
  What code that uses a client relies on, as an interface: operations that are answered and tell the
  truth about the server. Programs are run against the interface, in a world that has a server and
  the client they use; \<open>served\<close> is the world of one client and its server.
\<close>

section \<open>The interface\<close>

text \<open>
  \<open>ok k\<close> holds between operations while \<open>k\<close> messages can still be exchanged, \<open>fits\<close> says which
  requests can be sent, and \<open>public\<close> which nodes every client in the world knows. Every operation
  returns, keeps \<open>ok\<close>, and says what it does to the server (\<open>does\<close>) and to the client.
\<close>

locale operations =
  fixes perf :: "Op \<Rightarrow> 'w \<Rightarrow> fault + ('w \<times> result)"
    and server :: "'w \<Rightarrow> ProtocolHandler" and client :: "'w \<Rightarrow> Client" and put :: "Client \<Rightarrow> 'w \<Rightarrow> 'w"
    and self :: conn
    and ok :: "nat \<Rightarrow> 'w \<Rightarrow> bool"
    and public :: "'w \<Rightarrow> u64 \<Rightarrow> bool"
    and fits :: "PropertyTreeMessages \<Rightarrow> bool"
  assumes get_put: "client (put c x) = c" "server (put c x) = server x"
    and ok_mono: "ok k x \<Longrightarrow> j \<le> k \<Longrightarrow> ok j x"
    and ok_usable: "ok k x \<Longrightarrow> usable self k (server x, client x)"
    and ok_write: "ok k x \<Longrightarrow> r \<in> set (c_held (client x)) \<Longrightarrow> ok k (put (write_node r f (client x)) x)"
    and ok_hold: "ok k x \<Longrightarrow> set rs \<subseteq> ran (ctree (client x)) \<Longrightarrow> ok k (put (hold rs (client x)) x)"
    and ok_rcp: "ok k x \<Longrightarrow> r \<in> set (c_held (client x)) \<Longrightarrow> ok k (put (with_rcpHandler r h (client x)) x)"
    and ok_watch: "ok k x \<Longrightarrow> r \<in> set (c_held (client x)) \<Longrightarrow> ok k (put (with_updateHandler r b (client x)) x)"
    and ok_null: "ok k x \<Longrightarrow> needs_handle op \<Longrightarrow> op_handle op = None \<Longrightarrow> perf op x = Inl NullDeref"
    and op_root: "ok (Suc k) x \<Longrightarrow> ctree (client x) 0 = Some r \<Longrightarrow>
      \<exists>y. perf OpRoot x = Inr (y, RProperty (Some r)) \<and> ok k y \<and> server y = server x \<and>
        learns (client x) (client y) \<and> r \<in> set (c_held (client y))"
    and op_get: "ok (Suc (Suc k)) x \<Longrightarrow> ctree (client x) u = Some r \<Longrightarrow> r \<in> set (c_held (client x)) \<Longrightarrow>
      n \<noteq> ''.'' \<Longrightarrow> fits (ask_child u n) \<Longrightarrow>
      \<exists>y h. perf (OpGet (Some r) n False) x = Inr (y, RProperty h) \<and> ok k y \<and> server y = server x \<and>
        learns (client x) (client y) \<and> finds (client y) (child_uuid (server x) u n) h"
    and op_load: "ok (Suc (Suc k)) x \<Longrightarrow> ctree (client x) u = Some r \<Longrightarrow> r \<in> set (c_held (client x)) \<Longrightarrow>
      tree (server x) u = Some p \<Longrightarrow> fits (ask_all u) \<Longrightarrow>
      \<exists>y. perf (OpGet (Some r) ''.'' True) x = Inr (y, RProperty (Some r)) \<and> ok k y \<and> server y = server x \<and>
        learns (client x) (client y) \<and> knows_below (client y) (server x) p"
    and op_create_taken: "ok (Suc (Suc k)) x \<Longrightarrow> ctree (client x) u = Some r \<Longrightarrow> r \<in> set (c_held (client x)) \<Longrightarrow>
      child_uuid (server x) u n = Some v \<Longrightarrow> fits (ask_create u n) \<Longrightarrow>
      \<exists>y. perf (OpCreate (Some r) n) x = Inr (y, RProperty (cchild (client x) r n)) \<and> ok k y \<and> server y = server x \<and>
        learns (client x) (client y) \<and> (\<forall>d. cchild (client x) r n = Some d \<longrightarrow>
          ctree (client y) v = Some d \<and> d \<in> set (c_held (client y)))"
    and op_create: "ok (Suc (Suc k)) x \<Longrightarrow> ctree (client x) u = Some r \<Longrightarrow> r \<in> set (c_held (client x)) \<Longrightarrow>
      child_uuid (server x) u n = None \<Longrightarrow> public x u \<Longrightarrow> fits (ask_create u n) \<Longrightarrow>
      \<exists>y d. perf (OpCreate (Some r) n) x = Inr (y, RProperty (Some d)) \<and> ok k y \<and>
        does self (ask_create u n) (server x) (server y) \<and> learns (client x) (client y) \<and>
        ctree (client y) (ucast (mUuidCtr (server x))) = Some d \<and> d \<in> set (c_held (client y))"
    and op_destroy: "ok (Suc (Suc k)) x \<Longrightarrow> ctree (client x) v = Some r \<Longrightarrow> r \<in> set (c_held (client x)) \<Longrightarrow> v \<noteq> 0 \<Longrightarrow>
      ctree (client x) u = Some p \<Longrightarrow> linked (client x) p n r \<Longrightarrow> \<not> is_parent (abs_tree (server x)) v \<Longrightarrow> fits (ask_delete v) \<Longrightarrow>
      \<exists>y. perf (OpDestroy (Some r)) x = Inr (y, RBool True) \<and> ok k y \<and>
        does self (ask_delete v) (server x) (server y) \<and> steady (client x) (client y) \<and> pruned v p n (client x) (client y)"
    and op_destroy_refused: "ok (Suc (Suc k)) x \<Longrightarrow> ctree (client x) v = Some r \<Longrightarrow> r \<in> set (c_held (client x)) \<Longrightarrow>
      is_parent (abs_tree (server x)) v \<Longrightarrow> fits (ask_delete v) \<Longrightarrow>
      \<exists>y. perf (OpDestroy (Some r)) x = Inr (y, RBool False) \<and> ok k y \<and> server y = server x \<and> learns (client x) (client y)"
    and op_commit: "ok (Suc (Suc k)) x \<Longrightarrow> ctree (client x) u = Some r \<Longrightarrow> r \<in> set (c_held (client x)) \<Longrightarrow>
      cn_data (c_heap (client x) r) = d \<Longrightarrow> u = 0 \<longrightarrow> \<not> terminate_value d \<Longrightarrow>
      fits (SetValueRequest \<lparr>SetValueRequest_uuid = u, SetValueRequest_data = d\<rparr>) \<Longrightarrow>
      \<exists>y. perf (OpCommit (Some r)) x = Inr (y, RUnit) \<and> ok k y \<and>
        does self (SetValueRequest \<lparr>SetValueRequest_uuid = u, SetValueRequest_data = d\<rparr>) (server x) (server y) \<and>
        steady (client x) (client y) \<and> same_tree (client x) (client y)"
    and op_fetch: "ok (Suc (Suc k)) x \<Longrightarrow> ctree (client x) u = Some r \<Longrightarrow> r \<in> set (c_held (client x)) \<Longrightarrow>
      svalue (server x) u = Some d \<Longrightarrow> fits (GetRequest \<lparr>GetRequest_uuid = u\<rparr>) \<Longrightarrow>
      \<exists>y. perf (OpFetch (Some r)) x = Inr (y, RUnit) \<and> ok k y \<and> server y = server x \<and>
        cn_data (c_heap (client y) r) = d \<and>
        (\<forall>z. z \<noteq> r \<longrightarrow> cn_data (c_heap (client y) z) = cn_data (c_heap (client x) z)) \<and>
        steady (client x) (client y) \<and> same_nodes (client x) (client y)"
    and op_subscribe: "ok (Suc (Suc k)) x \<Longrightarrow> ctree (client x) u = Some r \<Longrightarrow> r \<in> set (c_held (client x)) \<Longrightarrow>
      fits (SubscribeRequest \<lparr>SubscribeRequest_uuid = u\<rparr>) \<Longrightarrow>
      \<exists>y. perf (OpSubscribe (Some r)) x = Inr (y, RBool True) \<and> ok k y \<and>
        does self (SubscribeRequest \<lparr>SubscribeRequest_uuid = u\<rparr>) (server x) (server y) \<and>
        steady (client x) (client y) \<and> same_tree (client x) (client y)"
    and op_unsubscribe: "ok (Suc (Suc k)) x \<Longrightarrow> ctree (client x) u = Some r \<Longrightarrow> r \<in> set (c_held (client x)) \<Longrightarrow>
      session_of (server x) self = Some i \<Longrightarrow> subscribed u i (server x) \<Longrightarrow>
      fits (UnsubscribeRequest \<lparr>UnsubscribeRequest_uuid = u\<rparr>) \<Longrightarrow>
      \<exists>y. perf (OpUnsubscribe (Some r)) x = Inr (y, RBool True) \<and> ok k y \<and>
        does self (UnsubscribeRequest \<lparr>UnsubscribeRequest_uuid = u\<rparr>) (server x) (server y) \<and>
        steady (client x) (client y) \<and> same_tree (client x) (client y)"
    and op_beat: "ok (Suc (Suc k)) x \<Longrightarrow> fits (HearbeatRequest \<lparr>HearbeatRequest_spare = 0\<rparr>) \<Longrightarrow>
      \<exists>y. perf OpBeat x = Inr (y, RUnit) \<and> ok k y \<and> server y = server x \<and>
        steady (client x) (client y) \<and> same_tree (client x) (client y)"
begin

abbreviation run :: "'a prog \<Rightarrow> 'w \<Rightarrow> fault + ('w \<times> 'a)" where
  "run \<equiv> run_prog client put perf"

lemma ok_root: "ok k x \<Longrightarrow> \<exists>r. ctree (client x) 0 = Some r"
  using ok_usable [of k x] by simp

end

section \<open>The client provides it\<close>

interpretation served: operations "perform L w held" fst snd "\<lambda>c x. (fst x, c)" w "usable w" "\<lambda>_ _. True" "sends L"
  for L w held
proof (unfold_locales, goal_cases)
  case (4 k x)
  then show ?case by simp
next
  case (5 k x)
  then show ?case by (cases x) (simp add: usable_write del: usable.simps)
next
  case (6 k x)
  then show ?case by (cases x) (simp add: usable_hold del: usable.simps)
next
  case (7 k x)
  then show ?case by (cases x) (simp add: usable_rcp del: usable.simps)
next
  case (8 k x)
  then show ?case by (cases x) (simp add: usable_watch del: usable.simps)
next
  case (9 k x)
  then show ?case by (cases x) (simp add: usable_null del: usable.simps)
next
  case (10 k x r)
  with perform_root [of w k "fst x" "snd x" r L held] show ?case by auto
next
  case (11 k x u r n)
  then obtain s c where x: "x = (s, c)" by fastforce
  show ?case using perform_get [of w k s c u r n L held] 11 unfolding x by (simp del: usable.simps finds_simps; blast)
next
  case (12 k x u r p)
  then obtain s c where x: "x = (s, c)" by fastforce
  show ?case using perform_load [of w k s c u r p L held] 12 unfolding x by (simp del: usable.simps; blast)
next
  case (13 k x u r n v)
  then obtain s c where x: "x = (s, c)" by fastforce
  show ?case using perform_create_taken [of w k s c u r n v L held] 13 unfolding x by (simp del: usable.simps; blast)
next
  case (14 k x u r n)
  then obtain s c where x: "x = (s, c)" by fastforce
  show ?case using perform_create [of w k s c u r n L held] 14 unfolding x by (simp del: usable.simps; blast)
next
  case (15 k x v r u p n)
  then obtain s c where x: "x = (s, c)" by fastforce
  show ?case using perform_destroy [of w k s c v r u p n L held] 15 unfolding x by (simp del: usable.simps; blast)
next
  case (16 k x v r)
  then obtain s c where x: "x = (s, c)" by fastforce
  show ?case using perform_destroy_refused [of w k s c v r L held] 16 unfolding x by (simp del: usable.simps; blast)
next
  case (17 k x u r d)
  then obtain s c where x: "x = (s, c)" by fastforce
  show ?case using perform_commit [of w k s c u r d L held] 17 unfolding x by (simp del: usable.simps; blast)
next
  case (18 k x u r d)
  then obtain s c where x: "x = (s, c)" by fastforce
  show ?case using perform_fetch [of w k s c u r d L held] 18 unfolding x by (simp del: usable.simps; blast)
next
  case (19 k x u r)
  then obtain s c where x: "x = (s, c)" by fastforce
  show ?case using perform_subscribe [of w k s c u r L held] 19 unfolding x by (simp del: usable.simps; blast)
next
  case (20 k x u r i)
  then obtain s c where x: "x = (s, c)" by fastforce
  show ?case using perform_unsubscribe [of w k s c u r i L held] 20 unfolding x by (simp del: usable.simps; blast)
next
  case (21 k x)
  then obtain s c where x: "x = (s, c)" by fastforce
  show ?case using perform_beat [of w k s c L held] 21 unfolding x by (simp del: usable.simps; blast)
qed (fact usable_mono | simp)+

text \<open>A program of a client that is connected to its server.\<close>

abbreviation run_pair :: "cum \<Rightarrow> conn \<Rightarrow> conn list \<Rightarrow> 'a prog \<Rightarrow> ProtocolHandler \<times> Client \<Rightarrow>
    fault + ((ProtocolHandler \<times> Client) \<times> 'a)" where
  "run_pair L w held \<equiv> run_prog snd (\<lambda>c x. (fst x, c)) (perform L w held)"

end
