(* ===== verification/PropertyRun.thy ===== *)
theory PropertyRun
  imports Operations
begin

text \<open>
  What the methods of a \<open>Property\<close> do, in any world that provides the operations of a client: one
  lemma per method, for a handle that refers to a node of the tree.
\<close>

lemma make_Property_simps [simp]: "mClient (make_Property h)" "mNode (make_Property h) = h"
  "to_bool (make_Property h) \<longleftrightarrow> h \<noteq> None" "as_Property (RProperty h) = make_Property h"
  by (simp_all add: make_Property_def to_bool_def as_Property_def)

lemma make_Property_inject [simp]: "make_Property h = make_Property h' \<longleftrightarrow> h = h'"
  by (simp add: make_Property_def)

text \<open>The handle a function returns refers to a node, or is empty if there is none.\<close>

definition refers :: "Client \<Rightarrow> Property \<Rightarrow> u64 option \<Rightarrow> bool" where
  "refers c p w \<longleftrightarrow> (\<exists>h. p = make_Property h \<and> finds c w h)"

lemma refers_simps [simp]: "refers c p None \<longleftrightarrow> p = make_Property None"
  "refers c p (Some v) \<longleftrightarrow> (\<exists>d. p = make_Property (Some d) \<and> ctree c v = Some d \<and> d \<in> set (c_held c))"
  by (auto simp: refers_def)

text \<open>The node a handle refers to, while the program holds it.\<close>

definition at :: "Client \<Rightarrow> Property \<Rightarrow> u64 \<Rightarrow> bool" where
  "at c p u \<longleftrightarrow> refers c p (Some u)"

lemma at_node: "at c (make_Property h) u \<longleftrightarrow> (\<exists>r. h = Some r \<and> ctree c u = Some r \<and> r \<in> set (c_held c))"
  by (auto simp: at_def)

lemma atE:
  assumes "at c p u"
  obtains r where "p = make_Property (Some r)" "ctree c u = Some r" "r \<in> set (c_held c)"
  using assms by (auto simp: at_def)

lemma at_learns: "at c p u \<Longrightarrow> learns c d \<Longrightarrow> at d p u"
  by (auto simp: at_def steady_def dest: growsD)

lemma at_same: "at c p u \<Longrightarrow> steady c d \<Longrightarrow> c_Tree d = c_Tree c \<Longrightarrow> at d p u"
  by (auto simp: at_def steady_def)

context operations
begin

lemma run_root:
  assumes "ok (Suc k) x"
  shows "\<exists>y p. run client_root x = Inr (y, p) \<and> ok k y \<and>
    server y = server x \<and> learns (client x) (client y) \<and> at (client y) p 0"
proof -
  obtain r where r: "ctree (client x) 0 = Some r" using ok_root [OF assms] by blast
  from op_root [OF assms r] obtain y where y: "perf OpRoot x = Inr (y, RProperty (Some r))" "ok k y" "server y = server x"
    "learns (client x) (client y)" "r \<in> set (c_held (client y))" by blast
  then have "ctree (client y) 0 = Some r" using growsD r by blast
  with y show ?thesis by (intro exI [of _ y] exI [of _ "make_Property (Some r)"]) (simp add: client_root_def on_client_def at_node)
qed

lemma run_beat:
  assumes "ok (Suc (Suc k)) x" "fits (HearbeatRequest \<lparr>HearbeatRequest_spare = 0\<rparr>)"
  shows "\<exists>y. run client_beat x = Inr (y, ()) \<and> ok k y \<and> server y = server x \<and>
    steady (client x) (client y) \<and> same_tree (client x) (client y)"
  using op_beat [OF assms] by (auto simp: client_beat_def on_client_def)

lemma run_get:
  assumes "ok (Suc (Suc k)) x" "at (client x) p u" "n \<noteq> ''.''" "fits (ask_child u n)"
  shows "\<exists>y q. run (prop_get n p) x = Inr (y, q) \<and> ok k y \<and> server y = server x \<and> learns (client x) (client y) \<and>
    refers (client y) q (child_uuid (server x) u n)"
proof -
  from assms(2) obtain r where r: "p = make_Property (Some r)" "ctree (client x) u = Some r" "r \<in> set (c_held (client x))"
    by (rule atE)
  from op_get [OF assms(1) r(2,3) assms(3,4)] obtain y h where
    "perf (OpGet (Some r) n False) x = Inr (y, RProperty h)" "ok k y" "server y = server x" "learns (client x) (client y)"
    "finds (client y) (child_uuid (server x) u n) h" by blast
  with r(1) show ?thesis
    by (intro exI [of _ y] exI [of _ "make_Property h"]) (simp add: prop_get_def on_client_def refers_def)
qed

lemma run_load:
  assumes "ok (Suc (Suc k)) x" "at (client x) p u" "tree (server x) u = Some d" "fits (ask_all u)"
  shows "\<exists>y. run (prop_loadChildren True p) x = Inr (y, ()) \<and> ok k y \<and> server y = server x \<and>
    learns (client x) (client y) \<and> knows_below (client y) (server x) d"
proof -
  from assms(2) obtain r where r: "p = make_Property (Some r)" "ctree (client x) u = Some r" "r \<in> set (c_held (client x))"
    by (rule atE)
  from op_load [OF assms(1) r(2,3) assms(3,4)] r(1) show ?thesis by (auto simp: prop_loadChildren_def on_client_def)
qed

lemma run_create:
  assumes "ok (Suc (Suc k)) x" "at (client x) p u" "child_uuid (server x) u n = None" "public x u" "fits (ask_create u n)"
  shows "\<exists>y q. run (prop_create n p) x = Inr (y, q) \<and> ok k y \<and> does self (ask_create u n) (server x) (server y) \<and>
    learns (client x) (client y) \<and> at (client y) q (ucast (mUuidCtr (server x)))"
proof -
  from assms(2) obtain r where r: "p = make_Property (Some r)" "ctree (client x) u = Some r" "r \<in> set (c_held (client x))"
    by (rule atE)
  from op_create [OF assms(1) r(2,3) assms(3-5)] obtain y d where
    "perf (OpCreate (Some r) n) x = Inr (y, RProperty (Some d))" "ok k y" "does self (ask_create u n) (server x) (server y)"
    "learns (client x) (client y)" "ctree (client y) (ucast (mUuidCtr (server x))) = Some d" "d \<in> set (c_held (client y))" by blast
  with r(1) show ?thesis
    by (intro exI [of _ y] exI [of _ "make_Property (Some d)"]) (simp add: prop_create_def on_client_def at_node)
qed

lemma run_create_taken:
  assumes "ok (Suc (Suc k)) x" "at (client x) p u" "child_uuid (server x) u n = Some v" "fits (ask_create u n)"
  shows "\<exists>y q. run (prop_create n p) x = Inr (y, q) \<and> ok k y \<and> server y = server x \<and> learns (client x) (client y) \<and>
    (to_bool q \<longleftrightarrow> ctree (client x) v \<noteq> None) \<and> (to_bool q \<longrightarrow> at (client y) q v)"
proof -
  from assms(2) obtain r where r: "p = make_Property (Some r)" "ctree (client x) u = Some r" "r \<in> set (c_held (client x))"
    by (rule atE)
  from op_create_taken [OF assms(1) r(2,3) assms(3,4)] obtain y where y:
    "perf (OpCreate (Some r) n) x = Inr (y, RProperty (cchild (client x) r n))" "ok k y" "server y = server x"
    "learns (client x) (client y)"
    "\<forall>d. cchild (client x) r n = Some d \<longrightarrow> ctree (client y) v = Some d \<and> d \<in> set (c_held (client y))" by blast
  have use: "usable self (Suc (Suc k)) (server x, client x)" using ok_usable [OF assms(1)] .
  have "cchild (client x) r n \<noteq> None \<longleftrightarrow> ctree (client x) v \<noteq> None"
  proof
    assume "cchild (client x) r n \<noteq> None"
    then obtain d where "cchild (client x) r n = Some d" by blast
    from known_child [OF use r(2) this] assms(3) show "ctree (client x) v \<noteq> None" by auto
  next
    assume "ctree (client x) v \<noteq> None"
    then obtain d where d: "ctree (client x) v = Some d" by blast
    have tr: "tree_inv (server x)" and wf: "tree_wf (client x)" using usable_wf [OF use] by simp_all
    have "sview (server x) v = Some (n, Some u)" using child_uuid_view [OF tr] assms(3) by simp
    moreover have "cview (client x) v = sview (server x) v" using use d knowsD [of "client x" "server x" v] by simp
    ultimately show "cchild (client x) r n \<noteq> None" using links_child [OF wf _ r(2), of n d] use d by auto
  qed
  with y r(1) show ?thesis
    by (intro exI [of _ y] exI [of _ "make_Property (cchild (client x) r n)"]) (auto simp: prop_create_def on_client_def at_node)
qed

text \<open>The node a client knows besides the root has a parent it knows.\<close>

lemma ok_parent:
  assumes "ok k x" "ctree (client x) v = Some r" "v \<noteq> 0"
  obtains u q n where "cview (client x) v = Some (n, Some u)" "ctree (client x) u = Some q" "linked (client x) q n r"
  using usable_parent [OF ok_usable [OF assms(1)] assms(2,3)] .

lemma run_destroy:
  assumes "ok (Suc (Suc k)) x" "at (client x) p v" "v \<noteq> 0" "\<not> is_parent (abs_tree (server x)) v" "fits (ask_delete v)"
  shows "\<exists>y u q n. run (prop_destroy p) x = Inr (y, True) \<and> ok k y \<and> does self (ask_delete v) (server x) (server y) \<and>
    steady (client x) (client y) \<and> cview (client x) v = Some (n, Some u) \<and> ctree (client x) u = Some q \<and>
    pruned v q n (client x) (client y)"
proof -
  from assms(2) obtain r where r: "p = make_Property (Some r)" "ctree (client x) v = Some r" "r \<in> set (c_held (client x))"
    by (rule atE)
  obtain u q n where q: "cview (client x) v = Some (n, Some u)" "ctree (client x) u = Some q" "linked (client x) q n r"
    using ok_parent [OF assms(1) r(2) assms(3)] .
  from op_destroy [OF assms(1) r(2,3) assms(3) q(2,3) assms(4,5)] q r(1) show ?thesis
    by (auto simp: prop_destroy_def on_client_def as_bool_def)
qed

lemma run_destroy_refused:
  assumes "ok (Suc (Suc k)) x" "at (client x) p v" "is_parent (abs_tree (server x)) v" "fits (ask_delete v)"
  shows "\<exists>y. run (prop_destroy p) x = Inr (y, False) \<and> ok k y \<and> server y = server x \<and> learns (client x) (client y)"
proof -
  from assms(2) obtain r where r: "p = make_Property (Some r)" "ctree (client x) v = Some r" "r \<in> set (c_held (client x))"
    by (rule atE)
  from op_destroy_refused [OF assms(1) r(2,3) assms(3,4)] r(1) show ?thesis
    by (auto simp: prop_destroy_def on_client_def as_bool_def)
qed

text \<open>Writing a value and committing it: the two ways to set a value do the same.\<close>

lemma commit_written:
  assumes "ok (Suc (Suc k)) x" "ctree (client x) u = Some r" "r \<in> set (c_held (client x))"
    and "f (cn_data (c_heap (client x) r)) = bs" "u = 0 \<longrightarrow> \<not> terminate_value bs" "fits (ask_set u bs)"
  shows "\<exists>y. perf (OpCommit (Some r)) (put (write_node r f (client x)) x) = Inr (y, RUnit) \<and> ok k y \<and>
    does self (ask_set u bs) (server x) (server y) \<and> steady (client x) (client y) \<and> same_nodes (client x) (client y) \<and>
    cvalue (client y) = (cvalue (client x))(u \<mapsto> bs)"
proof -
  let ?x = "put (write_node r f (client x)) x"
  have c: "client ?x = write_node r f (client x)" "server ?x = server x" by (simp_all add: get_put)
  have "ctree (client ?x) u = Some r" "r \<in> set (c_held (client ?x))" "cn_data (c_heap (client ?x) r) = bs"
    using assms(2-4) unfolding c by (simp_all add: write_node_def)
  from op_commit [OF ok_write [OF assms(1,3)] this assms(5,6)] obtain y where
    y: "perf (OpCommit (Some r)) ?x = Inr (y, RUnit)" "ok k y" "does self (ask_set u bs) (server x) (server y)"
      "steady (client ?x) (client y)" "same_tree (client ?x) (client y)" unfolding c(2) by blast
  have "steady (client x) (client ?x)" unfolding c by (simp add: steady_def write_node_def)
  then have st: "steady (client x) (client y)" using y(4) by (rule steady_trans)
  have eq: "client ?x = store_value r bs (client x)" using assms(4) unfolding c by (simp add: write_node_def store_value_eq)
  have wf: "tree_wf (client x)" using usable_wf [OF ok_usable [OF assms(1)]] by simp
  have "same_nodes (client x) (client ?x)" by (simp add: eq same_nodes_def store_value_eq)
  then have "same_nodes (client x) (client y)" using same_tree_nodes [OF y(5)] by (rule same_nodes_trans)
  moreover have "cvalue (client y) = (cvalue (client x))(u \<mapsto> bs)"
    using same_tree_views [OF y(5)] store_value_value [OF wf assms(2), of bs] by (simp add: eq)
  ultimately show ?thesis using y(1-3) st by blast
qed

lemma run_set:
  assumes "ok (Suc (Suc k)) x" "at (client x) p u" "u = 0 \<longrightarrow> \<not> terminate_value bs" "fits (ask_set u bs)"
  shows "\<exists>y. run (prop_set bs p) x = Inr (y, ()) \<and> ok k y \<and> does self (ask_set u bs) (server x) (server y) \<and>
    steady (client x) (client y) \<and> same_nodes (client x) (client y) \<and> cvalue (client y) = (cvalue (client x))(u \<mapsto> bs)"
proof -
  from assms(2) obtain r where r: "p = make_Property (Some r)" "ctree (client x) u = Some r" "r \<in> set (c_held (client x))"
    by (rule atE)
  from commit_written [OF assms(1) r(2,3) refl, of "\<lambda>_. bs"] assms(3,4) r(1) show ?thesis
    by (auto simp: prop_set_def on_client_def on_node_def)
qed

lemma run_assign:
  assumes "ok (Suc (Suc k)) x" "at (client x) p u" "u = 0 \<longrightarrow> \<not> terminate_value bs" "fits (ask_set u bs)"
  shows "\<exists>y. run (prop_assign bs p) x = Inr (y, ()) \<and> ok k y \<and> does self (ask_set u bs) (server x) (server y) \<and>
    steady (client x) (client y) \<and> same_nodes (client x) (client y) \<and> cvalue (client y) = (cvalue (client x))(u \<mapsto> bs)"
proof -
  have "run (prop_assign bs p) x = run (prop_set bs p) x" using assms(2)
    by (auto simp: prop_assign_set prop_set_def on_node_def elim!: atE)
  with run_set [OF assms] show ?thesis by simp
qed

lemma run_fetch:
  assumes "ok (Suc (Suc k)) x" "at (client x) p u" "svalue (server x) u = Some bs" "fits (GetRequest \<lparr>GetRequest_uuid = u\<rparr>)"
  shows "\<exists>y. run (prop_fetch p) x = Inr (y, ()) \<and> ok k y \<and> server y = server x \<and>
    steady (client x) (client y) \<and> same_nodes (client x) (client y) \<and> cvalue (client y) = (cvalue (client x))(u \<mapsto> bs)"
proof -
  from assms(2) obtain r where r: "p = make_Property (Some r)" "ctree (client x) u = Some r" "r \<in> set (c_held (client x))"
    by (rule atE)
  from op_fetch [OF assms(1) r(2,3) assms(3,4)] obtain y where
    y: "perf (OpFetch (Some r)) x = Inr (y, RUnit)" "ok k y" "server y = server x" "cn_data (c_heap (client y) r) = bs"
      "\<forall>z. z \<noteq> r \<longrightarrow> cn_data (c_heap (client y) z) = cn_data (c_heap (client x) z)"
      "steady (client x) (client y)" "same_nodes (client x) (client y)" by blast
  have wf: "tree_wf (client x)" using usable_wf [OF ok_usable [OF assms(1)]] by simp
  have "cvalue (client y) v = ((cvalue (client x))(u \<mapsto> bs)) v" for v
  proof (cases "ctree (client x) v")
    case (Some d)
    show ?thesis
    proof (cases "d = r")
      case True
      with tree_uuid_unique [OF wf] Some r(2) have "v = u" by metis
      with True Some y(4,7) show ?thesis by (simp add: cvalue_def same_nodes_def)
    next
      case False
      with Some r(2) have "v \<noteq> u" by auto
      with False Some y(5,7) show ?thesis by (simp add: cvalue_def same_nodes_def)
    qed
  qed (use y(7) r(2) in \<open>auto simp: cvalue_def same_nodes_def\<close>)
  then have "cvalue (client y) = (cvalue (client x))(u \<mapsto> bs)" by (rule ext)
  with y(1-3,6,7) r(1) show ?thesis by (auto simp: prop_fetch_def on_client_def)
qed

text \<open>The value a client has.\<close>

lemma run_raw: "at (client x) p u \<Longrightarrow> run (prop_raw p) x = Inr (x, the (cvalue (client x) u))"
  by (auto simp: prop_raw_def on_node_def cvalue_def elim!: atE)

lemma run_value: "at (client x) p u \<Longrightarrow> cvalue (client x) u = Some bs \<Longrightarrow>
    run (prop_value n p) x = Inr (x, if n = length bs then Some bs else None)"
  by (auto simp: prop_value_def on_node_def cvalue_def elim!: atE)

lemma run_uuid:
  assumes "ok k x" "at (client x) p u"
  shows "run (prop_uuid p) x = Inr (x, u)"
  using assms(2) tree_uuid [OF usable_wf(1) [OF ok_usable [OF assms(1)]]]
  by (auto simp: prop_uuid_def on_node_def elim!: atE)

lemma run_subscribe:
  assumes "ok (Suc (Suc k)) x" "at (client x) p u" "fits (SubscribeRequest \<lparr>SubscribeRequest_uuid = u\<rparr>)"
  shows "\<exists>y. run (prop_subscribe p) x = Inr (y, ()) \<and> ok k y \<and>
    does self (SubscribeRequest \<lparr>SubscribeRequest_uuid = u\<rparr>) (server x) (server y) \<and>
    steady (client x) (client y) \<and> same_tree (client x) (client y)"
proof -
  from assms(2) obtain r where r: "p = make_Property (Some r)" "ctree (client x) u = Some r" "r \<in> set (c_held (client x))"
    by (rule atE)
  from op_subscribe [OF assms(1) r(2,3) assms(3)] r(1) show ?thesis by (auto simp: prop_subscribe_def on_client_def)
qed

lemma run_unsubscribe:
  assumes "ok (Suc (Suc k)) x" "at (client x) p u" "session_of (server x) self = Some i" "subscribed u i (server x)"
    and "fits (UnsubscribeRequest \<lparr>UnsubscribeRequest_uuid = u\<rparr>)"
  shows "\<exists>y. run (prop_unsubscribe p) x = Inr (y, ()) \<and> ok k y \<and>
    does self (UnsubscribeRequest \<lparr>UnsubscribeRequest_uuid = u\<rparr>) (server x) (server y) \<and>
    steady (client x) (client y) \<and> same_tree (client x) (client y)"
proof -
  from assms(2) obtain r where r: "p = make_Property (Some r)" "ctree (client x) u = Some r" "r \<in> set (c_held (client x))"
    by (rule atE)
  from op_unsubscribe [OF assms(1) r(2,3) assms(3-5)] r(1) show ?thesis by (auto simp: prop_unsubscribe_def on_client_def)
qed

text \<open>The children of a node are handed out as handles.\<close>

abbreviation child_handles :: "Client \<Rightarrow> cref \<Rightarrow> (string \<times> Property) list" where
  "child_handles c r \<equiv> map (\<lambda>(n, d). (n, make_Property (Some d))) (cn_children (c_heap c r))"

lemma run_children:
  assumes "ok k x" "ctree (client x) u = Some r"
  shows "\<exists>y. run (prop_children (make_Property (Some r))) x = Inr (y, child_handles (client x) r) \<and> ok k y \<and>
    server y = server x \<and> steady (client x) (client y) \<and> same_tree (client x) (client y) \<and>
    (\<forall>(n, d)\<in>set (cn_children (c_heap (client x) r)). d \<in> set (c_held (client y)))"
proof -
  let ?rs = "map snd (cn_children (c_heap (client x) r))"
  have use: "usable self k (server x, client x)" using ok_usable [OF assms(1)] .
  have wf: "tree_wf (client x)" using usable_wf [OF use] by simp
  have "set ?rs \<subseteq> ran (ctree (client x))"
  proof
    fix d assume "d \<in> set ?rs"
    then obtain n where "(n, d) \<in> set (cn_children (c_heap (client x) r))" by auto
    then have "cchild (client x) r n = Some d" using tree_wf_om [OF wf] by (simp add: om.items_find [symmetric])
    with links_okD [OF _ assms(2)] use have "linked (client x) r n d" by simp
    then show "d \<in> ran (ctree (client x))" by (auto simp: linked_def ran_def)
  qed
  note ok = ok_hold [OF assms(1) this]
  show ?thesis
    by (intro exI [of _ "put (hold ?rs (client x)) x"])
      (use ok in \<open>auto simp: prop_children_def on_node_def get_put hold_def steady_def same_tree_def image_iff\<close>; force)
qed

lemma run_childrenSize:
  "run (prop_childrenSize (make_Property (Some r))) x = Inr (x, length (cn_children (c_heap (client x) r)))"
  by (simp add: prop_childrenSize_def on_node_def)

lemma run_watched:
  assumes "ok k x" "at (client x) p u"
  shows "\<exists>y. run (prop_setUpdateHandler b p) x = Inr (y, ()) \<and> ok k y \<and> server y = server x \<and>
    steady (client x) (client y) \<and> same_nodes (client x) (client y) \<and> cvalue (client y) = cvalue (client x)"
proof -
  from assms(2) obtain r where r: "p = make_Property (Some r)" "ctree (client x) u = Some r" "r \<in> set (c_held (client x))"
    by (rule atE)
  have "cvalue (with_updateHandler r b (client x)) = cvalue (client x)"
    by (rule value_cong) (simp_all add: with_updateHandler_def)
  with ok_watch [OF assms(1) r(3)] r(1) show ?thesis
    by (auto simp: prop_setUpdateHandler_def on_node_def get_put with_updateHandler_def steady_def same_nodes_def)
qed

end

end
