(* ===== verification/Forest.thy ===== *)
theory Forest
  imports PropertyRun
begin

text \<open>
  The nodes below a node as a forest: what loops over the tree go through. The children a client has
  in its nodes show the forest of the server, once it knows all of it.
\<close>

text \<open>The same nodes have the same children.\<close>

lemma child_uuid_cong:
  assumes "tree_inv s" "tree_inv s'" "sview s' = sview s"
  shows "child_uuid s' u n = child_uuid s u n"
  using child_uuid_view [OF assms(1), of u n] child_uuid_view [OF assms(2), of u n] assms(3)
  by (cases "child_uuid s' u n"; cases "child_uuid s u n") auto

section \<open>Forests\<close>

datatype rose = Rose string u64 "rose list"

text \<open>The forest of a list of children; \<open>d\<close> bounds the depth.\<close>

fun forest :: "nat \<Rightarrow> (ref \<Rightarrow> Node) \<Rightarrow> (string \<times> ref) list \<Rightarrow> rose list" where
  "forest d h [] = []"
| "forest d h (e # es) = Rose (fst e) (node_uuid (h (snd e)))
     (case d of 0 \<Rightarrow> [] | Suc d' \<Rightarrow> forest d' h (node_children (h (snd e)))) # forest d h es"

definition forest_of :: "ProtocolHandler \<Rightarrow> u64 \<Rightarrow> rose list" where
  "forest_of s u = (case tree s u of None \<Rightarrow> []
     | Some p \<Rightarrow> forest (unat (mUuidCtr s)) (heap s) (node_children (heap s p)))"

text \<open>The nodes of a forest in preorder.\<close>

fun members :: "rose list \<Rightarrow> u64 list" where
  "members [] = []"
| "members (Rose n u ts # us) = u # members ts @ members us"

text \<open>It is the order in which the server lists them.\<close>

lemma members_forest: "members (forest d h es) = map NamedNode_uuid (descend d h True p es)"
  by (induction d h "True" p es rule: descend.induct) (auto simp: named_node_def split: nat.split)

lemma members_distinct:
  assumes "tree_inv s"
  shows "distinct (members (forest_of s u))"
proof (cases "tree s u")
  case (Some p)
  have "om_wf (node_children (heap s p))" using tree_nodeD(5) [OF assms Some] .
  with descend_distinct [OF assms Some subset_refl] Some show ?thesis
    by (simp add: forest_of_def members_forest [of _ _ _ p] depth_left_def)
qed (simp add: forest_of_def)

lemma members_below:
  assumes "tree_inv s" "tree s u = Some p"
  shows "set (members (forest_of s u)) = (\<lambda>d. node_uuid (heap s d)) ` {d. below s p d}"
proof -
  have "set (members (forest_of s u)) = NamedNode_uuid ` entry_of s ` {d. below s p d}"
    using descend_below [OF assms, of True] assms(2) by (simp add: forest_of_def members_forest [of _ _ _ p])
  then show ?thesis by (simp add: entry_of_def image_image)
qed

text \<open>Below the root are all nodes but the root.\<close>

lemma members_root:
  assumes "tree_inv s"
  shows "set (members (forest_of s 0)) = dom (tree s) - {0}"
proof -
  obtain p where p: "tree s 0 = Some p" using assms by (rule tree_root)
  have "x \<in> dom (tree s) - {0}" if "below s p d" "x = node_uuid (heap s d)" for x d
  proof -
    from below_in_tree [OF that(1) assms p] obtain v where v: "tree s v = Some d" "depth_left s d < depth_left s p"
      by (auto simp: ran_def)
    then have "v \<noteq> 0" using p by auto
    with v(1) that(2) tree_nodeD(3) [OF assms v(1)] show ?thesis by auto
  qed
  moreover have "x \<in> (\<lambda>d. node_uuid (heap s d)) ` {d. below s p d}" if "x \<in> dom (tree s) - {0}" for x
  proof -
    from that obtain d where d: "tree s x = Some d" "x \<noteq> 0" by auto
    with below_root [OF assms p] tree_nodeD(3) [OF assms d(1)] show ?thesis by force
  qed
  ultimately show ?thesis unfolding members_below [OF assms p] by blast
qed

text \<open>The rounds of a loop that visits each node once, and each level once more when it leaves it.\<close>

fun rounds :: "rose list \<Rightarrow> nat" where
  "rounds [] = 0"
| "rounds (Rose n u ts # us) = Suc ((if ts = [] then 0 else Suc (rounds ts)) + rounds us)"

lemma rounds_members: "rounds ts \<le> 2 * length (members ts)"
proof (induction ts rule: rounds.induct)
  case (2 n u ts us)
  have "ts \<noteq> [] \<Longrightarrow> 0 < length (members ts)" by (cases ts rule: members.cases) auto
  with 2 show ?case by auto
qed simp

section \<open>The nodes of a client\<close>

text \<open>The children of a node as the handles a program gets.\<close>

abbreviation handles_of :: "(string \<times> cref) list \<Rightarrow> (string \<times> Property) list" where
  "handles_of ds \<equiv> map (\<lambda>(n, d). (n, make_Property (Some d))) ds"


text \<open>The children of a node of the client show a forest.\<close>

fun mirrors :: "Client \<Rightarrow> (string \<times> cref) list \<Rightarrow> rose list \<Rightarrow> bool" where
  "mirrors c [] [] = True"
| "mirrors c ((n, d) # ds) (Rose m v ts # us) =
     (n = m \<and> ctree c v = Some d \<and> mirrors c (cn_children (c_heap c d)) ts \<and> mirrors c ds us)"
| "mirrors c _ _ = False"

lemma mirrors_same:
  assumes "\<forall>v\<in>set (members ts). \<forall>d. ctree c v = Some d \<longrightarrow>
    ctree e v = Some d \<and> cn_children (c_heap e d) = cn_children (c_heap c d)" "mirrors c ds ts"
  shows "mirrors e ds ts"
  using assms by (induction c ds ts rule: mirrors.induct) auto

lemma same_nodes_mirrors: "same_nodes c e \<Longrightarrow> mirrors c ds ts \<Longrightarrow> mirrors e ds ts"
  by (rule mirrors_same [of ts c]) (simp_all add: same_nodes_def)

lemma mirrors_nodes: "mirrors c ds ts \<Longrightarrow> v \<in> set (members ts) \<Longrightarrow> ctree c v \<noteq> None"
  by (induction c ds ts rule: mirrors.induct) auto

text \<open>A child of the client is the server's, as far as the client knows it.\<close>

lemma client_child:
  assumes use: "usable w k (s, c)" and r: "ctree c u = Some r"
  shows "cchild c r n = (case child_uuid s u n of None \<Rightarrow> None | Some v \<Rightarrow> ctree c v)"
proof -
  have tr: "tree_inv s" and wf: "tree_wf c" using usable_wf [OF use] by simp_all
  have known: "cchild c r n = Some d" if v: "child_uuid s u n = Some v" "ctree c v = Some d" for v d
  proof -
    have "sview s v = Some (n, Some u)" using child_uuid_view [OF tr] v(1) by simp
    moreover have "cview c v = sview s v" using use v(2) knowsD [of c s v] by simp
    ultimately show ?thesis using links_child [OF wf _ r, of n d] use v(2) by auto
  qed
  show ?thesis
  proof (cases "cchild c r n")
    case None
    then have "child_uuid s u n = Some v \<Longrightarrow> ctree c v = None" for v using known [of v] by (cases "ctree c v") auto
    with None show ?thesis by (simp split: option.split)
  next
    case (Some d)
    from known_child [OF use r Some] Some show ?thesis by auto
  qed
qed

lemma client_children:
  assumes use: "usable w k (s, c)" and r: "ctree c u = Some r" and p: "tree s u = Some p"
    and all: "\<forall>(n, q)\<in>set (node_children (heap s p)). ctree c (node_uuid (heap s q)) \<noteq> None"
  shows "cn_children (c_heap c r) = map (\<lambda>(n, q). (n, the (ctree c (node_uuid (heap s q))))) (node_children (heap s p))"
proof (rule om_unique)
  let ?es = "node_children (heap s p)"
  have wf: "tree_wf c" and tr: "tree_inv s" using usable_wf [OF use] by simp_all
  show "om_wf (cn_children (c_heap c r))" by (rule tree_wf_om [OF wf])
  have es: "om_wf ?es" by (rule tree_nodeD(5) [OF tr p])
  then show "om_wf (map (\<lambda>(n, q). (n, the (ctree c (node_uuid (heap s q))))) ?es)"
    by (simp add: om_wf_def comp_def case_prod_beta)
  show "cchild c r = map_of (map (\<lambda>(n, q). (n, the (ctree c (node_uuid (heap s q))))) ?es)"
  proof
    fix n
    have "cchild c r n = (case map_of ?es n of None \<Rightarrow> None | Some q \<Rightarrow> ctree c (node_uuid (heap s q)))"
      using client_child [OF use r, of n] p by (simp add: child_uuid_def split: option.split)
    moreover have "ctree c (node_uuid (heap s q)) \<noteq> None" if "map_of ?es n = Some q" for q
      using all map_of_SomeD [OF that] by auto
    ultimately show "cchild c r n = map_of (map (\<lambda>(n, q). (n, the (ctree c (node_uuid (heap s q))))) ?es) n"
      by (auto simp: map_of_map split: option.split)
  qed
qed

lemma mirrors_forest:
  assumes use: "usable w k (s, c)" and p: "tree s u = Some p" and es: "set es \<subseteq> set (node_children (heap s p))"
    and deep: "depth_left s p \<le> Suc d" and all: "\<forall>e\<in>set es. \<forall>x\<in>subtree s (snd e). ctree c (node_uuid (heap s x)) \<noteq> None"
  shows "mirrors c (map (\<lambda>(n, q). (n, the (ctree c (node_uuid (heap s q))))) es) (forest d (heap s) es)"
  using p es deep all
proof (induction d "heap s" es arbitrary: u p rule: forest.induct)
  case (2 d e es)
  have tr: "tree_inv s" using usable_wf [OF use] by simp
  obtain n c' where e: "e = (n, c')" by fastforce
  have mem: "(n, c') \<in> set (node_children (heap s p))" using "2.prems"(2) e by simp
  from tree_children_rank [OF tr "2.prems"(1) mem] obtain v where v: "tree s v = Some c'" "depth_left s c' < depth_left s p"
    by (auto simp: ran_def)
  have uu: "node_uuid (heap s c') = v" using tree_nodeD(3) [OF tr v(1)] .
  have below: "ctree c (node_uuid (heap s x)) \<noteq> None" if "x \<in> subtree s c'" for x
    using "2.prems"(4) that e by auto
  from below [of c'] obtain d' where d': "ctree c v = Some d'" by (auto simp: subtree_def uu)
  have sub: "x \<in> subtree s c'" if "g \<in> set (node_children (heap s c'))" "x \<in> subtree s (snd g)" for g x
    using that subtree_children [OF tr v(1)] by (auto simp: subtree_def)
  have "mirrors c (cn_children (c_heap c d')) (case d of 0 \<Rightarrow> [] | Suc d0 \<Rightarrow> forest d0 (heap s) (node_children (heap s c')))"
  proof -
    have "\<forall>(n, q)\<in>set (node_children (heap s c')). ctree c (node_uuid (heap s q)) \<noteq> None"
      using sub below by (auto simp: subtree_def)
    note ch = client_children [OF use d' v(1) this]
    show ?thesis
    proof (cases d)
      case 0
      then have "depth_left s c' = 0" using v(2) "2.prems"(3) by simp
      then have "node_children (heap s c') = []"
        using tree_children_rank(2) [OF tr v(1)] by (cases "node_children (heap s c')") auto
      with 0 ch show ?thesis by simp
    next
      case (Suc d0)
      have "mirrors c (map (\<lambda>(n, q). (n, the (ctree c (node_uuid (heap s q))))) (node_children (heap s c')))
          (forest d0 (heap s) (node_children (heap s c')))"
        using "2.hyps"(1) [OF Suc, of v] e v "2.prems"(3) Suc sub below by simp
      with Suc ch show ?thesis by simp
    qed
  qed
  moreover have "mirrors c (map (\<lambda>(n, q). (n, the (ctree c (node_uuid (heap s q))))) es) (forest d (heap s) es)"
    using "2.hyps"(2) [OF "2.prems"(1) _ "2.prems"(3)] "2.prems"(2,4) by simp
  ultimately show ?case using d' uu by (cases d) (simp_all add: e)
qed simp

text \<open>A client that has loaded what is below a node shows it.\<close>

lemma loaded_mirrors:
  assumes use: "usable w k (s, c)" and r: "ctree c u = Some r" and p: "tree s u = Some p" and below: "knows_below c s p"
  shows "mirrors c (cn_children (c_heap c r)) (forest_of s u)"
proof -
  have tr: "tree_inv s" using usable_wf [OF use] by simp
  have all: "ctree c (node_uuid (heap s x)) \<noteq> None" if "e \<in> set (node_children (heap s p))" "x \<in> subtree s (snd e)" for e x
    using below subtree_children [OF tr p] that by (auto simp: knows_below_def)
  then have "\<forall>(n, q)\<in>set (node_children (heap s p)). ctree c (node_uuid (heap s q)) \<noteq> None" by (auto simp: subtree_def)
  from client_children [OF use r p this] mirrors_forest [OF use p subset_refl, of "unat (mUuidCtr s)"] all p
  show ?thesis by (simp add: forest_of_def depth_left_def)
qed

end
