(* ===== verification/Console.thy ===== *)
theory Console
  imports Prelude
begin

text \<open>
  The parts of the monitor (\<open>monitor/src/main.cpp\<close>) that have no client in them: the conversion of
  hexadecimal text, the splitting of paths, and the line editor of the terminal.
\<close>

section \<open>Hexadecimal text\<close>

text \<open>
  \<open>std::tolower\<close> in the C locale. A \<open>char\<close> is signed and of 8 bits: it is compared as a signed
  number, and what is computed from it in \<open>int\<close> is cut off to 8 bits.
\<close>

definition c_tolower :: "u8 \<Rightarrow> u8" where
  "c_tolower i = (if 65 \<le> i \<and> i \<le> 90 then i + 32 else i)"

definition hex_digit :: "u8 \<Rightarrow> u8" where
  "hex_digit i = (let i = c_tolower i in if sint i \<ge> 97 then i - 97 + 10 else i - 48)"

fun hex_loop :: "string \<Rightarrow> bool \<Rightarrow> u8 \<Rightarrow> u8 list \<Rightarrow> u8 list" where
  "hex_loop [] nibble byte rv = rv"
| "hex_loop (c # cs) nibble byte rv =
     (let i = hex_digit (of_nat (of_char c))
      in if \<not> nibble then hex_loop cs (\<not> nibble) (push_bit 4 i) rv
         else let byte = or byte i in hex_loop cs (\<not> nibble) byte (rv @ [byte]))"

definition hexStringToVector :: "string \<Rightarrow> u8 list" where
  "hexStringToVector pHex = hex_loop pHex False 0 []"

section \<open>Paths\<close>

text \<open>The matches of the regular expression \<open>/([A-Za-z0-9]+)\<close>, from left to right.\<close>

definition alnum :: "char \<Rightarrow> bool" where
  "alnum c \<longleftrightarrow> (let n = of_char c :: nat in 48 \<le> n \<and> n \<le> 57 \<or> 65 \<le> n \<and> n \<le> 90 \<or> 97 \<le> n \<and> n \<le> 122)"

function path_names :: "string \<Rightarrow> string list" where
  "path_names [] = []"
| "path_names (c # cs) =
     (if c = CHR ''/'' \<and> takeWhile alnum cs \<noteq> []
      then takeWhile alnum cs # path_names (dropWhile alnum cs) else path_names cs)"
  by pat_completeness auto

termination
  by (relation "measure length") (simp_all add: le_imp_less_Suc length_dropWhile_le)

section \<open>The line editor\<close>

text \<open>
  \<open>mConsoleInputBuffer\<close> is uninitialised at first. What is printed goes to \<open>std::cout\<close>. The command
  manager is a library: \<open>exec\<close> says what a command does to the rest of the program and what text it
  returns.
\<close>

definition INPUT_SIZE :: nat where
  "INPUT_SIZE = 128"

record Console =
  mConsoleInputBuffer :: string
  mConsoleInputBufferIdx :: nat
  mConsolseWaitChar :: nat

definition init_Console :: "string \<Rightarrow> Console" where
  "init_Console junk = \<lparr>mConsoleInputBuffer = junk, mConsoleInputBufferIdx = 0, mConsolseWaitChar = 0\<rparr>"

definition printTermInput :: "Console \<Rightarrow> string" where
  "printTermInput c = ''$user: '' @ take (mConsoleInputBufferIdx c) (mConsoleInputBuffer c)"

definition consoleLog :: "string \<Rightarrow> Console \<Rightarrow> string" where
  "consoleLog ts c = CHR 0x0D # CHR 0x1B # ''[K'' @ ts @ [CHR 0x0A] @ printTermInput c"

text \<open>Writing to the array; behind its end this is undefined behaviour.\<close>

definition put_char :: "nat \<Rightarrow> char \<Rightarrow> Console \<Rightarrow> fault + Console" where
  "put_char i k c = (if i < INPUT_SIZE then Inr (c\<lparr>mConsoleInputBuffer := (mConsoleInputBuffer c)[i := k]\<rparr>)
     else Inl BufferOverflow)"

definition consoleIn :: "(string \<Rightarrow> 'w \<Rightarrow> fault + ('w \<times> string)) \<Rightarrow> char \<Rightarrow> Console \<times> 'w \<Rightarrow>
    fault + ((Console \<times> 'w) \<times> string)" where
  "consoleIn exec pKey = (\<lambda>(c, w).
     if mConsolseWaitChar c \<noteq> 0 then Inr ((c\<lparr>mConsolseWaitChar := mConsolseWaitChar c - 1\<rparr>, w), [])
     else if pKey = CHR 0x1B then Inr ((c\<lparr>mConsolseWaitChar := 2\<rparr>, w), [])
     else if pKey = CHR 0x09 then Inr ((c, w), [])
     else if pKey = CHR 0x7F then
       (if mConsoleInputBufferIdx c = 0 then Inr ((c, w), [])
        else Inr ((c\<lparr>mConsoleInputBufferIdx := mConsoleInputBufferIdx c - 1\<rparr>, w), [CHR 0x08, CHR 0x20, CHR 0x08]))
     else if mConsoleInputBufferIdx c > INPUT_SIZE - 1 then Inr ((c, w), [])
     else if pKey = CHR 0x0A then
       bindR (put_char (mConsoleInputBufferIdx c) (CHR 0x00) c) (\<lambda>c.
         let c = c\<lparr>mConsoleInputBufferIdx := 0\<rparr>;
             command = takeWhile (\<lambda>k. k \<noteq> CHR 0x00) (mConsoleInputBuffer c)
         in bindR (exec command w) (\<lambda>(w, res).
           Inr ((c, w), [CHR 0x0A] @ (if res = [] then printTermInput c else []) @
             consoleLog (command @ '' : '' @ res) c)))
     else
       bindR (put_char (mConsoleInputBufferIdx c) pKey c) (\<lambda>c.
         Inr ((c\<lparr>mConsoleInputBufferIdx := mConsoleInputBufferIdx c + 1\<rparr>, w), [pKey])))"

section \<open>The line being typed\<close>

text \<open>
  The line editor without its buffer: the characters typed so far and how many keys are still to be
  skipped after an escape; an \<open>Enter\<close> hands the line, up to a zero character, to \<open>exec\<close>.
\<close>

fun line_key :: "(string \<Rightarrow> 'w \<Rightarrow> fault + ('w \<times> string)) \<Rightarrow> char \<Rightarrow> (string \<times> nat) \<times> 'w \<Rightarrow>
    fault + ((string \<times> nat) \<times> 'w)" where
  "line_key exec k ((l, Suc n), w) = Inr ((l, n), w)"
| "line_key exec k ((l, 0), w) =
     (if k = CHR 0x1B then Inr ((l, 2), w)
      else if k = CHR 0x09 then Inr ((l, 0), w)
      else if k = CHR 0x7F then Inr ((butlast l, 0), w)
      else if length l = INPUT_SIZE then Inr ((l, 0), w)
      else if k = CHR 0x0A then bindR (exec (takeWhile (\<lambda>k. k \<noteq> CHR 0x00) l) w) (\<lambda>(w, res). Inr (([], 0), w))
      else Inr ((l @ [k], 0), w))"

definition typed :: "Console \<Rightarrow> string \<times> nat" where
  "typed c = (take (mConsoleInputBufferIdx c) (mConsoleInputBuffer c), mConsolseWaitChar c)"

definition console_ok :: "Console \<Rightarrow> bool" where
  "console_ok c \<longleftrightarrow> length (mConsoleInputBuffer c) = INPUT_SIZE \<and> mConsoleInputBufferIdx c \<le> INPUT_SIZE"

lemma take_nul: "i < length b \<Longrightarrow> takeWhile (\<lambda>k. k \<noteq> CHR 0x00) (b[i := CHR 0x00]) = takeWhile (\<lambda>k. k \<noteq> CHR 0x00) (take i b)"
  by (subst upd_conv_take_nth_drop) (auto simp: takeWhile_append intro!: takeWhile_eq_all_conv [THEN iffD2, symmetric])

lemma console_step:
  assumes ok: "console_ok c"
  shows "bindR (consoleIn exec k (c, w)) (\<lambda>((c', w'), out). Inr (typed c', w')) = line_key exec k (typed c, w) \<and>
    (\<forall>c' w' out. consoleIn exec k (c, w) = Inr ((c', w'), out) \<longrightarrow> console_ok c')"
proof (cases "mConsolseWaitChar c")
  case (Suc n)
  with ok show ?thesis by (auto simp: consoleIn_def typed_def console_ok_def)
next
  case 0
  let ?b = "mConsoleInputBuffer c" and ?i = "mConsoleInputBufferIdx c"
  have len: "length ?b = INPUT_SIZE" "?i \<le> INPUT_SIZE" using ok by (simp_all add: console_ok_def)
  have full: "length (take ?i ?b) = INPUT_SIZE \<longleftrightarrow> ?i > INPUT_SIZE - 1" using len by (auto simp: INPUT_SIZE_def)
  consider "k = CHR 0x1B" | "k = CHR 0x09" | "k = CHR 0x7F"
    | (full) "k \<noteq> CHR 0x1B" "k \<noteq> CHR 0x09" "k \<noteq> CHR 0x7F" "?i > INPUT_SIZE - 1"
    | (enter) "k = CHR 0x0A" "\<not> ?i > INPUT_SIZE - 1"
    | (type) "k \<noteq> CHR 0x1B" "k \<noteq> CHR 0x09" "k \<noteq> CHR 0x7F" "k \<noteq> CHR 0x0A" "\<not> ?i > INPUT_SIZE - 1" by blast
  then show ?thesis
  proof cases
    case 3
    have "butlast (take ?i ?b) = take (?i - 1) ?b" using len by (simp add: butlast_take)
    with 3 0 ok show ?thesis by (auto simp: consoleIn_def typed_def console_ok_def)
  next
    case full
    with 0 ok show ?thesis using \<open>length (take ?i ?b) = INPUT_SIZE \<longleftrightarrow> _\<close> by (auto simp: consoleIn_def typed_def console_ok_def)
  next
    case enter
    have i: "?i < INPUT_SIZE" "length (take ?i ?b) \<noteq> INPUT_SIZE" using enter(2) len by (simp_all add: INPUT_SIZE_def)
    with take_nul [of ?i ?b] len have "takeWhile (\<lambda>k. k \<noteq> CHR 0x00) (?b[?i := CHR 0x00]) = takeWhile (\<lambda>k. k \<noteq> CHR 0x00) (take ?i ?b)" by simp
    with enter 0 i len show ?thesis
      by (cases "exec (takeWhile (\<lambda>k. k \<noteq> CHR 0x00) (take ?i ?b)) w")
        (auto simp: consoleIn_def typed_def console_ok_def put_char_def Let_def)
  next
    case type
    have i: "?i < INPUT_SIZE" "length (take ?i ?b) \<noteq> INPUT_SIZE" using type(5) len by (simp_all add: INPUT_SIZE_def)
    have "take (Suc ?i) (?b[?i := k]) = take ?i ?b @ [k]" using i(1) len by (simp add: take_Suc_conv_app_nth)
    with type 0 i len show ?thesis by (auto simp: consoleIn_def typed_def console_ok_def put_char_def)
  qed (use 0 ok in \<open>auto simp: consoleIn_def typed_def console_ok_def\<close>)
qed

section \<open>What hexadecimal text stands for\<close>

text \<open>The value of a hexadecimal digit.\<close>

definition digit_value :: "nat \<Rightarrow> nat option" where
  "digit_value n = (if 48 \<le> n \<and> n \<le> 57 then Some (n - 48) else if 97 \<le> n \<and> n \<le> 102 then Some (n - 87)
     else if 65 \<le> n \<and> n \<le> 70 then Some (n - 55) else None)"

definition hex_value :: "char \<Rightarrow> nat option" where
  "hex_value c = digit_value (of_char c)"

fun hex_bytes :: "nat list \<Rightarrow> u8 list" where
  "hex_bytes (a # b # ds) = of_nat (16 * a + b) # hex_bytes ds"
| "hex_bytes [a] = []"
| "hex_bytes [] = []"

lemma hex_digits: "list_all (\<lambda>n. hex_digit (of_nat n) = of_nat (the (digit_value n)))
    ([48..<58] @ [65..<71] @ [97..<103])"
  by code_simp

lemma nibbles: "list_all (\<lambda>a. list_all (\<lambda>b. or (push_bit 4 (of_nat a)) (of_nat b) = (of_nat (16 * a + b) :: u8)) [0..<16]) [0..<16]"
  by code_simp

lemma hex_digit_value:
  assumes "hex_value c = Some v"
  shows "hex_digit (of_nat (of_char c)) = of_nat v" "v < 16"
proof -
  have n: "of_char c \<in> set ([48..<58] @ [65..<71] @ [97..<103]) \<and> v < 16 \<and> digit_value (of_char c) = Some v"
    using assms unfolding set_append set_upt Un_iff atLeastLessThan_iff hex_value_def digit_value_def
    by (auto split: if_splits)
  with hex_digits show "hex_digit (of_nat (of_char c)) = of_nat v" by (auto simp: list_all_iff simp del: set_append)
  show "v < 16" using n by simp
qed

lemma nibble_byte: "a < 16 \<Longrightarrow> b < 16 \<Longrightarrow> or (push_bit 4 (of_nat a)) (of_nat b) = (of_nat (16 * a + b) :: u8)"
  using nibbles by (simp add: list_all_iff del: upt_0 upt_Suc)

lemma hex_loop_bytes:
  assumes "map hex_value s = map Some ds"
  shows "hex_loop s False byte rv = rv @ hex_bytes ds"
  using assms
proof (induction ds arbitrary: s byte rv rule: hex_bytes.induct)
  case (1 a b ds)
  then obtain x y t where s: "s = x # y # t" "hex_value x = Some a" "hex_value y = Some b" "map hex_value t = map Some ds"
    by (auto simp: map_eq_Cons_conv)
  with hex_digit_value [OF s(2)] hex_digit_value [OF s(3)] 1(1) [OF s(4)] show ?case
    by (simp add: Let_def nibble_byte)
next
  case (2 a)
  then obtain x where "s = [x]" by (auto simp: map_eq_Cons_conv)
  then show ?case by (simp add: Let_def)
qed simp

end
