(* ===== verification/Monitor.thy ===== *)
theory Monitor
  imports Property Console
begin

text \<open>
  The commands of the monitor (\<open>monitor/src/main.cpp\<close>) as programs that use the client, and what it
  does when nodes appear, disappear and change. The command manager and \<open>toHexString\<close> are library
  functions: a command gets its arguments as a function \<open>pMap\<close>, and \<open>hex\<close> is how bytes are printed.
\<close>

section \<open>State and text\<close>

record Monitor =
  mRunning :: bool
  mAutowatch :: bool
  mToSubscribe :: "Property list"

definition init_Monitor :: Monitor where
  "init_Monitor = \<lparr>mRunning = True, mAutowatch = False, mToSubscribe = []\<rparr>"

type_synonym args = "string \<Rightarrow> string option"
type_synonym hex = "u8 list \<Rightarrow> string"

abbreviation quote_char :: string where
  "quote_char \<equiv> [CHR 0x22]"

section \<open>The handlers of the monitor\<close>

text \<open>The update handler of a node that has been subscribed to.\<close>

definition update_text :: "hex \<Rightarrow> Property \<Rightarrow> string prog" where
  "update_text hex prop =
     bindP (prop_raw prop) (\<lambda>data.
     bindP (prop_uuid prop) (\<lambda>u.
     bindP (prop_name prop) (\<lambda>n.
     Done (''[Monitor]: Property upt uuid='' @ decimal (unat u) @ '' name='' @ quote_char @ n @ quote_char @
       '' data=['' @ decimal (length data) @ '']{'' @ hex data @ ''}''))))"

definition watch :: "Property \<Rightarrow> unit prog" where
  "watch prop = bindP (prop_subscribe prop) (\<lambda>_. prop_setUpdateHandler True prop)"

definition parent_text :: "Property option \<Rightarrow> string prog" where
  "parent_text parent = (case parent of None \<Rightarrow> Done []
     | Some p \<Rightarrow> bindP (prop_name p) (\<lambda>n. bindP (prop_uuid p) (\<lambda>u.
         Done ('' parentName='' @ quote_char @ n @ quote_char @ '' parentUuid='' @ decimal (unat u)))))"

definition tree_add_handler :: "Property \<Rightarrow> Monitor \<Rightarrow> (Monitor \<times> string) prog" where
  "tree_add_handler pProp m =
     bindP (prop_parent pProp) (\<lambda>parent.
     bindP (parent_text parent) (\<lambda>parentInfo.
     bindP (prop_uuid pProp) (\<lambda>u.
     bindP (prop_name pProp) (\<lambda>n.
     let text = ''[Monitor]: Property add uuid='' @ decimal (unat u) @ '' name='' @ quote_char @ n @ quote_char @ parentInfo
     in Done (if \<not> mAutowatch m then (m, text) else (m\<lparr>mToSubscribe := mToSubscribe m @ [pProp]\<rparr>, text))))))"

definition tree_remove_handler :: "Property \<Rightarrow> string prog" where
  "tree_remove_handler pProp = bindP (prop_uuid pProp) (\<lambda>u. bindP (prop_name pProp) (\<lambda>n.
     Done (''[Monitor]: Property rem uuid='' @ decimal (unat u) @ '' name='' @ quote_char @ n @ quote_char)))"

text \<open>The thread that subscribes to the nodes that have appeared: a round of its loop.\<close>

fun watch_all :: "Property list \<Rightarrow> unit prog" where
  "watch_all [] = Done ()"
| "watch_all (prop # tosub) = bindP (watch prop) (\<lambda>_. watch_all tosub)"

definition subscribe_worker :: "Monitor \<Rightarrow> Monitor prog" where
  "subscribe_worker m = bindP (watch_all (mToSubscribe m)) (\<lambda>_. Done (m\<lparr>mToSubscribe := []\<rparr>))"

section \<open>Paths\<close>

fun walk :: "string list \<Rightarrow> Property \<Rightarrow> Property prog" where
  "walk [] current = Done current"
| "walk (n # next) current = bindP (prop_get n current) (\<lambda>current.
     if \<not> to_bool current then Done current else walk next current)"

definition getByPath :: "string \<Rightarrow> Property prog" where
  "getByPath pPath = (if pPath = ''/'' then client_root else bindP client_root (walk (path_names pPath)))"

section \<open>Commands\<close>

definition onCmdCreate :: "args \<Rightarrow> string prog" where
  "onCmdCreate pMap =
     (case pMap ''parent'' of None \<Rightarrow> Done ''parent not specified!''
      | Some parent \<Rightarrow> (case pMap ''name'' of None \<Rightarrow> Done ''name not specified!''
        | Some name \<Rightarrow> bindP (getByPath parent) (\<lambda>prop.
            if \<not> to_bool prop then Done ''property not found!''
            else bindP (prop_create name prop) (\<lambda>created.
              if to_bool created then Done ''done!'' else Done ''failed!''))))"

definition onCmdSet :: "args \<Rightarrow> string prog" where
  "onCmdSet pMap =
     (case pMap ''path'' of None \<Rightarrow> Done ''path not specified!''
      | Some path \<Rightarrow> (case pMap ''value'' of None \<Rightarrow> Done ''value not specified!''
        | Some value \<Rightarrow> bindP (getByPath path) (\<lambda>prop.
            if \<not> to_bool prop then Done ''property not found!''
            else bindP (prop_set (hexStringToVector value) prop) (\<lambda>_. Done []))))"

definition onCmdGet :: "hex \<Rightarrow> args \<Rightarrow> string prog" where
  "onCmdGet hex pMap =
     (case pMap ''path'' of None \<Rightarrow> Done ''path not specified!''
      | Some path \<Rightarrow> bindP (getByPath path) (\<lambda>prop.
          if \<not> to_bool prop then Done ''property not found!''
          else bindP (prop_fetch prop) (\<lambda>_. bindP (prop_raw prop) (\<lambda>value. Done (''value='' @ hex value)))))"

definition onCmdSubscribe :: "args \<Rightarrow> string prog" where
  "onCmdSubscribe pMap =
     (case pMap ''path'' of None \<Rightarrow> Done ''path not specified!''
      | Some path \<Rightarrow> bindP (getByPath path) (\<lambda>prop.
          if \<not> to_bool prop then Done ''property not found!''
          else bindP (watch prop) (\<lambda>_. Done ''subscribed!'')))"

definition onCmdUnsubscribe :: "args \<Rightarrow> string prog" where
  "onCmdUnsubscribe pMap =
     (case pMap ''path'' of None \<Rightarrow> Done ''path not specified!''
      | Some path \<Rightarrow> bindP (getByPath path) (\<lambda>prop.
          if \<not> to_bool prop then Done ''property not found!''
          else bindP (prop_unsubscribe prop) (\<lambda>_. Done ''unsubscribed!'')))"

definition onCmdDelete :: "args \<Rightarrow> string prog" where
  "onCmdDelete pMap =
     (case pMap ''path'' of None \<Rightarrow> Done ''path not specified!''
      | Some path \<Rightarrow> bindP (getByPath path) (\<lambda>prop.
          if \<not> to_bool prop then Done ''property not found!''
          else bindP (prop_destroy prop) (\<lambda>b. Done (if b then ''deleted!'' else ''failed!''))))"

definition onCmdAutoWatch :: "args \<Rightarrow> Monitor \<Rightarrow> Monitor \<times> string" where
  "onCmdAutoWatch pMap m =
     (if pMap ''enabled'' = Some ''false'' then (m\<lparr>mAutowatch := False\<rparr>, ''autowatch disabled!'')
      else (m\<lparr>mAutowatch := True\<rparr>, ''autowatch enabled!''))"

section \<open>The command list\<close>

text \<open>
  \<open>action\<close> is not initialised: without an argument that names an action it is whatever is on the
  stack, \<open>junk\<close>. \<open>levels\<close> has its \<open>back()\<close> first. The loop may not end while others add nodes:
  \<open>fuel\<close> bounds its rounds.
\<close>

datatype list_action = NONE | DEL | SUB | UNSUB

record TraversalContext =
  tc_name :: string
  tc_children :: "(string \<times> Property) list"
  tc_index :: nat

definition list_line :: "hex \<Rightarrow> nat \<Rightarrow> string \<Rightarrow> Property \<Rightarrow> string prog" where
  "list_line hex depth name prop =
     bindP (prop_raw prop) (\<lambda>data. bindP (prop_uuid prop) (\<lambda>u.
     Done (replicate (depth * 2) (CHR 0x20) @ ''|-/'' @ name @ '' uuid='' @ decimal (unat u) @
       '' data['' @ decimal (length data) @ '']={'' @ hex data @ ''}'' @ [CHR 0x0A])))"

text \<open>The first half of a round: the current child is fetched, subscribed to or not, and printed.\<close>

definition list_visit :: "hex \<Rightarrow> list_action \<Rightarrow> nat \<Rightarrow> string \<times> Property \<Rightarrow> string prog" where
  "list_visit hex action depth = (\<lambda>(name, prop).
     bindP (prop_fetch prop) (\<lambda>_.
     bindP (if action = SUB then watch prop else if action = UNSUB then prop_unsubscribe prop else Done ()) (\<lambda>_.
     list_line hex depth name prop)))"

text \<open>A child without children is deleted, if that is asked for.\<close>

definition list_delete :: "list_action \<Rightarrow> Property \<Rightarrow> unit prog" where
  "list_delete action child = bindP (prop_childrenSize child) (\<lambda>n.
     if n = 0 \<and> action = DEL then bindP (prop_destroy child) (\<lambda>_. Done ()) else Done ())"

fun list_loop :: "hex \<Rightarrow> list_action \<Rightarrow> nat \<Rightarrow> TraversalContext list \<Rightarrow> string \<Rightarrow> string prog" where
  "list_loop hex action 0 levels ss = Fail Diverges"
| "list_loop hex action (Suc fuel) [] ss = Done ss"
| "list_loop hex action (Suc fuel) (l # levels) ss =
     (if tc_index l < length (tc_children l) then
        bindP (list_visit hex action (length (l # levels)) (tc_children l ! tc_index l)) (\<lambda>line.
        let ss = ss @ line;
            (name, child) = tc_children l ! tc_index l;
            l = l\<lparr>tc_index := tc_index l + 1\<rparr>
        in bindP (prop_childrenSize child) (\<lambda>n.
           if n \<noteq> 0 then bindP (prop_children child) (\<lambda>cs.
             list_loop hex action fuel (\<lparr>tc_name = name, tc_children = cs, tc_index = 0\<rparr> # l # levels) ss)
           else bindP (if action = DEL then bindP (prop_destroy child) (\<lambda>_. Done ()) else Done ()) (\<lambda>_.
             list_loop hex action fuel (l # levels) ss)))
      else (case levels of
          [] \<Rightarrow> Done ss
        | m # _ \<Rightarrow> bindP (list_delete action (snd (tc_children m ! (tc_index m - 1)))) (\<lambda>_.
            list_loop hex action fuel levels ss)))"

definition list_action_of :: "list_action \<Rightarrow> string option \<Rightarrow> list_action" where
  "list_action_of junk act = (if act = Some ''delete'' then DEL else if act = Some ''subscribe'' then SUB
     else if act = Some ''unsubscribe'' then UNSUB else junk)"

definition onCmdList :: "hex \<Rightarrow> list_action \<Rightarrow> nat \<Rightarrow> args \<Rightarrow> string prog" where
  "onCmdList hex junk fuel pMap =
     bindP client_root (\<lambda>root.
     bindP (case pMap ''path'' of None \<Rightarrow> Done root | Some path \<Rightarrow> getByPath path) (\<lambda>root.
     let action = list_action_of junk (pMap ''action'') in
     bindP (prop_loadChildren True root) (\<lambda>_.
     bindP (prop_children root) (\<lambda>cs.
     list_loop hex action fuel [\<lparr>tc_name = [], tc_children = cs, tc_index = 0\<rparr>]
       ([CHR 0x0A] @ ''|-/'' @ [CHR 0x0A])))))"

section \<open>Dispatch\<close>

definition run_command :: "hex \<Rightarrow> list_action \<Rightarrow> nat \<Rightarrow> string \<Rightarrow> args \<Rightarrow> Monitor \<Rightarrow> (Monitor \<times> string) prog option" where
  "run_command hex junk fuel name pMap m =
     (let cmd = (\<lambda>p. Some (bindP p (\<lambda>r. Done (m, r)))) in
      if name = ''exit'' then Some (Done (m\<lparr>mRunning := False\<rparr>, ''exiting...''))
      else if name = ''create'' then cmd (onCmdCreate pMap)
      else if name = ''set'' then cmd (onCmdSet pMap)
      else if name = ''get'' then cmd (onCmdGet hex pMap)
      else if name = ''list'' then cmd (onCmdList hex junk fuel pMap)
      else if name = ''autowatch'' then Some (Done (onCmdAutoWatch pMap m))
      else if name = ''subscribe'' then cmd (onCmdSubscribe pMap)
      else if name = ''unsubscribe'' then cmd (onCmdUnsubscribe pMap)
      else if name = ''delete'' then cmd (onCmdDelete pMap)
      else None)"

end
