(* ===== verification/MonitorRun.thy ===== *)
theory MonitorRun
  imports PropertyRun Monitor
begin

text \<open>
  The commands of the monitor, run in any world that provides the operations of a client.
\<close>

section \<open>Paths\<close>

text \<open>The node of the server a list of names leads to.\<close>

fun resolve :: "ProtocolHandler \<Rightarrow> u64 \<Rightarrow> string list \<Rightarrow> u64 option" where
  "resolve s u [] = Some u"
| "resolve s u (n # ns) = (case child_uuid s u n of None \<Rightarrow> None | Some v \<Rightarrow> resolve s v ns)"

lemma path_names_alnum: "n \<in> set (path_names p) \<Longrightarrow> n \<noteq> [] \<and> list_all alnum n"
  by (induction p rule: path_names.induct) (auto simp: list_all_iff split: if_splits dest: set_takeWhileD)

lemma path_names_not_dot: "n \<in> set (path_names p) \<Longrightarrow> n \<noteq> ''.''"
  using path_names_alnum [of n p] by (auto simp: alnum_def)

lemma resolve_tree:
  assumes "tree_inv s" "tree s u \<noteq> None" "resolve s u ns = Some v"
  shows "tree s v \<noteq> None"
  using assms(2,3)
proof (induction ns arbitrary: u)
  case (Cons n ns)
  from Cons.prems obtain w where w: "child_uuid s u n = Some w" "resolve s w ns = Some v" by (auto split: option.splits)
  then have "sview s w \<noteq> None" using child_uuid_view [OF assms(1)] by simp
  then have "tree s w \<noteq> None" by simp
  with Cons.IH w(2) show ?case by blast
qed simp

lemma resolve_same_view:
  assumes "tree_inv s" "tree_inv s'" "sview s' = sview s"
  shows "resolve s' u ns = resolve s u ns"
proof (induction ns arbitrary: u)
  case (Cons n ns)
  have "child_uuid s' u n = child_uuid s u n"
    using child_uuid_view [OF assms(1), of u n] child_uuid_view [OF assms(2), of u n] assms(3)
    by (cases "child_uuid s' u n"; cases "child_uuid s u n") auto
  with Cons.IH show ?case by (simp split: option.split)
qed simp

text \<open>A path goes on to lead to its node while nodes are only added.\<close>

lemma resolve_mono:
  assumes "tree_inv s" "tree_inv s'" "sview s \<subseteq>\<^sub>m sview s'" "resolve s u ns = Some v"
  shows "resolve s' u ns = Some v"
  using assms(4)
proof (induction ns arbitrary: u)
  case (Cons n ns)
  then obtain w where w: "child_uuid s u n = Some w" "resolve s w ns = Some v" by (auto split: option.splits)
  then have "sview s w = Some (n, Some u)" using child_uuid_view [OF assms(1)] by simp
  then have "sview s' w = Some (n, Some u)" using assms(3) unfolding map_le_def by (metis domI)
  then have "child_uuid s' u n = Some w" using child_uuid_view [OF assms(2)] by simp
  with Cons.IH [OF w(2)] show ?case by simp
qed simp

lemma resolve_snoc: "resolve s u (ns @ [n]) = (case resolve s u ns of None \<Rightarrow> None | Some v \<Rightarrow> child_uuid s v n)"
  by (induction ns arbitrary: u) (auto split: option.split)

text \<open>The requests a path leads to can be sent.\<close>

definition path_fits :: "(PropertyTreeMessages \<Rightarrow> bool) \<Rightarrow> string \<Rightarrow> bool" where
  "path_fits fits path \<longleftrightarrow> (\<forall>n\<in>set (path_names path). \<forall>u. fits (ask_child u n))"

context operations
begin

lemma run_walk:
  assumes "ok (2 * length ns + k) x" "at (client x) p u" "\<forall>n\<in>set ns. n \<noteq> ''.'' \<and> (\<forall>u. fits (ask_child u n))"
  shows "\<exists>y q. run (walk ns p) x = Inr (y, q) \<and> ok k y \<and> server y = server x \<and> learns (client x) (client y) \<and>
    refers (client y) q (resolve (server x) u ns)"
  using assms
proof (induction ns arbitrary: x p u)
  case Nil
  then show ?case by (auto simp: at_def grows_def)
next
  case (Cons n ns)
  have use: "ok (Suc (Suc (2 * length ns + k))) x" using Cons.prems(1) by simp
  have n: "n \<noteq> ''.''" "fits (ask_child u n)" using Cons.prems(3) by simp_all
  from run_get [OF use Cons.prems(2) n] obtain y q where y: "run (prop_get n p) x = Inr (y, q)" "ok (2 * length ns + k) y"
    "server y = server x" "learns (client x) (client y)" "refers (client y) q (child_uuid (server x) u n)" by blast
  show ?case
  proof (cases "child_uuid (server x) u n")
    case None
    have "ok k y" using ok_mono [OF y(2), of k] by simp
    with y None show ?thesis by (simp add: run_bindP)
  next
    case (Some v)
    then have "at (client y) q v" using y(5) by (simp add: at_def)
    from Cons.IH [OF y(2) this] Cons.prems(3) obtain z r where z: "run (walk ns q) y = Inr (z, r)" "ok k z"
      "server z = server y" "learns (client y) (client z)" "refers (client z) r (resolve (server y) v ns)" by auto
    moreover have "to_bool q" using \<open>at (client y) q v\<close> by (auto elim: atE)
    moreover have "learns (client x) (client z)" using y(4) z(4) steady_trans grows_trans by blast
    ultimately show ?thesis using y(1,3) Some by (simp add: run_bindP)
  qed
qed

lemma run_getByPath:
  assumes "ok (Suc (2 * length (path_names path) + k)) x" "path_fits fits path"
  shows "\<exists>y q. run (getByPath path) x = Inr (y, q) \<and> ok k y \<and> server y = server x \<and> learns (client x) (client y) \<and>
    refers (client y) q (resolve (server x) 0 (path_names path))"
proof -
  from run_root [OF assms(1)] obtain y p where y: "run client_root x = Inr (y, p)" "ok (2 * length (path_names path) + k) y"
    "server y = server x" "learns (client x) (client y)" "at (client y) p 0" by blast
  have "\<forall>n\<in>set (path_names path). n \<noteq> ''.'' \<and> (\<forall>u. fits (ask_child u n))"
    using assms(2) path_names_not_dot by (auto simp: path_fits_def)
  from run_walk [OF y(2,5) this] obtain z q where z: "run (walk (path_names path) p) y = Inr (z, q)" "ok k z"
    "server z = server y" "learns (client y) (client z)" "refers (client z) q (resolve (server y) 0 (path_names path))" by blast
  have "learns (client x) (client z)" using y(4) z(4) steady_trans grows_trans by blast
  moreover have "run (getByPath path) x = Inr (z, q)"
  proof (cases "path = ''/''")
    case True
    then have "path_names path = []" by simp
    with True y(1) z(1) show ?thesis by (simp add: getByPath_def)
  qed (use y(1) z(1) in \<open>simp add: getByPath_def run_bindP\<close>)
  ultimately show ?thesis using y(3) z by auto
qed

text \<open>A path of a node the server has.\<close>

lemma run_path:
  assumes "ok (Suc (2 * length (path_names path) + k)) x" "path_fits fits path"
    and "resolve (server x) 0 (path_names path) = Some u"
  shows "\<exists>y q. run (getByPath path) x = Inr (y, q) \<and> ok k y \<and> server y = server x \<and> learns (client x) (client y) \<and>
    at (client y) q u \<and> to_bool q"
  using run_getByPath [OF assms(1,2)] assms(3) by (auto simp: at_def)

section \<open>Commands\<close>

lemma run_onCmdSet:
  assumes "ok (Suc (2 * length (path_names path) + Suc (Suc k))) x" "path_fits fits path"
    and "resolve (server x) 0 (path_names path) = Some u"
    and "args ''path'' = Some path" "args ''value'' = Some value"
    and "u = 0 \<longrightarrow> \<not> terminate_value (hexStringToVector value)" "fits (ask_set u (hexStringToVector value))"
  shows "\<exists>y. run (onCmdSet args) x = Inr (y, []) \<and> ok k y \<and> does self (ask_set u (hexStringToVector value)) (server x) (server y)"
proof -
  from run_path [OF assms(1-3)] obtain y q where y: "run (getByPath path) x = Inr (y, q)" "ok (Suc (Suc k)) y"
    "server y = server x" "at (client y) q u" "to_bool q" by blast
  from run_set [OF y(2,4) assms(6,7)] y assms(4,5) show ?thesis by (auto simp: onCmdSet_def run_bindP)
qed

lemma run_onCmdGet:
  assumes "ok (Suc (2 * length (path_names path) + Suc (Suc k))) x" "path_fits fits path"
    and "resolve (server x) 0 (path_names path) = Some u" "args ''path'' = Some path"
    and "svalue (server x) u = Some bs" "fits (GetRequest \<lparr>GetRequest_uuid = u\<rparr>)"
  shows "\<exists>y. run (onCmdGet hex args) x = Inr (y, ''value='' @ hex bs) \<and> ok k y \<and> server y = server x"
proof -
  from run_path [OF assms(1-3)] obtain y q where y: "run (getByPath path) x = Inr (y, q)" "ok (Suc (Suc k)) y"
    "server y = server x" "at (client y) q u" "to_bool q" by blast
  from run_fetch [OF y(2,4) _ assms(6), of bs] assms(5) y(3) obtain z where z: "run (prop_fetch q) y = Inr (z, ())" "ok k z"
    "server z = server y" "steady (client y) (client z)" "same_nodes (client y) (client z)"
    "cvalue (client z) = (cvalue (client y))(u \<mapsto> bs)" by auto
  have "at (client z) q u" using at_same [OF y(4) z(4)] z(5) by (simp add: same_nodes_def)
  from run_raw [OF this] z y assms(4) show ?thesis by (auto simp: onCmdGet_def run_bindP)
qed

lemma run_onCmdCreate:
  assumes "ok (Suc (2 * length (path_names path) + Suc (Suc k))) x" "path_fits fits path"
    and "resolve (server x) 0 (path_names path) = Some u" "args ''parent'' = Some path" "args ''name'' = Some n"
    and "child_uuid (server x) u n = None" "\<And>y. server y = server x \<Longrightarrow> public y u" "fits (ask_create u n)"
  shows "\<exists>y. run (onCmdCreate args) x = Inr (y, ''done!'') \<and> ok k y \<and> does self (ask_create u n) (server x) (server y)"
proof -
  from run_path [OF assms(1-3)] obtain y q where y: "run (getByPath path) x = Inr (y, q)" "ok (Suc (Suc k)) y"
    "server y = server x" "at (client y) q u" "to_bool q" by blast
  from run_create [OF y(2,4) _ _ assms(8)] assms(6,7) y obtain z r where "run (prop_create n q) y = Inr (z, r)" "ok k z"
    "does self (ask_create u n) (server x) (server z)" "at (client z) r (ucast (mUuidCtr (server x)))" by auto
  moreover from this(4) have "to_bool r" by (auto elim: atE)
  ultimately show ?thesis using y assms(4,5) by (auto simp: onCmdCreate_def run_bindP)
qed

lemma run_onCmdDelete:
  assumes "ok (Suc (2 * length (path_names path) + Suc (Suc k))) x" "path_fits fits path"
    and "resolve (server x) 0 (path_names path) = Some v" "args ''path'' = Some path"
    and "v \<noteq> 0" "fits (ask_delete v)"
  shows "\<exists>y. run (onCmdDelete args) x =
      Inr (y, if is_parent (abs_tree (server x)) v then ''failed!'' else ''deleted!'') \<and> ok k y \<and>
    abs_tree (server y) = fst (spec_handle (session_of (server x) self) 0 (ask_delete v) (abs_tree (server x)))"
proof -
  from run_path [OF assms(1-3)] obtain y q where y: "run (getByPath path) x = Inr (y, q)" "ok (Suc (Suc k)) y"
    "server y = server x" "at (client y) q v" "to_bool q" by blast
  show ?thesis
  proof (cases "is_parent (abs_tree (server x)) v")
    case True
    with run_destroy_refused [OF y(2,4) _ assms(6)] y assms(4) show ?thesis by (auto simp: onCmdDelete_def run_bindP)
  next
    case False
    with run_destroy [OF y(2,4) assms(5) _ assms(6)] y assms(4) show ?thesis
      by (auto simp: onCmdDelete_def run_bindP does_def)
  qed
qed

lemma run_watch:
  assumes "ok (Suc (Suc k)) x" "at (client x) p u" "fits (SubscribeRequest \<lparr>SubscribeRequest_uuid = u\<rparr>)"
  shows "\<exists>y. run (watch p) x = Inr (y, ()) \<and> ok k y \<and>
    does self (SubscribeRequest \<lparr>SubscribeRequest_uuid = u\<rparr>) (server x) (server y)"
proof -
  from run_subscribe [OF assms] obtain y where y: "run (prop_subscribe p) x = Inr (y, ())" "ok k y"
    "does self (SubscribeRequest \<lparr>SubscribeRequest_uuid = u\<rparr>) (server x) (server y)"
    "steady (client x) (client y)" "same_tree (client x) (client y)" by blast
  have "at (client y) p u" using at_same [OF assms(2) y(4)] y(5) by (simp add: same_tree_def)
  from run_watched [OF y(2) this, of True] obtain z where "run (prop_setUpdateHandler True p) y = Inr (z, ())" "ok k z"
    "server z = server y" by blast
  with y show ?thesis by (intro exI [of _ z]) (simp add: watch_def run_bindP)
qed

lemma run_onCmdSubscribe:
  assumes "ok (Suc (2 * length (path_names path) + Suc (Suc k))) x" "path_fits fits path"
    and "resolve (server x) 0 (path_names path) = Some u" "args ''path'' = Some path"
    and "fits (SubscribeRequest \<lparr>SubscribeRequest_uuid = u\<rparr>)"
  shows "\<exists>y. run (onCmdSubscribe args) x = Inr (y, ''subscribed!'') \<and> ok k y \<and>
    does self (SubscribeRequest \<lparr>SubscribeRequest_uuid = u\<rparr>) (server x) (server y)"
proof -
  from run_path [OF assms(1-3)] obtain y q where y: "run (getByPath path) x = Inr (y, q)" "ok (Suc (Suc k)) y"
    "server y = server x" "at (client y) q u" "to_bool q" by blast
  from run_watch [OF y(2,4) assms(5)] y assms(4) show ?thesis by (auto simp: onCmdSubscribe_def run_bindP)
qed

end

end
