(* ===== verification/Listing.thy ===== *)
theory Listing
  imports Forest MonitorRun
begin

text \<open>
  The command \<open>list\<close>: its loop over a stack of levels goes through the forest below the node in
  preorder, and ends.
\<close>

section \<open>What is printed\<close>

definition line_text :: "hex \<Rightarrow> nat \<Rightarrow> string \<Rightarrow> u64 \<Rightarrow> u8 list \<Rightarrow> string" where
  "line_text hex depth name u data = replicate (depth * 2) (CHR 0x20) @ ''|-/'' @ name @ '' uuid='' @ decimal (unat u) @
     '' data['' @ decimal (length data) @ '']={'' @ hex data @ ''}'' @ [CHR 0x0A]"

text \<open>A node, then its children one level deeper, then its siblings.\<close>

fun listing :: "hex \<Rightarrow> vals \<Rightarrow> nat \<Rightarrow> rose list \<Rightarrow> string" where
  "listing hex V depth [] = []"
| "listing hex V depth (Rose n u ts # us) =
     line_text hex depth n u (the (V u)) @ listing hex V (Suc depth) ts @ listing hex V depth us"

text \<open>The node the command is about: the root, if no path is given.\<close>

definition list_path :: "args \<Rightarrow> string" where
  "list_path args = (case args ''path'' of None \<Rightarrow> [] | Some path \<Rightarrow> path)"

section \<open>The loop\<close>

context operations
begin

lemma run_list_visit:
  assumes "ok (Suc (Suc k)) x" "at (client x) p u" "svalue (server x) u = Some bs" "fits (GetRequest \<lparr>GetRequest_uuid = u\<rparr>)"
  shows "\<exists>y. run (list_visit hex NONE depth (n, p)) x = Inr (y, line_text hex depth n u bs) \<and> ok k y \<and>
    server y = server x \<and> steady (client x) (client y) \<and> same_nodes (client x) (client y)"
proof -
  from run_fetch [OF assms] obtain y where y: "run (prop_fetch p) x = Inr (y, ())" "ok k y" "server y = server x"
    "steady (client x) (client y)" "same_nodes (client x) (client y)" "cvalue (client y) = (cvalue (client x))(u \<mapsto> bs)" by blast
  have at: "at (client y) p u" using at_same [OF assms(2) y(4)] y(5) by (simp add: same_nodes_def)
  from run_raw [OF at] run_uuid [OF y(2) at] y show ?thesis
    by (intro exI [of _ y]) (simp add: list_visit_def list_line_def line_text_def run_bindP)
qed

lemma run_list_level:
  assumes "ok (2 * length (members ts) + k) x" "mirrors (client x) ds ts" "snd ` set ds \<subseteq> set (c_held (client x))"
    and "drop (tc_index l) (tc_children l) = handles_of ds" "tc_index l \<le> length (tc_children l)"
    and "\<forall>v\<in>set (members ts). svalue (server x) v \<noteq> None \<and> fits (GetRequest \<lparr>GetRequest_uuid = v\<rparr>)"
  shows "\<exists>y. (\<forall>fuel ss. run (list_loop hex NONE (rounds ts + fuel) (l # levels) ss) x =
      run (list_loop hex NONE fuel (l\<lparr>tc_index := length (tc_children l)\<rparr> # levels)
        (ss @ listing hex (svalue (server x)) (Suc (length levels)) ts)) y) \<and>
    ok k y \<and> server y = server x \<and> steady (client x) (client y) \<and> same_nodes (client x) (client y)"
  using assms
proof (induction ts arbitrary: x k ds l levels rule: rounds.induct)
  case 1
  then have "l\<lparr>tc_index := length (tc_children l)\<rparr> = l" by (cases ds) auto
  with 1 show ?case by (intro exI [of _ x]) (simp add: same_nodes_def)
next
  case (2 n v ts us)
  let ?V = "svalue (server x)" and ?l = "l\<lparr>tc_index := Suc (tc_index l)\<rparr>" and ?h = "\<lambda>d. make_Property (Some d)"
  obtain d ds' where ds: "ds = (n, d) # ds'" "ctree (client x) v = Some d" "mirrors (client x) (cn_children (c_heap (client x) d)) ts"
    "mirrors (client x) ds' us" using "2.prems"(2) by (cases ds) auto
  have lt: "tc_index l < length (tc_children l)" using "2.prems"(4) ds(1) by (cases "tc_index l < length (tc_children l)") auto
  then have nth: "tc_children l ! tc_index l = (n, ?h d)" "drop (Suc (tc_index l)) (tc_children l) = handles_of ds'"
    using "2.prems"(4) ds(1) by (simp_all flip: Cons_nth_drop_Suc)
  obtain bs where bs: "?V v = Some bs" using "2.prems"(6) by auto
  let ?k = "2 * length (members ts) + (2 * length (members us) + k)"
  have "ok (Suc (Suc ?k)) x" using "2.prems"(1) by (simp add: algebra_simps)
  moreover have "at (client x) (?h d) v" using ds(1,2) "2.prems"(3) by (simp add: at_node)
  ultimately obtain y where y: "run (list_visit hex NONE (Suc (length levels)) (n, ?h d)) x = Inr (y, line_text hex (Suc (length levels)) n v bs)"
    "ok ?k y" "server y = server x" "steady (client x) (client y)" "same_nodes (client x) (client y)"
    using run_list_visit [of ?k x "?h d" v bs] bs "2.prems"(6) by fastforce
  have m: "mirrors (client y) (cn_children (c_heap (client y) d)) ts" "mirrors (client y) ds' us"
    "cn_children (c_heap (client y) d) = cn_children (c_heap (client x) d)"
    using same_nodes_mirrors [OF y(5)] ds(3,4) y(5) by (simp_all add: same_nodes_def)
  have ch: "run (prop_childrenSize (?h d)) z = Inr (z, length (cn_children (c_heap (client z) d)))" for z
    by (rule run_childrenSize)
  have "\<exists>z. (\<forall>fuel ss. run (list_loop hex NONE (Suc ((if ts = [] then 0 else Suc (rounds ts)) + fuel)) (l # levels) ss) x =
      run (list_loop hex NONE fuel (?l # levels) (ss @ line_text hex (Suc (length levels)) n v bs @ listing hex ?V (Suc (Suc (length levels))) ts)) z) \<and>
    ok (2 * length (members us) + k) z \<and> server z = server x \<and> steady (client x) (client z) \<and> same_nodes (client x) (client z)"
  proof (cases "ts = []")
    case True
    then have "cn_children (c_heap (client y) d) = []" using m(1) by (cases "cn_children (c_heap (client y) d)") auto
    with True y lt nth(1) ch ok_mono [OF y(2)] show ?thesis
      by (intro exI [of _ y]) (simp add: run_bindP Let_def)
  next
    case False
    let ?cs = "cn_children (c_heap (client y) d)"
    have some: "?cs \<noteq> []" using m(1) False by (cases ts rule: members.cases) auto
    have "ctree (client y) v = Some d" using ds(2) y(5) by (simp add: same_nodes_def)
    from run_children [OF y(2) this] obtain z where z: "run (prop_children (?h d)) y = Inr (z, handles_of ?cs)" "ok ?k z"
      "server z = server y" "steady (client y) (client z)" "same_tree (client y) (client z)"
      "\<forall>(n, d)\<in>set ?cs. d \<in> set (c_held (client z))" by blast
    let ?new = "\<lparr>tc_name = n, tc_children = handles_of ?cs, tc_index = 0\<rparr>"
    note nodes = same_tree_nodes [OF z(5)]
    have "snd ` set ?cs \<subseteq> set (c_held (client z))" using z(6) by auto
    with "2.IH"(1) [OF False z(2) same_nodes_mirrors [OF nodes m(1)], of ?new "?l # levels"] "2.prems"(6) z(3) y(3)
    obtain a where a: "\<And>fuel ss. run (list_loop hex NONE (rounds ts + fuel) (?new # ?l # levels) ss) z =
        run (list_loop hex NONE fuel (?new\<lparr>tc_index := length ?cs\<rparr> # ?l # levels)
          (ss @ listing hex (svalue (server z)) (Suc (Suc (length levels))) ts)) a"
      "ok (2 * length (members us) + k) a" "server a = server z" "steady (client z) (client a)" "same_nodes (client z) (client a)"
      by auto
    have step: "run (list_loop hex NONE (Suc f) (l # levels) ss) x =
        run (list_loop hex NONE f (?new # ?l # levels) (ss @ line_text hex (Suc (length levels)) n v bs)) z" for f ss
      using some y(1) z(1) lt nth(1) ch by (simp add: run_bindP Let_def)
    have pop: "run (list_loop hex NONE (Suc fuel) (?new\<lparr>tc_index := length ?cs\<rparr> # ?l # levels) ss) a =
        run (list_loop hex NONE fuel (?l # levels) ss) a" for fuel ss
      using nth(1) ch by (simp add: run_bindP list_delete_def)
    have "run (list_loop hex NONE (Suc ((if ts = [] then 0 else Suc (rounds ts)) + fuel)) (l # levels) ss) x =
        run (list_loop hex NONE fuel (?l # levels) (ss @ line_text hex (Suc (length levels)) n v bs @ listing hex ?V (Suc (Suc (length levels))) ts)) a"
      for fuel ss
      using step [of "rounds ts + Suc fuel" ss] a(1) [of "Suc fuel"] pop False z(3) y(3) by (simp del: list_loop.simps)
    moreover have "steady (client x) (client a)" "same_nodes (client x) (client a)"
      using y(4) z(4) a(4) steady_trans y(5) nodes a(5) same_nodes_trans by blast+
    ultimately show ?thesis using a(2,3) z(3) y(3) by (intro exI [of _ a]) (simp del: list_loop.simps)
  qed
  then obtain z where z: "\<And>fuel ss. run (list_loop hex NONE (Suc ((if ts = [] then 0 else Suc (rounds ts)) + fuel)) (l # levels) ss) x =
      run (list_loop hex NONE fuel (?l # levels) (ss @ line_text hex (Suc (length levels)) n v bs @ listing hex ?V (Suc (Suc (length levels))) ts)) z"
    "ok (2 * length (members us) + k) z" "server z = server x" "steady (client x) (client z)" "same_nodes (client x) (client z)" by blast
  have "snd ` set ds' \<subseteq> set (c_held (client z))" using "2.prems"(3) ds(1) z(4) by (auto simp: steady_def)
  with "2.IH"(2) [OF z(2) same_nodes_mirrors [OF z(5) ds(4)], of ?l levels] lt nth(2) "2.prems"(6) z(3)
  obtain a where a: "\<And>fuel ss. run (list_loop hex NONE (rounds us + fuel) (?l # levels) ss) z =
      run (list_loop hex NONE fuel (l\<lparr>tc_index := length (tc_children l)\<rparr> # levels) (ss @ listing hex ?V (Suc (length levels)) us)) a"
    "ok k a" "server a = server z" "steady (client z) (client a)" "same_nodes (client z) (client a)" by auto
  have "run (list_loop hex NONE (rounds (Rose n v ts # us) + fuel) (l # levels) ss) x =
      run (list_loop hex NONE fuel (l\<lparr>tc_index := length (tc_children l)\<rparr> # levels)
        (ss @ listing hex ?V (Suc (length levels)) (Rose n v ts # us))) a" for fuel ss
    using z(1) [of "rounds us + fuel" ss] a(1) [of fuel] bs by (simp add: add.assoc del: list_loop.simps)
  moreover have "steady (client x) (client a)" "same_nodes (client x) (client a)"
    using steady_trans [OF z(4) a(4)] same_nodes_trans [OF z(5) a(5)] by simp_all
  ultimately show ?case using a(2,3) z(3) by (intro exI [of _ a]) (simp del: list_loop.simps rounds.simps listing.simps)
qed

section \<open>The command\<close>

lemma run_onCmdList:
  assumes "ok (2 * length (path_names (list_path args)) + 2 * length (members (forest_of (server x) u)) + 4 + k) x"
    and "path_fits fits (list_path args)" "resolve (server x) 0 (path_names (list_path args)) = Some u"
    and "list_action_of junk (args ''action'') = NONE" "rounds (forest_of (server x) u) < fuel"
    and "fits (ask_all u)" "\<forall>v\<in>set (members (forest_of (server x) u)). fits (GetRequest \<lparr>GetRequest_uuid = v\<rparr>)"
  shows "\<exists>y. run (onCmdList hex junk fuel args) x =
      Inr (y, [CHR 0x0A] @ ''|-/'' @ [CHR 0x0A] @ listing hex (svalue (server x)) 1 (forest_of (server x) u)) \<and>
    ok k y \<and> server y = server x"
proof -
  let ?ts = "forest_of (server x) u" and ?ns = "path_names (list_path args)"
  let ?k = "2 * length (members ?ts) + k"
  have "ok (Suc (Suc (2 * length ?ns + Suc (Suc ?k)))) x" using assms(1) by (simp add: algebra_simps numeral_eq_Suc)
  from run_root [OF this] obtain x1 r where x1: "run client_root x = Inr (x1, r)" "ok (Suc (2 * length ?ns + Suc (Suc ?k))) x1"
    "server x1 = server x" "at (client x1) r 0" by blast
  obtain x2 p where x2: "run (case args ''path'' of None \<Rightarrow> Done r | Some path \<Rightarrow> getByPath path) x1 = Inr (x2, p)"
    "ok (Suc (Suc ?k)) x2" "server x2 = server x" "at (client x2) p u"
  proof (cases "args ''path''")
    case None
    have "ok (Suc (Suc ?k)) x1" by (rule ok_mono [OF x1(2)]) simp
    with None that [of x1 r] x1(3,4) assms(3) show ?thesis by (simp add: list_path_def)
  next
    case (Some path)
    with run_path [of path "Suc (Suc ?k)" x1 u] x1(2,3) assms(2,3) that show ?thesis by (auto simp: list_path_def)
  qed
  have use: "usable self (Suc (Suc ?k)) (server x2, client x2)" using ok_usable [OF x2(2)] .
  have tr: "tree_inv (server x2)" using usable_wf [OF use] by simp
  obtain q where q: "p = make_Property (Some q)" "ctree (client x2) u = Some q" using x2(4) by (rule atE)
  obtain d where d: "tree (server x2) u = Some d" using usable_node [OF use q(2)] .
  from run_load [OF x2(2,4) d assms(6)] obtain x3 where x3: "run (prop_loadChildren True p) x2 = Inr (x3, ())" "ok ?k x3"
    "server x3 = server x2" "learns (client x2) (client x3)" "knows_below (client x3) (server x2) d" by blast
  have at3: "ctree (client x3) u = Some q" using growsD x3(4) q(2) by blast
  from run_children [OF x3(2) at3] obtain x4 where x4: "run (prop_children p) x3 = Inr (x4, child_handles (client x3) q)" "ok ?k x4"
    "server x4 = server x3" "steady (client x3) (client x4)" "same_tree (client x3) (client x4)"
    "\<forall>(n, d)\<in>set (cn_children (c_heap (client x3) q)). d \<in> set (c_held (client x4))" using q(1) by blast
  let ?ds = "cn_children (c_heap (client x3) q)"
  have "mirrors (client x3) ?ds ?ts"
    using loaded_mirrors [OF ok_usable [OF x3(2)] at3] d x3(3,5) x2(3) by simp
  then have m: "mirrors (client x4) ?ds ?ts" by (rule same_nodes_mirrors [OF same_tree_nodes [OF x4(5)]])
  have "svalue (server x) v \<noteq> None" if "v \<in> set (members ?ts)" for v
  proof -
    have "ctree (client x4) v \<noteq> None" using mirrors_nodes [OF m that] .
    then obtain c where "ctree (client x4) v = Some c" by blast
    from usable_node [OF ok_usable [OF x4(2)] this] x4(3) x3(3) x2(3) show ?thesis by (auto simp: svalue_def)
  qed
  moreover have "snd ` set ?ds \<subseteq> set (c_held (client x4))" using x4(6) by auto
  ultimately obtain y where y: "\<And>fuel ss. run (list_loop hex NONE (rounds ?ts + fuel) [\<lparr>tc_name = [], tc_children = handles_of ?ds, tc_index = 0\<rparr>] ss) x4 =
      run (list_loop hex NONE fuel [\<lparr>tc_name = [], tc_children = handles_of ?ds, tc_index = length ?ds\<rparr>]
        (ss @ listing hex (svalue (server x)) 1 ?ts)) y"
    "ok k y" "server y = server x4"
    using run_list_level [OF x4(2) m, of "\<lparr>tc_name = [], tc_children = handles_of ?ds, tc_index = 0\<rparr>" hex "[]"] assms(7)
      x4(3) x3(3) x2(3) by auto
  obtain f where f: "fuel = rounds ?ts + Suc f" using assms(5) less_iff_Suc_add by auto
  then have "run (list_loop hex NONE fuel [\<lparr>tc_name = [], tc_children = handles_of ?ds, tc_index = 0\<rparr>] ss) x4 =
      Inr (y, ss @ listing hex (svalue (server x)) 1 ?ts)" for ss unfolding f y(1) by simp
  then show ?thesis using x1(1) x2(1) x3(1,3) x4(1,3) y(2,3) x2(3) assms(4)
    by (intro exI [of _ y]) (simp add: onCmdList_def run_bindP Let_def del: list_loop.simps)
qed

end

end
