(* ===== verification/MirrorProps.thy ===== *)
theory MirrorProps
  imports Exchange ProtocolProps ClientProps
begin

text \<open>
  The properties of the server and its clients together: a client that agrees with the server goes
  on to agree with it, and what the operations of a client return is true of the server.
\<close>

section \<open>Agreement is kept\<close>

text \<open>
  C3: A client keeps a copy of the tree of the server: if the two agree on the tree and on the values of
  the nodes \<open>U\<close>, which the client has subscribed to, then they agree after any sequence of
  messages from any client, disconnections of others and operations that the client starts or gives up, as
  long as the client handles what the server sends it. Nodes created and deleted by anybody, and
  values set by anybody, reach the client.
\<close>

theorem client_mirrors_server:
  assumes "pair_inv (sum_list (map pair_cost es) + k) (s, c)" "mirrored w i U s c"
    and "list_all (undisturbed w U) es" "run_steps (pair_step L sent w) es (s, c) = Inr ((s', c'), out)"
  shows "cview c' = sview s' \<and> (\<forall>u\<in>U. cvalue c' u = svalue s' u)"
proof -
  let ?P = "\<lambda>x. mirrored w i U (fst x) (snd x)"
  have "?P (s', c') \<and> list_all (\<lambda>_. True) out"
  proof (rule pair.run_keeps [OF assms(1) _ assms(3,4)])
    fix e k x x' o1
    assume "pair_inv (pair_cost e + k) x" "?P x" "undisturbed w U e" "pair_step L sent w e x = Inr (x', o1)"
    then show "?P x' \<and> list_all (\<lambda>_. True) o1"
      using mirrored_step [of e k "fst x" "snd x" w i U L sent "fst x'" "snd x'" o1] by (simp add: list_all_iff)
  qed (use assms(2) in simp)
  then show ?thesis by (simp add: mirrored_def)
qed

text \<open>A server with one connection that has signed in, and a client that has.\<close>

definition small_events :: "proto_event list" where
  "small_events = [Message [0] (single 1 (SigninRequest \<lparr>SigninRequest_spare = 0\<rparr>)) 0]"

definition small :: ProtocolHandler where
  "small = (case run_steps proto_step small_events init_ProtocolHandler of
     Inl _ \<Rightarrow> init_ProtocolHandler | Inr (s, _) \<Rightarrow> s)"

lemma small_run: "\<exists>out. run_steps proto_step small_events init_ProtocolHandler = Inr (small, out)"
proof -
  have "list_all safe_event small_events" "proto_inv (sum_list (map proto_cost small_events) + 0) init_ProtocolHandler"
    by (simp_all add: small_events_def single_def proto_inv_init)
  from ph.run_safe [OF this(2,1)] show ?thesis by (auto simp: small_def)
qed

lemma small_inv: "k < 2 ^ 32 - 5 \<Longrightarrow> proto_inv k small"
proof -
  assume k: "k < 2 ^ 32 - 5"
  obtain out where "run_steps proto_step small_events init_ProtocolHandler = Inr (small, out)"
    using small_run by blast
  then show ?thesis by (rule reached_inv) (use k in \<open>simp add: small_events_def single_def\<close>)
qed

lemma small_tables:
  "mTree small = [(0, 0)]" "mSessions small = [(0, \<lparr>connectionSession = Some 0\<rparr>)]"
  "mConnectionToSessionId small = [(0, 0)]" "mUuidCtr small = 1" "nextRef small = 1"
  "heap small 0 = new_Node [] 0xFFFFFFFF None 0"
  by (simp_all add: small_def small_events_def run_defs Let_def)

lemma small_views: "sview small = [0 \<mapsto> ('''', None)]"
  by (rule ext) (simp add: sview_def abs_tree_def abs_node_def small_tables new_Node_def)

lemma sample_client_views: "cview sample_client = [0 \<mapsto> ('''', None)]"
  by (rule ext) (simp add: cview_def node_view_def sample_client new_ClientNode_def)

lemma small_mirrored: "mirrored 0 0 {} small sample_client"
  by (simp add: mirrored_def signed_in_def small_tables small_views sample_client_views)

lemma client_mirrors_server_witness:
  "\<exists>s' c' out. run_steps (pair_step simple_cum True 0)
      [Serve (Message [0] (single 3 (CreateRequest \<lparr>CreateRequest_name = ''a'', CreateRequest_parentUuid = 0\<rparr>)) 0)]
      (small, sample_client) = Inr ((s', c'), out) \<and> cview c' = sview s' \<and> sview s' 1 = Some (''a'', Some 0)"
proof -
  let ?e = "Serve (Message [0] (single 3 (CreateRequest \<lparr>CreateRequest_name = ''a'', CreateRequest_parentUuid = 0\<rparr>)) 0)"
  have "client_inv (Suc (Suc 0)) sample_client" by (rule client_inv_mono [OF client_sample_reachable]) simp
  then have inv: "pair_inv (sum_list (map pair_cost [?e]) + 1) (small, sample_client)"
    using small_inv [of "Suc (Suc 0)"] by (simp add: single_def)
  obtain s' o1 where srv: "handle [0] 3 (CreateRequest \<lparr>CreateRequest_name = ''a'', CreateRequest_parentUuid = 0\<rparr>) 0 small =
      Inr (s', o1)" "sview s' 1 = Some (''a'', Some 0)"
    "o1 = [Send 0 (single 3 (CreateAccept \<lparr>CreateAccept_uuid = 1\<rparr>)), Send 0 (single notification_id (announce (Created ''a'' 1 0)))]"
    by (simp add: handle_CreateRequest_eq small_tables new_Node_def inserted_def broadcast_def sview_def abs_tree_def
        abs_node_def um_emplace_def Let_def)
  obtain c' o2 where cl: "add_node \<lparr>NamedNode_name = ''a'', NamedNode_uuid = 1, NamedNode_parentUuid = 0\<rparr> sample_client = (c', o2)"
    by fastforce
  have "pair_step simple_cum True 0 ?e (small, sample_client) = Inr ((s', c'), o2)"
    using srv(1) cl by (simp add: single_def onMsg_message_def srv(3) client_handle_message_def sample_client
        client_TreeUpdateNotification_def)
  then have run: "run_steps (pair_step simple_cum True 0) [?e] (small, sample_client) = Inr ((s', c'), o2)" by simp
  from client_mirrors_server [OF inv small_mirrored _ run] srv(2) run show ?thesis by auto
qed

section \<open>Asking for the tree\<close>



text \<open>The sample client, holding its root.\<close>

definition holding_client :: Client where
  "holding_client = sample_client\<lparr>c_held := [0]\<rparr>"

lemma holding_inv: "k < 65534 \<Longrightarrow> client_inv k holding_client"
proof -
  assume k: "k < 65534"
  have "client_step simple_cum (Hold 0) sample_client = Inr (holding_client, [])"
    by (simp add: sample_client holding_client_def)
  moreover have "client_inv (client_cost (Hold 0) + k) sample_client"
    by (rule client_inv_mono [OF client_sample_reachable]) (use k in simp)
  ultimately show ?thesis using client_step_inv by fastforce
qed

lemma holding_view: "cview holding_client = [0 \<mapsto> ('''', None)]"
  using same_tree_views [of sample_client holding_client] by (simp add: same_tree_def sample_client_views holding_client_def)

lemma holding_knows: "knows holding_client sample"
  by (simp add: holding_view map_le_def sview_def abs_tree_def abs_node_def sample_tables sample_heap new_Node_def)

lemma simple_encode_tree_info: "length n < 100 \<Longrightarrow> client_send simple_cum True (single t (TreeInfoRequest
    \<lparr>TreeInfoRequest_parentUuid = 0, TreeInfoRequest_name = n, TreeInfoRequest_recursive = b\<rparr>)) \<noteq> Inl f"
  by (auto simp: client_send_def encode_def SEND_SIZE_def enc_PropertyTreeProtocol_def single_def
      enc_PropertyTreeMessage_def enc_PropertyTreeMessages_def enc_TreeInfoRequest_def
      simple_cum_def put_int_def put_string_def put_def le_bytes_2 Let_def)


text \<open>
  What \<open>get\<close> by name returns is true: if the node the client holds has a child of that name at the
  server, the call returns a node with the uuid, the name and the parent this child has there; and
  what the client knows stays right, whether or not it asked for the nodes below.
\<close>

theorem get_returns_child:
  assumes "client_inv (Suc k) c" "proto_inv j s" "knows c s" "ctree c u = Some r"
    and "tree s u = Some p" "child s p n = Some d" "n \<noteq> ''.''"
    and "may_start t (OpGet (Some r) n rc) c" "op_request (OpGet (Some r) n rc) c = Inr (Ask q)"
    and "client_send L sent' (single (c_TransactioIdCtr c) q) = Inr bs"
  shows "\<exists>c' out x. run_steps (pair_step L sent w)
      (round_trip t (OpGet (Some r) n rc) sent' held (c_TransactioIdCtr c) q w) (s, c) =
      Inr ((s, c'), out @ [Returned t (RProperty (Some x))]) \<and> knows c' s \<and>
    ctree c' (node_uuid (heap s d)) = Some x \<and> cview c' (node_uuid (heap s d)) = Some (n, Some u)"
  using get_child [OF assms] by blast

lemma get_returns_child_witness:
  "\<exists>c' out x. run_steps (pair_step simple_cum True 0)
      (round_trip 4 (OpGet (Some 0) ''a'' False) True [0] 1 (TreeInfoRequest
        \<lparr>TreeInfoRequest_parentUuid = 0, TreeInfoRequest_name = ''a'', TreeInfoRequest_recursive = 0\<rparr>) 0)
      (sample, holding_client) =
      Inr ((sample, c'), out @ [Returned 4 (RProperty (Some x))]) \<and> cview c' 1 = Some (''a'', Some 0)"
proof -
  let ?q = "TreeInfoRequest \<lparr>TreeInfoRequest_parentUuid = 0, TreeInfoRequest_name = ''a'', TreeInfoRequest_recursive = 0\<rparr>"
  obtain bs where bs: "client_send simple_cum True (single (c_TransactioIdCtr holding_client) ?q) = Inr bs"
    using simple_encode_tree_info [of "''a''" _ 0] by (cases "client_send simple_cum True (single (c_TransactioIdCtr holding_client) ?q)") auto
  have st: "may_start 4 (OpGet (Some 0) ''a'' False) holding_client" "op_request (OpGet (Some 0) ''a'' False) holding_client = Inr (Ask ?q)"
    by (simp_all add: holding_client_def may_start_def sample_client get_request_def deref_def new_ClientNode_def)
  have t: "ctree holding_client 0 = Some 0" "tree sample 0 = Some 0" "child sample 0 ''a'' = Some 1"
    by (simp_all add: holding_client_def sample_client sample_tables sample_heap)
  from get_returns_child [OF holding_inv [of "Suc 0"] sample_inv [of 0] holding_knows t _ st bs, of True 0 "[0]"]
  obtain c' out x where "run_steps (pair_step simple_cum True 0) (round_trip 4 (OpGet (Some 0) ''a'' False) True [0] 1 ?q 0)
      (sample, holding_client) = Inr ((sample, c'), out @ [Returned 4 (RProperty (Some x))])" "cview c' 1 = Some (''a'', Some 0)"
    by (auto simp: holding_client_def sample_client sample_heap new_Node_def simp del: run_steps.simps pair_step.simps)
  then show ?thesis by blast
qed

section \<open>Creating nodes\<close>

text \<open>
  C19: A client that creates a node gets what it has created: if it agrees with the server and the parent
  it holds has no child of the name, the call returns a node that has, at the client and at the
  server, the new uuid, the name and that parent. The two agree afterwards, although the
  announcement of the node arrives before the thread resumes.
\<close>

theorem create_returns_node:
  assumes "client_inv (Suc k) c" "proto_inv (Suc j) s" "mirrored w i U s c" "ctree c u = Some r"
    and "tree s u = Some p" "child s p n = None"
    and "may_start t (OpCreate (Some r) n) c" "op_request (OpCreate (Some r) n) c = Inr (Ask q)"
    and "client_send L sent' (single (c_TransactioIdCtr c) q) = Inr bs"
  shows "\<exists>s' c' out x. run_steps (pair_step L sent w)
      (round_trip t (OpCreate (Some r) n) sent' held (c_TransactioIdCtr c) q w) (s, c) =
      Inr ((s', c'), out @ [Returned t (RProperty (Some x))]) \<and> mirrored w i U s' c' \<and>
    ctree c' (ucast (mUuidCtr s)) = Some x \<and> sview s' (ucast (mUuidCtr s)) = Some (n, Some u)"
proof -
  let ?op = "OpCreate (Some r) n" and ?id = "c_TransactioIdCtr c" and ?v = "ucast (mUuidCtr s) :: u64"
  have tr: "tree_inv s" and ss: "session_inv s" using assms(2) by (simp_all add: proto_inv_def)
  have wf: "tree_wf c" using assms(1) by (simp add: client_inv_def)
  have q: "q = CreateRequest \<lparr>CreateRequest_name = n, CreateRequest_parentUuid = u\<rparr>"
    using assms(8) tree_uuid [OF wf assms(4)] by (auto simp: create_request_def deref_def split: option.splits)
  have w: "session_of s w = Some i" using assms(3) by (simp add: mirrored_def signed_in_def)
  let ?s = "inserted s p n i"
  have "n \<notin> fst ` set (node_children (heap s p))" using assms(6) by (simp add: map_of_eq_None_iff)
  moreover have "node_uuid (heap ?s p) = u"
    using tree_nodeD(3) [OF tr assms(5)] tree_fresh_ref [OF tr assms(5)] by (simp add: inserted_def)
  ultimately have srv: "handle held ?id q w s = Inr (?s, Send w (single ?id (CreateAccept \<lparr>CreateAccept_uuid = ?v\<rparr>)) #
      broadcast ?s (single notification_id (announce (Created n ?v u))))"
    using assms(5) w by (simp add: q handle_CreateRequest_eq Let_def)
  let ?out = "Send w (single ?id (CreateAccept \<lparr>CreateAccept_uuid = ?v\<rparr>)) # broadcast ?s (single notification_id (announce (Created n ?v u)))"
  have box: "inbox w ?out = single ?id (CreateAccept \<lparr>CreateAccept_uuid = ?v\<rparr>) #
      inbox w (broadcast ?s (single notification_id (announce (Created n ?v u))))" by simp
  have "\<forall>y\<in>set (inbox w (broadcast ?s (single notification_id (announce (Created n ?v u))))). \<exists>x. y = single notification_id (announce x)"
    by (auto simp only: set_inbox mem_Collect_eq dest!: broadcast_sends)
  from exchange [OF assms(1,7,8,9) srv box this, of sent] obtain d o1 where
    d: "run_steps (client_handle L sent) (inbox w ?out) (asking t ?op c) = Inr (d, o1)" "client_inv k d"
    and run: "run_steps (pair_step L sent w) (round_trip t ?op sent' held ?id q w) (s, c) =
      bindR (op_response ?op (CreateAccept \<lparr>CreateAccept_uuid = ?v\<rparr>) (d\<lparr>c_Transactions := um_erase ?id (c_Transactions d)\<rparr>))
        (\<lambda>(c', out, v). Inr ((?s, returned t v c'), Sent (single ?id q) bs # o1 @ out @ [Returned t v]))" by blast
  have "same_tree c (asking t ?op c)" by (simp add: same_tree_def asking_def)
  with same_tree_views [OF this] assms(3) have mir: "mirrored w i U s (asking t ?op c)" by (simp add: mirrored_def)
  have "client_inv k (asking t ?op c)"
    using client_step_inv [of "Start t ?op sent'" k c L] start_asking [OF assms(1,7,8,9)] assms(1) by simp
  from mirrored_handle [OF assms(2) srv mir ready_inv [OF this] _ d(1)]
  have mir': "mirrored w i U ?s d" by (simp add: q unsubscribes_def)
  have "abs_tree ?s ?v = Some \<lparr>a_name = n, a_parent = Some u, a_owner = i, a_data = [], a_subscribers = {}\<rparr>"
    using refine_Create [OF assms(2), of ?id "\<lparr>CreateRequest_name = n, CreateRequest_parentUuid = u\<rparr>" w] srv assms(5,6) w
    by (simp add: q has_child_abs [OF tr assms(5)] map_of_eq_None_iff)
  then have truth: "sview ?s ?v = Some (n, Some u)" by (simp add: sview_def)
  with mir' have "cview d ?v = Some (n, Some u)" by (simp add: mirrored_def)
  then obtain x where x: "ctree d ?v = Some x" by (cases "ctree d ?v") (simp_all add: cview_def)
  let ?d = "d\<lparr>c_Transactions := um_erase ?id (c_Transactions d)\<rparr>"
  let ?c = "returned t (RProperty (Some x)) ?d"
  have "run_steps (pair_step L sent w) (round_trip t ?op sent' held ?id q w) (s, c) =
      Inr ((?s, ?c), (Sent (single ?id q) bs # o1) @ [Returned t (RProperty (Some x))])"
    unfolding run using x by (simp add: create_response_def)
  moreover have "mirrored w i U ?s ?c" using mir' by (simp add: mirrored_def)
  moreover have "ctree ?c ?v = Some x" using x by simp
  ultimately show ?thesis using truth by blast
qed

lemma small_create: "length n < 100 \<Longrightarrow> client_send simple_cum True (single t (CreateRequest
    \<lparr>CreateRequest_name = n, CreateRequest_parentUuid = 0\<rparr>)) \<noteq> Inl f"
  by (auto simp: client_send_def encode_def SEND_SIZE_def enc_PropertyTreeProtocol_def single_def
      enc_PropertyTreeMessage_def enc_PropertyTreeMessages_def enc_CreateRequest_def
      simple_cum_def put_int_def put_string_def put_def le_bytes_2 Let_def)

lemma create_returns_node_witness:
  "\<exists>s' c' out x. run_steps (pair_step simple_cum True 0)
      (round_trip 4 (OpCreate (Some 0) ''a'') True [0] 1
        (CreateRequest \<lparr>CreateRequest_name = ''a'', CreateRequest_parentUuid = 0\<rparr>) 0) (small, holding_client) =
      Inr ((s', c'), out @ [Returned 4 (RProperty (Some x))]) \<and> ctree c' 1 = Some x \<and> sview s' 1 = Some (''a'', Some 0)"
proof -
  let ?q = "CreateRequest \<lparr>CreateRequest_name = ''a'', CreateRequest_parentUuid = 0\<rparr>"
  obtain bs where bs: "client_send simple_cum True (single (c_TransactioIdCtr holding_client) ?q) = Inr bs"
    using small_create [of "''a''"] by (cases "client_send simple_cum True (single (c_TransactioIdCtr holding_client) ?q)") auto
  have st: "may_start 4 (OpCreate (Some 0) ''a'') holding_client" "op_request (OpCreate (Some 0) ''a'') holding_client = Inr (Ask ?q)"
    by (simp_all add: holding_client_def may_start_def sample_client create_request_def deref_def new_ClientNode_def)
  have t: "ctree holding_client 0 = Some 0" "tree small 0 = Some 0" "child small 0 ''a'' = None"
    by (simp_all add: holding_client_def sample_client small_tables new_Node_def)
  have "mirrored 0 0 {} small holding_client" using small_mirrored by (simp add: mirrored_def holding_view sample_client_views)
  from create_returns_node [OF holding_inv [of "Suc 0"] small_inv [of "Suc 0"] this t st bs, of True "[0]"]
  show ?thesis by (auto simp: holding_client_def sample_client small_tables simp del: run_steps.simps pair_step.simps)
qed

section \<open>Values travel\<close>

text \<open>
  C7: A value travels from one client to another: when one client commits the value of a node, the call
  returns, and a client that fetches the node later, with any messages and disconnections in between
  that neither delete the node nor set its value, finds that value in its own copy.
\<close>

theorem committed_value_fetched:
  assumes inv: "client_inv (Suc k) a" "client_inv (Suc l) b" "proto_inv (sum_list (map proto_cost es) + Suc j) s"
    and nodes: "ctree a u = Some ra" "ctree b u = Some rb" "tree s u = Some r" "u = 0 \<longrightarrow> \<not> terminate_value (cn_data (c_heap a ra))"
    and a: "may_start ta (OpCommit (Some ra)) a" "op_request (OpCommit (Some ra)) a = Inr (Ask qa)"
      "client_send L sa (single (c_TransactioIdCtr a) qa) = Inr bsa"
      "run_steps (pair_step L sent wa) (round_trip ta (OpCommit (Some ra)) sa held (c_TransactioIdCtr a) qa wa) (s, a) = Inr ((s1, a1), oa)"
    and es: "run_steps proto_step es s1 = Inr (s2, out)"
      "list_all (event_all (\<lambda>_ _ _ x. \<not> deletes u x \<and> \<not> writes u x) (\<lambda>_. True)) es"
    and b: "may_start tb (OpFetch (Some rb)) b" "op_request (OpFetch (Some rb)) b = Inr (Ask qb)"
      "client_send L sb (single (c_TransactioIdCtr b) qb) = Inr bsb"
  shows "Returned ta RUnit \<in> set oa \<and> (\<exists>b1 ob. run_steps (pair_step L sent wb)
      (round_trip tb (OpFetch (Some rb)) sb held' (c_TransactioIdCtr b) qb wb) (s2, b) = Inr ((s2, b1), ob @ [Returned tb RUnit]) \<and>
    cvalue b1 u = Some (cn_data (c_heap a ra)))"
proof -
  let ?d = "cn_data (c_heap a ra)" and ?m = "\<lparr>SetValueRequest_uuid = u, SetValueRequest_data = cn_data (c_heap a ra)\<rparr>"
  have wf: "tree_wf a" "tree_wf b" using inv(1,2) by (simp_all add: client_inv_def)
  have qa: "qa = SetValueRequest ?m" using a(2) tree_uuid [OF wf(1) nodes(1)] by (auto simp: commit_request_def deref_def)
  have qb: "qb = GetRequest \<lparr>GetRequest_uuid = u\<rparr>" using b(2) tree_uuid [OF wf(2) nodes(2)] by (auto simp: fetch_request_def deref_def)
  have "proto_inv (Suc (sum_list (map proto_cost es) + j)) s" using inv(3) by simp
  from set_value_box [OF this nodes(3,4), of held "c_TransactioIdCtr a" wa] obtain s' o1 ms where
    srv: "handle held (c_TransactioIdCtr a) qa wa s = Inr (s', o1)"
    and box: "inbox wa o1 = single (c_TransactioIdCtr a) (SetValueAccept \<lparr>SetValueAccept_spare = 0\<rparr>) # ms"
      "\<forall>y\<in>set ms. \<exists>x. y = single notification_id (announce x)" unfolding qa by blast
  from exchange [OF inv(1) a(1-3) srv box, of sent] a(4)
  have s1: "s1 = s'" "Returned ta RUnit \<in> set oa"
    by (auto simp: commit_response_def simp del: run_steps.simps pair_step.simps)
  have "tree_request (SetValueRequest ?m)" using nodes(4) by simp
  then have "holds u ?d s2"
    using value_kept [OF inv(3), of ?m r held "c_TransactioIdCtr a" wa s1 o1 s2 out] nodes(3) srv s1(1) es by (simp add: qa)
  from holds_get [OF this] have get: "handle held' (c_TransactioIdCtr b) qb wb s2 =
      Inr (s2, [Send wb (single (c_TransactioIdCtr b) (GetAccept \<lparr>GetAccept_data = ?d\<rparr>))])" by (simp add: qb)
  from plain_exchange [OF inv(2) b(1-3) get, of "GetAccept \<lparr>GetAccept_data = ?d\<rparr>" sent] obtain e where
    e: "run_steps (pair_step L sent wb) (round_trip tb (OpFetch (Some rb)) sb held' (c_TransactioIdCtr b) qb wb) (s2, b) =
      bindR (op_response (OpFetch (Some rb)) (GetAccept \<lparr>GetAccept_data = ?d\<rparr>) e) (\<lambda>(c', out, v). Inr ((s2, returned tb v c'),
        Sent (single (c_TransactioIdCtr b) qb) bsb # out @ [Returned tb v]))" "same_tree b e" "tree_wf e" by auto
  let ?b = "returned tb RUnit (store_value rb ?d e)"
  have "run_steps (pair_step L sent wb) (round_trip tb (OpFetch (Some rb)) sb held' (c_TransactioIdCtr b) qb wb) (s2, b) =
      Inr ((s2, ?b), [Sent (single (c_TransactioIdCtr b) qb) bsb] @ [Returned tb RUnit])"
    unfolding e(1) by (simp add: fetch_response_def deref_def)
  moreover have "cvalue ?b u = Some ?d"
    using store_value_value [OF e(3), of u rb ?d] e(2) nodes(2) by (simp add: same_tree_def)
  ultimately show ?thesis using s1(2) by blast
qed

text \<open>The sample client after it has written to the root.\<close>

definition writing_client :: Client where
  "writing_client = holding_client\<lparr>c_heap := (c_heap holding_client)(0 := (c_heap holding_client 0)\<lparr>cn_data := [7]\<rparr>)\<rparr>"

lemma writing_inv: "client_inv (Suc 0) writing_client"
proof -
  have "client_step simple_cum (SetData 0 [7]) holding_client = Inr (writing_client, [])"
    by (simp add: writing_client_def holding_client_def)
  with holding_inv [of "client_cost (SetData 0 [7]) + Suc 0"] show ?thesis
    by (intro client_step_inv [of "SetData 0 [7]" "Suc 0" holding_client]) simp_all
qed

lemma simple_encode_value: "client_send simple_cum True (single t (SetValueRequest
    \<lparr>SetValueRequest_uuid = u, SetValueRequest_data = [7]\<rparr>)) \<noteq> Inl f"
  "client_send simple_cum True (single t (GetRequest \<lparr>GetRequest_uuid = u\<rparr>)) \<noteq> Inl f"
  by (simp_all add: client_send_def encode_def SEND_SIZE_def enc_PropertyTreeProtocol_def single_def
      enc_PropertyTreeMessage_def enc_PropertyTreeMessages_def enc_SetValueRequest_def enc_GetRequest_def
      simple_cum_def put_int_def put_vector_def put_def le_bytes_2 Let_def)

lemma committed_value_fetched_witness:
  "\<exists>s1 a1 oa b1 ob. run_steps (pair_step simple_cum True 0) (round_trip 4 (OpCommit (Some 0)) True [0] 1
      (SetValueRequest \<lparr>SetValueRequest_uuid = 0, SetValueRequest_data = [7]\<rparr>) 0) (small, writing_client) = Inr ((s1, a1), oa) \<and>
    run_steps (pair_step simple_cum True 1) (round_trip 5 (OpFetch (Some 0)) True [1] 1
      (GetRequest \<lparr>GetRequest_uuid = 0\<rparr>) 1) (s1, holding_client) = Inr ((s1, b1), ob) \<and> cvalue b1 0 = Some [7]"
proof -
  let ?qa = "SetValueRequest \<lparr>SetValueRequest_uuid = 0, SetValueRequest_data = [7]\<rparr>"
  let ?qb = "GetRequest \<lparr>GetRequest_uuid = 0\<rparr>"
  obtain bsa bsb where bs: "client_send simple_cum True (single (c_TransactioIdCtr writing_client) ?qa) = Inr bsa"
    "client_send simple_cum True (single (c_TransactioIdCtr holding_client) ?qb) = Inr bsb"
    using simple_encode_value by (metis old.sum.exhaust)
  have ids: "c_TransactioIdCtr writing_client = 1" "c_TransactioIdCtr holding_client = 1"
    by (simp_all add: writing_client_def holding_client_def sample_client)
  have a: "may_start 4 (OpCommit (Some 0)) writing_client" "op_request (OpCommit (Some 0)) writing_client = Inr (Ask ?qa)"
    and b: "may_start 5 (OpFetch (Some 0)) holding_client" "op_request (OpFetch (Some 0)) holding_client = Inr (Ask ?qb)"
    by (simp_all add: writing_client_def holding_client_def may_start_def sample_client commit_request_def
        fetch_request_def deref_def new_ClientNode_def)
  have t: "ctree writing_client 0 = Some 0" "ctree holding_client 0 = Some 0" "tree small 0 = Some 0"
    "0 = (0 :: u64) \<longrightarrow> \<not> terminate_value (cn_data (c_heap writing_client 0))"
    by (simp_all add: writing_client_def holding_client_def sample_client small_tables terminate_value_def)
  have inv: "proto_inv (sum_list (map proto_cost []) + Suc 0) small" using small_inv [of "Suc 0"] by simp
  have seven: "0 = (0 :: u64) \<longrightarrow> \<not> terminate_value [7]" by (simp add: terminate_value_def)
  have "proto_inv (Suc 0) small" by (rule small_inv) simp
  from set_value_box [OF this t(3) seven, of "[0]" 1 0] obtain s' o1 ms where
    srv: "handle [0] (c_TransactioIdCtr writing_client) ?qa 0 small = Inr (s', o1)"
    and box: "inbox 0 o1 = single (c_TransactioIdCtr writing_client) (SetValueAccept \<lparr>SetValueAccept_spare = 0\<rparr>) # ms"
      "\<forall>y\<in>set ms. \<exists>x. y = single notification_id (announce x)" unfolding ids by blast
  from exchange [OF writing_inv a bs(1) srv box, of True] obtain a1 oa where
    run: "run_steps (pair_step simple_cum True 0) (round_trip 4 (OpCommit (Some 0)) True [0] (c_TransactioIdCtr writing_client) ?qa 0)
      (small, writing_client) = Inr ((s', a1), oa)"
    by (auto simp: commit_response_def simp del: run_steps.simps pair_step.simps)
  from committed_value_fetched [OF writing_inv holding_inv [of "Suc 0"] inv t a bs(1) run _ _ b bs(2), of s' "[]" 1 "[1]"] run
  show ?thesis
    by (auto simp: ids writing_client_def simp del: run_steps.simps(2) pair_step.simps)
qed

section \<open>Remote procedure calls from end to end\<close>

lemma call_asks:
  assumes "op_request (OpCall (Some r) v) c = Inr (Ask q)" "cn_uuid (c_heap c r) = u"
  shows "q = RpcRequest \<lparr>RpcRequest_uuid = u, RpcRequest_param = v\<rparr>"
  using assms by (auto simp: call_request_def deref_def)

text \<open>
  C4: A remote procedure call computes what the handler of its owner computes: the request of the caller
  reaches the owner under an id of the server's; if the owner has a handler on the node and no
  transaction of its own under that id, the handler runs on the parameter of the call and its result
  goes back through the server to the thread that called, which returns it.
\<close>

theorem call_returns_result:
  assumes "client_inv (Suc k) a" "proto_inv (Suc (Suc j)) s" "ctree a u = Some ra" "tree s u = Some r" "ctree b u = Some rb"
    and "session_of s ca = Some i" "session s (node_sessionId (heap s r)) = Some \<lparr>connectionSession = Some cb\<rparr>"
    and "may_start t (OpCall (Some ra) v) a" "op_request (OpCall (Some ra) v) a = Inr (Ask q)"
    and "client_send L sa (single (c_TransactioIdCtr a) q) = Inr bsa"
    and "cn_rcpHandler (c_heap b rb) = Some f" "map_of (c_Transactions b) (ucast (mTrIdCtr s)) = None"
    and "client_send L sb (single (ucast (mTrIdCtr s)) (RpcAccept \<lparr>RpcAccept_value = f v\<rparr>)) = Inr bsb"
  shows "\<exists>a1 s1 s2 a2 a3. client_step L (Start t (OpCall (Some ra) v) sa) a = Inr (a1, [Sent (single (c_TransactioIdCtr a) q) bsa]) \<and>
    handle held (c_TransactioIdCtr a) q ca s = Inr (s1, [Send cb (single (ucast (mTrIdCtr s)) q)]) \<and>
    client_handle L sb (single (ucast (mTrIdCtr s)) q) b = Inr (b, [RpcHandled rb v,
      Sent (single (ucast (mTrIdCtr s)) (RpcAccept \<lparr>RpcAccept_value = f v\<rparr>)) bsb]) \<and>
    handle held' (ucast (mTrIdCtr s)) (RpcAccept \<lparr>RpcAccept_value = f v\<rparr>) cb s1 =
      Inr (s2, [Send ca (single (c_TransactioIdCtr a) (RpcAccept \<lparr>RpcAccept_value = f v\<rparr>))]) \<and>
    client_handle L sent (single (c_TransactioIdCtr a) (RpcAccept \<lparr>RpcAccept_value = f v\<rparr>)) a1 = Inr (a2, []) \<and>
    client_step L (Resume t) a2 = Inr (a3, [Returned t (RBytes (f v))])"
proof -
  let ?op = "OpCall (Some ra) v" and ?tr = "ucast (mTrIdCtr s) :: u16" and ?ans = "RpcAccept \<lparr>RpcAccept_value = f v\<rparr>"
  have wf: "tree_wf a" using assms(1) by (simp add: client_inv_def)
  have q: "q = RpcRequest \<lparr>RpcRequest_uuid = u, RpcRequest_param = v\<rparr>" by (rule call_asks [OF assms(9) tree_uuid [OF wf assms(3)]])
  have "tree s (RpcRequest_uuid \<lparr>RpcRequest_uuid = u, RpcRequest_param = v\<rparr>) = Some r" using assms(4) by simp
  from rpc_forward [OF assms(2) this assms(6,7), of "c_TransactioIdCtr a"] obtain s1 where
    s1: "handle held (c_TransactioIdCtr a) q ca s = Inr (s1, [Send cb (single ?tr q)])"
      "awaiting ?tr i (c_TransactioIdCtr a) ca 0 s1" by (auto simp: q)
  obtain s2 where s2: "handle held' ?tr ?ans cb s1 = Inr (s2, [Send ca (single (c_TransactioIdCtr a) ?ans)])"
    using awaiting_reply [OF s1(2)] by simp
  have owner: "client_handle L sb (single ?tr q) b = Inr (b, [RpcHandled rb v, Sent (single ?tr ?ans) bsb])"
    using assms(5,11,12,13) by (simp add: q client_handle_message_def client_RpcRequest_def Let_def)
  note ans = answer_handled(1) [OF assms(1,8,9,10), of sent ?ans] answer_handled(2) [OF assms(1,8,9,10), of ?ans]
  have "client_step L (Resume t) (replied t ?op ?ans a) =
      Inr (returned t (RBytes (f v)) ((replied t ?op ?ans a)\<lparr>c_Transactions :=
        um_erase (c_TransactioIdCtr a) (c_Transactions (replied t ?op ?ans a))\<rparr>), [Returned t (RBytes (f v))])"
    by (subst resume_answered [OF ans(2)]) (simp add: call_response_def)
  with start_asking [OF assms(1,8,9,10)] s1(1) s2 owner ans(1) show ?thesis by blast
qed

text \<open>A client that has been told of node 1, holds it and has set a handler on it.\<close>

definition grown_events :: "client_event list" where
  "grown_events = [Receive (single notification_id (announce (Created ''a'' 1 0))) True, Hold 1,
     SetRcpHandler 1 (Some (\<lambda>bs. 9 # bs))]"

definition grown_client :: Client where
  "grown_client = (case run_steps (client_step simple_cum) grown_events sample_client of
     Inl _ \<Rightarrow> sample_client | Inr (c, _) \<Rightarrow> c)"

lemma grown_client:
  "client_inv (Suc 0) grown_client" "c_Tree grown_client = [(0, 0), (1, 1)]" "c_Transactions grown_client = []"
  "c_waiting grown_client = []" "c_constructed grown_client" "c_held grown_client = [1]"
  "c_TransactioIdCtr grown_client = 1" "cn_uuid (c_heap grown_client 1) = 1"
  "cn_rcpHandler (c_heap grown_client 1) = Some (\<lambda>bs. 9 # bs)"
proof -
  let ?i = "\<lparr>NamedNode_name = ''a'', NamedNode_uuid = 1, NamedNode_parentUuid = 0\<rparr>"
  obtain d out where d: "add_node ?i sample_client = (d, out)" by fastforce
  have D: "c_Tree d = [(0, 0), (1, 1)]" "c_Transactions d = []" "c_waiting d = []" "c_constructed d" "c_held d = []"
    "c_TransactioIdCtr d = 1" "cn_uuid (c_heap d 1) = 1"
    using d by (auto simp: add_node_def make_Node_def um_emplace_def sample_client new_ClientNode_def client_simps Let_def)
  have "tree_wf sample_client" using client_sample_reachable by (simp add: client_inv_def)
  then have "tree_wf d" using d by (rule tree_wf_add_node)
  then have "c_live d 1" using tree_live [of d 1 1] D(1) by simp
  then have run: "run_steps (client_step simple_cum) grown_events sample_client =
      Inr (d\<lparr>c_held := [1], c_heap := (c_heap d)(1 := (c_heap d 1)\<lparr>cn_rcpHandler := Some (\<lambda>bs. 9 # bs)\<rparr>)\<rparr>, out)"
    using d D(5) by (simp add: grown_events_def client_handle_message_def sample_client client_TreeUpdateNotification_def)
  then have g: "grown_client = d\<lparr>c_held := [1], c_heap := (c_heap d)(1 := (c_heap d 1)\<lparr>cn_rcpHandler := Some (\<lambda>bs. 9 # bs)\<rparr>)\<rparr>"
    by (simp add: grown_client_def)
  have "client_inv (sum_list (map client_cost grown_events) + Suc 0) sample_client"
    by (rule client_inv_mono [OF client_sample_reachable]) (simp add: grown_events_def)
  from cl.run_inv [OF this run] g show "client_inv (Suc 0) grown_client" by simp
  show "c_Tree grown_client = [(0, 0), (1, 1)]" "c_Transactions grown_client = []"
    "c_waiting grown_client = []" "c_constructed grown_client" "c_held grown_client = [1]"
    "c_TransactioIdCtr grown_client = 1" "cn_uuid (c_heap grown_client 1) = 1"
    "cn_rcpHandler (c_heap grown_client 1) = Some (\<lambda>bs. 9 # bs)" using D by (simp_all add: g)
qed

lemma simple_encode_call: "client_send simple_cum True (single t (RpcRequest
    \<lparr>RpcRequest_uuid = u, RpcRequest_param = [7]\<rparr>)) \<noteq> Inl f"
  "client_send simple_cum True (single t (RpcAccept \<lparr>RpcAccept_value = [9, 7]\<rparr>)) \<noteq> Inl f"
  by (simp_all add: client_send_def encode_def SEND_SIZE_def enc_PropertyTreeProtocol_def single_def
      enc_PropertyTreeMessage_def enc_PropertyTreeMessages_def enc_RpcRequest_def enc_RpcAccept_def
      simple_cum_def put_int_def put_vector_def put_def le_bytes_2 Let_def)

lemma call_returns_result_witness:
  "\<exists>a1 s1 s2 a2 a3 out. client_step simple_cum (Start 6 (OpCall (Some 1) [7]) True) grown_client = Inr (a1, out) \<and>
    handle [] 1 (RpcRequest \<lparr>RpcRequest_uuid = 1, RpcRequest_param = [7]\<rparr>) 1 sample =
      Inr (s1, [Send 0 (single 0 (RpcRequest \<lparr>RpcRequest_uuid = 1, RpcRequest_param = [7]\<rparr>))]) \<and>
    handle [] 0 (RpcAccept \<lparr>RpcAccept_value = [9, 7]\<rparr>) 0 s1 = Inr (s2, [Send 1 (single 1 (RpcAccept \<lparr>RpcAccept_value = [9, 7]\<rparr>))]) \<and>
    client_handle simple_cum True (single 1 (RpcAccept \<lparr>RpcAccept_value = [9, 7]\<rparr>)) a1 = Inr (a2, []) \<and>
    client_step simple_cum (Resume 6) a2 = Inr (a3, [Returned 6 (RBytes [9, 7])])"
proof -
  let ?q = "RpcRequest \<lparr>RpcRequest_uuid = 1, RpcRequest_param = [7]\<rparr>"
  let ?f = "\<lambda>bs :: u8 list. 9 # bs"
  obtain bsa bsb where bs: "client_send simple_cum True (single (c_TransactioIdCtr grown_client) ?q) = Inr bsa"
    "client_send simple_cum True (single (ucast (mTrIdCtr sample)) (RpcAccept \<lparr>RpcAccept_value = ?f [7]\<rparr>)) = Inr bsb"
    using simple_encode_call by (metis old.sum.exhaust)
  have st: "may_start 6 (OpCall (Some 1) [7]) grown_client" "op_request (OpCall (Some 1) [7]) grown_client = Inr (Ask ?q)"
    using grown_client(8) by (simp_all add: may_start_def grown_client call_request_def deref_def)
  have t: "ctree grown_client 1 = Some 1" "tree sample 1 = Some 1" "session_of sample 1 = Some 1"
    "session sample (node_sessionId (heap sample 1)) = Some \<lparr>connectionSession = Some 0\<rparr>"
    "map_of (c_Transactions grown_client) (ucast (mTrIdCtr sample)) = None"
    by (simp_all add: grown_client sample_tables sample_heap new_Node_def)
  from call_returns_result [OF grown_client(1) sample_inv [of "Suc (Suc 0)"] t(1,2,1,3,4) st bs(1) grown_client(9) t(5) bs(2), of "[]" "[]" True]
  show ?thesis by (simp add: grown_client sample_tables del: client_step.simps client_handle.simps handle.simps) blast
qed

text \<open>
  C37: The ids of the server's calls and those of a client's own requests are drawn from the same
  numbers, and a client looks for a request of its own first: while the owner of a node waits for an
  answer under the id the server gives to a call, the call is taken for that answer. Its handler does
  not run, nobody answers the caller, and the owner's own operation fails.
\<close>

theorem call_swallowed:
  assumes "client_inv k b" "waits t i op b"
  shows "\<exists>b1 b2 w. client_handle L sent (single i (RpcRequest m)) b = Inr (b1, []) \<and>
    client_step L (Resume t) b1 = Inr (b2, [Returned t (RThrow w)])"
proof -
  have w: "map_of (c_waiting b) t = Some (i, op)" using assms(2) by (simp add: waits_def)
  from waiting_entry(1) [OF assms(1) w] obtain tr where tr: "map_of (c_Transactions b) i = Some tr" by blast
  have "um_wf (c_Transactions b)" using assms(1) by (simp add: client_inv_def trans_wf_def)
  note ans = message_answers [OF this tr, of L sent "RpcRequest m"]
  let ?b = "b\<lparr>c_Transactions := um_assign i \<lparr>satisfied = True, reply = RpcRequest m\<rparr> (c_Transactions b)\<rparr>"
  have h: "has_answer t i op (RpcRequest m) ?b" using w by (simp add: has_answer_def waits_def map_of_um_assign)
  have "\<exists>w. op_response op (RpcRequest m) c = Inr (c, [], RThrow w)" for c
    using waiting_entry(2) [OF assms(1) w]
    by (cases op) (auto simp: signin_response_def create_response_def get_response_def commit_response_def fetch_response_def
        subscribe_response_def unsubscribe_response_def destroy_response_def beat_response_def call_response_def deref_def)
  then obtain x where "op_response op (RpcRequest m) (?b\<lparr>c_Transactions := um_erase i (c_Transactions ?b)\<rparr>) =
    Inr (?b\<lparr>c_Transactions := um_erase i (c_Transactions ?b)\<rparr>, [], RThrow x)" by blast
  then have "client_step L (Resume t) ?b = Inr (returned t (RThrow x) (?b\<lparr>c_Transactions := um_erase i (c_Transactions ?b)\<rparr>), [Returned t (RThrow x)])"
    by (subst resume_answered [OF h]) simp
  with ans show ?thesis by (auto simp: single_def simp del: client_step.simps)
qed

lemma call_swallowed_witness:
  "\<exists>b b1 b2 w. waits 0 0 OpSignin b \<and> client_handle simple_cum True (single 0 (RpcRequest
      \<lparr>RpcRequest_uuid = 1, RpcRequest_param = []\<rparr>)) b = Inr (b1, []) \<and>
    client_step simple_cum (Resume 0) b1 = Inr (b2, [Returned 0 (RThrow w)])"
proof -
  obtain b out where run: "run_steps (client_step simple_cum) sample_waiting (init_Client []) = Inr (b, out)" and w: "waits 0 0 OpSignin b"
    by (auto simp: sample_waiting_def init_Client_def may_start_def start_def signin_request_def addTransaction_def
        next_id_def simple_encode_signin um_emplace_def waits_def)
  from client_reachable [OF _ run, of 0] have "client_inv 0 b" by (simp add: sample_waiting_def)
  from call_swallowed [OF this w, of simple_cum True "\<lparr>RpcRequest_uuid = 1, RpcRequest_param = []\<rparr>"] w show ?thesis by blast
qed

end
