(* ===== verification/Samples.thy ===== *)
theory Samples
  imports MirrorProps Forest
begin

text \<open>
  A concrete server and client the properties about programs are tried on, and the requests that the
  simple library can send.
\<close>

text \<open>The sample client beside the sample server.\<close>

lemma holding_links: "links_ok holding_client"
  by (auto simp: links_ok_def linked_def holding_client_def sample_client new_ClientNode_def split: if_splits)

lemma holding_usable: "k < 65534 \<Longrightarrow> usable 0 k (sample, holding_client)"
  using holding_inv [of k] holding_links holding_knows sample_inv [of k]
  by (simp add: holding_client_def sample_client sample_tables)

text \<open>Every request fits into a frame, if its name or value is short.\<close>

lemma sendsI: "(\<And>t f. client_send simple_cum True (single t q) \<noteq> Inl f) \<Longrightarrow> sends simple_cum q"
  unfolding sends_def by (metis old.sum.exhaust)

lemmas send_simps = client_send_def encode_def SEND_SIZE_def enc_PropertyTreeProtocol_def single_def
  enc_PropertyTreeMessage_def enc_PropertyTreeMessages_def simple_cum_def put_int_def put_string_def put_vector_def put_def
  le_bytes_2 Let_def

lemma sends_child: "length n < 100 \<Longrightarrow> sends simple_cum (ask_child u n)"
  by (rule sendsI) (auto simp: send_simps enc_TreeInfoRequest_def)

lemma sends_all: "sends simple_cum (ask_all u)"
  by (rule sendsI) (simp add: send_simps enc_TreeInfoRequest_def)

lemma sends_create: "length n < 100 \<Longrightarrow> sends simple_cum (ask_create u n)"
  by (rule sendsI) (auto simp: send_simps enc_CreateRequest_def)

lemma sends_delete: "sends simple_cum (ask_delete u)"
  by (rule sendsI) (simp add: send_simps enc_DeleteRequest_def)

lemma sends_get: "sends simple_cum (GetRequest \<lparr>GetRequest_uuid = u\<rparr>)"
  by (rule sendsI) (simp add: send_simps enc_GetRequest_def)

lemma sends_subscribe: "sends simple_cum (SubscribeRequest \<lparr>SubscribeRequest_uuid = u\<rparr>)"
    "sends simple_cum (UnsubscribeRequest \<lparr>UnsubscribeRequest_uuid = u\<rparr>)"
  by (rule sendsI, simp add: send_simps enc_SubscribeRequest_def enc_UnsubscribeRequest_def)+

lemma sends_beat: "sends simple_cum (HearbeatRequest \<lparr>HearbeatRequest_spare = 0\<rparr>)"
  by (rule sendsI) (simp add: send_simps enc_HearbeatRequest_def)

lemma put_bytes: "length d \<le> room \<Longrightarrow> put_all (put_int (Suc 0)) (d :: u8 list) (w, room) \<noteq> Inl f"
  by (induction d arbitrary: w room) (auto simp: put_int_def)

lemma sends_set: "length d < 100 \<Longrightarrow> sends simple_cum (ask_set u d)"
  by (rule sendsI) (auto simp: send_simps enc_SetValueRequest_def put_bytes)

lemma sends_signin: "sends simple_cum (SigninRequest \<lparr>SigninRequest_spare = 0\<rparr>)"
  by (rule sendsI) (simp add: simple_encode_signin)

lemma sends_call: "length d < 100 \<Longrightarrow> sends simple_cum (RpcRequest \<lparr>RpcRequest_uuid = u, RpcRequest_param = d\<rparr>)"
  by (rule sendsI) (auto simp: send_simps enc_RpcRequest_def put_bytes)

lemma sends_result: "length d < 100 \<Longrightarrow> sends simple_cum (RpcAccept \<lparr>RpcAccept_value = d\<rparr>)"
  by (rule sendsI) (auto simp: send_simps enc_RpcAccept_def put_bytes)

text \<open>The forest of the sample server.\<close>

lemma sample_forest: "forest_of sample 0 = [Rose ''a'' 1 [Rose ''b'' 2 []]]"
  by (simp add: forest_of_def sample_tables sample_heap new_Node_def)

end
