(* ===== verification/MonitorProps.thy ===== *)
theory MonitorProps
  imports Listing Samples
begin

text \<open>
  The properties of the monitor: its line editor, what the text of a value stands for, and what its
  commands do to the server.
\<close>

section \<open>The terminal\<close>

text \<open>
  C39: The terminal never writes behind its buffer of 128 characters, and behaves like a line editor that
  has no buffer: for any keys, the commands it executes are the lines typed, with deletions carried
  out and escape sequences and tabulators skipped, and it fails only if a command does. (A line of
  128 characters can only be shortened: \<open>Enter\<close> is ignored as well.)
\<close>

theorem console_edits_lines:
  assumes "length junk = INPUT_SIZE"
  shows "bindR (run_steps (\<lambda>k x. bindR (consoleIn exec k x) (\<lambda>(y, out). Inr (y, [out]))) keys (init_Console junk, w))
      (\<lambda>((c, w), out). Inr (typed c, w)) =
    bindR (run_steps (\<lambda>k x. bindR (line_key exec k x) (\<lambda>y. Inr (y, [] :: unit list))) keys (([], 0), w)) (\<lambda>(x, out). Inr x)"
proof -
  have "bindR (run_steps (\<lambda>k x. bindR (consoleIn exec k x) (\<lambda>(y, out). Inr (y, [out]))) keys (c, w))
      (\<lambda>((c, w), out). Inr (typed c, w)) =
    bindR (run_steps (\<lambda>k x. bindR (line_key exec k x) (\<lambda>y. Inr (y, [] :: unit list))) keys (typed c, w)) (\<lambda>(x, out). Inr x)"
    if "console_ok c" for c
    using that
  proof (induction keys arbitrary: c w)
    case (Cons k keys)
    note st = console_step [OF Cons.prems, of exec k w]
    show ?case
    proof (cases "consoleIn exec k (c, w)")
      case (Inl f)
      with st have "line_key exec k (typed c, w) = Inl f" by (metis bindR.simps(1))
      with Inl show ?thesis by simp
    next
      case (Inr y)
      obtain c' w' out where y: "y = ((c', w'), out)" by (metis prod.collapse)
      with st Inr have "line_key exec k (typed c, w) = Inr (typed c', w')" "console_ok c'" by auto
      with Cons.IH [of c' w'] Inr y show ?thesis
        by (cases "run_steps (\<lambda>k x. bindR (consoleIn exec k x) (\<lambda>(y, out). Inr (y, [out]))) keys (c', w')";
            cases "run_steps (\<lambda>k x. bindR (line_key exec k x) (\<lambda>y. Inr (y, [] :: unit list))) keys (typed c', w')") auto
    qed
  qed simp
  moreover have "console_ok (init_Console junk)" "typed (init_Console junk) = ([], 0)"
    using assms by (simp_all add: console_ok_def init_Console_def typed_def)
  ultimately show ?thesis by metis
qed

lemma console_edits_lines_witness:
  "bindR (run_steps (\<lambda>k x. bindR (consoleIn (\<lambda>l w. Inr (w @ [l], [])) k x) (\<lambda>(y, out). Inr (y, [out])))
      [CHR ''a'', CHR ''b'', CHR 0x7F, CHR 0x1B, CHR ''['', CHR ''A'', CHR ''c'', CHR 0x0A]
      (init_Console (replicate INPUT_SIZE (CHR ''x'')), []))
    (\<lambda>((c, w), out). Inr (typed c, w)) = Inr (([], 0), [''ac''])"
  by (subst console_edits_lines) (simp_all add: INPUT_SIZE_def numeral_2_eq_2)

section \<open>Values as text\<close>

text \<open>
  The value given to the command \<open>set\<close> is read two digits to a byte, the high one first, in upper and
  lower case; a last digit without a partner is dropped. Text that was printed from bytes gives the
  bytes back.
\<close>

theorem hex_text_value:
  assumes "map hex_value s = map Some ds"
  shows "hexStringToVector s = hex_bytes ds \<and> length (hexStringToVector s) = length s div 2 \<and>
    (ds = concat (map (\<lambda>b. [unat b div 16, unat b mod 16]) bs) \<longrightarrow> hexStringToVector s = bs)"
proof -
  have "length (hex_bytes ds) = length ds div 2" by (induction ds rule: hex_bytes.induct) simp_all
  moreover have "length ds = length s" using arg_cong [OF assms, of length] by simp
  moreover have "hex_bytes (concat (map (\<lambda>b. [unat b div 16, unat b mod 16]) bs)) = bs"
    by (induction bs) (simp_all flip: of_nat_mult of_nat_add)
  ultimately show ?thesis using hex_loop_bytes [OF assms, of 0 "[]"] by (auto simp: hexStringToVector_def)
qed

lemma hex_text_value_witness: "hexStringToVector ''0aFf7'' = [10, 255]"
  using hex_text_value [of "''0aFf7''" "[0, 10, 15, 15, 7]"] by (simp add: hex_value_def digit_value_def)

section \<open>Commands\<close>


lemma sample_paths: "path_names ''/a/b'' = [''a'', ''b'']" "path_names ''/x'' = [''x'']"
  by (simp_all add: alnum_def)

lemma sample_resolve: "resolve sample 0 [''a'', ''b''] = Some 2" "resolve sample 0 [''x''] = None"
  by (simp_all add: child_uuid_def sample_tables sample_heap new_Node_def)


text \<open>
  The command \<open>list\<close> does not test the path it is given: if there is no such node, it goes through an
  empty pointer.
\<close>

theorem list_missing_path_crashes:
  assumes "usable w (2 * length (path_names path) + 2 + k) (s, c)" "resolve s 0 (path_names path) = None"
    and "args ''path'' = Some path" "path_fits (sends L) path"
  shows "run_pair L w held (onCmdList hex junk fuel args) (s, c) = Inl NullDeref"
proof -
  have use: "usable w (Suc (Suc (2 * length (path_names path) + k))) (s, c)" using assms(1) by simp
  from served.run_root [OF use, of L held] obtain c1 p where
    root: "run_pair L w held client_root (s, c) = Inr ((s, c1), p)" "usable w (Suc (2 * length (path_names path) + k)) (s, c1)"
    by (auto simp del: usable.simps)
  from served.run_getByPath [OF root(2) assms(4), of held] assms(2) obtain c2 where
    p: "run_pair L w held (getByPath path) (s, c1) = Inr ((s, c2), make_Property None)" "usable w k (s, c2)"
    by (auto simp del: usable.simps)
  have "perform L w held (OpGet None ''.'' True) (s, c2) = Inl NullDeref"
    by (rule served.ok_null [OF p(2)]) simp_all
  then have "run_pair L w held (prop_loadChildren True (make_Property None)) (s, c2) = Inl NullDeref"
    by (simp add: prop_loadChildren_def on_client_def)
  then show ?thesis using root(1) p(1) assms(3) by (simp add: onCmdList_def run_bindP Let_def)
qed

lemma list_missing_path_crashes_witness:
  "run_pair simple_cum 0 [0] (onCmdList (\<lambda>_. []) NONE 9 [''path'' \<mapsto> ''/x'']) (sample, holding_client) = Inl NullDeref"
proof (rule list_missing_path_crashes [where path = "''/x''" and k = 0])
  show "usable 0 (2 * length (path_names ''/x'') + 2 + 0) (sample, holding_client)"
    by (rule holding_usable) (simp add: sample_paths(2) del: path_names.simps)
  show "resolve sample 0 (path_names ''/x'') = None" unfolding sample_paths(2) by (rule sample_resolve(2))
  show "path_fits (sends simple_cum) ''/x''"
    by (simp add: path_fits_def sample_paths(2) sends_child del: path_names.simps)
qed simp






end
