(* ===== verification/Bystander.thy ===== *)
theory Bystander
  imports PerformTree
begin

text \<open>
  What a client makes of a request of another one: it is told of it by announcements only, takes
  them in without sending anything, and stays as usable as it was.
\<close>

section \<open>What the others are sent\<close>

definition announcement :: "PropertyTreeProtocol \<Rightarrow> bool" where
  "announcement y \<longleftrightarrow> (\<exists>x. y = single notification_id (announce x))"

text \<open>Requests other than calls.\<close>

fun no_call :: "PropertyTreeMessages \<Rightarrow> bool" where
  "no_call (RpcRequest _) = False"
| "no_call (RpcAccept _) = False"
| "no_call (RpcReject _) = False"
| "no_call _ = True"

lemma announcement_I [simp]: "announcement (single notification_id (announce x))"
  by (auto simp: announcement_def)

lemma announced [simp]:
  "announcement (single notification_id (TreeUpdateNotification \<lparr>TreeUpdateNotification_nodeToAddList =
     [\<lparr>NamedNode_name = n, NamedNode_uuid = u, NamedNode_parentUuid = p\<rparr>], TreeUpdateNotification_nodeToDelete = []\<rparr>))"
  "announcement (single notification_id (TreeUpdateNotification \<lparr>TreeUpdateNotification_nodeToAddList = [],
     TreeUpdateNotification_nodeToDelete = [u]\<rparr>))"
  "announcement (single notification_id (UpdateNotification \<lparr>UpdateNotification_uuid = u, UpdateNotification_data = d\<rparr>))"
  using announcement_I [of "Created n u p"] announcement_I [of "Deleted u"] announcement_I [of "Changed u d"] by simp_all

lemma sent_in_handle:
  assumes inv: "proto_inv (Suc k) s" and step: "handle held t q w s = Inr (s', out)" and q: "no_call q"
    and send: "Send d y \<in> set out"
  shows "announcement y \<or> d = w \<and> (\<exists>t m. y = single t m \<and> (\<forall>x. m \<noteq> RpcRequest x))"
proof (cases q)
  case (CreateRequest x)
  with step send show ?thesis
    by (auto simp: handle_CreateRequest_eq Let_def split: option.splits if_splits dest!: broadcast_sends)
next
  case (DeleteRequest x)
  have "tree_inv s" using inv by (simp add: proto_inv_def)
  from step send DeleteRequest show ?thesis
    by (auto simp: handle_DeleteRequest_eq [OF \<open>tree_inv s\<close>] Let_def split: option.splits if_splits dest!: broadcast_sends)
next
  case (SetValueRequest x)
  with step send show ?thesis
    by (auto simp: handle_SetValueRequest_eq [OF inv] split: option.splits if_splits)
next
  case (TreeInfoRequest x)
  with step send show ?thesis
    by (auto simp: handle_TreeInfoRequest_def send_to_def Let_def split: option.splits if_splits)
qed (use step send q in \<open>auto simp: handle_SigninRequest_def handle_GetRequest_def handle_SubscribeRequest_def
    handle_UnsubscribeRequest_def handle_HearbeatRequest_def send_to_def Let_def split: option.splits if_splits\<close>)

section \<open>A client that is told\<close>

lemma sent_messages_append [simp]: "sent_messages (a @ b) = sent_messages a @ sent_messages b"
  by (induction a rule: sent_messages.induct) auto

text \<open>Only calls make a client send something.\<close>

lemma handled_unsent:
  assumes "client_handle L sent (single t m) c = Inr (c', out)" "\<forall>x. m \<noteq> RpcRequest x"
  shows "sent_messages out = []"
proof -
  have add: "sent_messages o1 = []" if "add_node i e = (e', o1)" for i e e' o1
    using that by (auto simp: add_node_def Let_def split: option.splits prod.splits if_splits)
  have adds: "sent_messages o1 = []" if "addNodes is e = (e', o1)" for "is" e e' o1
    using that by (induction "is" arbitrary: e o1) (auto split: prod.splits dest: add)
  have rem: "sent_messages o1 = []" if "remove_node u e = (e', o1)" for u e e' o1
    using that by (auto simp: remove_node_def Let_def split: option.splits prod.splits if_splits)
  have rems: "sent_messages o1 = []" if "removeNodes us e = (e', o1)" for us e e' o1
    using that by (induction us arbitrary: e o1) (auto split: prod.splits dest: rem)
  show ?thesis using assms
    by (cases m) (auto simp: single_def client_handle_message_def client_TreeUpdateNotification_def client_UpdateNotification_def
      Let_def split: option.splits prod.splits if_splits dest: adds rems)
qed

lemma all_unsent:
  assumes "run_steps (client_handle L sent) ms c = Inr (c', out)" "\<forall>y\<in>set ms. \<exists>t m. y = single t m \<and> (\<forall>x. m \<noteq> RpcRequest x)"
  shows "sent_messages out = []"
  using assms
proof (induction ms arbitrary: c out)
  case (Cons y ms)
  then obtain d o1 o2 where "client_handle L sent y c = Inr (d, o1)" "run_steps (client_handle L sent) ms d = Inr (c', o2)"
    "out = o1 @ o2" by auto
  with Cons show ?case using handled_unsent by fastforce
qed simp

text \<open>Announcements always get through, and leave the threads of the client alone.\<close>

lemma announcement_taken:
  assumes "client_inv k c"
  shows "\<exists>c' out. client_handle L sent (single notification_id (announce x)) c = Inr (c', out) \<and> client_inv k c' \<and>
    same_threads c c'"
proof -
  have id: "map_of (c_Transactions c) notification_id = None" using ready_inv [OF assms] by (simp add: client_ready_def)
  obtain c' out where c': "client_visit L sent notification_id (announce x) c = Inr (c', out)" by (cases x; simp) (metis surj_pair)+
  then have "client_handle L sent (single notification_id (announce x)) c = Inr (c', out)"
    using id by (simp add: single_def client_handle_message_def)
  moreover have "tree_wf c" using assms by (simp add: client_inv_def)
  ultimately show ?thesis using client_visit_wf(2) [OF _ c'] client_handle_inv [OF assms] by blast
qed

lemma announcements_taken:
  assumes "client_inv k c" "\<forall>y\<in>set ms. announcement y"
  shows "\<exists>c' out. run_steps (client_handle L sent) ms c = Inr (c', out) \<and> client_inv k c' \<and> same_threads c c'"
  using assms
proof (induction ms arbitrary: c)
  case (Cons y ms)
  then obtain x where y: "y = single notification_id (announce x)" by (auto simp: announcement_def)
  from announcement_taken [OF Cons.prems(1), of L sent x] obtain d o1 where
    d: "client_handle L sent y c = Inr (d, o1)" "client_inv k d" "same_threads c d" unfolding y by blast
  with Cons.IH [OF d(2)] Cons.prems(2) same_threads_trans [OF d(3)] show ?case by fastforce
qed simp

text \<open>The handlers for calls stay on the nodes.\<close>

definition same_handlers :: "Client \<Rightarrow> Client \<Rightarrow> bool" where
  "same_handlers c d \<longleftrightarrow> c_next c \<le> c_next d \<and> (\<forall>r<c_next c. cn_rcpHandler (c_heap d r) = cn_rcpHandler (c_heap c r))"

lemma same_handlers_refl [simp]: "same_handlers c c"
  by (simp add: same_handlers_def)

lemma same_handlers_trans: "same_handlers a b \<Longrightarrow> same_handlers b c \<Longrightarrow> same_handlers a c"
  by (simp add: same_handlers_def)

lemma same_handlers_nodes:
  "add_node i c = (c', out) \<Longrightarrow> same_handlers c c'"
  "remove_node u c = (c', out) \<Longrightarrow> same_handlers c c'"
  by (auto simp: same_handlers_def add_node_def remove_node_def set_child_def make_Node_def Let_def split: option.splits)

lemma same_handlers_visit:
  assumes "client_visit L sent t m c = Inr (c', out)"
  shows "same_handlers c c'"
proof (cases m)
  case (TreeUpdateNotification x)
  then obtain d o1 o2 where d: "addNodes (TreeUpdateNotification_nodeToAddList x) c = (d, o1)"
    "removeNodes (TreeUpdateNotification_nodeToDelete x) d = (c', o2)"
    using assms by (auto simp: client_TreeUpdateNotification_def split: prod.splits)
  have "same_handlers c d"
    by (rule addNodes_keeps [where P = "same_handlers c", OF _ d(1)]) (auto intro: same_handlers_trans same_handlers_nodes)
  moreover have "same_handlers d c'"
    by (rule removeNodes_keeps [where P = "same_handlers d", OF _ d(2)]) (auto intro: same_handlers_trans same_handlers_nodes)
  ultimately show ?thesis by (rule same_handlers_trans)
qed (use assms in \<open>auto simp: client_UpdateNotification_def client_RpcRequest_def store_value_def Let_def same_handlers_def
  split: option.splits\<close>)

lemma same_handlers_handle: "client_handle L sent m c = Inr (c', out) \<Longrightarrow> same_handlers c c'"
  by (rule client_handle_keeps [where P = "same_handlers c"])
    (auto simp: client_handle_message_def same_handlers_def split: option.splits dest!: same_handlers_visit)

lemma same_handlers_handled: "run_steps (client_handle L sent) ms c = Inr (c', out) \<Longrightarrow> same_handlers c c'"
  by (induction ms arbitrary: c out) (auto dest!: same_handlers_handle intro: same_handlers_trans)

section \<open>News taken in\<close>

text \<open>The handles of a client go on referring to the nodes that stay.\<close>

definition stays :: "ProtocolHandler \<Rightarrow> Client \<Rightarrow> Client \<Rightarrow> bool" where
  "stays s c d \<longleftrightarrow> (\<forall>u r. ctree c u = Some r \<longrightarrow> tree s u \<noteq> None \<longrightarrow> ctree d u = Some r)"

lemma changed_handled:
  assumes "\<forall>y\<in>set ms. y = single notification_id (announce (Changed u d))" "map_of (c_Transactions c) notification_id = None"
    and "run_steps (client_handle L sent) ms c = Inr (c', out)"
  shows "c' = (if ms = [] then c else case ctree c u of None \<Rightarrow> c | Some r \<Rightarrow> store_value r d c)"
  using assms
proof (induction ms arbitrary: c out)
  case (Cons y ms)
  obtain e o1 o2 where e: "client_handle L sent y c = Inr (e, o1)" "run_steps (client_handle L sent) ms e = Inr (c', o2)"
    using Cons.prems(3) by auto
  have y: "y = single notification_id (announce (Changed u d))" using Cons.prems(1) by simp
  have e': "e = (case ctree c u of None \<Rightarrow> c | Some r \<Rightarrow> store_value r d c)"
    using e(1) Cons.prems(2) by (auto simp: y single_def client_handle_message_def client_UpdateNotification_def Let_def split: option.splits)
  then have "c' = (if ms = [] then e else case ctree e u of None \<Rightarrow> e | Some r \<Rightarrow> store_value r d e)"
    using Cons.IH [OF _ _ e(2)] Cons.prems(1,2) by (auto simp: store_value_def split: option.splits)
  then show ?case by (auto simp: e' store_value_eq split: option.splits)
qed simp

lemma unknown_deleted:
  assumes "\<forall>y\<in>set ms. y = single notification_id (announce (Deleted u))" "map_of (c_Transactions c) notification_id = None"
    and "ctree c u = None" "run_steps (client_handle L sent) ms c = Inr (c', out)"
  shows "c' = c"
  using assms
proof (induction ms arbitrary: out)
  case (Cons y ms)
  have "client_handle L sent y c = Inr (c, [])"
    using Cons.prems(1-3) by (simp add: single_def client_handle_message_def client_TreeUpdateNotification_def remove_node_def)
  with Cons show ?case by auto
qed simp

text \<open>A node that is gone had no children.\<close>

lemma deleted_leaf:
  assumes "tree_inv s" "tree_inv s'" "sview s' = (sview s)(u := None)"
  shows "u \<noteq> 0" "sview s x \<noteq> Some (m, Some u)"
proof -
  have gone: "tree s' u = None" using assms(3) by (metis fun_upd_same sview_None)
  with assms(2) show "u \<noteq> 0" by (metis option.distinct(1) tree_root)
  show "sview s x \<noteq> Some (m, Some u)"
  proof
    assume x: "sview s x = Some (m, Some u)"
    show False
    proof (cases "x = u")
      case True
      with x have "child_uuid s u m = Some u" using child_uuid_view [OF assms(1)] by simp
      then obtain p e where p: "tree s u = Some p" "child s p m = Some e" "node_uuid (heap s e) = u"
        by (auto simp: child_uuid_def split: option.splits)
      from tree_childE [OF assms(1) p(1,2)] obtain v where "tree s v = Some e" "unat u < unat v" by metis
      with p(3) tree_nodeD(3) [OF assms(1), of v e] show False by simp
    next
      case False
      with x have "sview s' x = Some (m, Some u)" by (simp add: assms(3))
      then have "child_uuid s' u m = Some x" using child_uuid_view [OF assms(2)] by simp
      with gone show False by (simp add: child_uuid_def)
    qed
  qed
qed

lemma news_taken:
  assumes use: "usable v k (s, c)" and tr': "tree_inv s'"
    and x: "timely x (sview s)" "sview s' = new_view x (sview s)"
    and box: "\<forall>y\<in>set ms. y = single notification_id (announce x)" "ms = [] \<Longrightarrow> sview s' = sview s"
    and par: "\<And>n u p. x = Created n u p \<Longrightarrow> ctree c p \<noteq> None"
    and run: "run_steps (client_handle L sent) ms c = Inr (c', out)"
  shows "links_ok c' \<and> knows c' s' \<and> stays s' c c' \<and>
    (\<forall>w. ctree c w \<noteq> None \<longrightarrow> tree s' w \<noteq> None \<longrightarrow> (\<forall>d. x = Changed w d \<longrightarrow> ms = []) \<longrightarrow> cvalue c' w = cvalue c w) \<and>
    (\<forall>w d. ctree c w \<noteq> None \<longrightarrow> x = Changed w d \<longrightarrow> ms \<noteq> [] \<longrightarrow> cvalue c' w = Some d)"
proof -
  have tr: "tree_inv s" and links: "links_ok c" and know: "knows c s" and wf: "tree_wf c" and inv: "client_inv k c"
    using use usable_wf [OF use] by simp_all
  have ready: "client_ready c" using ready_inv [OF inv] .
  then have id: "map_of (c_Transactions c) notification_id = None" by (simp add: client_ready_def)
  show ?thesis
  proof (cases "ms = []")
    case True
    with run box(2) links know show ?thesis by (simp add: stays_def)
  next
    case some: False
    show ?thesis
    proof (cases x)
      case (Created n u p)
      from par [OF Created] obtain q where q: "ctree c p = Some q" by blast
      have sv: "sview s' = (sview s)(u \<mapsto> (n, Some p))" and fresh: "sview s u = None" using x Created by simp_all
      have "sview s \<subseteq>\<^sub>m sview s'" using fresh by (auto simp: sv map_le_def simp del: sview_None)
      then have le: "cview c \<subseteq>\<^sub>m sview s'" using know map_le_trans by blast
      have "sview s' u = Some (n, Some p)" by (simp add: sv)
      from created_handled [OF ready q links le sview_siblings [OF tr'] this _ run] box(1) Created
      have A: "links_ok c'" "knows c' s'" "grows c c'" by auto
      then have "stays s' c c'" by (auto simp: stays_def dest: growsD)
      with A Created show ?thesis by (simp add: grows_def)
    next
      case (Deleted u)
      have sv: "sview s' = (sview s)(u := None)" using x Deleted by simp
      note leaf = deleted_leaf [OF tr tr' sv]
      have no: "cview c y \<noteq> Some (m, Some u)" for y m
      proof
        assume "cview c y = Some (m, Some u)"
        with knowsD [OF know, of y] leaf(2) [of y m] show False by simp
      qed
      show ?thesis
      proof (cases "ctree c u")
        case None
        from unknown_deleted [OF _ id None run] box(1) Deleted have "c' = c" by simp
        moreover have "knows c s'" using know None by (auto simp: sv map_le_def simp flip: cview_None)
        ultimately show ?thesis using links Deleted by (simp add: stays_def)
      next
        case (Some r)
        from usable_parent [OF use Some leaf(1)] obtain p q n where q: "ctree c p = Some q" "linked c q n r" .
        have live: "c_live c q" using tree_live [OF wf q(1)] by simp
        have "cn_parent (c_heap c r) = Some q" using q(2) by (simp add: linked_def)
        from deleted_handled [OF id Some this live _ some wf links no run] box(1) Deleted
        have pr: "pruned u q (cn_name (c_heap c r)) c c'" and l: "links_ok c'" by simp_all
        have val: "cvalue c' = (cvalue c)(u := None)" using pruned_views(2) [OF pr] .
        have "knows c' s'" using know pruned_views(1) [OF pr] by (auto simp: sv map_le_def)
        moreover have "tree s' u = None" using sv by (metis fun_upd_same sview_None)
        ultimately show ?thesis using l pruned_tree [OF pr] val Deleted by (auto simp: stays_def)
      qed
    next
      case (Changed u d)
      have c': "c' = (case ctree c u of None \<Rightarrow> c | Some r \<Rightarrow> store_value r d c)"
        using changed_handled [OF _ id run] box(1) Changed some by simp
      then have same: "same_nodes c c'" by (simp add: same_nodes_def store_value_eq split: option.split)
      have "cvalue c' = (if ctree c u = None then cvalue c else (cvalue c)(u \<mapsto> d))"
        using c' store_value_value [OF wf] by (auto split: option.splits)
      moreover have "sview s' = sview s" using x Changed by simp
      with same_nodes_view [OF same] know have "knows c' s'" by simp
      ultimately show ?thesis using same_nodes_links [OF same links] same Changed some by (auto simp: stays_def same_nodes_def)
    qed
  qed
qed

section \<open>Somebody else's request\<close>

text \<open>Changes of a value are announced when it is set, to subscribers.\<close>

lemma sent_changed:
  assumes inv: "proto_inv (Suc k) s" and step: "handle held t q w s = Inr (s', out)" and q: "no_call q"
    and send: "Send d (single notification_id (announce (Changed u x))) \<in> set out"
  shows "q = ask_set u x \<and> (\<forall>a. abs_tree s u = Some a \<longrightarrow> a_subscribers a \<noteq> {})"
proof (cases q)
  case (CreateRequest y)
  with step send show ?thesis
    by (auto simp: handle_CreateRequest_eq Let_def split: option.splits if_splits dest!: broadcast_sends)
next
  case (DeleteRequest y)
  have "tree_inv s" using inv by (simp add: proto_inv_def)
  from step send DeleteRequest show ?thesis
    by (auto simp: handle_DeleteRequest_eq [OF \<open>tree_inv s\<close>] Let_def split: option.splits if_splits dest!: broadcast_sends)
next
  case (SetValueRequest y)
  have tr: "tree_inv s" using inv by (simp add: proto_inv_def)
  from step send SetValueRequest obtain r where r: "tree s (SetValueRequest_uuid y) = Some r" "d \<in> set (subscribers (w # held) s r)"
    "u = node_uuid (heap s r)" "x = SetValueRequest_data y"
    by (auto simp: handle_SetValueRequest_eq [OF inv] split: option.splits if_splits)
  moreover have "u = SetValueRequest_uuid y" using r(3) tree_nodeD(3) [OF tr r(1)] by simp
  moreover have "node_listener (heap s r) \<noteq> []" using r(2) by (auto simp: subscribers_def)
  ultimately show ?thesis using SetValueRequest
    by (cases y) (auto simp: abs_tree_Some abs_node_def)
next
  case (TreeInfoRequest y)
  with step send show ?thesis
    by (auto simp: handle_TreeInfoRequest_def send_to_def Let_def split: option.splits if_splits)
qed (use step send q in \<open>auto simp: handle_SigninRequest_def handle_GetRequest_def handle_SubscribeRequest_def
    handle_UnsubscribeRequest_def handle_HearbeatRequest_def send_to_def Let_def split: option.splits if_splits\<close>)

lemma node_stays:
  assumes "proto_inv (Suc k) s" "handle held t q w s = Inr (s', out)" "tree s u \<noteq> None" "q \<noteq> ask_delete u"
  shows "tree s' u \<noteq> None"
proof -
  have "abs_tree s u \<noteq> None" using assms(3) by simp
  then have "abs_tree s' u \<noteq> None" unfolding handle_abs [OF assms(1,2)] using assms(4)
    by (cases q) (auto simp del: abs_tree_None split: option.splits if_splits)
  then show ?thesis by simp
qed

text \<open>
  What a request \<open>q\<close> of somebody else does to a client: it keeps its handles, its handlers and its open
  transactions, and its values unless it has subscribed to the one that is set.
\<close>

definition bystands :: "conn \<Rightarrow> PropertyTreeMessages \<Rightarrow> ProtocolHandler \<Rightarrow> ProtocolHandler \<Rightarrow> Client \<Rightarrow> Client \<Rightarrow> bool" where
  "bystands v q s s' c c' \<longleftrightarrow> steady c c' \<and> stays s' c c' \<and> same_handlers c c' \<and> same_threads c c' \<and>
     session_of s' v = session_of s v \<and> (\<forall>u. tree s u \<noteq> None \<longrightarrow> q \<noteq> ask_delete u \<longrightarrow> tree s' u \<noteq> None) \<and>
     (\<forall>u. ctree c u \<noteq> None \<longrightarrow> tree s' u \<noteq> None \<longrightarrow>
       (\<forall>d. q = ask_set u d \<longrightarrow> (\<exists>a. abs_tree s u = Some a \<and> a_subscribers a = {})) \<longrightarrow> cvalue c' u = cvalue c u) \<and>
     (\<forall>u d i. ctree c u \<noteq> None \<longrightarrow> q = ask_set u d \<longrightarrow> \<not> (u = 0 \<and> terminate_value d) \<longrightarrow> session_of s v = Some i \<longrightarrow>
       subscribed u i s \<longrightarrow> cvalue c' u = Some d)"

text \<open>
  Another client's request: it takes in what it is told, sends nothing, and stays usable. The parent of a
  node that is created has to be known to it.
\<close>

lemma overheard:
  assumes use: "usable v (Suc k) (s, c)" and step: "handle held t q w s = Inr (s', out)" and vw: "v \<noteq> w" and q: "no_call q"
    and par: "\<And>u n p. sview s u = None \<Longrightarrow> sview s' u = Some (n, Some p) \<Longrightarrow> ctree c p \<noteq> None"
  shows "\<exists>c' out'. run_steps (client_handle L sent) (inbox v out) c = Inr (c', out') \<and> sent_messages out' = [] \<and>
    usable v k (s', c') \<and> bystands v q s s' c c'"
proof -
  have inv: "client_inv (Suc k) c" "proto_inv (Suc k) s" and con: "c_constructed c" "map_of (c_waiting c) 0 = None"
    and tr: "tree_inv s" and root: "ctree c 0 \<noteq> None" using use usable_wf [OF use] by simp_all
  obtain i where i: "session_of s v = Some i" using use by auto
  then have si: "signed_in v i s" by (simp add: signed_in_def)
  have inv': "proto_inv k s'" using inv_handle [OF inv(2) step] .
  then have tr': "tree_inv s'" by (simp add: proto_inv_def)
  have i': "session_of s' v = Some i" using signed_in_handle [OF tr step si] by (simp add: signed_in_def)
  let ?ms = "inbox v out"
  have ann: "announcement y" if "y \<in> set ?ms" for y
    using sent_in_handle [OF inv(2) step q, of v y] that vw by (auto simp: set_inbox)
  from announcements_taken [OF inv(1), of ?ms L sent] ann obtain c' out' where
    run: "run_steps (client_handle L sent) ?ms c = Inr (c', out')" and c': "client_inv (Suc k) c'" "same_threads c c'" by blast
  have quiet: "sent_messages out' = []"
    by (rule all_unsent [OF run]) (metis announcement_def PropertyTreeMessages.distinct ann announce.elims)
  obtain news where news: "tells v news out" "case news of None \<Rightarrow> nothing_new s s' | Some x \<Rightarrow> happened v i x s s' out"
    using handle_news [OF inv(2) si step] by blast
  have not_plain: "\<not> plain y" if "announcement y" for y
  proof -
    from that obtain x where "y = single notification_id (announce x)" by (auto simp: announcement_def)
    then show ?thesis by (cases x) simp_all
  qed
  have box: "\<forall>y\<in>set ?ms. \<exists>x. news = Some x \<and> y = single notification_id (announce x)"
    using news(1) ann not_plain by (fastforce simp: tells_def set_inbox)
  have all: "links_ok c' \<and> knows c' s' \<and> stays s' c c' \<and>
    (\<forall>w. ctree c w \<noteq> None \<longrightarrow> tree s' w \<noteq> None \<longrightarrow> (\<forall>d. news = Some (Changed w d) \<longrightarrow> ?ms = []) \<longrightarrow> cvalue c' w = cvalue c w) \<and>
    (\<forall>w d. ctree c w \<noteq> None \<longrightarrow> news = Some (Changed w d) \<longrightarrow> ?ms \<noteq> [] \<longrightarrow> cvalue c' w = Some d)"
  proof (cases news)
    case None
    then have "?ms = []" using box by (cases ?ms) auto
    with run None news(2) use show ?thesis by (simp add: stays_def nothing_new_def)
  next
    case (Some x)
    then have h: "timely x (sview s)" "sview s' = new_view x (sview s)"
      "concerns x i s \<Longrightarrow> Send v (single notification_id (announce x)) \<in> set out" using news(2) by (simp_all add: happened_def)
    have "sview s' = sview s" if "?ms = []"
    proof -
      have "\<not> concerns x i s" using h(3) that by (metis empty_iff empty_set mem_Collect_eq set_inbox)
      with h(2) show ?thesis by (cases x) simp_all
    qed
    moreover have "ctree c p \<noteq> None" if "x = Created n u p" for n u p
      using par [of u n p] h(1,2) that by simp
    ultimately show ?thesis using news_taken [OF use tr' h(1,2) _ _ _ run] box Some by simp
  qed
  have "usable v k (s', c')"
    using all inv' c' con root client_inv_mono [OF c'(1), of k] i' steady_handled [OF run] usable_root [OF use] tr'
    by (auto simp: same_threads_def steady_def stays_def elim: tree_root)
  moreover have "cvalue c' u = cvalue c u" if "ctree c u \<noteq> None" "tree s' u \<noteq> None"
    "\<forall>d. q = ask_set u d \<longrightarrow> (\<exists>a. abs_tree s u = Some a \<and> a_subscribers a = {})" for u
  proof -
    note asm = that
    have "?ms = []" if "news = Some (Changed u d)" for d
    proof (rule ccontr)
      assume "?ms \<noteq> []"
      then obtain y where "y \<in> set ?ms" by (cases ?ms) auto
      with box that have "Send v (single notification_id (announce (Changed u d))) \<in> set out"
        unfolding set_inbox by (fastforce simp del: announce.simps)
      with sent_changed [OF inv(2) step q] asm(3) show False by blast
    qed
    with all asm(1,2) show ?thesis by blast
  qed
  moreover have "cvalue c' u = Some d" if "ctree c u \<noteq> None" "q = ask_set u d" "\<not> (u = 0 \<and> terminate_value d)"
    "session_of s v = Some j" "subscribed u j s" for u d j
  proof -
    from that(1) obtain r where r: "tree s u = Some r" using usable_node [OF use] by blast
    have "Send v (single notification_id (announce (Changed u d))) \<in> set out"
      using step r that subscriber_listed [OF inv(2) r, of v j "w # held"] tree_nodeD(3) [OF tr r]
      by (auto simp: handle_SetValueRequest_eq [OF inv(2)] signed_in_def)
    then have m: "single notification_id (announce (Changed u d)) \<in> set ?ms" by (simp add: set_inbox)
    with box obtain x where "news = Some x" "announce x = announce (Changed u d)" by (fastforce simp: single_def)
    then have "news = Some (Changed u d)" by (cases x) simp_all
    with all that(1) m show ?thesis by (metis empty_iff empty_set)
  qed
  ultimately have "bystands v q s s' c c'"
    unfolding bystands_def using all c'(2) node_stays [OF inv(2) step] i i' steady_handled [OF run] same_handlers_handled [OF run] by simp
  with run quiet \<open>usable v k (s', c')\<close> show ?thesis by blast
qed

end
