(* ===== verification/World.thy ===== *)
theory World
  imports Bystander Operations
begin

text \<open>
  A server and several clients of it. An operation of one client is what it is for a single client
  (theory Perform), but all clients handle what the server sends them; a call is answered by the
  client that owns the node, so that the server handles a second message. Operations of different
  clients follow one another.
\<close>

section \<open>The world\<close>

record World =
  w_server :: ProtocolHandler
  w_clients :: "(conn \<times> Client) list"

definition conns :: "World \<Rightarrow> conn list" where
  "conns W = map fst (w_clients W)"

definition client_at :: "conn \<Rightarrow> World \<Rightarrow> Client" where
  "client_at w W = (case map_of (w_clients W) w of None \<Rightarrow> init_Client [] | Some c \<Rightarrow> c)"

definition put_client :: "conn \<Rightarrow> Client \<Rightarrow> World \<Rightarrow> World" where
  "put_client w c W = W\<lparr>w_clients := um_assign w c (w_clients W)\<rparr>"

text \<open>Every client handles what it has been sent; the result has the messages they send.\<close>

fun deliver :: "cum \<Rightarrow> action list \<Rightarrow> (conn \<times> Client) list \<Rightarrow>
    fault + ((conn \<times> Client) list \<times> (conn \<times> PropertyTreeProtocol) list)" where
  "deliver L out [] = Inr ([], [])"
| "deliver L out ((w, c) # cs) =
     bindR (run_steps (client_handle L True) (inbox w out) c) (\<lambda>(c, o1).
     bindR (deliver L out cs) (\<lambda>(cs, ms). Inr ((w, c) # cs, map (Pair w) (sent_messages o1) @ ms)))"

text \<open>The server handles messages until none are left, or as many as the first argument allows.\<close>

fun serve_all :: "cum \<Rightarrow> nat \<Rightarrow> (conn \<times> PropertyTreeProtocol) list \<Rightarrow> World \<Rightarrow> fault + World" where
  "serve_all L n [] W = Inr W"
| "serve_all L 0 (q # qs) W = Inl Diverges"
| "serve_all L (Suc n) ((w, m) # qs) W =
     bindR (onMsg (conns W) m w (w_server W)) (\<lambda>(s, out).
     bindR (deliver L out (w_clients W)) (\<lambda>(cs, ms).
       serve_all L n (qs @ ms) \<lparr>w_server = s, w_clients = cs\<rparr>))"

text \<open>Two messages are enough: the request, and the answer of the client a call is forwarded to.\<close>

definition world_perform :: "cum \<Rightarrow> conn \<Rightarrow> Op \<Rightarrow> World \<Rightarrow> fault + (World \<times> result)" where
  "world_perform L w op W =
     bindR (client_step L (Start 0 op True) (client_at w W)) (\<lambda>(c, out).
     bindR (serve_all L 2 (map (Pair w) (sent_messages out)) (put_client w c W)) (\<lambda>W.
     bindR (run_steps (client_step L) [Resume 0, Timeout 0] (client_at w W)) (\<lambda>(c, out').
     case return_of 0 (out @ out') of None \<Rightarrow> Inl Diverges | Some v \<Rightarrow> Inr (put_client w c W, v))))"

text \<open>A program of one of the clients.\<close>

abbreviation run_client :: "cum \<Rightarrow> conn \<Rightarrow> 'a prog \<Rightarrow> World \<Rightarrow> fault + (World \<times> 'a)" where
  "run_client L w \<equiv> run_prog (client_at w) (put_client w) (world_perform L w)"

text \<open>A client is constructed on a new connection, or goes away.\<close>

definition connect :: "cum \<Rightarrow> conn \<Rightarrow> u8 list \<Rightarrow> World \<Rightarrow> fault + (World \<times> result)" where
  "connect L w junk W = world_perform L w OpSignin (put_client w (init_Client junk) W)"

definition leave :: "conn \<Rightarrow> World \<Rightarrow> fault + World" where
  "leave w W = bindR (onDisconnect w (w_server W)) (\<lambda>s.
     Inr \<lparr>w_server = s, w_clients = um_erase w (w_clients W)\<rparr>)"

section \<open>Access\<close>

lemma client_put [simp]: "client_at w (put_client v c W) = (if w = v then c else client_at w W)"
  by (simp add: client_at_def put_client_def map_of_um_assign)

lemma server_put [simp]: "w_server (put_client w c W) = w_server W"
  by (simp add: put_client_def)

lemma in_conns: "w \<in> set (conns W) \<longleftrightarrow> map_of (w_clients W) w = Some (client_at w W)"
  using map_of_eq_None_iff [of "w_clients W" w] by (auto simp: conns_def client_at_def split: option.splits)

lemma um_assign_fst: "map fst (um_assign k v m) = (if k \<in> set (map fst m) then map fst m else map fst m @ [k])"
  by (induction k v m rule: um_assign.induct) auto

lemma conns_put: "w \<in> set (conns W) \<Longrightarrow> conns (put_client w c W) = conns W"
  "w \<notin> set (conns W) \<Longrightarrow> conns (put_client w c W) = conns W @ [w]"
  by (simp_all add: conns_def put_client_def um_assign_fst)

text \<open>Delivery, client by client.\<close>

lemma deliver_all:
  assumes "\<And>v c. (v, c) \<in> set cs \<Longrightarrow> \<exists>c' out'. run_steps (client_handle L True) (inbox v out) c = Inr (c', out') \<and>
      sent_messages out' = S v \<and> P v c c'"
  shows "\<exists>cs'. deliver L out cs = Inr (cs', concat (map (\<lambda>(v, c). map (Pair v) (S v)) cs)) \<and> map fst cs' = map fst cs \<and>
    (\<forall>v c. map_of cs v = Some c \<longrightarrow> (\<exists>c'. map_of cs' v = Some c' \<and> P v c c'))"
  using assms
proof (induction cs)
  case (Cons e cs)
  obtain v c where e: "e = (v, c)" by fastforce
  from Cons.prems [of v c] e obtain c' o1 where c': "run_steps (client_handle L True) (inbox v out) c = Inr (c', o1)"
    "sent_messages o1 = S v" "P v c c'" by auto
  from Cons.IH Cons.prems obtain cs' where "deliver L out cs = Inr (cs', concat (map (\<lambda>(v, c). map (Pair v) (S v)) cs))"
    "map fst cs' = map fst cs" "\<forall>v c. map_of cs v = Some c \<longrightarrow> (\<exists>c'. map_of cs' v = Some c' \<and> P v c c')" by auto
  with c' e show ?case by (intro exI [of _ "(v, c') # cs'"]) simp
qed simp

lemma client_entry:
  assumes "distinct (conns W)" "(v, c) \<in> set (w_clients W)"
  shows "c = client_at v W" "v \<in> set (conns W)"
proof -
  have "map_of (w_clients W) v = Some c" using assms by (simp add: conns_def)
  then show "c = client_at v W" "v \<in> set (conns W)" unfolding in_conns by (simp_all add: client_at_def)
qed

text \<open>The server handles one message: what each client makes of what it is sent (\<open>P\<close>), and sends (\<open>S\<close>).\<close>

lemma serve_one:
  assumes dis: "distinct (conns W)" and step: "onMsg (conns W) m w (w_server W) = Inr (s', out)"
    and each: "\<And>v. v \<in> set (conns W) \<Longrightarrow> \<exists>c' o1. run_steps (client_handle L True) (inbox v out) (client_at v W) = Inr (c', o1) \<and>
      sent_messages o1 = S v \<and> P v c'"
  shows "\<exists>V. serve_all L (Suc n) ((w, m) # qs) W = serve_all L n (qs @ concat (map (\<lambda>v. map (Pair v) (S v)) (conns W))) V \<and>
    w_server V = s' \<and> conns V = conns W \<and> (\<forall>v\<in>set (conns W). P v (client_at v V))"
proof -
  have "\<exists>c' o1. run_steps (client_handle L True) (inbox v out) c = Inr (c', o1) \<and> sent_messages o1 = S v \<and> P v c'"
    if "(v, c) \<in> set (w_clients W)" for v c
    using each client_entry [OF dis that] by blast
  from deliver_all [of "w_clients W" L out S "\<lambda>v c d. P v d", OF this] obtain cs' where
    cs': "deliver L out (w_clients W) = Inr (cs', concat (map (\<lambda>(v, c). map (Pair v) (S v)) (w_clients W)))"
    "map fst cs' = map fst (w_clients W)" "\<forall>v c. map_of (w_clients W) v = Some c \<longrightarrow> (\<exists>c'. map_of cs' v = Some c' \<and> P v c')" by blast
  let ?V = "\<lparr>w_server = s', w_clients = cs'\<rparr>"
  have "P v (client_at v ?V)" if "v \<in> set (conns W)" for v
  proof -
    from that have "map_of (w_clients W) v = Some (client_at v W)" unfolding in_conns .
    with cs'(3) obtain c' where "map_of cs' v = Some c'" "P v c'" by blast
    then show ?thesis by (simp add: client_at_def)
  qed
  moreover have "map (\<lambda>(v, c). map (Pair v) (S v)) (w_clients W) = map (\<lambda>v. map (Pair v) (S v)) (conns W)"
    by (simp add: conns_def split_beta)
  then have "serve_all L (Suc n) ((w, m) # qs) W = serve_all L n (qs @ concat (map (\<lambda>v. map (Pair v) (S v)) (conns W))) ?V"
    using step cs'(1) by simp
  ultimately show ?thesis using cs'(2) by (intro exI [of _ ?V]) (simp add: conns_def)
qed

lemma serve_last:
  assumes dis: "distinct (conns W)" and step: "onMsg (conns W) m w (w_server W) = Inr (s', out)"
    and each: "\<And>v. v \<in> set (conns W) \<Longrightarrow> \<exists>c' o1. run_steps (client_handle L True) (inbox v out) (client_at v W) = Inr (c', o1) \<and>
      sent_messages o1 = [] \<and> P v c'"
  shows "\<exists>V. serve_all L (Suc n) [(w, m)] W = Inr V \<and> w_server V = s' \<and> conns V = conns W \<and>
    (\<forall>v\<in>set (conns W). P v (client_at v V))"
proof -
  let ?S = "\<lambda>_. [] :: PropertyTreeProtocol list"
  have nil: "concat (map (\<lambda>v. map (Pair v) (?S v)) (conns W)) = []" by (induction "conns W") simp_all
  from serve_one [where S = ?S and P = P and n = n and qs = "[]", OF dis step each] obtain V where
    "serve_all L (Suc n) [(w, m)] W = serve_all L n [] V" "w_server V = s'" "conns V = conns W"
    "\<forall>v\<in>set (conns W). P v (client_at v V)" unfolding nil append_Nil by blast
  moreover have "serve_all L n [] V = Inr V" by (cases n) simp_all
  ultimately show ?thesis by (intro exI [of _ V]) simp
qed

text \<open>Who is there does not change.\<close>

lemma deliver_fst: "deliver L out cs = Inr (cs', ms) \<Longrightarrow> map fst cs' = map fst cs"
  by (induction L out cs arbitrary: cs' ms rule: deliver.induct) auto

lemma serve_all_conns: "serve_all L n qs W = Inr V \<Longrightarrow> conns V = conns W"
proof (induction n arbitrary: qs W)
  case 0
  then show ?case by (cases qs) auto
next
  case (Suc n)
  show ?case
  proof (cases qs)
    case (Cons q qs')
    obtain w m where q: "q = (w, m)" by fastforce
    with Suc.prems Cons obtain s out cs ms where "deliver L out (w_clients W) = Inr (cs, ms)"
      "serve_all L n (qs' @ ms) \<lparr>w_server = s, w_clients = cs\<rparr> = Inr V" by auto
    with Suc.IH deliver_fst show ?thesis by (fastforce simp: conns_def)
  qed (use Suc.prems in simp)
qed

lemma world_perform_conns:
  assumes "w \<in> set (conns W)" "world_perform L w op W = Inr (V, v)"
  shows "conns V = conns W"
proof -
  from assms(2) obtain c out U e where U: "serve_all L 2 (map (Pair w) (sent_messages out)) (put_client w c W) = Inr U"
    "V = put_client w e U"
    by (auto simp: world_perform_def simp del: client_step.simps run_steps.simps split: option.splits)
  with serve_all_conns [OF U(1)] assms(1) conns_put(1) show ?thesis by simp
qed

lemma run_client_conns: "run_client L w p W = Inr (V, a) \<Longrightarrow> w \<in> set (conns W) \<Longrightarrow> conns V = conns W"
proof (induction p arbitrary: W)
  case (Change h p)
  with conns_put(1) [OF Change.prems(2)] show ?case by simp
next
  case (Invoke op k)
  then obtain U v where "world_perform L w op W = Inr (U, v)" "run_client L w (k v) U = Inr (V, a)" by auto
  with Invoke.IH [OF rangeI, of v U] world_perform_conns [OF Invoke.prems(2)] Invoke.prems(2) show ?case by simp
qed auto

section \<open>The parts of an operation\<close>

lemma start_sent:
  assumes "client_step L (Start t op True) c = Inr (c', out)"
  shows "sent_messages out = [] \<or> (\<exists>i q bs. op_request op c = Inr (Ask q) \<and> out = [Sent (single i q) bs])"
proof (cases "may_start t op c")
  case True
  with assms obtain q where q: "op_request op c = Inr q" by (auto simp: start_def)
  show ?thesis
  proof (cases q)
    case (Ask m)
    obtain i ctr where i: "next_id (c_TransactioIdCtr c) = (i, ctr)" by fastforce
    show ?thesis
    proof (cases "client_send L True (single i m)")
      case (Inl f)
      with True assms q Ask i show ?thesis by (cases f) (auto simp: start_def addTransaction_def)
    qed (use True assms q Ask i in \<open>auto simp: start_def addTransaction_def\<close>)
  qed (use True assms q in \<open>auto simp: start_def\<close>)
qed (use assms in simp)

abbreviation wait_end :: "cum \<Rightarrow> Client \<Rightarrow> fault + (Client \<times> client_action list)" where
  "wait_end L \<equiv> run_steps (client_step L) [Resume 0, Timeout 0]"

lemma local_end: "run_steps (pair_step L True w) [Local (Resume 0), Local (Timeout 0)] (s, c) =
    bindR (wait_end L c) (\<lambda>(c, out). Inr ((s, c), out))"
proof (cases "client_step L (Resume 0) c")
  case (Inr x)
  then show ?thesis by (cases x, cases "client_step L (Timeout 0) (fst x)") (auto simp del: client_step.simps)
qed (simp del: client_step.simps)

lemma perform_cases:
  assumes "perform L w held op (s, c) = Inr ((s', c'), v)"
  obtains (early) c1 o1 o3 where "client_step L (Start 0 op True) c = Inr (c1, o1)" "sent_messages o1 = []" "s' = s"
      "wait_end L c1 = Inr (c', o3)" "return_of 0 (o1 @ o3) = Some v"
    | (asked) i q bs c1 c2 out o2 o3 where "op_request op c = Inr (Ask q)"
      "client_step L (Start 0 op True) c = Inr (c1, [Sent (single i q) bs])" "handle held i q w s = Inr (s', out)"
      "run_steps (client_handle L True) (inbox w out) c1 = Inr (c2, o2)" "wait_end L c2 = Inr (c', o3)"
      "return_of 0 o3 = Some v"
proof -
  obtain c1 o1 where c1: "client_step L (Start 0 op True) c = Inr (c1, o1)"
    using assms by (auto simp: perform_def simp del: client_step.simps)
  from start_sent [OF c1] show thesis
  proof
    assume o1: "sent_messages o1 = []"
    with assms c1 obtain o3 where "wait_end L c1 = Inr (c', o3)" "s' = s" "return_of 0 (o1 @ o3) = Some v"
      by (auto simp: perform_def local_end simp del: client_step.simps run_steps.simps split: option.splits)
    with c1 o1 show thesis by (intro early)
  next
    assume "\<exists>i q bs. op_request op c = Inr (Ask q) \<and> o1 = [Sent (single i q) bs]"
    then obtain i q bs where q: "op_request op c = Inr (Ask q)" "o1 = [Sent (single i q) bs]" by blast
    have single: "sent_messages o1 = [single i q]" by (simp add: q)
    let ?e = "Serve (Message held (single i q) w)"
    have run: "run_steps (pair_step L True w) (map (\<lambda>m. Serve (Message held m w)) [single i q] @ [Local (Resume 0), Local (Timeout 0)]) (s, c1) =
      bindR (pair_step L True w ?e (s, c1)) (\<lambda>((s, c), o2). bindR (wait_end L c) (\<lambda>(c, o3). Inr ((s, c), o2 @ o3)))"
    proof (cases "pair_step L True w ?e (s, c1)")
      case (Inr x)
      obtain s2 c2 o2 where x: "x = ((s2, c2), o2)" by (metis prod_cases3 surj_pair)
      show ?thesis using local_end [of L w s2 c2] Inr x
        by (cases "wait_end L c2") (auto simp del: pair_step.simps client_step.simps)
    qed (simp del: pair_step.simps)
    have "pair_step L True w (Local (Start 0 op True)) (s, c) = Inr ((s, c1), o1)" using c1 by (simp del: client_step.simps)
    with assms single run obtain s2 c2 o2 o3 where
      steps: "pair_step L True w ?e (s, c1) = Inr ((s2, c2), o2)" "wait_end L c2 = Inr (c', o3)" "s' = s2"
      "return_of 0 (o1 @ o2 @ o3) = Some v"
      by (auto simp: perform_def simp del: client_step.simps run_steps.simps pair_step.simps split: option.splits)
    have "return_of 0 o3 = Some v"
      using steps(4) return_of_silent [OF pair_serve_silent [OF steps(1)]] by (simp add: q(2))
    moreover obtain out where "handle held i q w s = Inr (s2, out)" "run_steps (client_handle L True) (inbox w out) c1 = Inr (c2, o2)"
      using steps(1) by (auto simp: single_def onMsg_message_def)
    ultimately show thesis using asked q c1 steps(2,3) by blast
  qed
qed

section \<open>Clients without open transactions\<close>

abbreviation idle :: "Client \<Rightarrow> bool" where
  "idle c \<equiv> c_Transactions c = []"

text \<open>What arrives can satisfy transactions, but not begin or end any.\<close>

definition same_ids :: "Client \<Rightarrow> Client \<Rightarrow> bool" where
  "same_ids c d \<longleftrightarrow> map fst (c_Transactions d) = map fst (c_Transactions c) \<and> c_waiting d = c_waiting c"

lemma same_ids_threads: "same_threads c d \<Longrightarrow> same_ids c d"
  by (simp add: same_ids_def same_threads_def)

lemma same_ids_trans: "same_ids a b \<Longrightarrow> same_ids b c \<Longrightarrow> same_ids a c"
  by (simp add: same_ids_def)

lemma same_ids_message:
  assumes "client_handle_message L sent m c = Inr (c', out)"
  shows "same_ids c c'"
proof (cases "map_of (c_Transactions c) (transactionId m)")
  case None
  show ?thesis
  proof (cases "message m")
    case (TreeUpdateNotification x)
    then obtain d o1 o2 where d: "addNodes (TreeUpdateNotification_nodeToAddList x) c = (d, o1)"
      "removeNodes (TreeUpdateNotification_nodeToDelete x) d = (c', o2)"
      using assms None by (auto simp: client_handle_message_def client_TreeUpdateNotification_def split: prod.splits)
    show ?thesis
      using same_threads_trans [OF same_threads_addNodes [OF d(1)] same_threads_removeNodes [OF d(2)]] by (rule same_ids_threads)
  qed (use assms None in \<open>auto simp: client_handle_message_def client_UpdateNotification_def client_RpcRequest_def store_value_def
      Let_def same_ids_def split: option.splits\<close>)
next
  case (Some x)
  have "transactionId m \<in> set (map fst (c_Transactions c))" using map_of_SomeD [OF Some] by force
  with assms Some show ?thesis by (auto simp: client_handle_message_def same_ids_def um_assign_fst simp del: set_map)
qed

lemma same_ids_handled: "run_steps (client_handle L sent) ms c = Inr (c', out) \<Longrightarrow> same_ids c c'"
proof (induction ms arbitrary: c out)
  case (Cons m ms)
  then obtain d o1 o2 where d: "client_handle L sent m c = Inr (d, o1)" "run_steps (client_handle L sent) ms d = Inr (c', o2)"
    by auto
  have "same_ids c d"
  proof (rule client_handle_keeps [where P = "same_ids c", OF _ d(1)])
    show "same_ids c c" by (simp add: same_ids_def)
  qed (auto intro: same_ids_trans same_ids_message)
  with Cons.IH [OF d(2)] show ?case by (rule same_ids_trans [rotated])
qed (simp add: same_ids_def)

lemma response_transactions: "op_response op m c = Inr (c', out, v) \<Longrightarrow> c_Transactions c' = c_Transactions c"
proof (cases op)
  case (OpGet p n rc)
  assume res: "op_response op m c = Inr (c', out, v)"
  show ?thesis
  proof (cases m)
    case (TreeInfoResponse a)
    obtain d o1 where d: "addNodes (TreeInfoResponse_nodeToAddList a) c = (d, o1)" by fastforce
    moreover have "c' = d" using res OpGet TreeInfoResponse d
      by (auto simp: get_response_def split: if_splits list.splits option.splits)
    ultimately show ?thesis using same_threads_addNodes by (simp add: same_threads_def)
  qed (use res OpGet in \<open>auto simp: get_response_def\<close>)
qed (cases m; auto simp: signin_response_def create_response_def commit_response_def fetch_response_def
      subscribe_response_def unsubscribe_response_def destroy_eq beat_response_def call_response_def store_value_def
      make_Node_def client_simps Let_def deref_def split: option.splits if_splits)+

text \<open>A thread that resumes, or gives up.\<close>

lemma wait_over:
  assumes "map_of (c_waiting c) 0 = None"
  shows "wait_end L c = Inr (c, [])"
  using assms by (simp add: resume_def timeout_def)

lemma wait_ends:
  assumes w: "map_of (c_waiting c) 0 = Some (i, op)" and ids: "map fst (c_Transactions c) = [i]"
    and step: "wait_end L c = Inr (c', out)" and v: "return_of 0 out = Some v" "\<And>x. v \<noteq> RThrow x"
  shows "idle c'"
proof -
  obtain tr where tr: "c_Transactions c = [(i, tr)]" using ids by (cases "c_Transactions c") auto
  show ?thesis
  proof (cases "satisfied tr")
    case False
    with w tr have "wait_end L c = Inr (returned 0 (RThrow ''transaction failure'') c, [Returned 0 (RThrow ''transaction failure'')])"
      by (simp add: resume_def timeout_def waitTransaction_def)
    with step have "out = [Returned 0 (RThrow ''transaction failure'')]" by (simp only: sum.inject prod.inject)
    with v(1) have "v = RThrow ''transaction failure''" by simp
    with v(2) show ?thesis by metis
  next
    case True
    let ?d = "c\<lparr>c_Transactions := []\<rparr>"
    from step w tr True obtain e o1 u where e: "op_response op (reply tr) ?d = Inr (e, o1, u)"
      "run_steps (client_step L) [Timeout 0] (returned 0 u e) = Inr (c', drop (Suc (length o1)) out)"
      by (auto simp: resume_def waitTransaction_def um_erase_def)
    have "c' = returned 0 u e" using e(2) by (simp add: timeout_def um_find_erase)
    with response_transactions [OF e(1)] show ?thesis by (simp add: returned_def)
  qed
qed

lemma idle_kept:
  assumes inv: "client_inv (Suc k) c" and idle: "idle c" "map_of (c_waiting c) 0 = None"
    and run: "perform L w held op (s, c) = Inr ((s', c'), v)" "\<And>x. v \<noteq> RThrow x"
  shows "idle c'"
  using run(1)
proof (cases rule: perform_cases)
  case (early c1 o1 o3)
  show ?thesis
  proof (cases "may_start 0 op c")
    case False
    with early(1) have "c1 = c" by simp
    with early(4) wait_over [OF idle(2), of L] idle(1) show ?thesis by (simp only: sum.inject prod.inject)
  next
    case True
    with early(1) obtain q where q: "op_request op c = Inr q" by (auto simp: start_def)
    show ?thesis
    proof (cases q)
      case (Early u)
      with True early(1) q have "c1 = returned 0 u c" by (simp add: start_def)
      then have "map_of (c_waiting c1) 0 = None" "idle c1" using idle(1) by (simp_all only: returned_waiting) (simp add: returned_def)
      with early(4) wait_over [of c1 L] show ?thesis by (simp only: sum.inject prod.inject)
    next
      case (Ask m)
      obtain i ctr where i: "next_id (c_TransactioIdCtr c) = (i, ctr)" by fastforce
      show ?thesis
      proof (cases "client_send L True (single i m)")
        case (Inl f)
        with True early(1) q Ask i obtain x where "o1 = [Returned 0 (RThrow x)]" by (cases f) (auto simp: start_def addTransaction_def)
        with early(5) run(2) show ?thesis by auto
      qed (use True early(1,2) q Ask i in \<open>auto simp: start_def addTransaction_def\<close>)
    qed
  qed
next
  case (asked i q bs c1 c2 out o2 o3)
  have st: "may_start 0 op c" using asked(2) by (auto split: if_splits)
  obtain j ctr where j: "next_id (c_TransactioIdCtr c) = (j, ctr)" by fastforce
  obtain b where "client_send L True (single j q) = Inr b"
  proof (cases "client_send L True (single j q)")
    case (Inl f)
    with st asked(1,2) j show ?thesis by (cases f) (auto simp: start_def addTransaction_def)
  qed
  with st asked(1,2) j idle have c1: "c_Transactions c1 = [(i, new_Transaction)]" "map_of (c_waiting c1) 0 = Some (i, op)"
    by (auto simp: start_def addTransaction_def single_def um_emplace_def map_add_def)
  have "same_ids c1 c2" using same_ids_handled [OF asked(4)] .
  with c1 show ?thesis by (intro wait_ends [OF _ _ asked(5,6) run(2)]) (simp_all add: same_ids_def)
qed

section \<open>Clients that share a server\<close>

text \<open>
  What holds between operations: every client is usable and has nothing open, and the root has the
  name clients give theirs.
\<close>

definition world_ok :: "nat \<Rightarrow> World \<Rightarrow> bool" where
  "world_ok k W \<longleftrightarrow> distinct (conns W) \<and> proto_inv k (w_server W) \<and> sview (w_server W) 0 = Some ('''', None) \<and>
     (\<forall>v\<in>set (conns W). usable v k (w_server W, client_at v W) \<and> idle (client_at v W))"

lemma world_ok_usable: "world_ok k W \<Longrightarrow> v \<in> set (conns W) \<Longrightarrow> usable v k (w_server W, client_at v W)"
  by (simp add: world_ok_def)

lemma world_ok_mono: "world_ok k W \<Longrightarrow> j \<le> k \<Longrightarrow> world_ok j W"
  unfolding world_ok_def using usable_mono proto_inv_mono by blast

text \<open>The name of the root stays.\<close>

lemma root_named:
  assumes inv: "proto_inv (Suc k) s" "session_of s w \<noteq> None" and step: "handle held t q w s = Inr (s', out)"
    and root: "sview s 0 = Some a"
  shows "sview s' 0 = Some a"
proof -
  obtain i where "session_of s w = Some i" using inv(2) by blast
  then have w: "signed_in w i s" by (simp add: signed_in_def)
  have "tree_inv s'" using inv_handle [OF inv(1) step] by (simp add: proto_inv_def)
  then have here: "sview s' 0 \<noteq> None" by (metis option.distinct(1) sview_None tree_root)
  from handle_news [OF inv(1) w step] obtain news where
    news: "case news of None \<Rightarrow> nothing_new s s' | Some x \<Rightarrow> happened w i x s s' out" by blast
  show ?thesis
  proof (cases news)
    case (Some x)
    with news have "timely x (sview s)" "sview s' = new_view x (sview s)" by (simp_all add: happened_def)
    with here root show ?thesis by (cases x) (auto simp del: sview_None split: if_splits)
  qed (use news root in \<open>simp add: nothing_new_def\<close>)
qed

text \<open>
  \<open>others w R W W'\<close>: what holds of every client but \<open>w\<close> before and after.
\<close>

definition others :: "conn \<Rightarrow> (conn \<Rightarrow> Client \<Rightarrow> Client \<Rightarrow> bool) \<Rightarrow> World \<Rightarrow> World \<Rightarrow> bool" where
  "others w R W W' \<longleftrightarrow> (\<forall>v\<in>set (conns W). v \<noteq> w \<longrightarrow> R v (client_at v W) (client_at v W'))"

lemma put_twice [simp]: "put_client w c (put_client w b W) = put_client w c W"
proof -
  have "um_assign w c (um_assign w b m) = um_assign w c m" for m :: "(conn \<times> Client) list"
    by (induction m) auto
  then show ?thesis by (simp add: put_client_def)
qed

text \<open>A client gets nothing but answers and announcements when it has not called.\<close>

lemma no_call_box:
  assumes "proto_inv (Suc k) s" "handle held t q w s = Inr (s', out)" "no_call q"
  shows "\<forall>y\<in>set (inbox v out). \<exists>t m. y = single t m \<and> (\<forall>x. m \<noteq> RpcRequest x)"
proof
  fix y assume "y \<in> set (inbox v out)"
  with sent_in_handle [OF assms, of v y] have "announcement y \<or> (\<exists>t m. y = single t m \<and> (\<forall>x. m \<noteq> RpcRequest x))"
    by (auto simp: set_inbox)
  then show "\<exists>t m. y = single t m \<and> (\<forall>x. m \<noteq> RpcRequest x)"
  proof
    assume "announcement y"
    then obtain x where "y = single notification_id (announce x)" by (auto simp: announcement_def)
    then show ?thesis by (cases x) auto
  qed
qed

text \<open>Every client knows the parent of a node that is new.\<close>

definition parents_known :: "World \<Rightarrow> ProtocolHandler \<Rightarrow> bool" where
  "parents_known W s' \<longleftrightarrow> (\<forall>u n p v. sview (w_server W) u = None \<longrightarrow> sview s' u = Some (n, Some p) \<longrightarrow>
     v \<in> set (conns W) \<longrightarrow> ctree (client_at v W) p \<noteq> None)"

text \<open>An operation that sends no request: it needs none, or it cannot be encoded.\<close>

definition unasked :: "cum \<Rightarrow> Op \<Rightarrow> Client \<Rightarrow> bool" where
  "unasked L op c \<longleftrightarrow> (\<forall>q. op_request op c = Inr (Ask q) \<longrightarrow> \<not> sends L q)"

lemma early_unasked:
  assumes "map_of (c_waiting c) 0 = None" "client_step L (Start 0 op True) c = Inr (c1, o1)" "sent_messages o1 = []"
    and "wait_end L c1 = Inr (c', o3)" "return_of 0 (o1 @ o3) = Some v"
  shows "unasked L op c"
  unfolding unasked_def
proof (intro allI impI notI)
  fix q assume q: "op_request op c = Inr (Ask q)" "sends L q"
  show False
  proof (cases "may_start 0 op c")
    case True
    obtain i ctr where i: "next_id (c_TransactioIdCtr c) = (i, ctr)" by fastforce
    obtain bs where "client_send L True (single i q) = Inr bs" using q(2) by (auto simp: sends_def)
    with True q(1) i assms(2,3) show False by (auto simp: start_def addTransaction_def)
  next
    case False
    with assms(2) have "c1 = c" "o1 = []" by auto
    with assms(1,4,5) wait_over [of c L] show False by (simp del: run_steps.simps)
  qed
qed

text \<open>An operation that one client performs alone, performed among others.\<close>

lemma world_step:
  assumes ok: "world_ok (Suc k) W" and w: "w \<in> set (conns W)"
    and run: "perform L w (conns W) op (w_server W, client_at w W) = Inr ((s', c'), v)" "\<And>x. v \<noteq> RThrow x"
    and use: "usable w k (s', c')" and call: "\<And>q. op_request op (client_at w W) = Inr (Ask q) \<Longrightarrow> no_call q"
    and par: "parents_known W s'"
  shows "\<exists>W'. world_perform L w op W = Inr (W', v) \<and> w_server W' = s' \<and> client_at w W' = c' \<and> conns W' = conns W \<and>
    world_ok k W' \<and> (others w (\<lambda>_. (=)) W W' \<and> s' = w_server W \<and> unasked L op (client_at w W) \<or> (\<exists>q. op_request op (client_at w W) = Inr (Ask q) \<and>
      others w (\<lambda>v. bystands v q (w_server W) s') W W'))"
proof -
  let ?s = "w_server W" and ?c = "client_at w W"
  have dis: "distinct (conns W)" and inv: "proto_inv (Suc k) ?s" and root: "sview ?s 0 = Some ('''', None)"
    and idle: "idle ?c" using ok w by (simp_all add: world_ok_def)
  have mine: "usable w (Suc k) (?s, ?c)" using world_ok_usable [OF ok w] .
  have cinv: "client_inv (Suc k) ?c" "map_of (c_waiting ?c) 0 = None" using mine by simp_all
  have idle': "idle c'" using idle_kept [OF cinv(1) idle cinv(2) run] .
  show ?thesis using run(1)
  proof (cases rule: perform_cases)
    case (early c1 o1 o3)
    let ?W = "put_client w c' W"
    have cn: "conns ?W = conns W" using conns_put(1) [OF w] .
    have "world_perform L w op W = Inr (?W, v)"
      using early by (simp add: world_perform_def del: client_step.simps run_steps.simps)
    moreover have "world_ok k ?W"
      using use idle' early(3) world_ok_mono [OF ok, of k] by (auto simp: world_ok_def cn simp del: usable.simps)
    ultimately show ?thesis using early_unasked [OF cinv(2) early(1,2,4,5)] early(3) cn
      by (intro exI [of _ ?W]) (simp add: others_def)
  next
    case (asked i q bs c1 c2 out o2 o3)
    have nc: "no_call q" using call asked(1) by blast
    let ?R = "\<lambda>v d. if v = w then d = c2 else usable v k (s', d) \<and> bystands v q ?s s' (client_at v W) d"
    let ?V1 = "put_client w c1 W"
    have cn1: "conns ?V1 = conns W" using conns_put(1) [OF w] .
    have each: "\<exists>c' o1. run_steps (client_handle L True) (inbox v out) (client_at v ?V1) = Inr (c', o1) \<and> sent_messages o1 = [] \<and> ?R v c'"
      if "v \<in> set (conns ?V1)" for v
    proof (cases "v = w")
      case True
      then show ?thesis using asked(4) all_unsent [OF asked(4) no_call_box [OF inv asked(3) nc]] by auto
    next
      case False
      have v: "v \<in> set (conns W)" using that cn1 by simp
      from overheard [where L = L and sent = True, OF world_ok_usable [OF ok v] asked(3) False nc] par v False show ?thesis
        by (auto simp: parents_known_def simp del: usable.simps)
    qed
    have "onMsg (conns ?V1) (single i q) w (w_server ?V1) = Inr (s', out)"
      using asked(3) cn1 by (simp add: single_def onMsg_message_def)
    from serve_last [where P = ?R and L = L and n = "Suc 0", OF _ this each] dis cn1 obtain V where
      V: "serve_all L 2 [(w, single i q)] ?V1 = Inr V" "w_server V = s'" "conns V = conns W"
      and at: "\<And>v. v \<in> set (conns W) \<Longrightarrow> ?R v (client_at v V)" by (auto simp: numeral_2_eq_2 simp del: serve_all.simps)
    let ?W = "put_client w c' V"
    have cn': "conns ?W = conns W" using conns_put(1) [of w V] w V(3) by simp
    have "client_at w V = c2" using at [OF w] by simp
    then have run': "world_perform L w op W = Inr (?W, v)"
      using V(1) asked(2,5,6) by (simp add: world_perform_def del: client_step.simps run_steps.simps)
    have "world_ok k ?W"
    proof -
      have "idle (client_at v V)" if "v \<in> set (conns W)" "v \<noteq> w" for v
        using at [OF that(1)] that ok by (simp add: bystands_def same_threads_def world_ok_def)
      moreover have "sview s' 0 = Some ('''', None)" using root_named [OF inv _ asked(3) root] mine by simp
      moreover have "proto_inv k s'" using use by simp
      ultimately show ?thesis using at use idle' dis V(2) by (auto simp: world_ok_def cn' simp del: usable.simps)
    qed
    moreover have "others w (\<lambda>v. bystands v q ?s s') W ?W" using at by (auto simp: others_def)
    ultimately show ?thesis using run' asked(1) cn' V(2) by (intro exI [of _ ?W]) auto
  qed
qed

end
