(* ===== verification/Clean.thy ===== *)
theory Clean
  imports Forest
begin

text \<open>
  The function \<open>clean\<close> of the end-to-end tests (\<open>E2ETest/Utils.hpp\<close>), which deletes every node: a loop
  over a stack of levels that has to visit a node again once its children are gone.
\<close>

section \<open>The function\<close>

record CleanContext =
  cc_children :: "(string \<times> Property) list"
  cc_index :: nat

text \<open>
  \<open>levels\<close> has its \<open>back()\<close> first. A level that is finished is left, and the level below goes on
  with the child it had gone into.
\<close>

definition clean_child :: "(CleanContext list \<Rightarrow> unit prog) \<Rightarrow> CleanContext list \<Rightarrow> unit prog" where
  "clean_child go levels = (case levels of [] \<Rightarrow> Done ()
     | l # ls \<Rightarrow>
       if length (cc_children l) \<le> cc_index l then Fail BufferOverflow
       else let child = snd (cc_children l ! cc_index l) in
         bindP (prop_childrenSize child) (\<lambda>n.
           if n \<noteq> 0 then bindP (prop_children child) (\<lambda>cs. go (\<lparr>cc_children = cs, cc_index = 0\<rparr> # levels))
           else bindP (prop_destroy child) (\<lambda>_. go (l\<lparr>cc_index := cc_index l + 1\<rparr> # ls))))"

fun clean_loop :: "nat \<Rightarrow> CleanContext list \<Rightarrow> unit prog" where
  "clean_loop 0 levels = Fail Diverges"
| "clean_loop (Suc fuel) [] = Fail BufferOverflow"
| "clean_loop (Suc fuel) (l # levels) =
     clean_child (clean_loop fuel) (if length (cc_children l) \<le> cc_index l then levels else l # levels)"

definition clean :: "nat \<Rightarrow> unit prog" where
  "clean fuel =
     bindP client_root (\<lambda>root.
     bindP (prop_loadChildren True root) (\<lambda>_.
     bindP (prop_children root) (\<lambda>cs.
     clean_loop fuel [\<lparr>cc_children = cs, cc_index = 0\<rparr>])))"

section \<open>What it does\<close>

text \<open>A client that has loaded what is below the root knows everything.\<close>

lemma loaded_synced:
  assumes use: "usable w k (s, c)" and d: "tree s 0 = Some d" and below: "knows_below c s d"
  shows "cview c = sview s"
proof
  fix v
  have tr: "tree_inv s" using usable_wf(2) [OF use] .
  have know: "ctree c v \<noteq> None" if "tree s v \<noteq> None"
  proof (cases "v = 0")
    case False
    from that obtain e where e: "tree s v = Some e" by blast
    from below_root [OF tr d e False] below tree_nodeD(3) [OF tr e] show ?thesis by (auto simp: knows_below_def)
  qed (use use in simp)
  show "cview c v = sview s v"
  proof (cases "ctree c v = None")
    case True
    with know have "tree s v = None" by blast
    with True show ?thesis by (metis cview_None sview_None)
  next
    case False
    with use knowsD [of c s v] show ?thesis by simp
  qed
qed

text \<open>A node without children, at a client that knows everything.\<close>

lemma synced_childless:
  assumes use: "usable w k (s, c)" and eq: "cview c = sview s" and d: "ctree c v = Some d" "cn_children (c_heap c d) = []"
  shows "\<not> is_parent (abs_tree s) v"
proof
  have wf: "tree_wf c" using usable_wf [OF use] by simp
  assume "is_parent (abs_tree s) v"
  then obtain n y a where a: "abs_tree s y = Some a" "a_parent a = Some v" "a_name a = n" by (auto simp: is_parent_def has_child_def)
  then have view: "cview c y = Some (n, Some v)" by (simp add: eq sview_def)
  then obtain e where "ctree c y = Some e" by (cases "ctree c y") (auto simp flip: cview_None)
  with view links_child [OF wf _ d(1), of n e] use d(2) show False by auto
qed

context operations
begin

text \<open>A step: a child without children is destroyed.\<close>

lemma run_clean_leaf:
  assumes "ok (Suc (Suc k)) x" "cview (client x) = sview (server x)" "ctree (client x) u = Some q"
    and "cn_children (c_heap (client x) q) = (n, d) # ds" "ctree (client x) v = Some d" "d \<in> set (c_held (client x))"
    and "cn_children (c_heap (client x) d) = []" "v \<noteq> 0" "fits (ask_delete v)"
  shows "\<exists>y. run (prop_destroy (make_Property (Some d))) x = Inr (y, True) \<and> ok k y \<and> cview (client y) = sview (server y) \<and>
    sview (server y) = (sview (server x))(v := None) \<and> steady (client x) (client y) \<and> ctree (client y) = (ctree (client x))(v := None) \<and>
    (\<forall>z. cn_children (c_heap (client y) z) = (if z = q then ds else cn_children (c_heap (client x) z)))"
proof -
  have use: "usable self (Suc (Suc k)) (server x, client x)" using ok_usable [OF assms(1)] .
  have wf: "tree_wf (client x)" using usable_wf [OF use] by simp
  have leaf: "\<not> is_parent (abs_tree (server x)) v" by (rule synced_childless [OF use assms(2,5,7)])
  have "at (client x) (make_Property (Some d)) v" using assms(5,6) by (simp add: at_node)
  from run_destroy [OF assms(1) this assms(8) leaf assms(9)] obtain y u' q' n' where
    y: "run (prop_destroy (make_Property (Some d))) x = Inr (y, True)" "ok k y" "does self (ask_delete v) (server x) (server y)"
      "steady (client x) (client y)" "cview (client x) v = Some (n', Some u')" "ctree (client x) u' = Some q'"
      "pruned v q' n' (client x) (client y)" by blast
  have "cchild (client x) q n = Some d" using assms(4) by simp
  with links_child [OF wf _ assms(3), of n d] use tree_uuid_unique [OF wf] assms(5)
  have "cview (client x) v = Some (n, Some u)" by (auto dest: tree_uuid [OF wf])
  with y(5,6) assms(3) have q': "q' = q" "n' = n" by simp_all
  have om: "om_wf ((n, d) # ds)" using tree_wf_om [OF wf, of q] assms(4) by simp
  then have "om_erase n ((n, d) # ds) = ds" by (auto simp: om_erase_def om_wf_Cons filter_id_conv)
  then have ch: "cn_children (c_heap (client y) z) = (if z = q then ds else cn_children (c_heap (client x) z))" for z
    using y(7) assms(4) by (simp add: pruned_def q')
  obtain p where "tree (server x) v = Some p" using usable_node [OF use assms(5)] .
  then have "sview (server y) = (sview (server x))(v := None)" using does_deleted(2) [OF y(3) _ leaf] by simp
  with y pruned_views(1) [OF y(7)] pruned_tree [OF y(7)] assms(2) ch show ?thesis by (intro exI [of _ y]) simp
qed

lemma run_clean_level:
  assumes "ok (2 * length (members ts) + k) x" "cview (client x) = sview (server x)" "ctree (client x) u = Some q"
    and "cn_children (c_heap (client x) q) = ds" "mirrors (client x) ds ts" "snd ` set ds \<subseteq> set (c_held (client x))"
    and "drop (cc_index l) (cc_children l) = handles_of ds" "cc_index l \<le> length (cc_children l)"
    and "distinct (u # members ts)" "0 \<notin> set (members ts)" "\<forall>v\<in>set (members ts). fits (ask_delete v)"
  shows "\<exists>y. (\<forall>fuel. run (clean_loop (rounds ts + fuel) (l # levels)) x =
      run (clean_loop fuel (l\<lparr>cc_index := length (cc_children l)\<rparr> # levels)) y) \<and>
    ok k y \<and> cview (client y) = sview (server y) \<and> sview (server y) = sview (server x) |` (- set (members ts)) \<and>
    steady (client x) (client y) \<and> (\<forall>v c. v \<notin> set (members ts) \<longrightarrow> ctree (client x) v = Some c \<longrightarrow> ctree (client y) v = Some c \<and>
      cn_children (c_heap (client y) c) = (if c = q then [] else cn_children (c_heap (client x) c)))"
  using assms
proof (induction ts arbitrary: x k u q ds l levels rule: rounds.induct)
  case 1
  then have "ds = []" by (cases ds) auto
  moreover from this have "l\<lparr>cc_index := length (cc_children l)\<rparr> = l" using 1 by auto
  ultimately show ?case using 1 by (intro exI [of _ x]) (simp del: clean_loop.simps)
next
  case (2 n v ts us)
  let ?h = "\<lambda>d. make_Property (Some d)" and ?l = "l\<lparr>cc_index := Suc (cc_index l)\<rparr>"
  let ?k = "2 * length (members us) + k"
  have wf: "tree_wf (client x)" using usable_wf [OF ok_usable [OF "2.prems"(1)]] by simp
  obtain d ds' where ds: "ds = (n, d) # ds'" "ctree (client x) v = Some d" "mirrors (client x) (cn_children (c_heap (client x) d)) ts"
    "mirrors (client x) ds' us" using "2.prems"(5) by (cases ds) auto
  have lt: "cc_index l < length (cc_children l)" using "2.prems"(7) ds(1) by (cases "cc_index l < length (cc_children l)") auto
  then have nth: "cc_children l ! cc_index l = (n, ?h d)" "drop (Suc (cc_index l)) (cc_children l) = handles_of ds'"
    using "2.prems"(7) ds(1) by (simp_all flip: Cons_nth_drop_Suc)
  have ch: "run (prop_childrenSize (?h d)) z = Inr (z, length (cn_children (c_heap (client z) d)))" for z
    by (rule run_childrenSize)
  have dq: "d \<noteq> q" using tree_uuid_unique [OF wf ds(2), of u] "2.prems"(3,9) by auto
  have "\<exists>a. (\<forall>fuel. run (clean_loop (Suc ((if ts = [] then 0 else Suc (rounds ts)) + fuel)) (l # levels)) x =
      run (clean_child (clean_loop fuel) (l # levels)) a) \<and>
    ok (Suc (Suc ?k)) a \<and> cview (client a) = sview (server a) \<and> sview (server a) = sview (server x) |` (- set (members ts)) \<and>
    steady (client x) (client a) \<and> (\<forall>w c. w \<notin> set (members ts) \<longrightarrow> ctree (client x) w = Some c \<longrightarrow> ctree (client a) w = Some c \<and>
      cn_children (c_heap (client a) c) = (if c = d then [] else cn_children (c_heap (client x) c)))"
  proof (cases "ts = []")
    case True
    then have "cn_children (c_heap (client x) d) = []" using ds(3) by (cases "cn_children (c_heap (client x) d)") auto
    with True lt "2.prems"(1,2) show ?thesis by (intro exI [of _ x]) (simp add: restrict_map_def)
  next
    case False
    let ?cs = "cn_children (c_heap (client x) d)"
    have some: "?cs \<noteq> []" using ds(3) False by (cases ts rule: members.cases) auto
    have "ok (2 * length (members ts) + Suc (Suc ?k)) x" using "2.prems"(1) by (simp add: algebra_simps)
    from run_children [OF this ds(2)] obtain z where z: "run (prop_children (?h d)) x = Inr (z, handles_of ?cs)"
      "ok (2 * length (members ts) + Suc (Suc ?k)) z" "server z = server x" "steady (client x) (client z)"
      "same_tree (client x) (client z)" "\<forall>(n, d)\<in>set ?cs. d \<in> set (c_held (client z))" by blast
    let ?new = "\<lparr>cc_children = handles_of ?cs, cc_index = 0\<rparr>"
    have same: "c_Tree (client z) = c_Tree (client x)" "c_heap (client z) = c_heap (client x)" "cview (client z) = cview (client x)"
      using z(5) same_tree_views [OF z(5)] by (simp_all add: same_tree_def)
    have "mirrors (client z) ?cs ts" by (rule same_nodes_mirrors [OF same_tree_nodes [OF z(5)] ds(3)])
    moreover have "snd ` set ?cs \<subseteq> set (c_held (client z))" using z(6) by auto
    ultimately obtain a where a: "\<And>fuel. run (clean_loop (rounds ts + fuel) (?new # l # levels)) z =
        run (clean_loop fuel (?new\<lparr>cc_index := length ?cs\<rparr> # l # levels)) a"
      "ok (Suc (Suc ?k)) a" "cview (client a) = sview (server a)" "sview (server a) = sview (server z) |` (- set (members ts))"
      "steady (client z) (client a)"
      "\<forall>w c. w \<notin> set (members ts) \<longrightarrow> ctree (client z) w = Some c \<longrightarrow> ctree (client a) w = Some c \<and>
        cn_children (c_heap (client a) c) = (if c = d then [] else cn_children (c_heap (client z) c))"
      using "2.IH"(1) [OF False z(2), of v d ?cs ?new "l # levels"] "2.prems"(2,9-11) ds(2) same z(3) by auto
    have step: "run (clean_loop (Suc f) (l # levels)) x = run (clean_loop f (?new # l # levels)) z" for f
      using lt nth(1) ch some z(1) by (simp add: clean_child_def run_bindP Let_def)
    have "run (clean_loop (Suc ((if ts = [] then 0 else Suc (rounds ts)) + fuel)) (l # levels)) x =
        run (clean_child (clean_loop fuel) (l # levels)) a" for fuel
      using step [of "rounds ts + Suc fuel"] a(1) [of "Suc fuel"] False by simp
    moreover have "steady (client x) (client a)" by (rule steady_trans [OF z(4) a(5)])
    ultimately show ?thesis using a(2-4,6) z(3) same by (intro exI [of _ a]) (simp del: clean_loop.simps)
  qed
  then obtain a where a: "\<And>fuel. run (clean_loop (Suc ((if ts = [] then 0 else Suc (rounds ts)) + fuel)) (l # levels)) x =
      run (clean_child (clean_loop fuel) (l # levels)) a"
    "ok (Suc (Suc ?k)) a" "cview (client a) = sview (server a)" "sview (server a) = sview (server x) |` (- set (members ts))"
    "steady (client x) (client a)"
    "\<And>w c. w \<notin> set (members ts) \<Longrightarrow> ctree (client x) w = Some c \<Longrightarrow> ctree (client a) w = Some c \<and>
      cn_children (c_heap (client a) c) = (if c = d then [] else cn_children (c_heap (client x) c))" by blast
  have at: "ctree (client a) u = Some q" "cn_children (c_heap (client a) q) = (n, d) # ds'" "ctree (client a) v = Some d"
    "cn_children (c_heap (client a) d) = []"
    using a(6) [of u q] a(6) [of v d] "2.prems"(3,4,9) ds(1,2) dq by auto
  have "d \<in> set (c_held (client a))" using "2.prems"(6) ds(1) a(5) by (auto simp: steady_def)
  from run_clean_leaf [OF a(2,3) at(1-3) this at(4)] "2.prems"(10,11) obtain y where
    y: "run (prop_destroy (?h d)) a = Inr (y, True)" "ok ?k y" "cview (client y) = sview (server y)"
      "sview (server y) = (sview (server a))(v := None)" "steady (client a) (client y)"
      "ctree (client y) = (ctree (client a))(v := None)"
      "\<And>z. cn_children (c_heap (client y) z) = (if z = q then ds' else cn_children (c_heap (client a) z))" by auto
  have keep: "ctree (client y) w = Some c \<and>
      cn_children (c_heap (client y) c) = (if c = q then ds' else cn_children (c_heap (client x) c))"
    if "w \<notin> set (members ts)" "w \<noteq> v" "ctree (client x) w = Some c" for w c
  proof -
    have "c \<noteq> d" using tree_uuid_unique [OF wf ds(2), of w] that(2,3) by auto
    with a(6) [OF that(1,3)] y(6,7) that(2) show ?thesis by simp
  qed
  have "ctree (client y) w = Some c \<and> cn_children (c_heap (client y) c) = cn_children (c_heap (client x) c)"
    if "w \<in> set (members us)" "ctree (client x) w = Some c" for w c
  proof -
    have "w \<notin> set (members ts)" "w \<noteq> v" "w \<noteq> u" using that(1) "2.prems"(9) by auto
    moreover from this have "c \<noteq> q" using tree_uuid_unique [OF wf "2.prems"(3), of w] that(2) by auto
    ultimately show ?thesis using keep that(2) by simp
  qed
  then have m: "mirrors (client y) ds' us" by (intro mirrors_same [OF _ ds(4)]) blast
  have st: "steady (client x) (client y)" by (rule steady_trans [OF a(5) y(5)])
  then have held: "snd ` set ds' \<subseteq> set (c_held (client y))" using "2.prems"(6) ds(1) by (auto simp: steady_def)
  have q: "ctree (client y) u = Some q" "cn_children (c_heap (client y) q) = ds'"
    using keep [of u q] "2.prems"(3,9) y(7) by auto
  obtain b where b: "\<And>fuel. run (clean_loop (rounds us + fuel) (?l # levels)) y =
      run (clean_loop fuel (?l\<lparr>cc_index := length (cc_children ?l)\<rparr> # levels)) b"
    "ok k b" "cview (client b) = sview (server b)" "sview (server b) = sview (server y) |` (- set (members us))"
    "steady (client y) (client b)"
    "\<And>w c. w \<notin> set (members us) \<Longrightarrow> ctree (client y) w = Some c \<Longrightarrow> ctree (client b) w = Some c \<and>
      cn_children (c_heap (client b) c) = (if c = q then [] else cn_children (c_heap (client y) c))"
    using "2.IH"(2) [OF y(2,3) q m held, of ?l levels] lt nth(2) "2.prems"(9-11) by auto
  have "run (clean_child (clean_loop f) (l # levels)) a = run (clean_loop f (?l # levels)) y" for f
    using lt nth(1) ch at(4) y(1) by (simp add: clean_child_def run_bindP Let_def)
  then have "run (clean_loop (rounds (Rose n v ts # us) + fuel) (l # levels)) x =
      run (clean_loop fuel (l\<lparr>cc_index := length (cc_children l)\<rparr> # levels)) b" for fuel
    using a(1) [of "rounds us + fuel"] b(1) [of fuel] by (simp add: add.assoc del: clean_loop.simps)
  moreover have "sview (server b) = sview (server x) |` (- set (members (Rose n v ts # us)))"
    unfolding b(4) y(4) a(4) by (auto simp: restrict_map_def)
  moreover have "ctree (client b) w = Some c \<and>
      cn_children (c_heap (client b) c) = (if c = q then [] else cn_children (c_heap (client x) c))"
    if "w \<notin> set (members (Rose n v ts # us))" "ctree (client x) w = Some c" for w c
    using that keep [of w c] b(6) [of w c] by (cases "c = q") simp_all
  ultimately show ?case using b(2,3) steady_trans [OF st b(5)]
    by (intro exI [of _ b]) (simp del: clean_loop.simps rounds.simps members.simps)
qed

text \<open>It deletes every node of the server but the root.\<close>

lemma run_clean:
  assumes "ok (2 * length (members (forest_of (server x) 0)) + 3 + k) x" "rounds (forest_of (server x) 0) < fuel"
    and "fits (ask_all 0)" "\<forall>v\<in>set (members (forest_of (server x) 0)). fits (ask_delete v)"
  shows "\<exists>y. run (clean fuel) x = Inr (y, ()) \<and> ok k y \<and> dom (tree (server y)) = {0} \<and> dom (ctree (client y)) = {0} \<and>
    steady (client x) (client y)"
proof -
  let ?ts = "forest_of (server x) 0"
  let ?k = "2 * length (members ?ts) + k"
  have "ok (Suc (Suc (Suc ?k))) x" using assms(1) by (simp add: algebra_simps numeral_eq_Suc)
  from run_root [OF this] obtain x1 p where x1:
    "run client_root x = Inr (x1, p)" "ok (Suc (Suc ?k)) x1"
    "server x1 = server x" "learns (client x) (client x1)" "at (client x1) p 0" by blast
  have use1: "usable self (Suc (Suc ?k)) (server x1, client x1)" using ok_usable [OF x1(2)] .
  have tr: "tree_inv (server x)" using usable_wf [OF use1] x1(3) by simp
  obtain q where q: "p = make_Property (Some q)" "ctree (client x1) 0 = Some q" using x1(5) by (rule atE)
  obtain d where d: "tree (server x1) 0 = Some d" using usable_node [OF use1 q(2)] .
  from run_load [OF x1(2,5) d assms(3)] obtain x2 where x2: "run (prop_loadChildren True p) x1 = Inr (x2, ())" "ok ?k x2"
    "server x2 = server x1" "learns (client x1) (client x2)" "knows_below (client x2) (server x1) d" by blast
  have use: "usable self ?k (server x, client x2)" using ok_usable [OF x2(2)] x2(3) x1(3) by simp
  have q2: "ctree (client x2) 0 = Some q" using growsD x2(4) q(2) by blast
  have synced: "cview (client x2) = sview (server x)"
    by (rule loaded_synced [OF use]) (use d x1(3) x2(5) in simp_all)
  from run_children [OF x2(2) q2] obtain x3 where x3: "run (prop_children p) x2 = Inr (x3, child_handles (client x2) q)" "ok ?k x3"
    "server x3 = server x2" "steady (client x2) (client x3)" "same_tree (client x2) (client x3)"
    "\<forall>(n, d)\<in>set (cn_children (c_heap (client x2) q)). d \<in> set (c_held (client x3))" using q(1) by blast
  let ?ds = "cn_children (c_heap (client x2) q)" and ?l = "\<lambda>cs. \<lparr>cc_children = handles_of cs, cc_index = 0\<rparr>"
  have same: "cview (client x3) = sview (server x3)" "ctree (client x3) 0 = Some q" "cn_children (c_heap (client x3) q) = ?ds"
    using same_tree_views [OF x3(5)] synced x3(3,5) x2(3) x1(3) q2 by (simp_all add: same_tree_def)
  have "mirrors (client x2) ?ds ?ts"
    using loaded_mirrors [OF use q2, of d] d x1(3) x2(5) by simp
  then have m: "mirrors (client x3) ?ds ?ts" by (rule same_nodes_mirrors [OF same_tree_nodes [OF x3(5)]])
  have held: "snd ` set ?ds \<subseteq> set (c_held (client x3))" using x3(6) by auto
  have ids: "distinct (0 # members ?ts)" "0 \<notin> set (members ?ts)" using members_distinct [OF tr] members_root [OF tr] by auto
  from run_clean_level [OF x3(2) same m held _ _ ids assms(4), of "?l ?ds" "[]"] obtain y where
    y: "\<And>fuel. run (clean_loop (rounds ?ts + fuel) [?l ?ds]) x3 = run (clean_loop fuel [(?l ?ds)\<lparr>cc_index := length ?ds\<rparr>]) y"
      "ok k y" "cview (client y) = sview (server y)" "sview (server y) = sview (server x3) |` (- set (members ?ts))"
      "steady (client x3) (client y)" by auto
  obtain f where f: "fuel = rounds ?ts + Suc f" using assms(2) less_iff_Suc_add by auto
  have run: "run (clean_loop fuel [?l ?ds]) x3 = Inr (y, ())" unfolding f y(1) by (simp add: clean_child_def)
  have dom: "dom (sview z) = dom (tree z)" "dom (cview c) = dom (ctree c)" for z c
    by (simp_all only: dom_def sview_None cview_None simp_thms)
  have server: "dom (tree (server y)) = {0}"
  proof -
    have "dom (tree (server y)) = dom (sview (server x3) |` (- set (members ?ts)))" unfolding y(4) [symmetric] dom ..
    also have "\<dots> = dom (tree (server x)) - set (members ?ts)" using x3(3) x2(3) x1(3) by (auto simp: dom)
    also have "\<dots> = {0}" using members_root [OF tr] d x1(3) by auto
    finally show ?thesis .
  qed
  moreover have "dom (ctree (client y)) = {0}" unfolding dom(2) [symmetric] y(3) dom(1) server ..
  moreover have "steady (client x) (client y)" using x1(4) x2(4) x3(4) y(5) steady_trans by blast
  moreover have "run (clean fuel) x = Inr (y, ())"
    using x1(1) x2(1) x3(1) run by (simp add: clean_def run_bindP del: clean_loop.simps)
  ultimately show ?thesis using y(2) by blast
qed

end

end
