(* ===== verification/Workloads.thy ===== *)
theory Workloads
  imports Forest
begin

text \<open>
  The workloads of the tests for concurrent operations (\<open>E2ETest/ConcurrentOperationTest.cpp\<close>) and the
  tests that run them one after the other on one client. The measurements of time are left out. A test
  is a program that says whether all its expectations held.
\<close>

section \<open>The workloads\<close>

text \<open>A value of type \<open>uint32_t\<close> as bytes.\<close>

definition as_bytes32 :: "nat \<Rightarrow> u8 list" where
  "as_bytes32 i = le_bytes 4 i"

text \<open>\<open>CreateDelete::operator()\<close>\<close>

fun create_delete_loop :: "nat \<Rightarrow> Property \<Rightarrow> string \<Rightarrow> bool prog" where
  "create_delete_loop 0 parent name = Done True"
| "create_delete_loop (Suc n) parent name =
     bindP (prop_create name parent) (\<lambda>child.
       if \<not> to_bool child then Done False
       else bindP (prop_destroy child) (\<lambda>_. create_delete_loop n parent name))"

definition CreateDelete :: "Property \<Rightarrow> string \<Rightarrow> bool prog" where
  "CreateDelete parent name = create_delete_loop 50 parent name"

text \<open>\<open>SetGetBasic::operator()\<close>\<close>

fun set_get_loop :: "nat \<Rightarrow> nat \<Rightarrow> Property \<Rightarrow> bool prog" where
  "set_get_loop 0 i value = Done True"
| "set_get_loop (Suc n) i value =
     bindP (prop_assign (as_bytes32 i) value) (\<lambda>_.
     bindP (prop_fetch value) (\<lambda>_.
     bindP (prop_value 4 value) (\<lambda>v.
     bindP (set_get_loop n (Suc i) value) (\<lambda>b. Done (v = Some (as_bytes32 i) \<and> b)))))"

definition SetGetBasic :: "Property \<Rightarrow> bool prog" where
  "SetGetBasic parent =
     bindP (prop_create ''value'' parent) (\<lambda>value.
       if \<not> to_bool value then Done False
       else bindP (set_get_loop 1000 0 value) (\<lambda>b. bindP (prop_destroy value) (\<lambda>_. Done b)))"

text \<open>\<open>Beat::operator()\<close>\<close>

fun beat_loop :: "nat \<Rightarrow> unit prog" where
  "beat_loop 0 = Done ()"
| "beat_loop (Suc n) = bindP client_beat (\<lambda>_. beat_loop n)"

definition Beat :: "unit prog" where
  "Beat = beat_loop 1000"

section \<open>The tests\<close>

fun all_of :: "nat \<Rightarrow> nat \<Rightarrow> (nat \<Rightarrow> bool prog) \<Rightarrow> bool prog" where
  "all_of 0 i f = Done True"
| "all_of (Suc n) i f = bindP (f i) (\<lambda>a. bindP (all_of n (Suc i) f) (\<lambda>b. Done (a \<and> b)))"

definition shouldSingleAddDeleteNode :: "bool prog" where
  "shouldSingleAddDeleteNode = all_of 8 0 (\<lambda>i. bindP client_root (\<lambda>r. CreateDelete r (''CreateDeleteSingle'' @ decimal i)))"

definition shouldSingleSetGet :: "bool prog" where
  "shouldSingleSetGet = all_of 8 0 (\<lambda>i. bindP client_root SetGetBasic)"

definition shouldHeartbeatSingle :: "bool prog" where
  "shouldHeartbeatSingle = all_of 8 0 (\<lambda>i. bindP Beat (\<lambda>_. Done True))"

section \<open>What they do\<close>

context operations
begin

text \<open>What the server and a handle are when everything that was created has been deleted again.\<close>

definition undone :: "Property \<Rightarrow> u64 \<Rightarrow> 'w \<Rightarrow> 'w \<Rightarrow> bool" where
  "undone p u x y \<longleftrightarrow> abs_tree (server y) = abs_tree (server x) \<and> at (client y) p u"

lemma same_children: "ok k x \<Longrightarrow> ok j y \<Longrightarrow> abs_tree (server y) = abs_tree (server x) \<Longrightarrow>
    child_uuid (server y) u n = child_uuid (server x) u n"
  using usable_wf(2) [OF ok_usable] same_abs [of "server y" "server x"] by (blast intro: child_uuid_cong)

text \<open>Creating a node, doing something with it that only changes its value, and deleting it.\<close>

lemma run_create_destroy:
  assumes "ok (Suc (Suc j)) x" "at (client x) p u" "child_uuid (server x) u n = None" "public x u"
    and "fits (ask_create u n)" "\<forall>v. fits (ask_delete v)"
    and body: "\<And>y q v. ok j y \<Longrightarrow> at (client y) q v \<Longrightarrow> v \<noteq> 0 \<Longrightarrow> svalue (server y) v \<noteq> None \<Longrightarrow>
      \<exists>z. run (b q) y = Inr (z, a) \<and> ok (Suc (Suc k)) z \<and> steady (client y) (client z) \<and> same_nodes (client y) (client z) \<and>
        (\<forall>w. w \<noteq> v \<longrightarrow> abs_tree (server z) w = abs_tree (server y) w) \<and> sview (server z) = sview (server y)"
  shows "\<exists>y. run (bindP (prop_create n p) (\<lambda>q. if \<not> to_bool q then Done d
      else bindP (b q) (\<lambda>a. bindP (prop_destroy q) (\<lambda>_. f a)))) x = run (f a) y \<and> ok k y \<and> undone p u x y"
proof -
  let ?v = "ucast (mUuidCtr (server x)) :: u64"
  have use: "usable self (Suc (Suc j)) (server x, client x)" using ok_usable [OF assms(1)] .
  have tr: "tree_inv (server x)" using usable_wf [OF use] by simp
  obtain r where r: "ctree (client x) u = Some r" using assms(2) by (rule atE)
  obtain e where "tree (server x) u = Some e" using usable_node [OF use r] .
  then have u: "tree (server x) u \<noteq> None" by simp
  have ses: "session_of (server x) self \<noteq> None" using use by simp
  from run_create [OF assms(1-5)] obtain y q where y: "run (prop_create n p) x = Inr (y, q)" "ok j y"
    "does self (ask_create u n) (server x) (server y)" "learns (client x) (client y)" "at (client y) q ?v" by blast
  note new = does_created [OF tr ses u assms(3) y(3)]
  have "svalue (server y) ?v \<noteq> None" using new(5) by simp
  from body [OF y(2,5) new(2) this] obtain z where z: "run (b q) y = Inr (z, a)" "ok (Suc (Suc k)) z"
    "steady (client y) (client z)" "same_nodes (client y) (client z)"
    "\<forall>w. w \<noteq> ?v \<longrightarrow> abs_tree (server z) w = abs_tree (server y) w" "sview (server z) = sview (server y)" by blast
  have leaf: "\<not> is_parent (abs_tree (server z)) ?v"
    using new(6) z(6) unfolding is_parent_view by simp
  have at: "at (client z) q ?v" using at_same [OF y(5) z(3)] z(4) by (simp add: same_nodes_def)
  from run_destroy [OF z(2) at new(2) leaf] assms(6) obtain t where t: "run (prop_destroy q) z = Inr (t, True)" "ok k t"
    "does self (ask_delete ?v) (server z) (server t)" "steady (client z) (client t)" "ctree (client t) = (ctree (client z))(?v := None)"
    using pruned_tree by blast
  have "sview (server z) ?v \<noteq> None" using z(6) new(4) by simp
  then have "tree (server z) ?v \<noteq> None" by simp
  from does_deleted(1) [OF t(3) this leaf] z(5) new(7) have "abs_tree (server t) = abs_tree (server x)"
    by (auto simp: fun_eq_iff split: if_splits)
  moreover have "at (client z) p u" using at_same [OF at_learns [OF assms(2) y(4)] z(3)] z(4) by (simp add: same_nodes_def)
  then have "at (client t) p u" using t(4,5) new(3) by (auto simp: at_def steady_def)
  moreover have "to_bool q" using y(5) by (auto elim: atE)
  ultimately show ?thesis using y(1) z(1) t(1,2) by (intro exI [of _ t]) (simp add: run_bindP undone_def)
qed

lemma run_create_delete_loop:
  assumes "ok (4 * n + k) x" "at (client x) p u" "child_uuid (server x) u name = None" "\<forall>y j. ok j y \<longrightarrow> public y u"
    and "fits (ask_create u name)" "\<forall>v. fits (ask_delete v)"
  shows "\<exists>y. run (create_delete_loop n p name) x = Inr (y, True) \<and> ok k y \<and> undone p u x y"
  using assms(1-3)
proof (induction n arbitrary: x)
  case 0
  then show ?case by (intro exI [of _ x]) (simp add: undone_def)
next
  case (Suc n)
  have ok: "ok (Suc (Suc (Suc (Suc (4 * n + k))))) x" using Suc.prems(1) by (simp add: numeral_eq_Suc)
  have "\<exists>z. run (Done ()) y = Inr (z, ()) \<and> ok (Suc (Suc (4 * n + k))) z \<and> steady (client y) (client z) \<and>
      same_nodes (client y) (client z) \<and> (\<forall>w. w \<noteq> v \<longrightarrow> abs_tree (server z) w = abs_tree (server y) w) \<and> sview (server z) = sview (server y)"
    if "ok (Suc (Suc (4 * n + k))) y" for y v
    using that by (intro exI [of _ y]) (simp add: same_nodes_def)
  from run_create_destroy [OF ok Suc.prems(2,3) assms(4) [rule_format, OF ok] assms(5,6), of "\<lambda>q. Done ()" "()" "4 * n + k" False
      "\<lambda>_. create_delete_loop n p name", OF this] obtain y where
    y: "run (create_delete_loop (Suc n) p name) x = run (create_delete_loop n p name) y" "ok (4 * n + k) y" "undone p u x y"
    by (auto cong: if_cong)
  have "at (client y) p u" "abs_tree (server y) = abs_tree (server x)" using y(3) by (simp_all add: undone_def)
  with Suc.IH [OF y(2)] same_children [OF ok y(2)] Suc.prems(3) obtain z where
    "run (create_delete_loop n p name) y = Inr (z, True)" "ok k z" "undone p u y z" by auto
  with y \<open>abs_tree (server y) = abs_tree (server x)\<close> show ?case by (intro exI [of _ z]) (simp add: undone_def)
qed

lemma run_set_get_loop:
  assumes "ok (4 * n + k) x" "at (client x) q v" "v \<noteq> 0" "svalue (server x) v \<noteq> None"
    and "\<forall>i. fits (ask_set v (as_bytes32 i))" "fits (GetRequest \<lparr>GetRequest_uuid = v\<rparr>)"
  shows "\<exists>y. run (set_get_loop n i q) x = Inr (y, True) \<and> ok k y \<and> steady (client x) (client y) \<and>
    same_nodes (client x) (client y) \<and> (\<forall>w. w \<noteq> v \<longrightarrow> abs_tree (server y) w = abs_tree (server x) w) \<and>
    sview (server y) = sview (server x)"
  using assms(1,2,4)
proof (induction n arbitrary: x i)
  case 0
  then show ?case by (intro exI [of _ x]) (simp add: same_nodes_def)
next
  case (Suc n)
  let ?bs = "as_bytes32 i"
  have ok: "ok (Suc (Suc (Suc (Suc (4 * n + k))))) x" using Suc.prems(1) by (simp add: numeral_eq_Suc)
  from run_assign [OF ok Suc.prems(2), of ?bs] assms(3,5) obtain y where y: "run (prop_assign ?bs q) x = Inr (y, ())"
    "ok (Suc (Suc (4 * n + k))) y" "does self (ask_set v ?bs) (server x) (server y)" "steady (client x) (client y)"
    "same_nodes (client x) (client y)" by blast
  have v: "tree (server x) v \<noteq> None" using Suc.prems(3) by (simp add: svalue_def)
  note set = does_set [OF y(3) v]
  have other: "\<forall>w. w \<noteq> v \<longrightarrow> abs_tree (server y) w = abs_tree (server x) w"
    using y(3) v by (auto simp: does_def abs_tree_Some)
  have at: "at (client y) q v" using at_same [OF Suc.prems(2) y(4)] y(5) by (simp add: same_nodes_def)
  from run_fetch [OF y(2) at, of ?bs] set(2) assms(6) obtain z where z: "run (prop_fetch q) y = Inr (z, ())" "ok (4 * n + k) z"
    "server z = server y" "steady (client y) (client z)" "same_nodes (client y) (client z)"
    "cvalue (client z) = (cvalue (client y))(v \<mapsto> ?bs)" by auto
  have at': "at (client z) q v" using at_same [OF at z(4)] z(5) by (simp add: same_nodes_def)
  have four: "length ?bs = 4" by (simp add: as_bytes32_def)
  from run_value [OF at', of ?bs 4] z(6) have val: "run (prop_value 4 q) z = Inr (z, Some ?bs)" by (simp add: four)
  from Suc.IH [OF z(2) at', of "Suc i"] set(2) z(3) obtain t where t: "run (set_get_loop n (Suc i) q) z = Inr (t, True)" "ok k t"
    "steady (client z) (client t)" "same_nodes (client z) (client t)"
    "\<forall>w. w \<noteq> v \<longrightarrow> abs_tree (server t) w = abs_tree (server z) w" "sview (server t) = sview (server z)" by auto
  have "steady (client x) (client t)" "same_nodes (client x) (client t)"
    using y(4,5) z(4,5) t(3,4) steady_trans same_nodes_trans by blast+
  then show ?case using y(1) z(1,3) val t(1,2,5,6) other set(1) by (intro exI [of _ t]) (simp add: run_bindP)
qed

lemma run_SetGetBasic:
  assumes "ok (4004 + k) x" "at (client x) p u" "child_uuid (server x) u ''value'' = None" "public x u"
    and "fits (ask_create u ''value'')" "\<forall>v. fits (ask_delete v)"
    and "\<forall>v i. fits (ask_set v (as_bytes32 i))" "\<forall>v. fits (GetRequest \<lparr>GetRequest_uuid = v\<rparr>)"
  shows "\<exists>y. run (SetGetBasic p) x = Inr (y, True) \<and> ok k y \<and> undone p u x y"
proof -
  define n :: nat where "n = 1000"
  have ok: "ok (Suc (Suc (4 * n + Suc (Suc k)))) x" using assms(1) by (simp add: n_def)
  have body: "\<exists>z. run (set_get_loop n 0 q) y = Inr (z, True) \<and> ok (Suc (Suc k)) z \<and> steady (client y) (client z) \<and>
      same_nodes (client y) (client z) \<and> (\<forall>w. w \<noteq> v \<longrightarrow> abs_tree (server z) w = abs_tree (server y) w) \<and> sview (server z) = sview (server y)"
    if "ok (4 * n + Suc (Suc k)) y" "at (client y) q v" "v \<noteq> 0" "svalue (server y) v \<noteq> None" for y q v
    using run_set_get_loop [OF that] assms(7,8) by simp
  have "SetGetBasic p = bindP (prop_create ''value'' p) (\<lambda>q. if \<not> to_bool q then Done False
      else bindP (set_get_loop n 0 q) (\<lambda>a. bindP (prop_destroy q) (\<lambda>_. Done a)))"
    by (simp only: SetGetBasic_def n_def)
  with run_create_destroy [OF ok assms(2-6) body, where f = Done and d = False] show ?thesis by simp
qed

lemma run_beat_loop:
  assumes "ok (2 * n + k) x" "fits (HearbeatRequest \<lparr>HearbeatRequest_spare = 0\<rparr>)"
  shows "\<exists>y. run (beat_loop n) x = Inr (y, ()) \<and> ok k y \<and> server y = server x"
  using assms(1)
proof (induction n arbitrary: x)
  case (Suc n)
  have "ok (Suc (Suc (2 * n + k))) x" using Suc.prems by simp
  from run_beat [OF this assms(2)] obtain y where "run client_beat x = Inr (y, ())" "ok (2 * n + k) y" "server y = server x" by blast
  with Suc.IH [of y] show ?case by (auto simp: run_bindP)
qed auto

text \<open>A test that runs a workload several times.\<close>

lemma run_all_of:
  assumes "ok (n * j + k) x"
    and "\<And>l k y. l < i + n \<Longrightarrow> ok (j + k) y \<Longrightarrow> abs_tree (server y) = abs_tree (server x) \<Longrightarrow>
      \<exists>z. run (f l) y = Inr (z, True) \<and> ok k z \<and> abs_tree (server z) = abs_tree (server y)"
  shows "\<exists>y. run (all_of n i f) x = Inr (y, True) \<and> ok k y \<and> abs_tree (server y) = abs_tree (server x)"
  using assms
proof (induction n arbitrary: x i)
  case (Suc n)
  have "ok (j + (n * j + k)) x" using Suc.prems(1) by (simp add: algebra_simps)
  with Suc.prems(2) [of i] obtain y where y: "run (f i) x = Inr (y, True)" "ok (n * j + k) y"
    "abs_tree (server y) = abs_tree (server x)" by force
  with Suc.IH [OF y(2), of "Suc i"] Suc.prems(2) show ?case by (auto simp: run_bindP)
qed auto

text \<open>The tests pass, and leave the tree as they found it.\<close>

lemma run_shouldSingleAddDeleteNode:
  assumes "ok (8 * 201 + k) x" "\<forall>i<8. child_uuid (server x) 0 (''CreateDeleteSingle'' @ decimal i) = None"
    and "\<forall>y j. ok j y \<longrightarrow> public y 0" "\<forall>i<8. fits (ask_create 0 (''CreateDeleteSingle'' @ decimal i))" "\<forall>v. fits (ask_delete v)"
  shows "\<exists>y. run shouldSingleAddDeleteNode x = Inr (y, True) \<and> ok k y \<and> abs_tree (server y) = abs_tree (server x)"
  unfolding shouldSingleAddDeleteNode_def
proof (rule run_all_of [OF assms(1)])
  fix i j y assume "i < 0 + (8::nat)" and y: "ok (201 + j) y" "abs_tree (server y) = abs_tree (server x)"
  then have i: "i < 8" by simp
  define n :: nat where "n = 50"
  have "ok (Suc (4 * n + j)) y" using y(1) by (simp add: n_def)
  from run_root [OF this] obtain z r where z: "run client_root y = Inr (z, r)" "ok (4 * n + j) z" "server z = server y"
    "at (client z) r 0" by blast
  have "child_uuid (server z) 0 (''CreateDeleteSingle'' @ decimal i) = None"
    using same_children [OF assms(1) y] z(3) assms(2) i by simp
  from run_create_delete_loop [OF z(2,4) this assms(3) assms(4) [rule_format] assms(5)] i obtain t where
    "run (create_delete_loop n r (''CreateDeleteSingle'' @ decimal i)) z = Inr (t, True)" "ok j t" "undone r 0 z t" by blast
  then show "\<exists>z. run (bindP client_root (\<lambda>r. CreateDelete r (''CreateDeleteSingle'' @ decimal i))) y = Inr (z, True) \<and> ok j z \<and>
      abs_tree (server z) = abs_tree (server y)"
    using z(1,3) by (intro exI [of _ t]) (simp add: run_bindP CreateDelete_def undone_def flip: n_def)
qed

lemma run_shouldSingleSetGet:
  assumes "ok (8 * 4005 + k) x" "child_uuid (server x) 0 ''value'' = None"
    and "\<forall>y j. ok j y \<longrightarrow> public y 0" "fits (ask_create 0 ''value'')" "\<forall>v. fits (ask_delete v)"
    and "\<forall>v i. fits (ask_set v (as_bytes32 i))" "\<forall>v. fits (GetRequest \<lparr>GetRequest_uuid = v\<rparr>)"
  shows "\<exists>y. run shouldSingleSetGet x = Inr (y, True) \<and> ok k y \<and> abs_tree (server y) = abs_tree (server x)"
  unfolding shouldSingleSetGet_def
proof (rule run_all_of [OF assms(1)])
  fix j y assume y: "ok (4005 + j) y" "abs_tree (server y) = abs_tree (server x)"
  have "ok (Suc (4004 + j)) y" using y(1) by simp
  from run_root [OF this] obtain z r where z: "run client_root y = Inr (z, r)" "ok (4004 + j) z" "server z = server y"
    "at (client z) r 0" by blast
  have "child_uuid (server z) 0 ''value'' = None" using same_children [OF assms(1) y] z(3) assms(2) by simp
  from run_SetGetBasic [OF z(2,4) this assms(3) [rule_format, OF z(2)] assms(4-7)] z show
    "\<exists>z. run (bindP client_root SetGetBasic) y = Inr (z, True) \<and> ok j z \<and> abs_tree (server z) = abs_tree (server y)"
    by (auto simp: run_bindP undone_def)
qed

lemma run_shouldHeartbeatSingle:
  assumes "ok (8 * 2000 + k) x" "fits (HearbeatRequest \<lparr>HearbeatRequest_spare = 0\<rparr>)"
  shows "\<exists>y. run shouldHeartbeatSingle x = Inr (y, True) \<and> ok k y \<and> abs_tree (server y) = abs_tree (server x)"
  unfolding shouldHeartbeatSingle_def
proof (rule run_all_of [OF assms(1)])
  fix j y assume "ok (2000 + j) y"
  define n :: nat where "n = 1000"
  have "ok (2 * n + j) y" using \<open>ok (2000 + j) y\<close> by (simp add: n_def)
  from run_beat_loop [OF this assms(2)] obtain z where "run (beat_loop n) y = Inr (z, ())" "ok j z" "server z = server y" by blast
  then show "\<exists>z. run (bindP Beat (\<lambda>_. Done True)) y = Inr (z, True) \<and> ok j z \<and> abs_tree (server z) = abs_tree (server y)"
    by (intro exI [of _ z]) (simp add: run_bindP Beat_def flip: n_def)
qed

end

end
