(* ===== verification/Shared.thy ===== *)
theory Shared
  imports World Clean Workloads
begin

text \<open>
  A client that shares its server with others provides the interface \<open>operations\<close> as one that is alone
  does (\<open>shared\<close>): programs run among idle clients do what they do alone. What is known of the others
  meanwhile is a list of notes.
\<close>

section \<open>Notes about the others\<close>

text \<open>
  A client noted a handle to a node and has a value and a handler for it, which a program of another
  client that spares the node does not change.
\<close>

record Note =
  n_conn :: conn
  n_session :: u32
  n_node :: u64
  n_ref :: cref
  n_value :: "u8 list"
  n_handler :: "(u8 list \<Rightarrow> u8 list) option"

definition noted :: "World \<Rightarrow> Note \<Rightarrow> bool" where
  "noted W n \<longleftrightarrow> (let c = client_at (n_conn n) W in n_conn n \<in> set (conns W) \<and>
     session_of (w_server W) (n_conn n) = Some (n_session n) \<and> ctree c (n_node n) = Some (n_ref n) \<and>
     n_ref n \<in> set (c_held c) \<and> cvalue c (n_node n) = Some (n_value n) \<and> cn_rcpHandler (c_heap c (n_ref n)) = n_handler n)"

definition spares :: "Note list \<Rightarrow> PropertyTreeMessages \<Rightarrow> bool" where
  "spares K q \<longleftrightarrow> (\<forall>n\<in>set K. q \<noteq> ask_delete (n_node n) \<and> (\<forall>d. q \<noteq> ask_set (n_node n) d))"

definition shares :: "conn \<Rightarrow> Note list \<Rightarrow> nat \<Rightarrow> World \<Rightarrow> bool" where
  "shares w K k W \<longleftrightarrow> world_ok k W \<and> w \<in> set (conns W) \<and> (\<forall>n\<in>set K. n_conn n \<noteq> w \<and> noted W n)"

lemma shares_usable: "shares w K k W \<Longrightarrow> usable w k (w_server W, client_at w W)"
  unfolding shares_def by (blast intro: world_ok_usable)

lemma shares_mono: "shares w K k W \<Longrightarrow> j \<le> k \<Longrightarrow> shares w K j W"
  unfolding shares_def using world_ok_mono by blast

lemma spares_other: "(\<And>u. q \<noteq> ask_delete u) \<Longrightarrow> (\<And>u d. q \<noteq> ask_set u d) \<Longrightarrow> spares K q"
  by (simp add: spares_def)

text \<open>A note stays true while another client's request spares the node.\<close>

lemma noted_bystands:
  assumes h: "noted W n" and use: "usable (n_conn n) k (w_server W, client_at (n_conn n) W)" and cn: "conns W' = conns W"
    and b: "bystands (n_conn n) q (w_server W) (w_server W') (client_at (n_conn n) W) (client_at (n_conn n) W')"
    and q: "q \<noteq> ask_delete (n_node n)" "\<And>d. q \<noteq> ask_set (n_node n) d"
  shows "noted W' n"
proof -
  let ?c = "client_at (n_conn n) W" and ?d = "client_at (n_conn n) W'"
  have c: "ctree ?c (n_node n) = Some (n_ref n)" using h by (simp add: noted_def Let_def)
  obtain p where "tree (w_server W) (n_node n) = Some p" using usable_node [OF use c] .
  with b q(1) have "tree (w_server W') (n_node n) \<noteq> None" by (simp add: bystands_def)
  moreover have "n_ref n < c_next ?c" using tree_live [OF usable_wf(1) [OF use] c] by simp
  ultimately show ?thesis
    using h b q cn by (auto simp: noted_def bystands_def stays_def same_handlers_def steady_def Let_def)
qed

text \<open>What changes only the client itself changes nothing about the others.\<close>

lemma shares_put:
  assumes "shares w K k W" "usable w k (w_server W, c)" "idle c"
  shows "shares w K k (put_client w c W)"
  using assms conns_put(1) [of w W c] by (auto simp: shares_def world_ok_def noted_def Let_def simp del: usable.simps)

lemma shares_step:
  assumes sh: "shares w K (Suc k) W" and run: "perform L w (conns W) op (w_server W, client_at w W) = Inr ((s', c'), v)"
    and v: "\<And>x. v \<noteq> RThrow x" and use: "usable w k (s', c')"
    and call: "\<forall>q. op_request op (client_at w W) = Inr (Ask q) \<longrightarrow> no_call q \<and> spares K q"
    and par: "parents_known W s'"
  shows "\<exists>W'. world_perform L w op W = Inr (W', v) \<and> shares w K k W' \<and> w_server W' = s' \<and> client_at w W' = c'"
proof -
  have ok: "world_ok (Suc k) W" and w: "w \<in> set (conns W)" and K: "\<And>n. n \<in> set K \<Longrightarrow> n_conn n \<noteq> w \<and> noted W n"
    using sh by (simp_all add: shares_def)
  from world_step [OF ok w run v use _ par] call obtain W' where W': "world_perform L w op W = Inr (W', v)" "w_server W' = s'"
    "client_at w W' = c'" "conns W' = conns W" "world_ok k W'"
    "others w (\<lambda>_. (=)) W W' \<and> s' = w_server W \<and> unasked L op (client_at w W) \<or> (\<exists>q. op_request op (client_at w W) = Inr (Ask q) \<and>
      others w (\<lambda>v. bystands v q (w_server W) s') W W')" by blast
  have "noted W' n" if n: "n \<in> set K" for n
  proof -
    have h: "noted W n" and d: "n_conn n \<in> set (conns W)" "n_conn n \<noteq> w" using K [OF n] by (auto simp: noted_def Let_def)
    from W'(6) show ?thesis
    proof
      assume "others w (\<lambda>_. (=)) W W' \<and> s' = w_server W \<and> unasked L op (client_at w W)"
      with h d W'(2,4) show ?thesis by (auto simp: others_def noted_def Let_def)
    next
      assume "\<exists>q. op_request op (client_at w W) = Inr (Ask q) \<and> others w (\<lambda>v. bystands v q (w_server W) s') W W'"
      then obtain q where q: "op_request op (client_at w W) = Inr (Ask q)" "others w (\<lambda>v. bystands v q (w_server W) s') W W'" by blast
      from call q(1) n have "q \<noteq> ask_delete (n_node n)" "\<And>d. q \<noteq> ask_set (n_node n) d" by (auto simp: spares_def)
      with noted_bystands [OF h world_ok_usable [OF ok d(1)] W'(4)] q(2) d W'(2) show ?thesis by (auto simp: others_def)
    qed
  qed
  with W' K w show ?thesis by (auto simp: shares_def)
qed

text \<open>The same for operations that create nothing.\<close>

lemma shares_step_old:
  assumes "shares w K (Suc k) W" "perform L w (conns W) op (w_server W, client_at w W) = Inr ((s', c'), v)"
    and "\<And>x. v \<noteq> RThrow x" "usable w k (s', c')"
    and "\<forall>q. op_request op (client_at w W) = Inr (Ask q) \<longrightarrow> no_call q \<and> spares K q"
    and "sview s' \<subseteq>\<^sub>m sview (w_server W)"
  shows "\<exists>W'. world_perform L w op W = Inr (W', v) \<and> shares w K k W' \<and> w_server W' = s' \<and> client_at w W' = c'"
proof (rule shares_step [OF assms(1-5)])
  show "parents_known W s'" using assms(6) unfolding parents_known_def map_le_def by (metis domI option.distinct(1))
qed

section \<open>Clients among others provide the operations\<close>

text \<open>A node every client knows.\<close>

definition known_to_all :: "World \<Rightarrow> u64 \<Rightarrow> bool" where
  "known_to_all W u \<longleftrightarrow> (\<forall>v\<in>set (conns W). ctree (client_at v W) u \<noteq> None)"

fun plain_op :: "Op \<Rightarrow> bool" where
  "plain_op (OpCall h v) = False"
| "plain_op (OpDestroy h) = False"
| "plain_op (OpCommit h) = False"
| "plain_op op = True"

lemma asked_other:
  assumes "plain_op op"
  shows "\<forall>q. op_request op c = Inr (Ask q) \<longrightarrow> no_call q \<and> spares K q"
proof (intro allI impI)
  fix q assume "op_request op c = Inr (Ask q)"
  with assms have "no_call q \<and> (\<forall>u. q \<noteq> ask_delete u) \<and> (\<forall>u d. q \<noteq> ask_set u d)"
    by (cases op) (auto simp: signin_request_def root_request_def create_request_def get_request_def fetch_request_def
      subscribe_request_def unsubscribe_request_def beat_request_def deref_def Let_def split: option.splits if_splits)
  then show "no_call q \<and> spares K q" by (auto simp: spares_def)
qed

lemma asked_destroy:
  assumes "tree_wf c" "ctree c u = Some r" "spares K (ask_delete u)"
  shows "\<forall>q. op_request (OpDestroy (Some r)) c = Inr (Ask q) \<longrightarrow> no_call q \<and> spares K q"
  using tree_uuid [OF assms(1,2)] assms(3) by (auto simp: destroy_request_def deref_def)

lemma asked_commit:
  assumes "tree_wf c" "ctree c u = Some r" "spares K (ask_set u (cn_data (c_heap c r)))"
  shows "\<forall>q. op_request (OpCommit (Some r)) c = Inr (Ask q) \<longrightarrow> no_call q \<and> spares K q"
  using tree_uuid [OF assms(1,2)] assms(3) by (auto simp: commit_request_def deref_def)

lemma usable_tree_wf: "shares w K k W \<Longrightarrow> tree_wf (client_at w W)"
  using usable_wf(1) [OF shares_usable] .

interpretation shared: operations "world_perform L w" w_server "client_at w" "put_client w" w "shares w K" known_to_all
    "\<lambda>q. sends L q \<and> spares K q"
  for L w K
proof (unfold_locales, goal_cases)
  case (3 k W j)
  then show ?case by (rule shares_mono)
next
  case (4 k W)
  then show ?case by (rule shares_usable)
next
  case (5 k W r f)
  then show ?case
    by (intro shares_put usable_write [OF shares_usable]) (auto simp: shares_def world_ok_def write_node_def simp del: usable.simps)
next
  case (6 k W rs)
  then show ?case
    by (intro shares_put usable_hold [OF shares_usable]) (auto simp: shares_def world_ok_def hold_def simp del: usable.simps)
next
  case (7 k W r h)
  then show ?case
    by (intro shares_put usable_rcp [OF shares_usable]) (auto simp: shares_def world_ok_def with_rcpHandler_def simp del: usable.simps)
next
  case (8 k W r b)
  then show ?case
    by (intro shares_put usable_watch [OF shares_usable]) (auto simp: shares_def world_ok_def with_updateHandler_def simp del: usable.simps)
next
  case (9 k W op)
  note use = shares_usable [OF 9(1)]
  have "may_start 0 op (client_at w W)" by (rule usable_start [OF use]) (use 9(2,3) in auto)
  with null_request [OF 9(2,3)] show ?case by (simp add: world_perform_def start_def)
next
  case (10 k W r)
  from perform_root [OF shares_usable [OF 10(1)] 10(2), of L "conns W"] obtain c' where
    c': "perform L w (conns W) OpRoot (w_server W, client_at w W) = Inr ((w_server W, c'), RProperty (Some r))"
      "usable w k (w_server W, c')" "learns (client_at w W) c'" "r \<in> set (c_held c')" by blast
  from shares_step_old [OF 10(1) c'(1) _ c'(2) asked_other] c' show ?case by auto
next
  case (11 k W u r n)
  from perform_get [OF shares_usable [OF 11(1)] 11(2-4), of L "conns W"] 11(5) obtain c' h where
    c': "perform L w (conns W) (OpGet (Some r) n False) (w_server W, client_at w W) = Inr ((w_server W, c'), RProperty h)"
      "usable w k (w_server W, c')" "learns (client_at w W) c'" "finds c' (child_uuid (w_server W) u n) h" by blast
  have "shares w K (Suc k) W" by (rule shares_mono [OF 11(1)]) simp
  from shares_step_old [OF this c'(1) _ c'(2) asked_other] c' show ?case by auto
next
  case (12 k W u r p)
  from perform_load [OF shares_usable [OF 12(1)] 12(2-4), of L "conns W"] 12(5) obtain c' where
    c': "perform L w (conns W) (OpGet (Some r) ''.'' True) (w_server W, client_at w W) = Inr ((w_server W, c'), RProperty (Some r))"
      "usable w k (w_server W, c')" "learns (client_at w W) c'" "knows_below c' (w_server W) p" by blast
  have "shares w K (Suc k) W" by (rule shares_mono [OF 12(1)]) simp
  from shares_step_old [OF this c'(1) _ c'(2) asked_other] c' show ?case by auto
next
  case (13 k W u r n v)
  from perform_create_taken [OF shares_usable [OF 13(1)] 13(2-4), of L "conns W"] 13(5) obtain c' where
    c': "perform L w (conns W) (OpCreate (Some r) n) (w_server W, client_at w W) =
        Inr ((w_server W, c'), RProperty (cchild (client_at w W) r n))"
      "usable w k (w_server W, c')" "learns (client_at w W) c'"
      "\<forall>d. cchild (client_at w W) r n = Some d \<longrightarrow> ctree c' v = Some d \<and> d \<in> set (c_held c')" by blast
  have "shares w K (Suc k) W" by (rule shares_mono [OF 13(1)]) simp
  from shares_step_old [OF this c'(1) _ c'(2) asked_other] c' show ?case by auto
next
  case (14 k W u r n)
  note use = shares_usable [OF 14(1)]
  from perform_create [OF use 14(2-4), of L "conns W"] 14(6) obtain s' c' d where
    c': "perform L w (conns W) (OpCreate (Some r) n) (w_server W, client_at w W) = Inr ((s', c'), RProperty (Some d))"
      "usable w k (s', c')" "learns (client_at w W) c'" "does w (ask_create u n) (w_server W) s'"
      "ctree c' (ucast (mUuidCtr (w_server W))) = Some d" "d \<in> set (c_held c')" by blast
  obtain p where p: "tree (w_server W) u = Some p" using usable_node [OF use 14(2)] .
  have "session_of (w_server W) w \<noteq> None" using use by simp
  from does_created(4) [OF usable_wf(2) [OF use] this _ 14(4) c'(4)] p
  have "sview s' = (sview (w_server W))(ucast (mUuidCtr (w_server W)) \<mapsto> (n, Some u))" by simp
  then have par: "parents_known W s'" using 14(5) by (auto simp: parents_known_def known_to_all_def simp del: sview_None split: if_splits)
  have "shares w K (Suc k) W" by (rule shares_mono [OF 14(1)]) simp
  from shares_step [OF this c'(1) _ c'(2) asked_other par] c' show ?case by auto
next
  case (15 k W v r u p n)
  note use = shares_usable [OF 15(1)]
  from perform_destroy [OF use 15(2-7), of L "conns W"] 15(8) obtain s' c' where
    c': "perform L w (conns W) (OpDestroy (Some r)) (w_server W, client_at w W) = Inr ((s', c'), RBool True)"
      "usable w k (s', c')" "steady (client_at w W) c'" "does w (ask_delete v) (w_server W) s'" "pruned v p n (client_at w W) c'" by blast
  obtain d where "tree (w_server W) v = Some d" using usable_node [OF use 15(2)] .
  then have "sview s' = (sview (w_server W))(v := None)" using does_deleted(2) [OF c'(4) _ 15(7)] by simp
  then have le: "sview s' \<subseteq>\<^sub>m sview (w_server W)" by (auto simp: map_le_def)
  have "shares w K (Suc k) W" by (rule shares_mono [OF 15(1)]) simp
  moreover have "spares K (ask_delete v)" using 15(8) by simp
  ultimately show ?case using shares_step_old [OF _ c'(1) _ c'(2) asked_destroy [OF usable_tree_wf [OF 15(1)] 15(2)] le] c' by auto
next
  case (16 k W v r)
  from perform_destroy_refused [OF shares_usable [OF 16(1)] 16(2-4), of L "conns W"] 16(5) obtain c' where
    c': "perform L w (conns W) (OpDestroy (Some r)) (w_server W, client_at w W) = Inr ((w_server W, c'), RBool False)"
      "usable w k (w_server W, c')" "learns (client_at w W) c'" by blast
  have "shares w K (Suc k) W" by (rule shares_mono [OF 16(1)]) simp
  moreover have "spares K (ask_delete v)" using 16(5) by simp
  ultimately show ?case using shares_step_old [OF _ c'(1) _ c'(2) asked_destroy [OF usable_tree_wf [OF 16(1)] 16(2)]] c' by auto
next
  case (17 k W u r d)
  from perform_commit [OF shares_usable [OF 17(1)] 17(2-5), of L "conns W"] 17(6) obtain s' c' where
    c': "perform L w (conns W) (OpCommit (Some r)) (w_server W, client_at w W) = Inr ((s', c'), RUnit)"
      "usable w k (s', c')" "sview s' = sview (w_server W)" "steady (client_at w W) c'" "same_tree (client_at w W) c'"
      "does w (ask_set u d) (w_server W) s'" by blast
  have "shares w K (Suc k) W" by (rule shares_mono [OF 17(1)]) simp
  moreover have "spares K (ask_set u (cn_data (c_heap (client_at w W) r)))" using 17(4,6) by simp
  ultimately show ?case using shares_step_old [OF _ c'(1) _ c'(2) asked_commit [OF usable_tree_wf [OF 17(1)] 17(2)]] c' by auto
next
  case (18 k W u r d)
  from perform_fetch [OF shares_usable [OF 18(1)] 18(2-4), of L "conns W"] 18(5) obtain c' where
    c': "perform L w (conns W) (OpFetch (Some r)) (w_server W, client_at w W) = Inr ((w_server W, c'), RUnit)"
      "usable w k (w_server W, c')" "cn_data (c_heap c' r) = d"
      "\<forall>z. z \<noteq> r \<longrightarrow> cn_data (c_heap c' z) = cn_data (c_heap (client_at w W) z)"
      "steady (client_at w W) c'" "same_nodes (client_at w W) c'" by blast
  have "shares w K (Suc k) W" by (rule shares_mono [OF 18(1)]) simp
  from shares_step_old [OF this c'(1) _ c'(2) asked_other] c' show ?case by auto
next
  case (19 k W u r)
  from perform_subscribe [OF shares_usable [OF 19(1)] 19(2,3), of L "conns W"] 19(4) obtain s' c' where
    c': "perform L w (conns W) (OpSubscribe (Some r)) (w_server W, client_at w W) = Inr ((s', c'), RBool True)"
      "usable w k (s', c')" "steady (client_at w W) c'" "same_tree (client_at w W) c'"
      "does w (SubscribeRequest \<lparr>SubscribeRequest_uuid = u\<rparr>) (w_server W) s'" by blast
  have "shares w K (Suc k) W" by (rule shares_mono [OF 19(1)]) simp
  from shares_step_old [OF this c'(1) _ c'(2) asked_other] does_quiet(1) [OF c'(5)] c' show ?case by auto
next
  case (20 k W u r i)
  from perform_unsubscribe [OF shares_usable [OF 20(1)] 20(2-5), of L "conns W"] 20(6) obtain s' c' where
    c': "perform L w (conns W) (OpUnsubscribe (Some r)) (w_server W, client_at w W) = Inr ((s', c'), RBool True)"
      "usable w k (s', c')" "steady (client_at w W) c'" "same_tree (client_at w W) c'"
      "does w (UnsubscribeRequest \<lparr>UnsubscribeRequest_uuid = u\<rparr>) (w_server W) s'" by blast
  have "shares w K (Suc k) W" by (rule shares_mono [OF 20(1)]) simp
  from shares_step_old [OF this c'(1) _ c'(2) asked_other] does_quiet(1) [OF c'(5)] c' show ?case by auto
next
  case (21 k W)
  from perform_beat [OF shares_usable [OF 21(1)], of L "conns W"] 21(2) obtain c' where
    c': "perform L w (conns W) OpBeat (w_server W, client_at w W) = Inr ((w_server W, c'), RUnit)"
      "usable w k (w_server W, c')" "steady (client_at w W) c'" "same_tree (client_at w W) c'" by blast
  have "shares w K (Suc k) W" by (rule shares_mono [OF 21(1)]) simp
  from shares_step_old [OF this c'(1) _ c'(2) asked_other] c' show ?case by auto
qed (simp_all)

end
