(* ===== verification/WorldOps.thy ===== *)
theory WorldOps
  imports Shared
begin

text \<open>
  What clients that share a server do to each other: clients come and go, a value that one sets
  reaches those who have subscribed to it, and a call is answered by the client that owns the node.
\<close>

section \<open>Coming\<close>

abbreviation ask_signin :: PropertyTreeMessages where
  "ask_signin \<equiv> SigninRequest \<lparr>SigninRequest_spare = 0\<rparr>"

text \<open>Nobody but the new client is sent anything when it signs in.\<close>

lemma signin_handled:
  assumes "proto_inv (Suc k) s"
  shows "\<exists>s'. handle held t ask_signin w s = Inr (s', [Send w (single t (SigninAccept \<lparr>SigninAccept_sessionId = 0\<rparr>))]) \<and>
    proto_inv k s' \<and> abs_tree s' = abs_tree s \<and> session_of s' w \<noteq> None \<and> (\<forall>v. v \<noteq> w \<longrightarrow> session_of s' v = session_of s v)"
proof -
  obtain s' where s': "handle held t ask_signin w s = Inr (s', [Send w (single t (SigninAccept \<lparr>SigninAccept_sessionId = 0\<rparr>))])"
    "session_of s' w \<noteq> None" "\<forall>v. v \<noteq> w \<longrightarrow> session_of s' v = session_of s v"
    by (simp add: handle_SigninRequest_def Let_def) (auto simp: map_of_um_emplace split: option.split)
  moreover have "abs_tree s' = abs_tree s" using other_handle [OF assms s'(1)] by simp
  ultimately show ?thesis using inv_handle [OF assms s'(1)] by blast
qed

text \<open>The new client: it knows the root.\<close>

definition newcomer :: "u8 list \<Rightarrow> Client" where
  "newcomer junk = returned 0 RUnit (c_release ((init_Client junk)\<lparr>c_Tree := [(0, 0)], c_TransactioIdCtr := 1,
     c_heap := (c_heap (init_Client junk))(0 := new_ClientNode '''' None 0), c_live := (\<lambda>r. r = 0), c_next := 1,
     c_waiting := [(0, (0, OpSignin))], c_constructed := True\<rparr>))"

lemma newcomer_steps:
  assumes "sends L ask_signin"
  shows "\<exists>c1 c2 bs. client_step L (Start 0 OpSignin True) (init_Client junk) = Inr (c1, [Sent (single 0 ask_signin) bs]) \<and>
    client_handle L True (single 0 (SigninAccept \<lparr>SigninAccept_sessionId = 0\<rparr>)) c1 = Inr (c2, []) \<and>
    wait_end L c2 = Inr (newcomer junk, [Returned 0 RUnit])"
proof -
  obtain bs where bs: "client_send L True (single 0 ask_signin) = Inr bs" using assms by (auto simp: sends_def)
  let ?c1 = "(init_Client junk)\<lparr>c_TransactioIdCtr := 1, c_Transactions := [(0, new_Transaction)], c_waiting := [(0, (0, OpSignin))]\<rparr>"
  let ?m = "SigninAccept \<lparr>SigninAccept_sessionId = 0\<rparr>"
  let ?c2 = "?c1\<lparr>c_Transactions := [(0, \<lparr>satisfied = True, reply = ?m\<rparr>)]\<rparr>"
  have start: "client_step L (Start 0 OpSignin True) (init_Client junk) = Inr (?c1, [Sent (single 0 ask_signin) bs])"
    using bs by (simp add: may_start_def start_def signin_request_def addTransaction_def next_id_def init_Client_def um_emplace_def)
  have answer: "client_handle L True (single 0 ?m) ?c1 = Inr (?c2, [])"
    by (simp add: single_def client_handle_message_def)
  have "client_step L (Resume 0) ?c2 = Inr (newcomer junk, [Returned 0 RUnit])"
    by (simp add: resume_def waitTransaction_def signin_response_def make_Node_def newcomer_def init_Client_def um_emplace_def
        um_erase_def Let_def fun_upd_def)
  moreover have "map_of (c_waiting (newcomer junk)) 0 = None" by (simp add: newcomer_def um_find_erase)
  then have "client_step L (Timeout 0) (newcomer junk) = Inr (newcomer junk, [])" by (simp add: timeout_def)
  ultimately have "wait_end L ?c2 = Inr (newcomer junk, [Returned 0 RUnit])" by (simp del: client_step.simps)
  with start answer show ?thesis by blast
qed

lemma newcomer_tree: "c_Tree (newcomer junk) = [(0, 0)]" "idle (newcomer junk)" "c_constructed (newcomer junk)"
  "c_heap (newcomer junk) 0 = new_ClientNode '''' None 0" "map_of (c_waiting (newcomer junk)) 0 = None"
  by (simp_all add: newcomer_def init_Client_def um_find_erase)

lemma newcomer_inv:
  assumes "sends L ask_signin" "Suc k < 2 ^ 16"
  shows "client_inv k (newcomer junk)"
proof -
  from newcomer_steps [OF assms(1), of junk] obtain c1 c2 bs where s:
    "client_step L (Start 0 OpSignin True) (init_Client junk) = Inr (c1, [Sent (single 0 ask_signin) bs])"
    "client_handle L True (single 0 (SigninAccept \<lparr>SigninAccept_sessionId = 0\<rparr>)) c1 = Inr (c2, [])"
    "wait_end L c2 = Inr (newcomer junk, [Returned 0 RUnit])" by blast
  let ?es = "[Start 0 OpSignin True, Receive (single 0 (SigninAccept \<lparr>SigninAccept_sessionId = 0\<rparr>)) True, Resume 0, Timeout 0]"
  have "run_steps (client_step L) ?es (init_Client junk) =
      Inr (newcomer junk, [Sent (single 0 ask_signin) bs] @ [] @ [Returned 0 RUnit])"
  proof -
    have "run_steps (client_step L) (Receive (single 0 (SigninAccept \<lparr>SigninAccept_sessionId = 0\<rparr>)) True # [Resume 0, Timeout 0]) c1 =
        Inr (newcomer junk, [] @ [Returned 0 RUnit])"
      by (subst run_steps.simps(2)) (use s(2,3) in \<open>simp del: run_steps.simps client_handle.simps\<close>)
    then show ?thesis by (subst run_steps.simps(2)) (use s(1) in \<open>simp del: run_steps.simps client_step.simps\<close>)
  qed
  from client_reachable [OF _ this, of k] assms(2) show ?thesis by simp
qed

lemma newcomer_usable:
  assumes "sends L ask_signin" "Suc k < 2 ^ 16" "proto_inv k s" "sview s 0 = Some ('''', None)" "session_of s w \<noteq> None"
  shows "usable w k (s, newcomer junk)"
proof -
  have "links_ok (newcomer junk)"
    by (auto simp: links_ok_def linked_def newcomer_tree new_ClientNode_def split: if_splits)
  moreover have "cview (newcomer junk) = [0 \<mapsto> ('''', None)]"
    by (auto simp: cview_def node_view_def newcomer_tree new_ClientNode_def fun_eq_iff)
  with assms(4) have "knows (newcomer junk) s" by (simp add: map_le_def)
  ultimately show ?thesis using newcomer_inv [OF assms(1,2)] assms(3,5) by (simp add: newcomer_tree)
qed

text \<open>A client joins: the others do not notice.\<close>

lemma connect_ok:
  assumes ok: "world_ok (Suc k) W" and new: "w \<notin> set (conns W)" and send: "sends L ask_signin" and k: "Suc k < 2 ^ 16"
    and K: "\<forall>n\<in>set K. noted W n"
  shows "\<exists>W'. connect L w junk W = Inr (W', RUnit) \<and> shares w K k W' \<and> conns W' = conns W @ [w] \<and>
    abs_tree (w_server W') = abs_tree (w_server W) \<and> (\<forall>v\<in>set (conns W). client_at v W' = client_at v W) \<and>
    (\<forall>v. v \<noteq> w \<longrightarrow> session_of (w_server W') v = session_of (w_server W) v) \<and> client_at w W' = newcomer junk"
proof -
  let ?s = "w_server W" and ?W = "put_client w (init_Client junk) W"
  have inv: "proto_inv (Suc k) ?s" and root: "sview ?s 0 = Some ('''', None)" and dis: "distinct (conns W)"
    using ok by (simp_all add: world_ok_def)
  from newcomer_steps [OF send, of junk] obtain c1 c2 bs where c:
    "client_step L (Start 0 OpSignin True) (init_Client junk) = Inr (c1, [Sent (single 0 ask_signin) bs])"
    "client_handle L True (single 0 (SigninAccept \<lparr>SigninAccept_sessionId = 0\<rparr>)) c1 = Inr (c2, [])"
    "wait_end L c2 = Inr (newcomer junk, [Returned 0 RUnit])" by blast
  from signin_handled [OF inv, of "conns W @ [w]" 0 w] obtain s' where
    s': "handle (conns W @ [w]) 0 ask_signin w ?s = Inr (s', [Send w (single 0 (SigninAccept \<lparr>SigninAccept_sessionId = 0\<rparr>))])"
    "proto_inv k s'" "abs_tree s' = abs_tree ?s" "session_of s' w \<noteq> None" "\<forall>v. v \<noteq> w \<longrightarrow> session_of s' v = session_of ?s v" by blast
  let ?V1 = "put_client w c1 W" and ?out = "[Send w (single 0 (SigninAccept \<lparr>SigninAccept_sessionId = 0\<rparr>))]"
  have cn1: "conns ?V1 = conns W @ [w]" using conns_put(2) [OF new] .
  have dis1: "distinct (conns ?V1)" using dis new cn1 by simp
  let ?R = "\<lambda>v d. d = (if v = w then c2 else client_at v W)"
  have each: "\<exists>c' o1. run_steps (client_handle L True) (inbox v ?out) (client_at v ?V1) = Inr (c', o1) \<and> sent_messages o1 = [] \<and> ?R v c'"
    for v using c(2) by (cases "v = w") (simp_all del: client_handle.simps)
  have "onMsg (conns ?V1) (single 0 ask_signin) w (w_server ?V1) = Inr (s', ?out)"
    using s'(1) cn1 by (simp add: single_def onMsg_message_def del: handle.simps)
  from serve_last [where P = ?R and L = L and n = "Suc 0", OF dis1 this each] obtain V where
    V: "serve_all L 2 [(w, single 0 ask_signin)] ?V1 = Inr V" "w_server V = s'" "conns V = conns W @ [w]"
    and at: "\<And>v. v \<in> set (conns W @ [w]) \<Longrightarrow> client_at v V = (if v = w then c2 else client_at v W)"
    unfolding cn1 numeral_2_eq_2 by blast
  let ?W' = "put_client w (newcomer junk) V"
  have cn': "conns ?W' = conns W @ [w]" using conns_put(1) [of w V] V(3) by simp
  have "client_at w V = c2" using at by simp
  then have run: "connect L w junk W = Inr (?W', RUnit)"
    using V(1) c(1,3) by (simp add: connect_def world_perform_def del: client_step.simps run_steps.simps)
  have same: "client_at v ?W' = client_at v W" if "v \<in> set (conns W)" for v
    using at [of v] that new by auto
  have views: "sview s' = sview ?s" "svalue s' = svalue ?s" using same_abs [OF s'(3)] by simp_all
  have "world_ok k ?W'"
    unfolding world_ok_def cn'
  proof (intro conjI ballI)
    fix v assume v: "v \<in> set (conns W @ [w])"
    have *: "usable v k (s', client_at v ?W') \<and> idle (client_at v ?W')"
    proof (cases "v = w")
      case True
      then show ?thesis
        using newcomer_usable [OF send k s'(2) _ s'(4)] root views(1) newcomer_tree(2) by (simp del: usable.simps)
    next
      case False
      with v have v: "v \<in> set (conns W)" by simp
      from world_ok_usable [OF ok v] client_inv_mono [of "Suc k" _ k] s'(2,5) views(1) False
      have "usable v k (s', client_at v W)" by auto
      with ok v same [OF v] show ?thesis by (simp add: world_ok_def del: usable.simps)
    qed
    show "usable v k (w_server ?W', client_at v ?W')" "idle (client_at v ?W')" using * V(2) by (simp_all del: usable.simps)
  qed (use dis new s'(2) root views(1) V(2) in simp_all)
  moreover have "noted ?W' n \<and> n_conn n \<noteq> w" if "n \<in> set K" for n
  proof -
    have n: "noted W n" using K that by blast
    then have d: "n_conn n \<in> set (conns W)" by (simp add: noted_def Let_def)
    with new have "n_conn n \<noteq> w" by blast
    moreover have "noted ?W' n"
      unfolding noted_def Let_def same [OF d] using n d s'(5) cn' V(2) calculation by (simp add: noted_def Let_def)
    ultimately show ?thesis by blast
  qed
  ultimately have "shares w K k ?W'" using cn' by (simp add: shares_def)
  with run cn' s'(3,5) same V(2) show ?thesis by (intro exI [of _ ?W']) simp
qed

section \<open>Going\<close>

lemma leave_ok:
  assumes ok: "world_ok k W" and K: "\<forall>n\<in>set K. noted W n \<and> n_conn n \<noteq> w"
  shows "\<exists>W'. leave w W = Inr W' \<and> world_ok k W' \<and> conns W' = filter (\<lambda>v. v \<noteq> w) (conns W) \<and>
    abs_tree (w_server W') = abs_tree (w_server W) \<and> (\<forall>n\<in>set K. noted W' n) \<and>
    (\<forall>v. v \<noteq> w \<longrightarrow> client_at v W' = client_at v W \<and> session_of (w_server W') v = session_of (w_server W) v)"
proof -
  let ?s = "w_server W"
  have inv: "proto_inv k ?s" using ok by (simp add: world_ok_def)
  then obtain s' where s': "onDisconnect w ?s = Inr s'" using onDisconnect_ok [of ?s w] by (auto simp: proto_inv_def)
  let ?W = "\<lparr>w_server = s', w_clients = um_erase w (w_clients W)\<rparr>"
  have run: "leave w W = Inr ?W" by (simp add: leave_def s')
  have cn: "conns ?W = filter (\<lambda>v. v \<noteq> w) (conns W)" by (simp add: conns_def um_erase_def filter_map o_def)
  have abs: "abs_tree s' = abs_tree ?s" using onDisconnect_abs [OF s'] .
  have ses: "session_of s' v = session_of ?s v" if "v \<noteq> w" for v
    using s' that by (auto simp: onDisconnect_def Let_def um_find_erase split: option.splits)
  have at: "client_at v ?W = client_at v W" if "v \<noteq> w" for v using that by (simp add: client_at_def um_find_erase)
  have inv': "proto_inv k s'" using inv_onDisconnect [OF inv s'] .
  have "world_ok k ?W"
    using ok inv' same_abs [OF abs] ses at by (auto simp: world_ok_def cn)
  moreover have "noted ?W n" if "n \<in> set K" for n
    using K that ses [of "n_conn n"] at [of "n_conn n"] cn by (auto simp: noted_def Let_def)
  ultimately show ?thesis using run cn abs ses at by (intro exI [of _ ?W]) simp
qed

section \<open>Setting a value\<close>

text \<open>The others see the value if they have subscribed to it.\<close>

definition renewed :: "ProtocolHandler \<Rightarrow> u64 \<Rightarrow> u8 list \<Rightarrow> Note \<Rightarrow> Note" where
  "renewed s u bs n = (if n_node n = u \<and> subscribed u (n_session n) s then n\<lparr>n_value := bs\<rparr> else n)"

lemma renewed_simps [simp]: "n_conn (renewed s u bs n) = n_conn n" "n_session (renewed s u bs n) = n_session n"
  "n_node (renewed s u bs n) = n_node n" "n_ref (renewed s u bs n) = n_ref n" "n_handler (renewed s u bs n) = n_handler n"
  by (simp_all add: renewed_def)

text \<open>Nobody has subscribed to the value, or the one in question has.\<close>

definition settled :: "ProtocolHandler \<Rightarrow> u64 \<Rightarrow> Note \<Rightarrow> bool" where
  "settled s u n \<longleftrightarrow> n_node n = u \<longrightarrow> subscribed u (n_session n) s \<or> (\<exists>a. abs_tree s u = Some a \<and> a_subscribers a = {})"

lemma noted_set:
  assumes h: "noted W n" and use: "usable (n_conn n) k (w_server W, client_at (n_conn n) W)" and cn: "conns W' = conns W"
    and b: "bystands (n_conn n) (ask_set u bs) (w_server W) (w_server W') (client_at (n_conn n) W) (client_at (n_conn n) W')"
    and root: "u = 0 \<longrightarrow> \<not> terminate_value bs" and at: "settled (w_server W) u n"
  shows "noted W' (renewed (w_server W) u bs n)"
proof (cases "n_node n = u")
  case False
  then have "renewed (w_server W) u bs n = n" by (simp add: renewed_def)
  with noted_bystands [OF h use cn b] False show ?thesis by simp
next
  case True
  let ?c = "client_at (n_conn n) W" and ?d = "client_at (n_conn n) W'" and ?s = "w_server W"
  have c: "ctree ?c u = Some (n_ref n)" "session_of ?s (n_conn n) = Some (n_session n)" "cvalue ?c u = Some (n_value n)"
    using h True by (simp_all add: noted_def Let_def)
  obtain p where "tree ?s u = Some p" using usable_node [OF use c(1)] .
  with b have t: "tree (w_server W') u \<noteq> None" by (simp add: bystands_def)
  moreover have "n_ref n < c_next ?c" using tree_live [OF usable_wf(1) [OF use] c(1)] by simp
  moreover have "cvalue ?d u = Some (if subscribed u (n_session n) ?s then bs else n_value n)"
  proof (cases "subscribed u (n_session n) ?s")
    case True
    with b c(1,2) root show ?thesis by (simp add: bystands_def)
  next
    case False
    with at True have "\<exists>a. abs_tree ?s u = Some a \<and> a_subscribers a = {}" by (simp add: settled_def)
    with b c(1,3) t False show ?thesis by (simp add: bystands_def)
  qed
  ultimately show ?thesis
    using h b cn True by (auto simp: renewed_def noted_def bystands_def stays_def same_handlers_def steady_def Let_def)
qed

lemma world_set:
  assumes sh: "shares v K (Suc (Suc k)) W" and at: "at (client_at v W) q u" and root: "u = 0 \<longrightarrow> \<not> terminate_value bs"
    and send: "sends L (ask_set u bs)" and K: "\<forall>n\<in>set K. settled (w_server W) u n"
  shows "\<exists>W'. run_client L v (prop_assign bs q) W = Inr (W', ()) \<and> shares v (map (renewed (w_server W) u bs) K) k W' \<and>
    does v (ask_set u bs) (w_server W) (w_server W') \<and> steady (client_at v W) (client_at v W') \<and>
    same_nodes (client_at v W) (client_at v W') \<and> cvalue (client_at v W') = (cvalue (client_at v W))(u \<mapsto> bs)"
proof -
  let ?s = "w_server W" and ?c = "client_at v W"
  from at obtain r where r: "q = make_Property (Some r)" "ctree ?c u = Some r" "r \<in> set (c_held ?c)" by (rule atE)
  let ?x = "put_client v (write_node r (\<lambda>_. bs) ?c) W" and ?op = "OpCommit (Some r)"
  have sh0: "shares v [] (Suc (Suc k)) W" using sh by (simp add: shares_def)
  have ok: "world_ok (Suc (Suc k)) W" and v: "v \<in> set (conns W)" using sh by (simp_all add: shares_def)
  from shared.commit_written [OF sh0 r(2,3), of "\<lambda>_. bs" bs L] root send obtain W' where W':
    "world_perform L v ?op ?x = Inr (W', RUnit)" "shares v [] k W'" "does v (ask_set u bs) ?s (w_server W')"
    "steady ?c (client_at v W')" "same_nodes ?c (client_at v W')" "cvalue (client_at v W') = (cvalue ?c)(u \<mapsto> bs)"
    by (auto simp: spares_def)
  have run: "run_client L v (prop_assign bs q) W = Inr (W', ())"
    using W'(1) r(1) by (simp add: prop_assign_set on_node_def on_client_def)
  have x: "shares v [] (Suc (Suc k)) ?x" using shared.ok_write [OF sh0 r(3)] .
  then have okx: "world_ok (Suc (Suc k)) ?x" and cnx: "v \<in> set (conns ?x)" "conns ?x = conns W"
    using conns_put(1) [OF v] by (simp_all add: shares_def)
  have tree: "ctree (write_node r (\<lambda>_. bs) ?c) u = Some r" "r \<in> set (c_held (write_node r (\<lambda>_. bs) ?c))"
    "cn_data (c_heap (write_node r (\<lambda>_. bs) ?c) r) = bs" using r by (simp_all add: write_node_def)
  have wf: "tree_wf (write_node r (\<lambda>_. bs) ?c)" using usable_tree_wf [OF x] by simp
  have ask: "op_request ?op (client_at v ?x) = Inr (Ask (ask_set u bs))"
    using tree tree_uuid [OF wf tree(1)] by (simp add: commit_request_def deref_def)
  have use: "usable v (Suc (Suc k)) (?s, write_node r (\<lambda>_. bs) ?c)" using shares_usable [OF x] by simp
  from perform_commit [OF use tree root send, of "conns W"] obtain s' c' where
    p: "perform L v (conns W) ?op (?s, write_node r (\<lambda>_. bs) ?c) = Inr ((s', c'), RUnit)" "usable v k (s', c')"
      "sview s' = sview ?s" by blast
  have par: "parents_known ?x s'" unfolding parents_known_def server_put p(3) by (metis option.distinct(1))
  have p': "perform L v (conns ?x) ?op (w_server ?x, client_at v ?x) = Inr ((s', c'), RUnit)"
    using p(1) cnx(2) by simp
  have ok1: "world_ok (Suc k) ?x" using world_ok_mono [OF okx] by simp
  have nc: "no_call q" if "op_request ?op (client_at v ?x) = Inr (Ask q)" for q using that unfolding ask by auto
  from world_step [OF ok1 cnx(1) p' _ p(2) nc par] W'(1) ask send cnx(2) have
    after: "conns W' = conns W" "w_server W' = s'" "others v (\<lambda>v. bystands v (ask_set u bs) ?s s') ?x W'"
    by (auto simp: unasked_def)
  have "noted W' (renewed ?s u bs n) \<and> n_conn n \<noteq> v" if n: "n \<in> set K" for n
  proof -
    have h: "noted W n" "n_conn n \<in> set (conns W)" "n_conn n \<noteq> v" using sh n by (auto simp: shares_def noted_def Let_def)
    have "bystands (n_conn n) (ask_set u bs) ?s (w_server W') (client_at (n_conn n) W) (client_at (n_conn n) W')"
      using after h cnx(2) by (simp add: others_def)
    from noted_set [OF h(1) world_ok_usable [OF ok h(2)] after(1) this root] K n h(3) show ?thesis by blast
  qed
  with W'(2) have "shares v (map (renewed ?s u bs) K) k W'" by (auto simp: shares_def)
  with run W' show ?thesis by blast
qed

section \<open>Calling a node\<close>

abbreviation ask_call :: "u64 \<Rightarrow> u8 list \<Rightarrow> PropertyTreeMessages" where
  "ask_call u bs \<equiv> RpcRequest \<lparr>RpcRequest_uuid = u, RpcRequest_param = bs\<rparr>"

abbreviation tell_result :: "u8 list \<Rightarrow> PropertyTreeMessages" where
  "tell_result bs \<equiv> RpcAccept \<lparr>RpcAccept_value = bs\<rparr>"

text \<open>The caller, before and after.\<close>

lemma caller_steps:
  assumes use: "usable v (Suc k) (s, c)" and idle: "idle c" and r: "ctree c u = Some r" "r \<in> set (c_held c)"
    and send: "sends L (ask_call u bs)"
  shows "\<exists>i b c1 c2 c'. client_step L (Start 0 (OpCall (Some r) bs) True) c = Inr (c1, [Sent (single i (ask_call u bs)) b]) \<and>
    client_handle L True (single i (tell_result x)) c1 = Inr (c2, []) \<and> wait_end L c2 = Inr (c', [Returned 0 (RBytes x)]) \<and>
    client_inv k c' \<and> idle c' \<and> steady c c' \<and> same_tree c c' \<and> map_of (c_waiting c') 0 = None"
proof -
  let ?op = "OpCall (Some r) bs" and ?i = "c_TransactioIdCtr c" and ?m = "tell_result x"
  have inv: "client_inv (Suc k) c" using use by simp
  have st: "may_start 0 ?op c" using usable_start [OF use, of ?op] r(2) by simp
  have ask: "op_request ?op c = Inr (Ask (ask_call u bs))"
    using tree_uuid [OF usable_wf(1) [OF use] r(1)] by (simp add: call_request_def deref_def)
  obtain b where b: "client_send L True (single ?i (ask_call u bs)) = Inr b" using send by (auto simp: sends_def)
  note start = start_asking [OF inv st ask b] and ans = answer_handled [OF inv st ask b, where m = ?m]
  let ?c2 = "replied 0 ?op ?m c"
  let ?d = "?c2\<lparr>c_Transactions := um_erase ?i (c_Transactions ?c2)\<rparr>"
  let ?c' = "returned 0 (RBytes x) ?d"
  have resume: "client_step L (Resume 0) ?c2 = Inr (?c', [Returned 0 (RBytes x)])"
    by (subst resume_answered [OF ans(2)]) (simp add: call_response_def)
  have over: "map_of (c_waiting ?c') 0 = None" by (rule returned_waiting)
  then have "client_step L (Timeout 0) ?c' = Inr (?c', [])" by (simp add: timeout_def)
  with resume have "wait_end L ?c2 = Inr (?c', [Returned 0 (RBytes x)])" by (simp del: client_step.simps)
  moreover have "client_inv k ?c'" using client_step_inv [OF _ resume, of k] ans(3) by simp
  moreover have "idle ?c'" using idle by (simp add: returned_def replied_def asking_def um_emplace_def um_erase_def)
  moreover have "same_tree c ?c'" using same_tree_answered [of c 0 ?op ?m] by (simp add: same_tree_def returned_def)
  moreover have "steady c ?c'"
    using steady_start [OF start] steady_handle [OF ans(1) [of True]] steady_resume [OF resume] by (blast intro: steady_trans)
  ultimately show ?thesis using start ans(1) over by blast
qed

text \<open>The server, for the call and for the answer.\<close>

lemma call_handled:
  assumes inv: "proto_inv (Suc (Suc k)) s" and a: "abs_tree s u = Some a" and o: "session_of s w = Some (a_owner a)"
    and v: "session_of s v \<noteq> None"
  shows "\<exists>tr s1 s2. handle held i (ask_call u bs) v s = Inr (s1, [Send w (single tr (ask_call u bs))]) \<and>
    (\<forall>x. handle held tr (tell_result x) w s1 = Inr (s2, [Send v (single i (tell_result x))])) \<and>
    proto_inv k s2 \<and> abs_tree s2 = abs_tree s \<and> (\<forall>y. session_of s y \<noteq> None \<longrightarrow> session_of s2 y = session_of s y)"
proof -
  have tr: "tree_inv s" and si: "session_inv s" using inv by (simp_all add: proto_inv_def)
  obtain j where j: "session_of s v = Some j" using v by blast
  from a obtain r where r: "tree s u = Some r" "a_owner a = node_sessionId (heap s r)"
    by (auto simp: abs_tree_def abs_node_def)
  have "session s (node_sessionId (heap s r)) = Some \<lparr>connectionSession = Some w\<rparr>"
    using session_of_held [OF si o] r(2) by simp
  from rpc_forward [OF inv _ j this, of "\<lparr>RpcRequest_uuid = u, RpcRequest_param = bs\<rparr>" i] r(1) obtain s1 where
    s1: "handle held i (ask_call u bs) v s = Inr (s1, [Send w (single (ucast (mTrIdCtr s)) (ask_call u bs))])"
      "awaiting (ucast (mTrIdCtr s)) j i v 0 s1" by auto
  let ?s2 = "s1\<lparr>mTrIdTranslation := um_erase (ucast (mTrIdCtr s)) (mTrIdTranslation s1)\<rparr>"
  have s2: "handle held (ucast (mTrIdCtr s)) (tell_result x) w s1 = Inr (?s2, [Send v (single i (tell_result x))])" for x
    using awaiting_reply [OF s1(2)] by simp
  have inv1: "proto_inv (Suc k) s1" using inv_handle [OF inv s1(1)] .
  have "abs_tree ?s2 = abs_tree s" using other_handle [OF inv s1(1)] other_handle [OF inv1 s2] by simp
  moreover have "session_of ?s2 y = session_of s y" if "session_of s y \<noteq> None" for y
  proof -
    obtain l where l: "session_of s y = Some l" using \<open>session_of s y \<noteq> None\<close> by blast
    then have "signed_in y l s1" using signed_in_handle [OF tr s1(1)] by (simp add: signed_in_def)
    with l show ?thesis by (simp add: signed_in_def)
  qed
  ultimately show ?thesis using s1(1) s2 inv_handle [OF inv1 s2] by blast
qed

lemma concat_one: "distinct xs \<Longrightarrow> x \<in> set xs \<Longrightarrow> concat (map (\<lambda>y. map (Pair y) (if y = x then ms else [])) xs) = map (Pair x) ms"
proof (induction xs)
  case (Cons y xs)
  then show ?case
  proof (cases "y = x")
    case True
    with Cons.prems have "concat (map (\<lambda>y. map (Pair y) (if y = x then ms else [])) xs) = []" by auto
    with True show ?thesis by simp
  qed auto
qed simp

lemma world_call:
  assumes sh: "shares v K (Suc (Suc k)) W" and at: "at (client_at v W) q u"
    and n: "n \<in> set K" "n_node n = u" "n_handler n = Some f"
    and own: "abs_tree (w_server W) u = Some a" "a_owner a = n_session n"
    and send: "sends L (ask_call u bs)" "sends L (tell_result (f bs))"
  shows "\<exists>W'. run_client L v (prop_call bs q) W = Inr (W', f bs) \<and> shares v K k W' \<and>
    abs_tree (w_server W') = abs_tree (w_server W) \<and> steady (client_at v W) (client_at v W') \<and>
    same_tree (client_at v W) (client_at v W')"
proof -
  let ?s = "w_server W" and ?c = "client_at v W" and ?w = "n_conn n"
  have ok: "world_ok (Suc (Suc k)) W" and v: "v \<in> set (conns W)" using sh by (simp_all add: shares_def)
  have h: "noted W n" "?w \<noteq> v" using sh n(1) by (simp_all add: shares_def)
  have w: "?w \<in> set (conns W)" "session_of ?s ?w = Some (a_owner a)" "ctree (client_at ?w W) u = Some (n_ref n)"
    "cn_rcpHandler (c_heap (client_at ?w W) (n_ref n)) = Some f" using h(1) n(2,3) own(2) by (simp_all add: noted_def Let_def)
  have dis: "distinct (conns W)" and inv: "proto_inv (Suc (Suc k)) ?s" and idle: "\<forall>y\<in>set (conns W). idle (client_at y W)"
    using ok by (simp_all add: world_ok_def)
  from at obtain r where r: "q = make_Property (Some r)" "ctree ?c u = Some r" "r \<in> set (c_held ?c)" by (rule atE)
  let ?op = "OpCall (Some r) bs"
  have use: "usable v (Suc k) (?s, ?c)" by (rule usable_mono [OF shares_usable [OF sh]]) simp
  from caller_steps [OF use _ r(2,3) send(1), of "f bs"] idle v obtain i b c1 c2 c' where
    c: "client_step L (Start 0 ?op True) ?c = Inr (c1, [Sent (single i (ask_call u bs)) b])"
      "client_handle L True (single i (tell_result (f bs))) c1 = Inr (c2, [])" "wait_end L c2 = Inr (c', [Returned 0 (RBytes (f bs))])"
      "client_inv k c'" "idle c'" "steady ?c c'" "same_tree ?c c'" "map_of (c_waiting c') 0 = None" by blast
  have "session_of ?s v \<noteq> None" using use by simp
  from call_handled [OF inv own(1) w(2) this, of "conns W" i bs] obtain tr s1 s2 where
    s: "handle (conns W) i (ask_call u bs) v ?s = Inr (s1, [Send ?w (single tr (ask_call u bs))])"
      "handle (conns W) tr (tell_result (f bs)) ?w s1 = Inr (s2, [Send v (single i (tell_result (f bs)))])"
      "proto_inv k s2" "abs_tree s2 = abs_tree ?s" "\<forall>y. session_of ?s y \<noteq> None \<longrightarrow> session_of s2 y = session_of ?s y" by blast
  obtain b' where b': "client_send L True (single tr (tell_result (f bs))) = Inr b'" using send(2) by (auto simp: sends_def)
  have owner: "client_handle L True (single tr (ask_call u bs)) (client_at ?w W) =
      Inr (client_at ?w W, [RpcHandled (n_ref n) bs, Sent (single tr (tell_result (f bs))) b'])"
    using w idle b' by (simp add: single_def client_handle_message_def client_RpcRequest_def Let_def)
  let ?V1 = "put_client v c1 W" and ?o1 = "[Send ?w (single tr (ask_call u bs))]" and ?o2 = "[Send v (single i (tell_result (f bs)))]"
  let ?S = "\<lambda>y. if y = ?w then [single tr (tell_result (f bs))] else []" and ?P = "\<lambda>y d. d = client_at y ?V1"
  have cn1: "conns ?V1 = conns W" using conns_put(1) [OF v] .
  have each: "\<exists>c' o1. run_steps (client_handle L True) (inbox y ?o1) (client_at y ?V1) = Inr (c', o1) \<and> sent_messages o1 = ?S y \<and> ?P y c'"
    for y using owner h(2) by (cases "y = ?w") (simp_all del: client_handle.simps)
  have on1: "onMsg (conns ?V1) (single i (ask_call u bs)) v (w_server ?V1) = Inr (s1, ?o1)"
    using s(1) cn1 by (simp add: single_def onMsg_message_def del: handle.simps)
  from serve_one [where S = ?S and P = ?P and n = "Suc 0" and qs = "[]" and L = L, OF _ on1 each] dis cn1 obtain V where
    V: "serve_all L (Suc (Suc 0)) [(v, single i (ask_call u bs))] ?V1 =
        serve_all L (Suc 0) ([] @ concat (map (\<lambda>y. map (Pair y) (?S y)) (conns W))) V"
      "w_server V = s1" "conns V = conns W" "\<forall>y\<in>set (conns W). client_at y V = client_at y ?V1" by (auto simp del: serve_all.simps)
  have q2: "[] @ concat (map (\<lambda>y. map (Pair y) (?S y)) (conns W)) = [(?w, single tr (tell_result (f bs)))]"
    using concat_one [OF dis w(1), of "[single tr (tell_result (f bs))]"] by simp
  let ?R = "\<lambda>y d. d = (if y = v then c2 else client_at y W)"
  have each: "\<exists>c' o1. run_steps (client_handle L True) (inbox y ?o2) (client_at y V) = Inr (c', o1) \<and> sent_messages o1 = [] \<and> ?R y c'"
    if "y \<in> set (conns V)" for y
    using that V(3,4) c(2) by (cases "y = v") (simp_all del: client_handle.simps)
  have on2: "onMsg (conns V) (single tr (tell_result (f bs))) ?w (w_server V) = Inr (s2, ?o2)"
    using s(2) V(2,3) by (simp add: single_def onMsg_message_def del: handle.simps)
  from serve_last [where P = ?R and L = L and n = 0, OF _ on2 each] dis V(3) obtain U where
    U: "serve_all L (Suc 0) [(?w, single tr (tell_result (f bs)))] V = Inr U" "w_server U = s2" "conns U = conns W"
      "\<forall>y\<in>set (conns W). client_at y U = (if y = v then c2 else client_at y W)" by (auto simp del: serve_all.simps)
  let ?W' = "put_client v c' U"
  have cn': "conns ?W' = conns W" using conns_put(1) [of v U] v U(3) by simp
  have "client_at v U = c2" using U(4) v by simp
  moreover have "serve_all L 2 [(v, single i (ask_call u bs))] ?V1 = Inr U"
    using V(1) U(1) unfolding q2 numeral_2_eq_2 by (simp del: serve_all.simps)
  ultimately have "world_perform L v ?op W = Inr (?W', RBytes (f bs))"
    using c(1,3) by (simp add: world_perform_def del: client_step.simps run_steps.simps serve_all.simps)
  then have run: "run_client L v (prop_call bs q) W = Inr (?W', f bs)"
    using r(1) by (simp add: prop_call_def on_client_def as_bytes_def)
  have same: "client_at y ?W' = client_at y W" if "y \<in> set (conns W)" "y \<noteq> v" for y using U(4) that by simp
  have views: "sview s2 = sview ?s" using same_abs [OF s(4)] by simp
  have wk: "usable y k (s2, client_at y ?W') \<and> idle (client_at y ?W')" if y: "y \<in> set (conns W)" for y
  proof (cases "y = v")
    case True
    have "links_ok c'" by (rule links_same [of ?c]) (use use c(7) in \<open>simp_all add: same_tree_def\<close>)
    with True use s(3,5) views c(4-8) same_tree_views [OF c(7)] show ?thesis by (auto simp: steady_def same_tree_def)
  next
    case False
    with world_ok_usable [OF ok y] client_inv_mono [of "Suc (Suc k)" _ k] same [OF y] s(3,5) views idle y show ?thesis by auto
  qed
  have "world_ok k ?W'" using wk dis s(3) views U(2) ok by (simp add: world_ok_def cn' del: usable.simps)
  moreover have "noted ?W' m \<and> n_conn m \<noteq> v" if "m \<in> set K" for m
  proof -
    have m: "noted W m" "n_conn m \<noteq> v" using sh that by (auto simp: shares_def)
    then have d: "n_conn m \<in> set (conns W)" by (simp add: noted_def Let_def)
    show ?thesis unfolding noted_def Let_def same [OF d m(2)] using m s(5) cn' U(2) by (simp add: noted_def Let_def)
  qed
  ultimately have "shares v K k ?W'" using v cn' by (simp add: shares_def)
  with run s(4) c(6,7) U(2) show ?thesis by (intro exI [of _ ?W']) simp
qed

section \<open>Another client's turn\<close>

lemma shares_switch:
  "shares w K k W \<Longrightarrow> v \<in> set (conns W) \<Longrightarrow> \<forall>n\<in>set K'. noted W n \<and> n_conn n \<noteq> v \<Longrightarrow> shares v K' k W"
  by (simp add: shares_def)

text \<open>What a client knows of its handle becomes a note for the time that others work, and is there afterwards.\<close>

lemma note_taken:
  assumes "shares w K k W" "at (client_at w W) p u"
  obtains n where "noted W n" "n_conn n = w" "n_node n = u" "p = make_Property (Some (n_ref n))"
    "session_of (w_server W) w = Some (n_session n)" "n_handler n = cn_rcpHandler (c_heap (client_at w W) (n_ref n))"
proof -
  from assms(2) obtain r where r: "p = make_Property (Some r)" "ctree (client_at w W) u = Some r" "r \<in> set (c_held (client_at w W))"
    by (rule atE)
  obtain i where i: "session_of (w_server W) w = Some i" using shares_usable [OF assms(1)] by auto
  let ?n = "\<lparr>n_conn = w, n_session = i, n_node = u, n_ref = r, n_value = cn_data (c_heap (client_at w W) r),
    n_handler = cn_rcpHandler (c_heap (client_at w W) r)\<rparr>"
  have "noted W ?n" using r(2,3) i assms(1) by (simp add: noted_def shares_def cvalue_def)
  with that [of ?n] r(1) i show thesis by simp
qed

lemma noted_at: "noted W n \<Longrightarrow> at (client_at (n_conn n) W) (make_Property (Some (n_ref n))) (n_node n)"
  "noted W n \<Longrightarrow> cvalue (client_at (n_conn n) W) (n_node n) = Some (n_value n)"
  "noted W n \<Longrightarrow> n_conn n \<in> set (conns W)"
  by (simp_all add: noted_def Let_def at_node)

end
