(* ===== verification/Kids.thy ===== *)
theory Kids
  imports Forest
begin

text \<open>
  The part of the server's tree that the basic tests work on: the children of the root with their values.
\<close>

section \<open>The children of the root\<close>

text \<open>
  \<open>kids D m A M\<close>: there are at most \<open>m\<close> nodes besides the root, and of the children of the root with a
  name in \<open>D\<close> there are those that \<open>M\<close> names, with these values, without children and subscribers.
\<close>

definition few :: "nat \<Rightarrow> atree \<Rightarrow> bool" where
  "few m A \<longleftrightarrow> finite (dom A) \<and> card (dom A) \<le> Suc m"

definition kid :: "atree \<Rightarrow> string \<Rightarrow> u64 \<Rightarrow> anode \<Rightarrow> bool" where
  "kid A n u a \<longleftrightarrow> A u = Some a \<and> a_name a = n \<and> a_parent a = Some 0"

definition kids :: "string set \<Rightarrow> nat \<Rightarrow> atree \<Rightarrow> (string \<Rightarrow> u8 list option) \<Rightarrow> bool" where
  "kids D m A M \<longleftrightarrow> few m A \<and> (\<forall>n\<in>D. (M n = None \<longrightarrow> (\<forall>u a. \<not> kid A n u a)) \<and> (\<forall>bs. M n = Some bs \<longrightarrow>
     (\<exists>u a. kid A n u a \<and> a_data a = bs \<and> a_subscribers a = {} \<and> \<not> is_parent A u)))"

lemma kidsI:
  assumes "few m A" "\<And>n u a. n \<in> D \<Longrightarrow> M n = None \<Longrightarrow> \<not> kid A n u a"
    and "\<And>n bs. n \<in> D \<Longrightarrow> M n = Some bs \<Longrightarrow>
      \<exists>u a. kid A n u a \<and> a_data a = bs \<and> a_subscribers a = {} \<and> \<not> is_parent A u"
  shows "kids D m A M"
  using assms by (simp add: kids_def)

lemma kids_few: "kids D m A M \<Longrightarrow> few m A"
  by (simp add: kids_def)

lemma kidsD:
  assumes "kids D m A M" "n \<in> D"
  shows "M n = None \<Longrightarrow> \<not> kid A n u a"
    and "M n = Some bs \<Longrightarrow> \<exists>u a. kid A n u a \<and> a_data a = bs \<and> a_subscribers a = {} \<and> \<not> is_parent A u"
  using assms by (simp_all add: kids_def)

lemma child_kid: "tree_inv s \<Longrightarrow> child_uuid s 0 n = Some u \<longleftrightarrow> (\<exists>a. kid (abs_tree s) n u a)"
  unfolding child_uuid_view by (auto simp: sview_def kid_def)

lemma kids_None:
  assumes "tree_inv s" "kids D m (abs_tree s) M" "M n = None" "n \<in> D"
  shows "child_uuid s 0 n = None"
proof (cases "child_uuid s 0 n")
  case (Some u)
  then obtain a where "kid (abs_tree s) n u a" using child_kid [OF assms(1), of n u] by blast
  with kidsD(1) [OF assms(2,4,3)] show ?thesis by blast
qed

lemma kids_Some:
  assumes "tree_inv s" "kids D m (abs_tree s) M" "M n = Some bs" "n \<in> D"
  obtains u a where "child_uuid s 0 n = Some u" "kid (abs_tree s) n u a" "a_data a = bs" "a_subscribers a = {}"
    "\<not> is_parent (abs_tree s) u" "svalue s u = Some bs"
proof -
  from kidsD(2) [OF assms(2,4,3)] obtain u a where u: "kid (abs_tree s) n u a" "a_data a = bs" "a_subscribers a = {}"
    "\<not> is_parent (abs_tree s) u" by blast
  have "child_uuid s 0 n = Some u" using child_kid [OF assms(1)] u(1) by blast
  moreover have "svalue s u = Some bs" using u(1,2) by (simp add: svalue_def kid_def)
  ultimately show thesis using u that by blast
qed

lemma kid_unique: "tree_inv s \<Longrightarrow> kid (abs_tree s) n u a \<Longrightarrow> kid (abs_tree s) n v b \<Longrightarrow> v = u \<and> b = a"
  using child_kid [of s n u] child_kid [of s n v] by (auto simp: kid_def)

lemma kid_not_root:
  assumes tr: "tree_inv s" and k: "kid (abs_tree s) n u a"
  shows "u \<noteq> 0"
proof
  assume "u = 0"
  with k child_kid [OF tr, of n 0] have "child_uuid s 0 n = Some 0" by blast
  then obtain p e where p: "tree s 0 = Some p" "child s p n = Some e" "node_uuid (heap s e) = 0"
    by (auto simp: child_uuid_def split: option.splits)
  from tree_childE [OF tr p(1,2)] obtain y where "tree s y = Some e" "unat (0 :: u64) < unat y" by metis
  with p(3) tree_nodeD(3) [OF tr, of y e] show False by simp
qed

lemma kids_empty:
  assumes "tree_inv s" "dom (tree s) = {0}"
  shows "kids D 0 (abs_tree s) (\<lambda>_. None)"
proof -
  have no: "\<not> kid (abs_tree s) n u a" for n u a
  proof
    assume k: "kid (abs_tree s) n u a"
    then have "tree s u \<noteq> None" by (metis abs_tree_None kid_def option.distinct(1))
    with assms(2) have "u = 0" by (metis domI insertE not_None_eq singletonD)
    with k kid_not_root [OF assms(1)] show False by blast
  qed
  moreover have "dom (abs_tree s) = {0}" using assms(2) by (auto simp: dom_def)
  ultimately show ?thesis by (simp add: kids_def few_def)
qed

text \<open>What requests do to the children of the root.\<close>

lemma is_parent_parents: "is_parent A v \<longleftrightarrow> (\<exists>y. map_option a_parent (A y) = Some (Some v))"
  by (auto simp: is_parent_def has_child_def)

lemma kids_created:
  assumes tr: "tree_inv s" and ses: "session_of s w = Some i" and free: "M n = None" "n \<in> D" and K: "kids D m (abs_tree s) M"
    and does: "does w (ask_create 0 n) s s'"
  shows "kids D (Suc m) (abs_tree s') (M(n \<mapsto> []))"
    "\<exists>a. abs_tree s' (ucast (mUuidCtr s)) = Some a \<and> a_owner a = i \<and> kid (abs_tree s') n (ucast (mUuidCtr s)) a"
proof -
  let ?v = "ucast (mUuidCtr s) :: u64"
  obtain r where root: "tree s 0 = Some r" using tr by (rule tree_root)
  have none: "child_uuid s 0 n = None" by (rule kids_None [OF tr K free])
  note new = does_created [OF tr _ _ none does]
  obtain a where a: "abs_tree s' = (abs_tree s)(?v \<mapsto> a)" "kid (abs_tree s') n ?v a" "a_data a = []" "a_subscribers a = {}" "a_owner a = i"
    using does none ses root by (auto simp: does_def child_unique [OF tr] kid_def)
  have v: "abs_tree s ?v = None" "\<not> is_parent (abs_tree s') ?v" "?v \<noteq> 0" using new(1,2,6) ses root by simp_all
  have other: "kid (abs_tree s') m u b \<longleftrightarrow> kid (abs_tree s) m u b" if "m \<noteq> n" for m u b
    using that a(1,2) v(1) by (auto simp: kid_def simp del: abs_tree_None)
  have leaf: "is_parent (abs_tree s') u \<longleftrightarrow> is_parent (abs_tree s) u" if "u \<noteq> 0" for u
  proof -
    have "map_option a_parent (abs_tree s' y) = Some (Some u) \<longleftrightarrow> map_option a_parent (abs_tree s y) = Some (Some u)" for y
      using a(1,2) v(1) that by (cases "y = ?v") (simp_all add: kid_def del: abs_tree_None)
    then show ?thesis by (simp add: is_parent_parents)
  qed
  show "kids D (Suc m) (abs_tree s') (M(n \<mapsto> []))"
  proof (rule kidsI)
    show "few (Suc m) (abs_tree s')"
      using kids_few [OF K] a(1) by (auto simp: few_def card_insert_if)
  next
    fix x u b assume m: "x \<in> D" "(M(n \<mapsto> [])) x = None"
    then have "x \<noteq> n" "M x = None" by (simp_all split: if_splits)
    with kidsD(1) [OF K m(1)] other show "\<not> kid (abs_tree s') x u b" by simp
  next
    fix x bs assume m: "x \<in> D" "(M(n \<mapsto> [])) x = Some bs"
    show "\<exists>u a. kid (abs_tree s') x u a \<and> a_data a = bs \<and> a_subscribers a = {} \<and> \<not> is_parent (abs_tree s') u"
    proof (cases "x = n")
      case True
      with a v m show ?thesis by auto
    next
      case False
      with kidsD(2) [OF K m(1)] m(2) obtain u b where
        "kid (abs_tree s) x u b" "a_data b = bs" "a_subscribers b = {}" "\<not> is_parent (abs_tree s) u" by force
      with other [OF False] leaf kid_not_root [OF tr] show ?thesis by blast
    qed
  qed
  show "\<exists>a. abs_tree s' ?v = Some a \<and> a_owner a = i \<and> kid (abs_tree s') n ?v a" using a by simp
qed

lemma kids_set:
  assumes tr: "tree_inv s" and K: "kids D m (abs_tree s) M" and u: "kid (abs_tree s) n u a" "M n \<noteq> None" "n \<in> D"
    and set: "A = (abs_tree s)(u \<mapsto> a\<lparr>a_data := bs\<rparr>)"
  shows "kids D m A (M(n \<mapsto> bs))"
proof -
  have kid: "kid A m v b \<longleftrightarrow> (if v = u then m = n \<and> b = a\<lparr>a_data := bs\<rparr> else kid (abs_tree s) m v b)" for m v b
    using u(1) by (auto simp: kid_def set)
  have leaf: "is_parent A v \<longleftrightarrow> is_parent (abs_tree s) v" for v
  proof -
    have "map_option a_parent (A y) = map_option a_parent (abs_tree s y)" for y using u(1) by (simp add: set kid_def)
    then show ?thesis by (simp add: is_parent_parents)
  qed
  obtain d where "M n = Some d" using u(2) by blast
  from kidsD(2) [OF K u(3) this] obtain v b where v: "kid (abs_tree s) n v b" "a_subscribers b = {}" "\<not> is_parent (abs_tree s) v"
    by blast
  have self: "a_subscribers a = {}" "\<not> is_parent (abs_tree s) u" using kid_unique [OF tr u(1) v(1)] v(2,3) by simp_all
  show ?thesis
  proof (rule kidsI)
    have "dom A = dom (abs_tree s)" using u(1) by (auto simp: set kid_def)
    then show "few m A" using kids_few [OF K] by (simp add: few_def)
  next
    fix x v b assume m: "x \<in> D" "(M(n \<mapsto> bs)) x = None"
    then have "x \<noteq> n" "M x = None" by (simp_all split: if_splits)
    with kidsD(1) [OF K m(1)] show "\<not> kid A x v b" unfolding kid by simp
  next
    fix x ds assume m: "x \<in> D" "(M(n \<mapsto> bs)) x = Some ds"
    show "\<exists>v b. kid A x v b \<and> a_data b = ds \<and> a_subscribers b = {} \<and> \<not> is_parent A v"
    proof (cases "x = n")
      case True
      with m self show ?thesis unfolding kid leaf by (intro exI [of _ u]) simp
    next
      case False
      with kidsD(2) [OF K m(1)] m(2) obtain v b where
        "kid (abs_tree s) x v b" "a_data b = ds" "a_subscribers b = {}" "\<not> is_parent (abs_tree s) v" by force
      moreover from this have "v \<noteq> u" using u(1) False by (auto simp: kid_def)
      ultimately show ?thesis unfolding kid leaf by auto
    qed
  qed
qed

lemma kids_deleted:
  assumes tr: "tree_inv s" and K: "kids D m (abs_tree s) M" and u: "kid (abs_tree s) n u a" and del: "A = (abs_tree s)(u := None)"
  shows "kids D m A (M(n := None))"
proof -
  have kid: "kid A m v b \<longleftrightarrow> v \<noteq> u \<and> kid (abs_tree s) m v b" for m v b by (auto simp: kid_def del)
  have leaf: "is_parent A v \<Longrightarrow> is_parent (abs_tree s) v" for v
    by (auto simp: is_parent_def has_child_def del split: if_splits)
  show ?thesis
  proof (rule kidsI)
    have "dom A = dom (abs_tree s) - {u}" by (auto simp: del)
    moreover have "card (dom (abs_tree s) - {u}) \<le> card (dom (abs_tree s))" by (rule card_Diff1_le)
    ultimately show "few m A" using kids_few [OF K] by (auto simp: few_def)
  next
    fix x v b assume m: "x \<in> D" "(M(n := None)) x = None"
    show "\<not> kid A x v b"
    proof (cases "x = n")
      case True
      then show ?thesis unfolding kid using kid_unique [OF tr u] by blast
    next
      case False
      with kidsD(1) [OF K m(1)] m(2) show ?thesis unfolding kid by simp
    qed
  next
    fix x ds assume m: "x \<in> D" "(M(n := None)) x = Some ds"
    then have "x \<noteq> n" by (simp split: if_splits)
    with kidsD(2) [OF K m(1)] m(2) obtain v b where
      "kid (abs_tree s) x v b" "a_data b = ds" "a_subscribers b = {}" "\<not> is_parent (abs_tree s) v" by force
    moreover from this have "v \<noteq> u" using u \<open>x \<noteq> n\<close> by (auto simp: kid_def)
    ultimately show "\<exists>v b. kid A x v b \<and> a_data b = ds \<and> a_subscribers b = {} \<and> \<not> is_parent A v"
      unfolding kid using leaf by blast
  qed
qed

lemma set_data:
  assumes "does w (ask_set u bs) s s'" "abs_tree s u = Some a"
  shows "abs_tree s' = (abs_tree s)(u \<mapsto> a\<lparr>a_data := bs\<rparr>)"
  using assms by (simp add: does_def)

end
