(* ===== verification/BasicTests.thy ===== *)
theory BasicTests
  imports WorldOps Kids
begin

text \<open>
  The basic end-to-end tests (\<open>E2ETest/BasicTest.cpp\<close>): what clients of one server do one after the
  other, and whether the expectations they state hold. \<open>shouldRetrieveTree\<close> is in theory RetrieveTree.
\<close>

section \<open>The tests\<close>

text \<open>
  A client is constructed, and destroyed when the block it is declared in is left. An exception of the
  constructor leaves the block.
\<close>

definition with_client :: "cum \<Rightarrow> conn \<Rightarrow> u8 list \<Rightarrow> (World \<Rightarrow> fault + (World \<times> bool)) \<Rightarrow> World \<Rightarrow> fault + (World \<times> bool)" where
  "with_client L w junk body W =
     bindR (connect L w junk W) (\<lambda>(W, v).
       case v of RThrow x \<Rightarrow> Inl (Thrown x)
       | _ \<Rightarrow> bindR (body W) (\<lambda>(W, b). bindR (leave w W) (\<lambda>W. Inr (W, b))))"

text \<open>\<open>root().get(name)\<close>, and \<open>root().create(name)\<close>.\<close>

definition get_child :: "string \<Rightarrow> Property prog" where
  "get_child n = bindP client_root (prop_get n)"

definition create_child :: "string \<Rightarrow> Property prog" where
  "create_child n = bindP client_root (prop_create n)"

text \<open>Every test has a client \<open>sut\<close>, here on the connection \<open>w\<close>.\<close>

definition shouldSignIn :: "cum \<Rightarrow> conn \<Rightarrow> u8 list \<Rightarrow> World \<Rightarrow> fault + (World \<times> bool)" where
  "shouldSignIn L w junk = with_client L w junk (\<lambda>W. Inr (W, True))"

definition shouldCleanTree :: "nat \<Rightarrow> cum \<Rightarrow> conn \<Rightarrow> u8 list \<Rightarrow> World \<Rightarrow> fault + (World \<times> bool)" where
  "shouldCleanTree fuel L w junk = with_client L w junk (run_client L w (bindP (clean fuel) (\<lambda>_. Done True)))"

definition set_new_child :: "string \<Rightarrow> nat \<Rightarrow> bool prog" where
  "set_new_child n i = bindP (create_child n) (\<lambda>child.
     if \<not> to_bool child then Done False
     else bindP (prop_assign (as_bytes32 i) child) (\<lambda>_. Done True))"

definition shouldCreateAnSet :: "cum \<Rightarrow> conn \<Rightarrow> u8 list \<Rightarrow> World \<Rightarrow> fault + (World \<times> bool)" where
  "shouldCreateAnSet L w junk = with_client L w junk (run_client L w (set_new_child ''child1'' 42))"

definition fetched_is :: "nat \<Rightarrow> Property \<Rightarrow> bool prog" where
  "fetched_is i p = bindP (prop_fetch p) (\<lambda>_. bindP (prop_value 4 p) (\<lambda>v. Done (v = Some (as_bytes32 i))))"

definition shouldGetValue :: "cum \<Rightarrow> conn \<Rightarrow> u8 list \<Rightarrow> World \<Rightarrow> fault + (World \<times> bool)" where
  "shouldGetValue L w junk = with_client L w junk (run_client L w (bindP (get_child ''child1'') (fetched_is 42)))"

definition shouldGetValueWithoutTreeInfo :: "cum \<Rightarrow> conn \<Rightarrow> conn \<Rightarrow> u8 list \<Rightarrow> u8 list \<Rightarrow> World \<Rightarrow> fault + (World \<times> bool)" where
  "shouldGetValueWithoutTreeInfo L w v junk junk' = with_client L w junk (with_client L v junk' (\<lambda>W.
     bindR (run_client L w (set_new_child ''child2'' 44) W) (\<lambda>(W, b).
       if \<not> b then Inr (W, False)
       else run_client L v (bindP (get_child ''child2'') (\<lambda>child.
         if \<not> to_bool child then Done False else fetched_is 44 child)) W)))"

text \<open>The pauses of the next test give the announcements time to arrive; here they always do.\<close>

definition set_child :: "string \<Rightarrow> nat \<Rightarrow> unit prog" where
  "set_child n i = bindP (get_child n) (prop_assign (as_bytes32 i))"

definition shouldSubscribeUpdateAndUnsubscribe :: "cum \<Rightarrow> conn \<Rightarrow> conn \<Rightarrow> u8 list \<Rightarrow> u8 list \<Rightarrow> World \<Rightarrow> fault + (World \<times> bool)" where
  "shouldSubscribeUpdateAndUnsubscribe L w v junk junk' = with_client L w junk (with_client L v junk' (\<lambda>W.
     bindR (run_client L w (bindP (get_child ''child1'') (\<lambda>child. bindP (prop_subscribe child) (\<lambda>_. Done child))) W) (\<lambda>(W, child).
     bindR (run_client L v (set_child ''child1'' 43) W) (\<lambda>(W, _).
     bindR (run_client L w (bindP (prop_value 4 child) (\<lambda>x. bindP (prop_unsubscribe child) (\<lambda>_. Done x))) W) (\<lambda>(W, x).
     bindR (run_client L v (set_child ''child1'' 44) W) (\<lambda>(W, _).
     run_client L w (bindP (prop_value 4 child) (\<lambda>y. Done (x = Some (as_bytes32 43) \<and> y = Some (as_bytes32 43)))) W))))))"

text \<open>
  The handler of the call reads the parameter as a \<open>uint32_t\<close> and returns its successor. (Of a parameter
  that is shorter it would read what lies behind it; the test passes four bytes.)
\<close>

definition increment :: "u8 list \<Rightarrow> u8 list" where
  "increment bs = le_bytes 4 (unat ((of_nat (le_nat (take 4 bs)) :: u32) + 1))"

definition offer_rpc :: "Property prog" where
  "offer_rpc =
     bindP (bindP (get_child ''rpc'') (\<lambda>rpc. if to_bool rpc then bindP (prop_destroy rpc) (\<lambda>_. Done ()) else Done ())) (\<lambda>_.
     bindP (create_child ''rpc'') (\<lambda>rpc. bindP (prop_setHRcpHandler (Some increment) rpc) (\<lambda>_. Done rpc)))"

definition call_next :: "nat \<Rightarrow> Property \<Rightarrow> bool prog \<Rightarrow> bool prog" where
  "call_next i rpc k = bindP (prop_call (as_bytes32 i) rpc) (\<lambda>bs.
     if length bs \<noteq> 4 then Done False else bindP k (\<lambda>b. Done (le_nat bs = i + 1 \<and> b)))"

definition shouldRpcCall :: "cum \<Rightarrow> conn \<Rightarrow> conn \<Rightarrow> u8 list \<Rightarrow> u8 list \<Rightarrow> World \<Rightarrow> fault + (World \<times> bool)" where
  "shouldRpcCall L w v junk junk' = with_client L w junk (\<lambda>W.
     bindR (run_client L w offer_rpc W) (\<lambda>(W, _).
     with_client L v junk' (run_client L v
       (bindP (get_child ''rpc'') (\<lambda>rpc. call_next 42 rpc (call_next 43 rpc (Done True))))) W))"

section \<open>The programs of one client\<close>

context operations
begin

lemma ok_tree: "ok k x \<Longrightarrow> tree_inv (server x)"
  using usable_wf(2) [OF ok_usable] .

lemma run_get_child:
  assumes "ok (Suc (Suc (Suc k))) x" "n \<noteq> ''.''" "fits (ask_child 0 n)"
  shows "\<exists>y q. run (get_child n) x = Inr (y, q) \<and> ok k y \<and> server y = server x \<and> learns (client x) (client y) \<and>
    refers (client y) q (child_uuid (server x) 0 n)"
proof -
  from run_root [OF assms(1)] obtain y p where y: "run client_root x = Inr (y, p)" "ok (Suc (Suc k)) y" "server y = server x"
    "learns (client x) (client y)" "at (client y) p 0" by blast
  from run_get [OF y(2,5) assms(2,3)] obtain z q where "run (prop_get n p) y = Inr (z, q)" "ok k z" "server z = server y"
    "learns (client y) (client z)" "refers (client z) q (child_uuid (server y) 0 n)" by blast
  moreover from this y(4) have "learns (client x) (client z)" by (blast intro: steady_trans grows_trans)
  ultimately show ?thesis using y(1,3) by (auto simp: get_child_def run_bindP)
qed

lemma run_create_child:
  assumes "ok (Suc (Suc (Suc k))) x" "kids D m (abs_tree (server x)) M" "M n = None \<and> n \<in> D" "\<forall>y j. ok j y \<longrightarrow> public y 0"
    and "fits (ask_create 0 n)" "session_of (server x) self = Some i"
  shows "\<exists>y q v a. run (create_child n) x = Inr (y, q) \<and> ok k y \<and> kids D (Suc m) (abs_tree (server y)) (M(n \<mapsto> [])) \<and> at (client y) q v \<and>
    kid (abs_tree (server y)) n v a \<and> a_owner a = i \<and> session_of (server y) self = Some i"
proof -
  from run_root [OF assms(1)] obtain y p where y: "run client_root x = Inr (y, p)" "ok (Suc (Suc k)) y" "server y = server x"
    "at (client y) p 0" by blast
  have tr: "tree_inv (server y)" using ok_tree [OF y(2)] .
  have K: "kids D m (abs_tree (server y)) M" and ses: "session_of (server y) self = Some i" using assms(2,6) y(3) by simp_all
  have free: "M n = None" "n \<in> D" using assms(3) by simp_all
  from run_create [OF y(2,4) kids_None [OF tr K free] assms(4) [rule_format, OF y(2)] assms(5)] obtain z q where
    z: "run (prop_create n p) y = Inr (z, q)" "ok k z" "does self (ask_create 0 n) (server y) (server z)"
      "at (client z) q (ucast (mUuidCtr (server y)))" by blast
  note new = kids_created [OF tr ses free K z(3)]
  have "session_of (server z) self = Some i" using z(3) ses by (simp add: does_def)
  with new y(1) z(1,2,4) show ?thesis by (auto simp: create_child_def run_bindP)
qed

lemma run_set_new_child:
  assumes "ok (Suc (Suc (Suc (Suc (Suc k))))) x" "kids D m (abs_tree (server x)) M" "M n = None \<and> n \<in> D" "\<forall>y j. ok j y \<longrightarrow> public y 0"
    and "fits (ask_create 0 n)" "\<forall>u. fits (ask_set u (as_bytes32 i))"
  shows "\<exists>y. run (set_new_child n i) x = Inr (y, True) \<and> ok k y \<and> kids D (Suc m) (abs_tree (server y)) (M(n \<mapsto> as_bytes32 i))"
proof -
  obtain j where j: "session_of (server x) self = Some j" using ok_usable [OF assms(1)] by auto
  from run_create_child [OF assms(1-5) j] obtain y q v a where y: "run (create_child n) x = Inr (y, q)" "ok (Suc (Suc k)) y"
    "kids D (Suc m) (abs_tree (server y)) (M(n \<mapsto> []))" "at (client y) q v" "kid (abs_tree (server y)) n v a" by blast
  have tr: "tree_inv (server y)" using ok_tree [OF y(2)] .
  from run_assign [OF y(2,4), of "as_bytes32 i"] kid_not_root [OF tr y(5)] assms(6) obtain z where
    z: "run (prop_assign (as_bytes32 i) q) y = Inr (z, ())" "ok k z" "does self (ask_set v (as_bytes32 i)) (server y) (server z)" by blast
  have "abs_tree (server z) = (abs_tree (server y))(v \<mapsto> a\<lparr>a_data := as_bytes32 i\<rparr>)"
    using set_data [OF z(3)] y(5) by (simp add: kid_def)
  from kids_set [OF tr y(3,5) _ _ this] assms(3) have "kids D (Suc m) (abs_tree (server z)) (M(n \<mapsto> as_bytes32 i))" by simp
  moreover have "to_bool q" using y(4) by (auto elim: atE)
  ultimately show ?thesis using y(1) z(1,2) by (auto simp: set_new_child_def run_bindP)
qed

lemma run_fetched_is:
  assumes "ok (Suc (Suc k)) x" "at (client x) q u" "svalue (server x) u = Some (as_bytes32 i)" "fits (GetRequest \<lparr>GetRequest_uuid = u\<rparr>)"
  shows "\<exists>y. run (fetched_is i q) x = Inr (y, True) \<and> ok k y \<and> server y = server x"
proof -
  from run_fetch [OF assms] obtain y where y: "run (prop_fetch q) x = Inr (y, ())" "ok k y" "server y = server x"
    "steady (client x) (client y)" "same_nodes (client x) (client y)" "cvalue (client y) = (cvalue (client x))(u \<mapsto> as_bytes32 i)" by blast
  have "at (client y) q u" using at_same [OF assms(2) y(4)] y(5) by (simp add: same_nodes_def)
  from run_value [OF this, of "as_bytes32 i" 4] y show ?thesis by (auto simp: fetched_is_def run_bindP as_bytes32_def)
qed

lemma run_get_fetched:
  assumes "ok (Suc (Suc (Suc (Suc (Suc k))))) x" "kids D m (abs_tree (server x)) M" "M n = Some (as_bytes32 i) \<and> n \<in> D" "n \<noteq> ''.''"
    and "fits (ask_child 0 n)" "\<forall>u. fits (GetRequest \<lparr>GetRequest_uuid = u\<rparr>)"
    and f: "\<And>q. to_bool q \<Longrightarrow> f q = fetched_is i q"
  shows "\<exists>y. run (bindP (get_child n) f) x = Inr (y, True) \<and> ok k y \<and> server y = server x"
proof -
  from run_get_child [OF assms(1,4,5)] obtain y q where y: "run (get_child n) x = Inr (y, q)" "ok (Suc (Suc k)) y" "server y = server x"
    "refers (client y) q (child_uuid (server x) 0 n)" by blast
  have tr: "tree_inv (server x)" using ok_tree [OF assms(1)] .
  obtain u where u: "child_uuid (server x) 0 n = Some u" "svalue (server x) u = Some (as_bytes32 i)"
    using kids_Some [OF tr assms(2)] assms(3) by metis
  have at: "at (client y) q u" using y(4) u(1) by (simp add: at_def)
  then have "to_bool q" by (auto elim: atE)
  with run_fetched_is [OF y(2) at, of i] u(2) y assms(6) f show ?thesis by (auto simp: run_bindP)
qed

lemma run_setHRcpHandler:
  assumes "ok k x" "at (client x) p u"
  shows "\<exists>y r. run (prop_setHRcpHandler h p) x = Inr (y, ()) \<and> ok k y \<and> server y = server x \<and> at (client y) p u \<and>
    p = make_Property (Some r) \<and> cn_rcpHandler (c_heap (client y) r) = h"
proof -
  from assms(2) obtain r where r: "p = make_Property (Some r)" "ctree (client x) u = Some r" "r \<in> set (c_held (client x))"
    by (rule atE)
  with ok_rcp [OF assms(1) r(3)] show ?thesis
    by (intro exI [of _ "put (with_rcpHandler r h (client x)) x"] exI [of _ r])
      (simp add: prop_setHRcpHandler_def on_node_def get_put with_rcpHandler_def at_node)
qed

end

section \<open>Clients that come and go\<close>

lemma with_client_ok:
  assumes ok: "world_ok (Suc k) W" and new: "w \<notin> set (conns W)" and send: "sends L ask_signin" and k: "Suc k < 2 ^ 16"
    and K: "\<forall>n\<in>set K. noted W n"
    and body: "\<And>V. shares w K k V \<Longrightarrow> conns V = conns W @ [w] \<Longrightarrow> abs_tree (w_server V) = abs_tree (w_server W) \<Longrightarrow>
      (\<And>v. v \<noteq> w \<Longrightarrow> session_of (w_server V) v = session_of (w_server W) v) \<Longrightarrow>
      \<exists>U. body V = Inr (U, b) \<and> world_ok j U \<and> conns U = conns V \<and> Q (abs_tree (w_server U))"
  shows "\<exists>W'. with_client L w junk body W = Inr (W', b) \<and> world_ok j W' \<and> conns W' = conns W \<and> Q (abs_tree (w_server W'))"
proof -
  from connect_ok [OF ok new send k K, of junk] obtain V where V: "connect L w junk W = Inr (V, RUnit)" "shares w K k V"
    "conns V = conns W @ [w]" "abs_tree (w_server V) = abs_tree (w_server W)"
    "\<forall>v. v \<noteq> w \<longrightarrow> session_of (w_server V) v = session_of (w_server W) v" by blast
  from body [OF V(2-4)] V(5) obtain U where U: "body V = Inr (U, b)" "world_ok j U" "conns U = conns V" "Q (abs_tree (w_server U))"
    by blast
  from leave_ok [OF U(2), of "[]" w] obtain W' where W': "leave w U = Inr W'" "world_ok j W'"
    "conns W' = filter (\<lambda>v. v \<noteq> w) (conns U)" "abs_tree (w_server W') = abs_tree (w_server U)" by auto
  have "filter (\<lambda>v. v \<noteq> w) (conns W) = conns W" using new by (auto simp: filter_id_conv)
  with W'(3) have "conns W' = conns W" using U(3) V(3) by simp
  with W' V(1) U(1,4) show ?thesis by (intro exI [of _ W']) (simp add: with_client_def)
qed

text \<open>
  \<open>passes C t c P Q\<close>: on a tree that satisfies \<open>P\<close>, with \<open>C\<close> free for its clients, the test \<open>t\<close> ends with
  its expectations met, on a tree that satisfies \<open>Q\<close>; \<open>c\<close> messages are enough for it.
\<close>

definition passes :: "conn set \<Rightarrow> (World \<Rightarrow> fault + (World \<times> bool)) \<Rightarrow> nat \<Rightarrow> (atree \<Rightarrow> bool) \<Rightarrow> (atree \<Rightarrow> bool) \<Rightarrow> bool" where
  "passes C t c P Q \<longleftrightarrow> (\<forall>k W. c + k < 2 ^ 16 \<longrightarrow> world_ok (c + k) W \<longrightarrow> C \<inter> set (conns W) = {} \<longrightarrow> P (abs_tree (w_server W)) \<longrightarrow>
     (\<exists>W'. t W = Inr (W', True) \<and> world_ok k W' \<and> conns W' = conns W \<and> Q (abs_tree (w_server W'))))"

text \<open>A test with one client that runs a program.\<close>

lemma passes_client:
  assumes "sends L ask_signin"
    and prog: "\<And>k V. shares w [] (c + k) V \<Longrightarrow> P (abs_tree (w_server V)) \<Longrightarrow>
      \<exists>U. run_client L w p V = Inr (U, True) \<and> shares w [] k U \<and> Q (abs_tree (w_server U))"
  shows "passes {w} (with_client L w junk (run_client L w p)) (Suc c) P Q"
  unfolding passes_def
proof (intro allI impI)
  fix k W assume k: "Suc c + k < 2 ^ 16" and W: "world_ok (Suc c + k) W" "{w} \<inter> set (conns W) = {}" "P (abs_tree (w_server W))"
  have *: "\<exists>U. run_client L w p V = Inr (U, True) \<and> world_ok k U \<and> conns U = conns V \<and> Q (abs_tree (w_server U))"
    if V: "shares w [] (c + k) V" "abs_tree (w_server V) = abs_tree (w_server W)" for V
  proof -
    from prog [OF V(1)] V(2) W(3) obtain U where U: "run_client L w p V = Inr (U, True)" "shares w [] k U" "Q (abs_tree (w_server U))" by auto
    from run_client_conns [OF U(1)] V(1) have "conns U = conns V" by (simp add: shares_def)
    with U show ?thesis by (auto simp: shares_def)
  qed
  show "\<exists>W'. with_client L w junk (run_client L w p) W = Inr (W', True) \<and> world_ok k W' \<and> conns W' = conns W \<and> Q (abs_tree (w_server W'))"
    by (rule with_client_ok [where k = "c + k" and K = "[]", OF _ _ assms(1) _ _ *]) (use k W(1,2) in simp_all)
qed

text \<open>A test with two clients.\<close>

lemma passes_clients:
  assumes "sends L ask_signin" "w \<noteq> v"
    and body: "\<And>k V. world_ok (c + k) V \<Longrightarrow> w \<in> set (conns V) \<Longrightarrow> v \<in> set (conns V) \<Longrightarrow> P (abs_tree (w_server V)) \<Longrightarrow>
      \<exists>U. body V = Inr (U, True) \<and> world_ok k U \<and> conns U = conns V \<and> Q (abs_tree (w_server U))"
  shows "passes {w, v} (with_client L w junk (with_client L v junk' body)) (Suc (Suc c)) P Q"
  unfolding passes_def
proof (intro allI impI)
  fix k W assume k: "Suc (Suc c) + k < 2 ^ 16" and W: "world_ok (Suc (Suc c) + k) W" "{w, v} \<inter> set (conns W) = {}" "P (abs_tree (w_server W))"
  have *: "\<exists>U. with_client L v junk' body V = Inr (U, True) \<and> world_ok k U \<and> conns U = conns V \<and> Q (abs_tree (w_server U))"
    if V: "shares w [] (Suc (c + k)) V" "conns V = conns W @ [w]" "abs_tree (w_server V) = abs_tree (w_server W)" for V
  proof -
    have "\<exists>U. body V' = Inr (U, True) \<and> world_ok k U \<and> conns U = conns V' \<and> Q (abs_tree (w_server U))"
      if "shares v [] (c + k) V'" "conns V' = conns V @ [v]" "abs_tree (w_server V') = abs_tree (w_server V)" for V'
      by (rule body) (use that V W(3) in \<open>simp_all add: shares_def\<close>)
    note inner = with_client_ok [where k = "c + k" and K = "[]", OF _ _ assms(1) _ _ this]
    show ?thesis by (rule inner) (use V W(2) k assms(2) in \<open>auto simp: shares_def\<close>)
  qed
  show "\<exists>W'. with_client L w junk (with_client L v junk' body) W = Inr (W', True) \<and> world_ok k W' \<and> conns W' = conns W \<and>
      Q (abs_tree (w_server W'))"
    by (rule with_client_ok [where k = "Suc (c + k)" and K = "[]", OF _ _ assms(1) _ _ *]) (use k W(1,2) in simp_all)
qed

section \<open>The tests pass\<close>

text \<open>The requests of the tests fit into a frame.\<close>

definition test_requests :: "cum \<Rightarrow> bool" where
  "test_requests L \<longleftrightarrow> sends L ask_signin \<and> sends L (ask_all 0) \<and>
     (\<forall>n\<in>{''child1'', ''child2'', ''rpc''}. sends L (ask_create 0 n) \<and> sends L (ask_child 0 n)) \<and>
     (\<forall>u. sends L (ask_delete u) \<and> sends L (GetRequest \<lparr>GetRequest_uuid = u\<rparr>) \<and>
       sends L (SubscribeRequest \<lparr>SubscribeRequest_uuid = u\<rparr>) \<and> sends L (UnsubscribeRequest \<lparr>UnsubscribeRequest_uuid = u\<rparr>)) \<and>
     (\<forall>u i. sends L (ask_set u (as_bytes32 i)) \<and> sends L (ask_call u (as_bytes32 i)) \<and> sends L (tell_result (as_bytes32 i)))"

lemma root_known: "\<forall>W j. shares w K j W \<longrightarrow> known_to_all W 0"
  unfolding shares_def world_ok_def known_to_all_def by simp

lemma passes_shouldSignIn:
  assumes "test_requests L"
  shows "passes {w} (shouldSignIn L w junk) 1 P P"
  unfolding passes_def shouldSignIn_def
proof (intro allI impI)
  fix k W assume "1 + k < 2 ^ 16" "world_ok (1 + k) W" "{w} \<inter> set (conns W) = {}" "P (abs_tree (w_server W))"
  with assms show "\<exists>W'. with_client L w junk (\<lambda>W. Inr (W, True)) W = Inr (W', True) \<and> world_ok k W' \<and> conns W' = conns W \<and>
      P (abs_tree (w_server W'))"
    by (intro with_client_ok [where k = k and K = "[]"]) (simp_all add: test_requests_def shares_def)
qed

lemma passes_shouldCleanTree:
  assumes L: "test_requests L" and fuel: "2 * m < fuel"
  shows "passes {w} (shouldCleanTree fuel L w junk) (Suc (2 * m + 3)) (few m) (\<lambda>A. kids D 0 A (\<lambda>_. None))"
  unfolding shouldCleanTree_def
proof (rule passes_client)
  fix k V assume V: "shares w [] (2 * m + 3 + k) V" "few m (abs_tree (w_server V))"
  let ?ts = "forest_of (w_server V) 0"
  have tr: "tree_inv (w_server V)" using shared.ok_tree [OF V(1)] .
  have "dom (abs_tree (w_server V)) = dom (tree (w_server V))" by (auto simp: dom_def)
  moreover obtain r where "tree (w_server V) 0 = Some r" using tr by (rule tree_root)
  ultimately have "card (dom (tree (w_server V)) - {0}) \<le> m" using V(2) by (auto simp: few_def card_Diff_singleton domI)
  with members_root [OF tr] have len: "length (members ?ts) \<le> m"
    using distinct_card [OF members_distinct [OF tr, of 0]] by simp
  have sh: "shares w [] (2 * length (members ?ts) + 3 + k) V" by (rule shares_mono [OF V(1)]) (use len in simp)
  have "rounds ?ts < fuel" using rounds_members [of ?ts] len fuel by linarith
  from shared.run_clean [OF sh this, of L] L obtain U where U: "run_client L w (clean fuel) V = Inr (U, ())" "shares w [] k U"
    "dom (tree (w_server U)) = {0}" by (auto simp: test_requests_def spares_def)
  have "kids D 0 (abs_tree (w_server U)) (\<lambda>_. None)" by (rule kids_empty [OF shared.ok_tree [OF U(2)] U(3)])
  with U show "\<exists>U. run_client L w (bindP (clean fuel) (\<lambda>_. Done True)) V = Inr (U, True) \<and> shares w [] k U \<and>
      kids D 0 (abs_tree (w_server U)) (\<lambda>_. None)" by (simp add: run_bindP)
qed (use L in \<open>simp add: test_requests_def\<close>)

lemma passes_shouldCreateAnSet:
  assumes L: "test_requests L" and M: "M ''child1'' = None \<and> ''child1'' \<in> D"
  shows "passes {w} (shouldCreateAnSet L w junk) (Suc 5) (\<lambda>A. kids D m A M) (\<lambda>A. kids D (Suc m) A (M(''child1'' \<mapsto> as_bytes32 42)))"
  unfolding shouldCreateAnSet_def
proof (rule passes_client)
  fix k V assume V: "shares w [] (5 + k) V" "kids D m (abs_tree (w_server V)) M"
  from V(1) have "shares w [] (Suc (Suc (Suc (Suc (Suc k))))) V" by (simp add: numeral_eq_Suc)
  from shared.run_set_new_child [OF this V(2) M root_known, of L 42] L
  show "\<exists>U. run_client L w (set_new_child ''child1'' 42) V = Inr (U, True) \<and> shares w [] k U \<and>
      kids D (Suc m) (abs_tree (w_server U)) (M(''child1'' \<mapsto> as_bytes32 42))"
    by (auto simp: test_requests_def spares_def)
qed (use L in \<open>simp add: test_requests_def\<close>)

lemma passes_shouldGetValue:
  assumes L: "test_requests L" and M: "M ''child1'' = Some (as_bytes32 42) \<and> ''child1'' \<in> D"
  shows "passes {w} (shouldGetValue L w junk) (Suc 5) (\<lambda>A. kids D m A M) (\<lambda>A. kids D m A M)"
  unfolding shouldGetValue_def
proof (rule passes_client)
  fix k V assume V: "shares w [] (5 + k) V" "kids D m (abs_tree (w_server V)) M"
  from V(1) have "shares w [] (Suc (Suc (Suc (Suc (Suc k))))) V" by (simp add: numeral_eq_Suc)
  from shared.run_get_fetched [OF this V(2) M, of L "fetched_is 42"] L V(2)
  show "\<exists>U. run_client L w (bindP (get_child ''child1'') (fetched_is 42)) V = Inr (U, True) \<and> shares w [] k U \<and>
      kids D m (abs_tree (w_server U)) M"
    by (auto simp: test_requests_def spares_def)
qed (use L in \<open>simp add: test_requests_def\<close>)

lemma passes_shouldGetValueWithoutTreeInfo:
  assumes L: "test_requests L" and M: "M ''child2'' = None \<and> ''child2'' \<in> D" and wv: "w \<noteq> v"
  shows "passes {w, v} (shouldGetValueWithoutTreeInfo L w v junk junk') (Suc (Suc 10)) (\<lambda>A. kids D m A M)
    (\<lambda>A. kids D (Suc m) A (M(''child2'' \<mapsto> as_bytes32 44)))"
  unfolding shouldGetValueWithoutTreeInfo_def
proof (rule passes_clients [OF _ wv])
  fix k V assume V: "world_ok (10 + k) V" "w \<in> set (conns V)" "v \<in> set (conns V)" "kids D m (abs_tree (w_server V)) M"
  let ?M = "M(''child2'' \<mapsto> as_bytes32 44)"
  let ?p = "\<lambda>child. if \<not> to_bool child then Done False else fetched_is 44 child"
  have some: "?M ''child2'' = Some (as_bytes32 44) \<and> ''child2'' \<in> D" using M by simp
  have "shares w [] (Suc (Suc (Suc (Suc (Suc (5 + k)))))) V" using V(1,2) by (simp add: shares_def numeral_eq_Suc)
  from shared.run_set_new_child [OF this V(4) M root_known, of L 44] L obtain X where
    X: "run_client L w (set_new_child ''child2'' 44) V = Inr (X, True)" "shares w [] (5 + k) X" "kids D (Suc m) (abs_tree (w_server X)) ?M"
    by (auto simp: test_requests_def spares_def)
  have cn: "conns X = conns V" using run_client_conns [OF X(1) V(2)] .
  have "shares v [] (5 + k) X" using X(2) cn V(3) by (intro shares_switch [OF X(2)]) simp_all
  then have "shares v [] (Suc (Suc (Suc (Suc (Suc k))))) X" by (simp add: numeral_eq_Suc)
  from shared.run_get_fetched [OF this X(3) some, of L ?p] L obtain U where
    U: "run_client L v (bindP (get_child ''child2'') ?p) X = Inr (U, True)" "shares v [] k U" "w_server U = w_server X"
    by (auto simp: test_requests_def spares_def)
  have "conns U = conns V" using run_client_conns [OF U(1)] V(3) cn by simp
  with X(1,3) U show "\<exists>U. bindR (run_client L w (set_new_child ''child2'' 44) V) (\<lambda>(W, b). if \<not> b then Inr (W, False)
      else run_client L v (bindP (get_child ''child2'') ?p) W) = Inr (U, True) \<and> world_ok k U \<and> conns U = conns V \<and>
      kids D (Suc m) (abs_tree (w_server U)) ?M"
    by (intro exI [of _ U]) (simp add: shares_def)
qed (use L in \<open>simp add: test_requests_def\<close>)

text \<open>A subscriber sees the values that are set until it unsubscribes.\<close>

lemma does_subscribed:
  assumes "abs_tree s u = Some a" "session_of s w = Some i"
  shows "does w (SubscribeRequest \<lparr>SubscribeRequest_uuid = u\<rparr>) s s' \<Longrightarrow>
      abs_tree s' = (abs_tree s)(u \<mapsto> a\<lparr>a_subscribers := insert i (a_subscribers a)\<rparr>)"
    and "does w (UnsubscribeRequest \<lparr>UnsubscribeRequest_uuid = u\<rparr>) s s' \<Longrightarrow> i \<in> a_subscribers a \<Longrightarrow>
      abs_tree s' = (abs_tree s)(u \<mapsto> a\<lparr>a_subscribers := a_subscribers a - {i}\<rparr>)"
  using assms by (simp_all add: does_def)

lemma set_child_ok:
  assumes sh: "shares v K (Suc (Suc (Suc (Suc (Suc k))))) W" and u: "kid (abs_tree (w_server W)) n u a" and n: "n \<noteq> ''.''"
    and K: "\<forall>x\<in>set K. settled (w_server W) u x" and L: "sends L (ask_child 0 n)" "sends L (ask_set u (as_bytes32 i))"
  shows "\<exists>W'. run_client L v (set_child n i) W = Inr (W', ()) \<and> conns W' = conns W \<and>
    shares v (map (renewed (w_server W) u (as_bytes32 i)) K) k W' \<and>
    abs_tree (w_server W') = (abs_tree (w_server W))(u \<mapsto> a\<lparr>a_data := as_bytes32 i\<rparr>)"
proof -
  have tr: "tree_inv (w_server W)" using shared.ok_tree [OF sh] .
  from shared.run_get_child [OF sh n, of L] L(1) obtain X q where X: "run_client L v (get_child n) W = Inr (X, q)"
    "shares v K (Suc (Suc k)) X" "w_server X = w_server W" "refers (client_at v X) q (child_uuid (w_server W) 0 n)"
    by (auto simp: spares_def)
  have "child_uuid (w_server W) 0 n = Some u" using child_kid [OF tr] u by blast
  with X(4) have at: "at (client_at v X) q u" by (simp add: at_def)
  from world_set [OF X(2) at _ L(2)] kid_not_root [OF tr u] K X(3) obtain W' where
    W': "run_client L v (prop_assign (as_bytes32 i) q) X = Inr (W', ())"
      "shares v (map (renewed (w_server W) u (as_bytes32 i)) K) k W'" "does v (ask_set u (as_bytes32 i)) (w_server W) (w_server W')" by auto
  have run: "run_client L v (set_child n i) W = Inr (W', ())" using X(1) W'(1) by (simp add: set_child_def run_bindP)
  have "v \<in> set (conns W)" using sh by (simp add: shares_def)
  from run_client_conns [OF run this] run W'(2) set_data [OF W'(3)] u show ?thesis by (auto simp: kid_def)
qed

lemma subscribe_child_ok:
  assumes sh: "shares w K (Suc (Suc (Suc (Suc (Suc k))))) W" and u: "kid (abs_tree (w_server W)) nm u a" and n: "nm \<noteq> ''.''"
    and L: "sends L (ask_child 0 nm)" "sends L (SubscribeRequest \<lparr>SubscribeRequest_uuid = u\<rparr>)"
  shows "\<exists>X n. run_client L w (bindP (get_child nm) (\<lambda>child. bindP (prop_subscribe child) (\<lambda>_. Done child))) W =
      Inr (X, make_Property (Some (n_ref n))) \<and> conns X = conns W \<and> world_ok k X \<and> noted X n \<and> n_conn n = w \<and> n_node n = u \<and>
    abs_tree (w_server X) = (abs_tree (w_server W))(u \<mapsto> a\<lparr>a_subscribers := insert (n_session n) (a_subscribers a)\<rparr>)"
proof -
  have tr: "tree_inv (w_server W)" using shared.ok_tree [OF sh] .
  have "child_uuid (w_server W) 0 nm = Some u" using child_kid [OF tr] u by blast
  with shared.run_get_child [OF sh n, of L] L(1) obtain Y p where Y: "run_client L w (get_child nm) W = Inr (Y, p)"
    "shares w K (Suc (Suc k)) Y" "w_server Y = w_server W" "at (client_at w Y) p u" by (auto simp: spares_def at_def)
  from shared.run_subscribe [OF Y(2,4), of L] L(2) Y(3) obtain X where X: "run_client L w (prop_subscribe p) Y = Inr (X, ())"
    "shares w K k X" "does w (SubscribeRequest \<lparr>SubscribeRequest_uuid = u\<rparr>) (w_server W) (w_server X)"
    "steady (client_at w Y) (client_at w X)" "same_tree (client_at w Y) (client_at w X)" by (auto simp: spares_def)
  have run: "run_client L w (bindP (get_child nm) (\<lambda>child. bindP (prop_subscribe child) (\<lambda>_. Done child))) W = Inr (X, p)"
    using Y(1) X(1) by (simp add: run_bindP)
  have "at (client_at w X) p u" using at_same [OF Y(4) X(4)] X(5) by (simp add: same_tree_def)
  from note_taken [OF X(2) this] obtain n where n: "noted X n" "n_conn n = w" "n_node n = u" "p = make_Property (Some (n_ref n))"
    "session_of (w_server X) w = Some (n_session n)" by metis
  have "session_of (w_server W) w = Some (n_session n)" using X(3) n(5) by (simp add: does_def)
  with does_subscribed(1) [OF _ _ X(3)] u
  have "abs_tree (w_server X) = (abs_tree (w_server W))(u \<mapsto> a\<lparr>a_subscribers := insert (n_session n) (a_subscribers a)\<rparr>)"
    by (simp add: kid_def)
  moreover have "conns X = conns W" using run_client_conns [OF run] sh by (simp add: shares_def)
  ultimately show ?thesis using run X(2) n by (intro exI [of _ X] exI [of _ n]) (simp add: shares_def)
qed

lemma unsubscribe_ok:
  assumes ok: "world_ok (Suc (Suc k)) W" and n: "noted W n" "n_conn n = w" "n_node n = u" "length (n_value n) = 4"
    and a: "abs_tree (w_server W) u = Some a" "n_session n \<in> a_subscribers a"
    and L: "sends L (UnsubscribeRequest \<lparr>UnsubscribeRequest_uuid = u\<rparr>)"
  defines "p \<equiv> make_Property (Some (n_ref n))"
  shows "\<exists>X n'. run_client L w (bindP (prop_value 4 p) (\<lambda>x. bindP (prop_unsubscribe p) (\<lambda>_. Done x))) W = Inr (X, Some (n_value n)) \<and>
    conns X = conns W \<and> world_ok k X \<and> noted X n' \<and> n_conn n' = w \<and> n_node n' = u \<and> n_ref n' = n_ref n \<and> n_value n' = n_value n \<and>
    abs_tree (w_server X) = (abs_tree (w_server W))(u \<mapsto> a\<lparr>a_subscribers := a_subscribers a - {n_session n}\<rparr>)"
proof -
  have w: "w \<in> set (conns W)" using noted_at(3) [OF n(1)] n(2) by simp
  have at: "at (client_at w W) p u" "cvalue (client_at w W) u = Some (n_value n)" using noted_at [OF n(1)] n(2,3) by (simp_all add: p_def)
  have i: "session_of (w_server W) w = Some (n_session n)" using n(1,2) by (simp add: noted_def Let_def)
  have sh: "shares w [] (Suc (Suc k)) W" using ok w by (simp add: shares_def)
  have sub: "subscribed u (n_session n) (w_server W)" using a by (simp add: subscribed_def)
  from shared.run_unsubscribe [OF sh at(1) i sub, of L] L obtain X where X: "run_client L w (prop_unsubscribe p) W = Inr (X, ())"
    "shares w [] k X" "does w (UnsubscribeRequest \<lparr>UnsubscribeRequest_uuid = u\<rparr>) (w_server W) (w_server X)"
    "steady (client_at w W) (client_at w X)" "same_tree (client_at w W) (client_at w X)" by (auto simp: spares_def)
  have run: "run_client L w (bindP (prop_value 4 p) (\<lambda>x. bindP (prop_unsubscribe p) (\<lambda>_. Done x))) W = Inr (X, Some (n_value n))"
    using shared.run_value [OF at] X(1) n(4) by (simp add: run_bindP)
  have "at (client_at w X) p u" using at_same [OF at(1) X(4)] X(5) by (simp add: same_tree_def)
  from note_taken [OF X(2) this] obtain n' where n': "noted X n'" "n_conn n' = w" "n_node n' = u" "p = make_Property (Some (n_ref n'))" by metis
  have "n_value n' = n_value n" using noted_at(2) [OF n'(1)] n'(2,3) at(2) same_tree_views [OF X(5)] by simp
  with run n' X(2) does_subscribed(2) [OF a(1) i X(3) a(2)] run_client_conns [OF run w] show ?thesis
    by (intro exI [of _ X] exI [of _ n']) (simp add: shares_def p_def)
qed

lemma passes_shouldSubscribeUpdateAndUnsubscribe:
  assumes L: "test_requests L" and M: "M ''child1'' = Some bs" "''child1'' \<in> D" and wv: "w \<noteq> v"
  shows "passes {w, v} (shouldSubscribeUpdateAndUnsubscribe L w v junk junk') (Suc (Suc 17)) (\<lambda>A. kids D m A M)
    (\<lambda>A. kids D m A (M(''child1'' \<mapsto> as_bytes32 44)))"
  unfolding shouldSubscribeUpdateAndUnsubscribe_def
proof (rule passes_clients [OF _ wv])
  fix k V assume V: "world_ok (17 + k) V" "w \<in> set (conns V)" "v \<in> set (conns V)" "kids D m (abs_tree (w_server V)) M"
  let ?n = "''child1''" and ?b = as_bytes32 and ?A = "abs_tree (w_server V)"
  have send: "\<And>u i. sends L (ask_set u (?b i))" "sends L (ask_child 0 ?n)"
    "\<And>u. sends L (SubscribeRequest \<lparr>SubscribeRequest_uuid = u\<rparr>)" "\<And>u. sends L (UnsubscribeRequest \<lparr>UnsubscribeRequest_uuid = u\<rparr>)"
    using L by (simp_all add: test_requests_def)
  have four: "length (?b j) = 4" for j by (simp add: as_bytes32_def)
  have sh: "shares w [] (Suc (Suc (Suc (Suc (Suc (12 + k)))))) V" using V(1,2) by (simp add: shares_def numeral_eq_Suc)
  have tr: "tree_inv (w_server V)" using shared.ok_tree [OF sh] .
  obtain u a where u: "kid ?A ?n u a" "a_subscribers a = {}" using kids_Some [OF tr V(4) M] by metis
  from subscribe_child_ok [OF sh u(1) _ send(2,3)] u(2) obtain X n where
    X: "run_client L w (bindP (get_child ?n) (\<lambda>child. bindP (prop_subscribe child) (\<lambda>_. Done child))) V =
        Inr (X, make_Property (Some (n_ref n)))" "conns X = conns V" "world_ok (12 + k) X"
      "abs_tree (w_server X) = ?A(u \<mapsto> a\<lparr>a_subscribers := {n_session n}\<rparr>)"
    and n: "noted X n" "n_conn n = w" "n_node n = u" by auto
  let ?a = "a\<lparr>a_subscribers := {n_session n}\<rparr>" and ?i = "n_session n" and ?p = "make_Property (Some (n_ref n))"
  have "shares v [n] (Suc (Suc (Suc (Suc (Suc (7 + k)))))) X" using X(2,3) V(3) n(1,2) wv by (simp add: shares_def numeral_eq_Suc)
  moreover have "kid (abs_tree (w_server X)) ?n u ?a" using u(1) by (simp add: X(4) kid_def)
  moreover have sub: "subscribed u ?i (w_server X)" by (simp add: subscribed_def X(4))
  ultimately obtain Y where Y: "run_client L v (set_child ?n 43) X = Inr (Y, ())" "conns Y = conns V"
    "shares v [n\<lparr>n_value := ?b 43\<rparr>] (7 + k) Y" "abs_tree (w_server Y) = ?A(u \<mapsto> ?a\<lparr>a_data := ?b 43\<rparr>)"
    using set_child_ok [of v "[n]" "7 + k" X ?n u ?a L 43] send(1,2) X(2,4) n(3) by (auto simp: settled_def renewed_def)
  have "world_ok (Suc (Suc (5 + k))) Y" "noted Y (n\<lparr>n_value := ?b 43\<rparr>)" using Y(3) by (simp_all add: shares_def numeral_eq_Suc)
  from unsubscribe_ok [OF this, of w u "?a\<lparr>a_data := ?b 43\<rparr>" L] Y(2,4) n(2,3) send(4) four obtain Z n' where
    Z: "run_client L w (bindP (prop_value 4 ?p) (\<lambda>x. bindP (prop_unsubscribe ?p) (\<lambda>_. Done x))) Y = Inr (Z, Some (?b 43))"
      "conns Z = conns V" "world_ok (5 + k) Z" "abs_tree (w_server Z) = ?A(u \<mapsto> ?a\<lparr>a_data := ?b 43, a_subscribers := {}\<rparr>)"
    and n': "noted Z n'" "n_conn n' = w" "n_node n' = u" "n_ref n' = n_ref n" "n_value n' = ?b 43" by auto
  have A: "abs_tree (w_server Z) = ?A(u \<mapsto> a\<lparr>a_data := ?b 43\<rparr>)" using Z(4) u(2) by (cases a) simp
  have "shares v [n'] (Suc (Suc (Suc (Suc (Suc k))))) Z" using Z(2,3) V(3) n'(1,2) wv by (simp add: shares_def numeral_eq_Suc)
  moreover have "kid (abs_tree (w_server Z)) ?n u (a\<lparr>a_data := ?b 43\<rparr>)" using u(1) by (simp add: A kid_def)
  moreover have "\<not> subscribed u (n_session n') (w_server Z)" using u(2) by (simp add: subscribed_def A)
  ultimately obtain U where U: "run_client L v (set_child ?n 44) Z = Inr (U, ())" "conns U = conns V" "shares v [n'] k U"
    "abs_tree (w_server U) = ?A(u \<mapsto> a\<lparr>a_data := ?b 44\<rparr>)"
    using set_child_ok [of v "[n']" k Z ?n u "a\<lparr>a_data := ?b 43\<rparr>" L 44] send(1,2) Z(2) u(2) by (auto simp: settled_def renewed_def A)
  have "noted U n'" using U(3) by (simp add: shares_def)
  then have at: "at (client_at w U) ?p u" "cvalue (client_at w U) u = Some (?b 43)" using noted_at [of U n'] n' by simp_all
  have "run_client L w (bindP (prop_value 4 ?p) (\<lambda>y. Done (Some (?b 43) = Some (?b 43) \<and> y = Some (?b 43)))) U = Inr (U, True)"
    using shared.run_value [OF at] four by (simp add: run_bindP)
  moreover have "kids D m (abs_tree (w_server U)) (M(?n \<mapsto> ?b 44))" using kids_set [OF tr V(4) u(1) _ M(2) U(4)] M(1) by simp
  moreover have "world_ok k U" using U(3) by (simp add: shares_def)
  ultimately show "\<exists>U. bindR (run_client L w (bindP (get_child ?n) (\<lambda>child. bindP (prop_subscribe child) (\<lambda>_. Done child))) V) (\<lambda>(W, child).
      bindR (run_client L v (set_child ?n 43) W) (\<lambda>(W, _).
      bindR (run_client L w (bindP (prop_value 4 child) (\<lambda>x. bindP (prop_unsubscribe child) (\<lambda>_. Done x))) W) (\<lambda>(W, x).
      bindR (run_client L v (set_child ?n 44) W) (\<lambda>(W, _).
      run_client L w (bindP (prop_value 4 child) (\<lambda>y. Done (x = Some (?b 43) \<and> y = Some (?b 43)))) W)))) = Inr (U, True) \<and>
    world_ok k U \<and> conns U = conns V \<and> kids D m (abs_tree (w_server U)) (M(?n \<mapsto> ?b 44))"
    using X(1) Y(1) Z(1) U(1,2) by (intro exI [of _ U]) simp
qed (use L in \<open>simp add: test_requests_def\<close>)

text \<open>A call is answered by the client that owns the node.\<close>

lemma increment_bytes: "Suc i < 2 ^ 32 \<Longrightarrow> increment (as_bytes32 i) = as_bytes32 (Suc i)"
proof -
  assume i: "Suc i < 2 ^ 32"
  then have "le_nat (take 4 (as_bytes32 i)) = i" by (simp add: as_bytes32_def le_nat_le_bytes)
  moreover have "of_nat i + 1 = (of_nat (Suc i) :: u32)" by simp
  ultimately show ?thesis using i by (simp add: increment_def as_bytes32_def unat_of_nat del: of_nat_Suc)
qed

context operations
begin

lemma run_offer_rpc:
  assumes ok: "ok (Suc (Suc (Suc (Suc (Suc (Suc (Suc (Suc k)))))))) x" and K: "kids D m (abs_tree (server x)) M" and D: "''rpc'' \<in> D"
    and pub: "\<forall>y j. ok j y \<longrightarrow> public y 0"
    and fits: "fits (ask_child 0 ''rpc'')" "fits (ask_create 0 ''rpc'')" "\<forall>u. fits (ask_delete u)"
  shows "\<exists>y r v a. run offer_rpc x = Inr (y, make_Property (Some r)) \<and> ok k y \<and>
    kids D (Suc m) (abs_tree (server y)) (M(''rpc'' \<mapsto> [])) \<and> at (client y) (make_Property (Some r)) v \<and>
    kid (abs_tree (server y)) ''rpc'' v a \<and> session_of (server y) self = Some (a_owner a) \<and>
    cn_rcpHandler (c_heap (client y) r) = Some increment"
proof -
  let ?remove = "bindP (get_child ''rpc'') (\<lambda>rpc. if to_bool rpc then bindP (prop_destroy rpc) (\<lambda>_. Done ()) else Done ())"
  from run_get_child [OF ok _ fits(1)] obtain y p where y: "run (get_child ''rpc'') x = Inr (y, p)" "ok (Suc (Suc (Suc (Suc (Suc k))))) y"
    "server y = server x" "refers (client y) p (child_uuid (server x) 0 ''rpc'')" by auto
  have tr: "tree_inv (server x)" using ok_tree [OF ok] .
  have "\<exists>z. run ?remove x = Inr (z, ()) \<and> ok (Suc (Suc (Suc k))) z \<and> kids D m (abs_tree (server z)) (M(''rpc'' := None))"
  proof (cases "M ''rpc''")
    case None
    then have "\<not> to_bool p" using y(4) kids_None [OF tr K _ D] by simp
    moreover have "M(''rpc'' := None) = M" using None by (simp add: fun_upd_idem)
    ultimately show ?thesis using y K ok_mono [OF y(2)] by (simp add: run_bindP)
  next
    case (Some bs)
    from kids_Some [OF tr K this D] obtain u a where u: "child_uuid (server x) 0 ''rpc'' = Some u" "kid (abs_tree (server x)) ''rpc'' u a"
      "\<not> is_parent (abs_tree (server x)) u" by metis
    have at: "at (client y) p u" using y(4) u(1) by (simp add: at_def)
    have "\<not> is_parent (abs_tree (server y)) u" using u(3) y(3) by simp
    from run_destroy [OF y(2) at kid_not_root [OF tr u(2)] this fits(3) [rule_format]] obtain z where
      z: "run (prop_destroy p) y = Inr (z, True)" "ok (Suc (Suc (Suc k))) z" "does self (ask_delete u) (server x) (server z)"
      using y(3) by auto
    have "tree (server x) u \<noteq> None" using u(2) by (metis abs_tree_None kid_def option.distinct(1))
    from kids_deleted [OF tr K u(2) does_deleted(1) [OF z(3) this u(3)]] have "kids D m (abs_tree (server z)) (M(''rpc'' := None))" .
    moreover have "to_bool p" using at by (auto elim: atE)
    ultimately show ?thesis using y(1) z(1,2) by (simp add: run_bindP)
  qed
  then obtain z where z: "run ?remove x = Inr (z, ())" "ok (Suc (Suc (Suc k))) z" "kids D m (abs_tree (server z)) (M(''rpc'' := None))" by blast
  obtain i where i: "session_of (server z) self = Some i" using ok_usable [OF z(2)] by auto
  from run_create_child [OF z(2,3) _ pub fits(2) i] D obtain t q v a where t: "run (create_child ''rpc'') z = Inr (t, q)" "ok k t"
    "kids D (Suc m) (abs_tree (server t)) (M(''rpc'' \<mapsto> []))" "at (client t) q v" "kid (abs_tree (server t)) ''rpc'' v a" "a_owner a = i"
    "session_of (server t) self = Some i" by auto
  from run_setHRcpHandler [OF t(2,4), of "Some increment"] obtain b r where
    "run (prop_setHRcpHandler (Some increment) q) t = Inr (b, ())" "ok k b" "server b = server t" "at (client b) q v"
    "q = make_Property (Some r)" "cn_rcpHandler (c_heap (client b) r) = Some increment" by blast
  moreover have "run offer_rpc x = run (bindP (create_child ''rpc'') (\<lambda>rpc. bindP (prop_setHRcpHandler (Some increment) rpc) (\<lambda>_. Done rpc))) z"
    unfolding offer_rpc_def by (subst run_bindP) (simp only: z(1) bindR.simps prod.case)
  ultimately show ?thesis using t
    by (intro exI [of _ b] exI [of _ r] exI [of _ v] exI [of _ a]) (simp add: run_bindP)
qed

end

lemma call_next_ok:
  assumes sh: "shares v K (Suc (Suc k)) W" and at: "at (client_at v W) q u"
    and n: "n \<in> set K" "n_node n = u" "n_handler n = Some increment"
    and own: "abs_tree (w_server W) u = Some a" "a_owner a = n_session n"
    and L: "sends L (ask_call u (as_bytes32 i))" "sends L (tell_result (as_bytes32 (Suc i)))" and i: "Suc i < 2 ^ 32"
  shows "\<exists>W'. run_client L v (call_next i q p) W = run_client L v p W' \<and> shares v K k W' \<and>
    abs_tree (w_server W') = abs_tree (w_server W) \<and> at (client_at v W') q u"
proof -
  have "sends L (tell_result (increment (as_bytes32 i)))" using L(2) increment_bytes [OF i] by simp
  from world_call [OF sh at n own L(1) this] obtain W' where W': "run_client L v (prop_call (as_bytes32 i) q) W = Inr (W', as_bytes32 (Suc i))"
    "shares v K k W'" "abs_tree (w_server W') = abs_tree (w_server W)" "steady (client_at v W) (client_at v W')"
    "same_tree (client_at v W) (client_at v W')" unfolding increment_bytes [OF i] by blast
  have "at (client_at v W') q u" using at_same [OF at W'(4)] W'(5) by (simp add: same_tree_def)
  moreover have "length (as_bytes32 (Suc i)) = 4" "le_nat (as_bytes32 (Suc i)) = i + 1"
    using i by (simp_all add: as_bytes32_def le_nat_le_bytes)
  then have "run_client L v (call_next i q p) W = run_client L v p W'" using W'(1) by (simp add: call_next_def run_bindP)
  ultimately show ?thesis using W'(2,3) by blast
qed

lemma passes_shouldRpcCall:
  assumes L: "test_requests L" and wv: "w \<noteq> v" and D: "''rpc'' \<in> D"
  shows "passes {w, v} (shouldRpcCall L w v junk junk') (Suc (8 + Suc 7)) (\<lambda>A. kids D m A M) (\<lambda>A. kids D (Suc m) A (M(''rpc'' \<mapsto> [])))"
  unfolding passes_def
proof (intro allI impI)
  fix k W assume k: "Suc (8 + Suc 7) + k < 2 ^ 16" and W: "world_ok (Suc (8 + Suc 7) + k) W" "{w, v} \<inter> set (conns W) = {}"
    "kids D m (abs_tree (w_server W)) M"
  let ?Q = "\<lambda>A. kids D (Suc m) A (M(''rpc'' \<mapsto> []))" and ?n = "''rpc''"
  let ?p = "bindP (get_child ?n) (\<lambda>rpc. call_next 42 rpc (call_next 43 rpc (Done True)))"
  let ?body = "\<lambda>W. bindR (run_client L w offer_rpc W) (\<lambda>(W, _). with_client L v junk' (run_client L v ?p) W)"
  have send: "sends L ask_signin" "sends L (ask_child 0 ?n)" "sends L (ask_create 0 ?n)" "\<And>u. sends L (ask_delete u)"
    "\<And>u i. sends L (ask_call u (as_bytes32 i))" "\<And>i. sends L (tell_result (as_bytes32 i))"
    using L by (simp_all add: test_requests_def)
  have *: "\<exists>U. ?body V = Inr (U, True) \<and> world_ok k U \<and> conns U = conns V \<and> ?Q (abs_tree (w_server U))"
    if V: "shares w [] (8 + Suc (7 + k)) V" "conns V = conns W @ [w]" "abs_tree (w_server V) = abs_tree (w_server W)" for V
  proof -
    have "shares w [] (Suc (Suc (Suc (Suc (Suc (Suc (Suc (Suc (Suc (7 + k))))))))) ) V" using V(1) by (simp add: numeral_eq_Suc)
    moreover have "kids D m (abs_tree (w_server V)) M" using V(3) W(3) by simp
    ultimately obtain X r u a where X: "run_client L w offer_rpc V = Inr (X, make_Property (Some r))" "shares w [] (Suc (7 + k)) X"
      "?Q (abs_tree (w_server X))" "at (client_at w X) (make_Property (Some r)) u" "kid (abs_tree (w_server X)) ?n u a"
      "session_of (w_server X) w = Some (a_owner a)" "cn_rcpHandler (c_heap (client_at w X) r) = Some increment"
      using shared.run_offer_rpc [of w "[]" "Suc (7 + k)" V D m M L] D root_known send(2-4) by (auto simp: spares_def)
    have cn: "conns X = conns V" using run_client_conns [OF X(1)] V(2) by simp
    obtain n where n: "noted X n" "n_conn n = w" "n_node n = u" "n_session n = a_owner a" "n_handler n = Some increment"
      using note_taken [OF X(2,4)] X(6,7) by (metis make_Property_inject option.inject)
    have "\<exists>U. run_client L v ?p Y = Inr (U, True) \<and> world_ok k U \<and> conns U = conns Y \<and> ?Q (abs_tree (w_server U))"
      if Y: "shares v [n] (7 + k) Y" "abs_tree (w_server Y) = abs_tree (w_server X)" for Y
    proof -
      have sh: "shares v [n] (Suc (Suc (Suc (4 + k)))) Y" using Y(1) by (simp add: numeral_eq_Suc)
      have "child_uuid (w_server Y) 0 ?n = Some u" using child_kid [OF shared.ok_tree [OF sh]] X(5) Y(2) by auto
      with shared.run_get_child [OF sh, of ?n L] send(2) obtain Z q where Z: "run_client L v (get_child ?n) Y = Inr (Z, q)"
        "shares v [n] (4 + k) Z" "w_server Z = w_server Y" "at (client_at v Z) q u" by (auto simp: spares_def at_def)
      have own: "abs_tree (w_server Z) u = Some a" "a_owner a = n_session n" using X(5) Y(2) Z(3) n(4) by (simp_all add: kid_def)
      have "shares v [n] (Suc (Suc (2 + k))) Z" using Z(2) by (simp add: numeral_eq_Suc)
      from call_next_ok [OF this Z(4) _ n(3,5) own send(5,6), of 42 "call_next 43 q (Done True)"] obtain A where
        A: "run_client L v (call_next 42 q (call_next 43 q (Done True))) Z = run_client L v (call_next 43 q (Done True)) A"
        "shares v [n] (2 + k) A" "abs_tree (w_server A) = abs_tree (w_server Z)" "at (client_at v A) q u" by auto
      have "shares v [n] (Suc (Suc k)) A" using A(2) by (simp add: numeral_eq_Suc)
      from call_next_ok [OF this A(4) _ n(3,5) _ own(2) send(5,6), of 43 "Done True"] own(1) A(3) obtain B where
        B: "run_client L v (call_next 43 q (Done True)) A = Inr (B, True)" "shares v [n] k B" "abs_tree (w_server B) = abs_tree (w_server A)"
        by auto
      have run: "run_client L v ?p Y = Inr (B, True)" using Z(1) A(1) B(1) by (simp add: run_bindP)
      with run_client_conns [OF run] B(2,3) A(3) Z(3) Y X(3) show ?thesis by (simp add: shares_def)
    qed
    note ** = this
    have "\<exists>U. with_client L v junk' (run_client L v ?p) X = Inr (U, True) \<and> world_ok k U \<and> conns U = conns X \<and> ?Q (abs_tree (w_server U))"
      by (rule with_client_ok [where k = "7 + k" and K = "[n]", OF _ _ send(1) _ _ **])
        (use X(2) cn V(2) W(2) wv k n in \<open>auto simp: shares_def\<close>)
    with X(1) cn show ?thesis by simp
  qed
  show "\<exists>W'. shouldRpcCall L w v junk junk' W = Inr (W', True) \<and> world_ok k W' \<and> conns W' = conns W \<and> ?Q (abs_tree (w_server W'))"
    unfolding shouldRpcCall_def
    by (rule with_client_ok [where k = "8 + Suc (7 + k)" and K = "[]", OF _ _ send(1) _ _ *]) (use k W(1,2) in simp_all)
qed

end
