(* ===== verification/RetrieveTree.thy ===== *)
theory RetrieveTree
  imports BasicTests
begin

text \<open>
  The test \<open>shouldRetrieveTree\<close> (\<open>E2ETest/BasicTest.cpp\<close>): one client lets the tree grow, another one
  loads it with one request and finds every node where it should be, with its value.
\<close>

section \<open>The test\<close>

text \<open>Two children, and their values; only the first is used again.\<close>

definition grow_pair :: "string \<Rightarrow> nat \<Rightarrow> string \<Rightarrow> nat \<Rightarrow> Property \<Rightarrow> Property prog" where
  "grow_pair n i m j p = bindP (prop_create n p) (\<lambda>a. bindP (prop_create m p) (\<lambda>b.
     bindP (prop_assign (as_bytes32 i) a) (\<lambda>_. bindP (prop_assign (as_bytes32 j) b) (\<lambda>_. Done a))))"

text \<open>The children of the root; the first one is used again.\<close>

definition grow_root :: "Property prog" where
  "grow_root =
     bindP client_root (\<lambda>root.
     bindP (prop_get ''child1'' root) (\<lambda>child1.
     bindP (prop_get ''child2'' root) (\<lambda>child2.
     bindP (prop_create ''child3'' root) (\<lambda>child3.
     bindP (prop_create ''child4'' root) (\<lambda>child4.
     bindP (prop_assign (as_bytes32 1) child1) (\<lambda>_.
     bindP (prop_assign (as_bytes32 2) child2) (\<lambda>_.
     bindP (prop_assign (as_bytes32 3) child3) (\<lambda>_.
     bindP (prop_assign (as_bytes32 4) child4) (\<lambda>_.
     Done child1)))))))))"

definition grow_tree :: "unit prog" where
  "grow_tree =
     bindP grow_root (\<lambda>child1.
     bindP (grow_pair ''grandchild1'' 11 ''grandchild2'' 12 child1) (\<lambda>grandchild1.
     bindP (grow_pair ''great1'' 111 ''great2'' 112 grandchild1) (\<lambda>_.
     Done ())))"

text \<open>The first children by their index; behind the last one there is nothing.\<close>

definition first_children :: "nat \<Rightarrow> (string \<times> Property) list \<Rightarrow> Property list prog" where
  "first_children n cs = (if n \<le> length cs then Done (map snd (take n cs)) else Fail BufferOverflow)"

fun fetch_all :: "Property list \<Rightarrow> unit prog" where
  "fetch_all [] = Done ()"
| "fetch_all (p # ps) = bindP (prop_fetch p) (\<lambda>_. fetch_all ps)"

fun values_are :: "Property list \<Rightarrow> nat list \<Rightarrow> bool prog" where
  "values_are (p # ps) (i # is) =
     bindP (prop_value 4 p) (\<lambda>v. bindP (values_are ps is) (\<lambda>b. Done (v = Some (as_bytes32 i) \<and> b)))"
| "values_are _ _ = Done True"

definition read_level :: "nat list \<Rightarrow> Property \<Rightarrow> (Property list \<times> bool) prog" where
  "read_level is p =
     bindP (prop_children p) (\<lambda>cs. bindP (first_children (length is) cs) (\<lambda>ps.
     bindP (fetch_all ps) (\<lambda>_. bindP (values_are ps is) (\<lambda>b. Done (ps, b)))))"

definition read_tree :: "bool prog" where
  "read_tree =
     bindP client_root (\<lambda>root. bindP (prop_loadChildren True root) (\<lambda>_.
     bindP (read_level [1, 2, 3, 4] root) (\<lambda>(children, a).
     bindP (read_level [11, 12] (children ! 0)) (\<lambda>(grandchildren, b).
     bindP (read_level [111, 112] (grandchildren ! 0)) (\<lambda>(_, c). Done (a \<and> b \<and> c))))))"

definition shouldRetrieveTree :: "cum \<Rightarrow> conn \<Rightarrow> conn \<Rightarrow> u8 list \<Rightarrow> u8 list \<Rightarrow> World \<Rightarrow> fault + (World \<times> bool)" where
  "shouldRetrieveTree L w v junk junk' = with_client L w junk (\<lambda>W.
     bindR (run_client L w grow_tree W) (\<lambda>(W, _). with_client L v junk' (run_client L v read_tree) W))"

section \<open>The tree grows\<close>

text \<open>
  A client that is alone has handles to nodes of a tree with the children \<open>C\<close> and the values \<open>S\<close>.
\<close>

definition grown :: "conn \<Rightarrow> nat \<Rightarrow> World \<Rightarrow> (Property \<times> u64) list \<Rightarrow> (u64 \<Rightarrow> string \<Rightarrow> u64 option) \<Rightarrow>
    (u64 \<Rightarrow> u8 list option) \<Rightarrow> bool" where
  "grown w k X R C S \<longleftrightarrow> shares w [] k X \<and> conns X = [w] \<and> child_uuid (w_server X) = C \<and> svalue (w_server X) = S \<and>
     (\<forall>(p, u)\<in>set R. at (client_at w X) p u)"

lemma grown_handles:
  assumes "\<forall>(p, u)\<in>set R. at c p u" "steady c d" "grows c d"
  shows "\<forall>(p, u)\<in>set R. at d p u"
  using assms at_learns by blast

lemma grown_create:
  assumes g: "grown w (Suc (Suc k)) X R C S" and p: "(p, u) \<in> set R" and free: "C u n = None" and L: "sends L (ask_create u n)"
  shows "\<exists>Y q v. run_client L w (prop_create n p) X = Inr (Y, q) \<and> S v = None \<and> C v = (\<lambda>_. None) \<and>
    grown w k Y ((q, v) # R) (C(u := (C u)(n \<mapsto> v))) (S(v \<mapsto> []))"
proof -
  let ?s = "w_server X" and ?v = "ucast (mUuidCtr (w_server X)) :: u64"
  have sh: "shares w [] (Suc (Suc k)) X" and cn: "conns X = [w]" and C: "child_uuid ?s = C" and S: "svalue ?s = S"
    and R: "\<forall>(p, u)\<in>set R. at (client_at w X) p u" using g by (simp_all add: grown_def)
  have at: "at (client_at w X) p u" using R p by blast
  have pub: "known_to_all X u" using at cn by (auto simp: known_to_all_def elim: atE)
  have none: "child_uuid ?s u n = None" using C free by simp
  from shared.run_create [OF sh at none pub, of L] L obtain Y q where Y: "run_client L w (prop_create n p) X = Inr (Y, q)"
    "shares w [] k Y" "does w (ask_create u n) ?s (w_server Y)" "learns (client_at w X) (client_at w Y)" "at (client_at w Y) q ?v"
    by (auto simp: spares_def)
  have tr: "tree_inv ?s" "tree_inv (w_server Y)" using shared.ok_tree sh Y(2) by blast+
  obtain r where r: "ctree (client_at w X) u = Some r" using at by (rule atE)
  have use: "usable w (Suc (Suc k)) (?s, client_at w X)" using shares_usable [OF sh] .
  from usable_node [OF use r] have u: "tree ?s u \<noteq> None" by (metis option.distinct(1))
  have ses: "session_of ?s w \<noteq> None" using use by simp
  note new = does_created [OF tr(1) ses u none Y(3)]
  have "child_uuid (w_server Y) x m = (C(u := (C u)(n \<mapsto> ?v))) x m" for x m
  proof -
    have "child_uuid (w_server Y) x m = Some y \<longleftrightarrow> (C(u := (C u)(n \<mapsto> ?v))) x m = Some y" for y
    proof (cases "y = ?v")
      case True
      have "sview ?s ?v = None" using new(1) by simp
      then have "C x m \<noteq> Some ?v" for x m unfolding C [symmetric] child_uuid_view [OF tr(1)] by (metis option.distinct(1))
      with True free show ?thesis unfolding child_uuid_view [OF tr(2)] new(4) by auto
    next
      case False
      then have "sview (w_server Y) y = sview ?s y" by (simp add: new(4))
      with False free show ?thesis
        unfolding child_uuid_view [OF tr(2)] using child_uuid_view [OF tr(1), of x m y] C by auto
    qed
    then show ?thesis by (metis option.exhaust)
  qed
  then have "child_uuid (w_server Y) = C(u := (C u)(n \<mapsto> ?v))" by blast
  moreover have "conns Y = [w]" using run_client_conns [OF Y(1)] cn by simp
  moreover have "S ?v = None" using new(1) S by (auto simp: svalue_def)
  moreover have "C ?v = (\<lambda>_. None)" using new(1) C by (auto simp: child_uuid_def)
  ultimately show ?thesis using Y(1,2,4,5) new(5) S grown_handles [OF R] by (intro exI [of _ Y] exI [of _ q] exI [of _ ?v]) (simp add: grown_def)
qed

lemma grown_set:
  assumes g: "grown w (Suc (Suc k)) X R C S" and p: "(p, u) \<in> set R" and u: "u \<noteq> 0" "S u \<noteq> None" and L: "sends L (ask_set u bs)"
  shows "\<exists>Y. run_client L w (prop_assign bs p) X = Inr (Y, ()) \<and> grown w k Y R C (S(u \<mapsto> bs))"
proof -
  let ?s = "w_server X"
  have sh: "shares w [] (Suc (Suc k)) X" and cn: "conns X = [w]" and C: "child_uuid ?s = C" and S: "svalue ?s = S"
    and R: "\<forall>(p, u)\<in>set R. at (client_at w X) p u" using g by (simp_all add: grown_def)
  have at: "at (client_at w X) p u" using R p by blast
  from shared.run_assign [OF sh at, of bs L] u L obtain Y where Y: "run_client L w (prop_assign bs p) X = Inr (Y, ())"
    "shares w [] k Y" "does w (ask_set u bs) ?s (w_server Y)" "steady (client_at w X) (client_at w Y)"
    "same_nodes (client_at w X) (client_at w Y)" by (auto simp: spares_def)
  have "tree ?s u \<noteq> None" using u(2) S by (metis abs_tree_None option.simps(8) svalue_def)
  note set = does_set [OF Y(3) this]
  have "child_uuid (w_server Y) = C"
    using child_uuid_cong [OF shared.ok_tree [OF sh] shared.ok_tree [OF Y(2)] set(1)] C by (simp add: fun_eq_iff)
  moreover have "conns Y = [w]" using run_client_conns [OF Y(1)] cn by simp
  moreover have "\<forall>(p, u)\<in>set R. at (client_at w Y) p u" using R at_same [OF _ Y(4)] Y(5) by (auto simp: same_nodes_def)
  ultimately show ?thesis using Y(1,2) set(2) S by (simp add: grown_def)
qed

lemma grown_get:
  assumes g: "grown w (Suc (Suc k)) X R C S" and p: "(p, u) \<in> set R" and n: "C u n = Some v" "n \<noteq> ''.''" and L: "sends L (ask_child u n)"
  shows "\<exists>Y q. run_client L w (prop_get n p) X = Inr (Y, q) \<and> grown w k Y ((q, v) # R) C S"
proof -
  have sh: "shares w [] (Suc (Suc k)) X" and cn: "conns X = [w]" and C: "child_uuid (w_server X) = C" and S: "svalue (w_server X) = S"
    and R: "\<forall>(p, u)\<in>set R. at (client_at w X) p u" using g by (simp_all add: grown_def)
  have at: "at (client_at w X) p u" using R p by blast
  from shared.run_get [OF sh at n(2), of L] L n(1) C obtain Y q where Y: "run_client L w (prop_get n p) X = Inr (Y, q)"
    "shares w [] k Y" "w_server Y = w_server X" "learns (client_at w X) (client_at w Y)" "at (client_at w Y) q v"
    by (auto simp: spares_def at_def)
  moreover have "conns Y = [w]" using run_client_conns [OF Y(1)] cn by simp
  ultimately show ?thesis using C S grown_handles [OF R] by (simp add: grown_def)
qed

definition retrieve_requests :: "cum \<Rightarrow> bool" where
  "retrieve_requests L \<longleftrightarrow> sends L ask_signin \<and> sends L (ask_all 0) \<and>
     (\<forall>n\<in>{''child1'', ''child2'', ''child3'', ''child4'', ''grandchild1'', ''grandchild2'', ''great1'', ''great2''}.
       \<forall>u. sends L (ask_create u n) \<and> sends L (ask_child u n)) \<and>
     (\<forall>u. sends L (GetRequest \<lparr>GetRequest_uuid = u\<rparr>) \<and> (\<forall>i. sends L (ask_set u (as_bytes32 i))))"

text \<open>Two at a time.\<close>

lemma create_two:
  assumes g: "grown w (4 + k) X R C S" and p: "(p, u) \<in> set R" and free: "C u n = None" "C u m = None" and nm: "n \<noteq> m"
    and root: "S 0 \<noteq> None" "S u \<noteq> None" and L: "sends L (ask_create u n)" "sends L (ask_create u m)"
  obtains A a x Y b y where "run_client L w (prop_create n p) X = Inr (A, a)" "run_client L w (prop_create m p) A = Inr (Y, b)"
    "grown w k Y ((b, y) # (a, x) # R) (C(u := (C u)(n \<mapsto> x, m \<mapsto> y))) (S(x \<mapsto> [], y \<mapsto> []))" "S x = None" "S y = None"
    "C x = (\<lambda>_. None)" "C y = (\<lambda>_. None)" "x \<noteq> y"
proof -
  have g0: "grown w (Suc (Suc (2 + k))) X R C S" using g by (simp add: numeral_eq_Suc)
  from grown_create [OF g0 p free(1) L(1)] obtain A a x where A: "run_client L w (prop_create n p) X = Inr (A, a)"
    "S x = None" "C x = (\<lambda>_. None)" "grown w (2 + k) A ((a, x) # R) (C(u := (C u)(n \<mapsto> x))) (S(x \<mapsto> []))" by blast
  have g1: "grown w (Suc (Suc k)) A ((a, x) # R) (C(u := (C u)(n \<mapsto> x))) (S(x \<mapsto> []))"
    using A(4) by (simp add: numeral_eq_Suc)
  have "(p, u) \<in> set ((a, x) # R)" "(C(u := (C u)(n \<mapsto> x))) u m = None" using p free(2) nm by simp_all
  moreover have eq: "(C(u := (C u)(n \<mapsto> x)))(u := ((C(u := (C u)(n \<mapsto> x))) u)(m \<mapsto> v)) = C(u := (C u)(n \<mapsto> x, m \<mapsto> v))" for v
    by simp
  ultimately obtain Y b y where B: "run_client L w (prop_create m p) A = Inr (Y, b)"
    "(S(x \<mapsto> [])) y = None" "(C(u := (C u)(n \<mapsto> x))) y = (\<lambda>_. None)"
    "grown w k Y ((b, y) # (a, x) # R) (C(u := (C u)(n \<mapsto> x, m \<mapsto> y))) (S(x \<mapsto> [], y \<mapsto> []))"
    using grown_create [OF g1 _ _ L(2), of p] unfolding eq by blast
  have "y \<noteq> x" "S y = None" "C y = (\<lambda>_. None)" using B(2,3) A(2) root by (auto split: if_splits)
  with A B(1,4) that show thesis by blast
qed

lemma set_two:
  assumes g: "grown w (4 + k) X R C S" and p: "(p, u) \<in> set R" "(q, v) \<in> set R" and nz: "u \<noteq> 0" "v \<noteq> 0" "S u \<noteq> None" "S v \<noteq> None"
    and L: "\<And>u i. sends L (ask_set u (as_bytes32 i))"
  obtains A Y where "run_client L w (prop_assign (as_bytes32 i) p) X = Inr (A, ())"
    "run_client L w (prop_assign (as_bytes32 j) q) A = Inr (Y, ())" "grown w k Y R C (S(u \<mapsto> as_bytes32 i, v \<mapsto> as_bytes32 j))"
proof -
  have "grown w (Suc (Suc (2 + k))) X R C S" using g by (simp add: numeral_eq_Suc)
  from grown_set [OF this p(1) nz(1,3) L] obtain A where A: "run_client L w (prop_assign (as_bytes32 i) p) X = Inr (A, ())"
    "grown w (2 + k) A R C (S(u \<mapsto> as_bytes32 i))" by blast
  have "grown w (Suc (Suc k)) A R C (S(u \<mapsto> as_bytes32 i))" using A(2) by (simp add: numeral_eq_Suc)
  moreover have "(S(u \<mapsto> as_bytes32 i)) v \<noteq> None" using nz(4) by simp
  ultimately obtain Y where "run_client L w (prop_assign (as_bytes32 j) q) A = Inr (Y, ())"
    "grown w k Y R C (S(u \<mapsto> as_bytes32 i, v \<mapsto> as_bytes32 j))" using grown_set [OF _ p(2) nz(2) _ L] by blast
  with A(1) that show thesis by blast
qed

lemma grow_pair_ok:
  assumes g: "grown w (8 + k) X R C S" and p: "(p, u) \<in> set R" and free: "C u n = None" "C u m = None" and nm: "n \<noteq> m"
    and root: "S 0 \<noteq> None" "S u \<noteq> None"
    and L: "sends L (ask_create u n)" "sends L (ask_create u m)" "\<And>u i. sends L (ask_set u (as_bytes32 i))"
  obtains Y a x b y where "run_client L w (grow_pair n i m j p) X = Inr (Y, a)"
    "grown w k Y ((b, y) # (a, x) # R) (C(u := (C u)(n \<mapsto> x, m \<mapsto> y))) (S(x \<mapsto> as_bytes32 i, y \<mapsto> as_bytes32 j))"
    "S x = None" "S y = None" "C x = (\<lambda>_. None)" "C y = (\<lambda>_. None)" "x \<noteq> y"
proof -
  have "grown w (4 + (4 + k)) X R C S" using g by (simp add: numeral_eq_Suc)
  from create_two [OF this p free nm root L(1,2)] obtain A a x B b y where
    B: "run_client L w (prop_create n p) X = Inr (A, a)" "run_client L w (prop_create m p) A = Inr (B, b)"
      "grown w (4 + k) B ((b, y) # (a, x) # R) (C(u := (C u)(n \<mapsto> x, m \<mapsto> y))) (S(x \<mapsto> [], y \<mapsto> []))"
    and new: "S x = None" "S y = None" "C x = (\<lambda>_. None)" "C y = (\<lambda>_. None)" "x \<noteq> y" by metis
  have nz: "x \<noteq> 0" "y \<noteq> 0" using new(1,2) root(1) by auto
  have "(a, x) \<in> set ((b, y) # (a, x) # R)" "(b, y) \<in> set ((b, y) # (a, x) # R)" by simp_all
  from set_two [OF B(3) this nz _ _ L(3)] obtain D Y where D: "run_client L w (prop_assign (as_bytes32 i) a) B = Inr (D, ())"
    "run_client L w (prop_assign (as_bytes32 j) b) D = Inr (Y, ())"
    "grown w k Y ((b, y) # (a, x) # R) (C(u := (C u)(n \<mapsto> x, m \<mapsto> y))) (S(x \<mapsto> [], y \<mapsto> [], x \<mapsto> as_bytes32 i, y \<mapsto> as_bytes32 j))"
    by (metis fun_upd_apply option.distinct(1))
  have "S(x \<mapsto> [], y \<mapsto> [], x \<mapsto> as_bytes32 i, y \<mapsto> as_bytes32 j) = S(x \<mapsto> as_bytes32 i, y \<mapsto> as_bytes32 j)"
    using new(5) by (simp add: fun_upd_twist)
  moreover have "run_client L w (grow_pair n i m j p) X = Inr (Y, a)"
    using B(1,2) D(1,2) by (simp add: grow_pair_def run_bindP)
  ultimately show thesis using that D(3) new by metis
qed

text \<open>The tree the second client is to find.\<close>

definition grown_tree :: "(u64 \<Rightarrow> string \<Rightarrow> u64 option) \<Rightarrow> (u64 \<Rightarrow> u8 list option) \<Rightarrow> bool" where
  "grown_tree C S \<longleftrightarrow> (\<exists>a b c d e f g h.
     C 0 = map_of [(''child1'', a), (''child2'', b), (''child3'', c), (''child4'', d)] \<and>
     C a = map_of [(''grandchild1'', e), (''grandchild2'', f)] \<and> C e = map_of [(''great1'', g), (''great2'', h)] \<and>
     map S [a, b, c, d, e, f, g, h] = map (\<lambda>i. Some (as_bytes32 i)) [1, 2, 3, 4, 11, 12, 111, 112])"

lemma grow_root_ok:
  assumes sh: "shares w [] (17 + k) X" and cn: "conns X = [w]" and L: "retrieve_requests L"
    and C: "child_uuid (w_server X) 0 = map_of [(''child1'', a), (''child2'', b)]" "child_uuid (w_server X) a = (\<lambda>_. None)"
    and S: "svalue (w_server X) 0 \<noteq> None" "svalue (w_server X) a \<noteq> None" "svalue (w_server X) b \<noteq> None" "distinct [0, a, b]"
  obtains Y p c d R C' S' where "run_client L w grow_root X = Inr (Y, p)" "grown w k Y R C' S'" "(p, a) \<in> set R"
    "C' 0 = map_of [(''child1'', a), (''child2'', b), (''child3'', c), (''child4'', d)]" "C' a = (\<lambda>_. None)"
    "distinct [0, a, b, c, d]" "map S' [a, b, c, d] = map (\<lambda>i. Some (as_bytes32 i)) [1, 2, 3, 4]"
    "dom S' = dom (svalue (w_server X)) \<union> {c, d}"
proof -
  let ?C = "child_uuid (w_server X)" and ?S = "svalue (w_server X)" and ?b = as_bytes32
  have send: "\<And>u. sends L (ask_child u ''child1'')" "\<And>u. sends L (ask_child u ''child2'')" "\<And>u. sends L (ask_create u ''child3'')"
    "\<And>u. sends L (ask_create u ''child4'')" "\<And>u i. sends L (ask_set u (?b i))" using L by (simp_all add: retrieve_requests_def)
  have "shares w [] (Suc (16 + k)) X" using sh by (simp add: numeral_eq_Suc)
  from shared.run_root [OF this, of L] obtain A r where A: "run_client L w client_root X = Inr (A, r)" "shares w [] (16 + k) A"
    "w_server A = w_server X" "at (client_at w A) r 0" by blast
  have "conns A = [w]" using run_client_conns [OF A(1)] cn by simp
  then have g: "grown w (Suc (Suc (14 + k))) A [(r, 0)] ?C ?S" using A(2-4) by (simp add: grown_def numeral_eq_Suc)
  from grown_get [OF g _ _ _ send(1), of r 0 a] C(1) obtain B p1 where B: "run_client L w (prop_get ''child1'' r) A = Inr (B, p1)"
    "grown w (14 + k) B [(p1, a), (r, 0)] ?C ?S" by auto
  from B(2) have g: "grown w (Suc (Suc (12 + k))) B [(p1, a), (r, 0)] ?C ?S" by (simp add: numeral_eq_Suc)
  from grown_get [OF g _ _ _ send(2), of r 0 b] C(1) obtain D p2 where D: "run_client L w (prop_get ''child2'' r) B = Inr (D, p2)"
    "grown w (12 + k) D [(p2, b), (p1, a), (r, 0)] ?C ?S" by auto
  let ?R = "[(p2, b), (p1, a), (r, 0)]"
  have g: "grown w (4 + (8 + k)) D ?R ?C ?S" using D(2) by (simp add: numeral_eq_Suc)
  have r: "(r, 0) \<in> set ?R" "?C 0 ''child3'' = None" "?C 0 ''child4'' = None" "''child3'' \<noteq> ''child4''" using C(1) by simp_all
  from create_two [OF g r S(1) S(1) send(3,4)] obtain E p3 c F p4 d where
    F: "run_client L w (prop_create ''child3'' r) D = Inr (E, p3)" "run_client L w (prop_create ''child4'' r) E = Inr (F, p4)"
      "grown w (8 + k) F ((p4, d) # (p3, c) # ?R) (?C(0 := (?C 0)(''child3'' \<mapsto> c, ''child4'' \<mapsto> d))) (?S(c \<mapsto> [], d \<mapsto> []))"
    and cd: "?S c = None" "?S d = None" "c \<noteq> d" by metis
  define R1 where "R1 = (p4, d) # (p3, c) # ?R"
  define C1 where "C1 = ?C(0 := (?C 0)(''child3'' \<mapsto> c, ''child4'' \<mapsto> d))"
  have C1: "C1 0 = map_of [(''child1'', a), (''child2'', b), (''child3'', c), (''child4'', d)]" "C1 a = (\<lambda>_. None)"
    using C S(4) by (auto simp: C1_def fun_eq_iff)
  have R1: "(p1, a) \<in> set R1" "(p2, b) \<in> set R1" "(p3, c) \<in> set R1" "(p4, d) \<in> set R1" by (simp_all add: R1_def)
  have nz: "a \<noteq> 0" "b \<noteq> 0" "c \<noteq> 0" "d \<noteq> 0" "distinct [a, b, c, d]" using S cd by auto
  define S1 where "S1 = ?S(c \<mapsto> [], d \<mapsto> [])"
  have S1: "S1 0 \<noteq> None" "S1 a \<noteq> None" "S1 b \<noteq> None" "S1 c \<noteq> None" "S1 d \<noteq> None" using S cd by (simp_all add: S1_def)
  have "grown w (4 + (4 + k)) F R1 C1 S1" using F(3) by (simp add: numeral_eq_Suc R1_def C1_def S1_def)
  from set_two [OF this R1(1,2) nz(1,2) S1(2,3) send(5)] obtain G H where
    H: "run_client L w (prop_assign (?b 1) p1) F = Inr (G, ())" "run_client L w (prop_assign (?b 2) p2) G = Inr (H, ())"
      "grown w (4 + k) H R1 C1 (S1(a \<mapsto> ?b 1, b \<mapsto> ?b 2))" by blast
  define S2 where "S2 = S1(a \<mapsto> ?b 1, b \<mapsto> ?b 2)"
  have S2: "S2 c \<noteq> None" "S2 d \<noteq> None" using S1 by (simp_all add: S2_def)
  have "grown w (4 + k) H R1 C1 S2" using H(3) by (simp add: S2_def)
  from set_two [OF this R1(3,4) nz(3,4) S2 send(5)] obtain I J where
    J: "run_client L w (prop_assign (?b 3) p3) H = Inr (I, ())" "run_client L w (prop_assign (?b 4) p4) I = Inr (J, ())"
      "grown w k J R1 C1 (S2(c \<mapsto> ?b 3, d \<mapsto> ?b 4))" by blast
  have "run_client L w grow_root X = Inr (J, p1)"
    using A(1) B(1) D(1) F(1,2) H(1,2) J(1,2) by (simp add: grow_root_def run_bindP)
  moreover have "dom (S2(c \<mapsto> ?b 3, d \<mapsto> ?b 4)) = dom ?S \<union> {c, d}" using S by (auto simp: S2_def S1_def)
  moreover have "map (S2(c \<mapsto> ?b 3, d \<mapsto> ?b 4)) [a, b, c, d] = map (\<lambda>i. Some (?b i)) [1, 2, 3, 4]"
    using nz(5) by (auto simp: S2_def)
  moreover have "distinct [0, a, b, c, d]" using nz by auto
  ultimately show thesis using that J(3) R1(1) C1 by blast
qed

lemma grow_tree_ok:
  assumes sh: "shares w [] (33 + k) X" and cn: "conns X = [w]" and L: "retrieve_requests L"
    and C: "child_uuid (w_server X) 0 = map_of [(''child1'', a), (''child2'', b)]" "child_uuid (w_server X) a = (\<lambda>_. None)"
    and S: "svalue (w_server X) 0 \<noteq> None" "svalue (w_server X) a \<noteq> None" "svalue (w_server X) b \<noteq> None" "distinct [0, a, b]"
  shows "\<exists>Y us. run_client L w grow_tree X = Inr (Y, ()) \<and> shares w [] k Y \<and>
    grown_tree (child_uuid (w_server Y)) (svalue (w_server Y)) \<and>
    dom (svalue (w_server Y)) = dom (svalue (w_server X)) \<union> set us \<and> length us = 6"
proof -
  let ?b = as_bytes32
  have send: "\<And>u. sends L (ask_create u ''grandchild1'')" "\<And>u. sends L (ask_create u ''grandchild2'')"
    "\<And>u. sends L (ask_create u ''great1'')" "\<And>u. sends L (ask_create u ''great2'')" "\<And>u i. sends L (ask_set u (?b i))"
    using L by (simp_all add: retrieve_requests_def)
  have "shares w [] (17 + (16 + k)) X" using sh by (simp add: numeral_eq_Suc)
  from this obtain J p1 c d R1 C1 S1 where
    J: "run_client L w grow_root X = Inr (J, p1)" "grown w (16 + k) J R1 C1 S1" "(p1, a) \<in> set R1"
    and C1: "C1 0 = map_of [(''child1'', a), (''child2'', b), (''child3'', c), (''child4'', d)]" "C1 a = (\<lambda>_. None)"
    and S1: "distinct [0, a, b, c, d]" "map S1 [a, b, c, d] = map (\<lambda>i. Some (?b i)) [1, 2, 3, 4]"
      "dom S1 = dom (svalue (w_server X)) \<union> {c, d}" by (rule grow_root_ok [OF _ cn L C S])
  have g: "grown w (8 + (8 + k)) J R1 C1 S1" using J(2) by (simp add: numeral_eq_Suc)
  have free: "C1 a ''grandchild1'' = None" "C1 a ''grandchild2'' = None" "''grandchild1'' \<noteq> ''grandchild2''" using C1(2) by simp_all
  have val: "S1 0 \<noteq> None" "S1 a \<noteq> None" using S(1) S1(2,3) by auto
  from grow_pair_ok [OF g J(3) free val send(1,2,5), of 11 12] obtain K p5 e p6 f where
    K: "run_client L w (grow_pair ''grandchild1'' 11 ''grandchild2'' 12 p1) J = Inr (K, p5)"
      "grown w (8 + k) K ((p6, f) # (p5, e) # R1) (C1(a := (C1 a)(''grandchild1'' \<mapsto> e, ''grandchild2'' \<mapsto> f))) (S1(e \<mapsto> ?b 11, f \<mapsto> ?b 12))"
    and ef: "S1 e = None" "S1 f = None" "C1 e = (\<lambda>_. None)" "e \<noteq> f" by metis
  define C2 where "C2 = C1(a := (C1 a)(''grandchild1'' \<mapsto> e, ''grandchild2'' \<mapsto> f))"
  define S2 where "S2 = S1(e \<mapsto> ?b 11, f \<mapsto> ?b 12)"
  have ne: "distinct [0, a, b, c, d, e, f]" using ef val S1(1,2) by auto
  have g: "grown w (8 + k) K ((p6, f) # (p5, e) # R1) C2 S2" using K(2) by (simp add: C2_def S2_def)
  have in5: "(p5, e) \<in> set ((p6, f) # (p5, e) # R1)" by simp
  have free: "C2 e ''great1'' = None" "C2 e ''great2'' = None" "''great1'' \<noteq> ''great2''" using ef(3) ne by (auto simp: C2_def)
  have val2: "S2 0 \<noteq> None" "S2 e \<noteq> None" using val(1) by (simp_all add: S2_def)
  from grow_pair_ok [OF g in5 free val2 send(3,4,5), of 111 112] obtain M p7 g p8 h R3 where
    M: "run_client L w (grow_pair ''great1'' 111 ''great2'' 112 p5) K = Inr (M, p7)"
      "grown w k M R3 (C2(e := (C2 e)(''great1'' \<mapsto> g, ''great2'' \<mapsto> h))) (S2(g \<mapsto> ?b 111, h \<mapsto> ?b 112))"
    and gh: "S2 g = None" "S2 h = None" "g \<noteq> h" by metis
  have new: "distinct [0, a, b, c, d, e, f, g, h]" using gh val2 S1(2) ne by (auto simp: S2_def split: if_splits)
  have M': "shares w [] k M" "child_uuid (w_server M) = C2(e := (C2 e)(''great1'' \<mapsto> g, ''great2'' \<mapsto> h))"
    "svalue (w_server M) = S2(g \<mapsto> ?b 111, h \<mapsto> ?b 112)" using M(2) by (simp_all add: grown_def)
  have "grown_tree (child_uuid (w_server M)) (svalue (w_server M))"
    unfolding grown_tree_def M'(2,3)
    by (rule exI [of _ a], rule exI [of _ b], rule exI [of _ c], rule exI [of _ d], rule exI [of _ e], rule exI [of _ f],
        rule exI [of _ g], rule exI [of _ h]) (use new C1 S1(2) ef(3) in \<open>auto simp: C2_def S2_def fun_eq_iff\<close>)
  moreover have "dom (svalue (w_server M)) = dom (svalue (w_server X)) \<union> set [c, d, e, f, g, h]"
    using S1(3) unfolding M'(3) by (auto simp: S2_def)
  moreover have "run_client L w grow_tree X = Inr (M, ())" using J(1) K(1) M(1) by (simp add: grow_tree_def run_bindP)
  ultimately show ?thesis using M'(1) by (intro exI [of _ M] exI [of _ "[c, d, e, f, g, h]"]) simp
qed

section \<open>The tree is read\<close>

text \<open>
  A client that has loaded a tree with the children \<open>C\<close> and the values \<open>S\<close>, has handles to some nodes
  and has fetched the values of the nodes \<open>F\<close>.
\<close>

definition reading :: "conn \<Rightarrow> nat \<Rightarrow> World \<Rightarrow> (Property \<times> u64) list \<Rightarrow> u64 set \<Rightarrow> (u64 \<Rightarrow> string \<Rightarrow> u64 option) \<Rightarrow>
    (u64 \<Rightarrow> u8 list option) \<Rightarrow> bool" where
  "reading v k X R F C S \<longleftrightarrow> shares v [] k X \<and> cview (client_at v X) = sview (w_server X) \<and> child_uuid (w_server X) = C \<and>
     svalue (w_server X) = S \<and> (\<forall>(p, u)\<in>set R. at (client_at v X) p u) \<and> (\<forall>u\<in>F. cvalue (client_at v X) u = S u)"

lemma reading_load:
  assumes sh: "shares v [] (Suc (Suc (Suc k))) X" and L: "sends L (ask_all 0)"
  shows "\<exists>A Y p. run_client L v client_root X = Inr (A, p) \<and> run_client L v (prop_loadChildren True p) A = Inr (Y, ()) \<and>
    reading v k Y [(p, 0)] {} (child_uuid (w_server X)) (svalue (w_server X))"
proof -
  from shared.run_root [OF sh, of L] obtain A p where A: "run_client L v client_root X = Inr (A, p)" "shares v [] (Suc (Suc k)) A"
    "w_server A = w_server X" "at (client_at v A) p 0" by blast
  have "tree_inv (w_server A)" using shared.ok_tree [OF A(2)] .
  then obtain d where d: "tree (w_server A) 0 = Some d" by (rule tree_root)
  from shared.run_load [OF A(2,4) d, of L] L obtain Y where Y: "run_client L v (prop_loadChildren True p) A = Inr (Y, ())"
    "shares v [] k Y" "w_server Y = w_server A" "learns (client_at v A) (client_at v Y)" "knows_below (client_at v Y) (w_server A) d"
    by (auto simp: spares_def)
  have "cview (client_at v Y) = sview (w_server Y)"
    by (rule loaded_synced [OF shares_usable [OF Y(2)]]) (use d Y(3,5) in simp_all)
  with A Y at_learns [OF A(4) Y(4)] show ?thesis by (intro exI [of _ A] exI [of _ Y] exI [of _ p]) (simp add: reading_def)
qed

text \<open>The children come in the order of their names.\<close>

lemma synced_children:
  assumes use: "usable v k (s, c)" and eq: "cview c = sview s" and r: "ctree c u = Some r"
    and ps: "child_uuid s u = map_of ps" "sorted_wrt (<) (map fst ps)"
  shows "cn_children (c_heap c r) = map (\<lambda>(n, x). (n, the (ctree c x))) ps"
proof (rule om_unique)
  have wf: "tree_wf c" and tr: "tree_inv s" using usable_wf [OF use] by simp_all
  show "om_wf (cn_children (c_heap c r))" using tree_wf_om [OF wf] .
  show "om_wf (map (\<lambda>(n, x). (n, the (ctree c x))) ps)" using ps(2) by (simp add: om_wf_def split_beta comp_def)
  show "cchild c r = map_of (map (\<lambda>(n, x). (n, the (ctree c x))) ps)"
  proof
    fix n
    have map: "map_of (map (\<lambda>(n, x). (n, the (ctree c x))) ps) n = map_option (\<lambda>x. the (ctree c x)) (map_of ps n)"
      by (induction ps) auto
    have known: "ctree c x \<noteq> None" if "child_uuid s u n = Some x" for x
    proof -
      have "cview c x = Some (n, Some u)" using that child_uuid_view [OF tr] eq by simp
      then show ?thesis by (metis cview_None option.distinct(1))
    qed
    have "cchild c r n = Some d \<longleftrightarrow> map_option (\<lambda>x. the (ctree c x)) (child_uuid s u n) = Some d" for d
    proof -
      have "cchild c r n = Some d \<longleftrightarrow> (\<exists>x. ctree c x = Some d \<and> child_uuid s u n = Some x)"
        using links_child [OF wf _ r, of n d] use eq child_uuid_view [OF tr] by simp
      with known show ?thesis by (cases "child_uuid s u n") auto
    qed
    then show "cchild c r n = map_of (map (\<lambda>(n, x). (n, the (ctree c x))) ps) n" unfolding map ps(1) by (metis option.exhaust)
  qed
qed

lemma reading_children:
  assumes R: "reading v k X R F C S" and p: "(p, u) \<in> set R" and ps: "C u = map_of ps" "sorted_wrt (<) (map fst ps)"
  shows "\<exists>Y cs. run_client L v (prop_children p) X = Inr (Y, cs) \<and> length cs = length ps \<and>
    reading v k Y (zip (map snd cs) (map snd ps) @ R) F C S"
proof -
  have sh: "shares v [] k X" and eq: "cview (client_at v X) = sview (w_server X)" and at: "\<forall>(p, u)\<in>set R. at (client_at v X) p u"
    using R by (simp_all add: reading_def)
  from at p have "at (client_at v X) p u" by blast
  then obtain r where r: "p = make_Property (Some r)" "ctree (client_at v X) u = Some r" by (rule atE)
  have use: "usable v k (w_server X, client_at v X)" using shares_usable [OF sh] .
  have "child_uuid (w_server X) u = map_of ps" using R ps(1) by (simp add: reading_def)
  note ch = synced_children [OF use eq r(2) this ps(2)]
  from shared.run_children [OF sh r(2), of L] obtain Y where Y:
    "run_client L v (prop_children p) X = Inr (Y, handles_of (cn_children (c_heap (client_at v X) r)))" "shares v [] k Y" "w_server Y = w_server X"
    "steady (client_at v X) (client_at v Y)" "same_tree (client_at v X) (client_at v Y)"
    "\<forall>(n, d)\<in>set (cn_children (c_heap (client_at v X) r)). d \<in> set (c_held (client_at v Y))" unfolding r(1) by blast
  let ?cs = "map (\<lambda>(n, x). (n, make_Property (Some (the (ctree (client_at v X) x))))) ps"
  have cs: "handles_of (cn_children (c_heap (client_at v X) r)) = ?cs" unfolding ch by (auto split: prod.splits)
  have tr: "tree_inv (w_server X)" using usable_wf(2) [OF use] .
  have new: "at (client_at v Y) (make_Property (Some (the (ctree (client_at v X) x)))) x" if x: "(n, x) \<in> set ps" for n x
  proof -
    have "distinct (map fst ps)" using ps(2) by (simp add: strict_sorted_iff)
    with x have "child_uuid (w_server X) u n = Some x" using ps(1) R by (simp add: reading_def)
    then have "cview (client_at v X) x = Some (n, Some u)" unfolding eq by (simp add: child_uuid_view [OF tr])
    then obtain d where d: "ctree (client_at v X) x = Some d" by (metis cview_None option.distinct(1) not_None_eq)
    moreover have "(n, d) \<in> set (cn_children (c_heap (client_at v X) r))" unfolding ch using x d by force
    ultimately show ?thesis using Y(5,6) by (auto simp: at_node same_tree_def)
  qed
  have zip: "zip (map snd ?cs) (map snd ps) = map (\<lambda>(n, x). (make_Property (Some (the (ctree (client_at v X) x))), x)) ps"
    by (induction ps) auto
  have "\<forall>(q, x)\<in>set (zip (map snd ?cs) (map snd ps)). at (client_at v Y) q x" unfolding zip using new by auto
  moreover have "\<forall>(p, u)\<in>set R. at (client_at v Y) p u" using at at_same [OF _ Y(4)] Y(5) by (auto simp: same_tree_def)
  ultimately have "reading v k Y (zip (map snd ?cs) (map snd ps) @ R) F C S"
    using R Y(2,3) same_tree_views [OF Y(5)] by (auto simp: reading_def)
  then show ?thesis using Y(1) unfolding cs by (intro exI [of _ Y] exI [of _ ?cs]) simp
qed

lemma fetch_all_ok:
  assumes "reading v (2 * length ps + k) X R F C S" "set (zip ps us) \<subseteq> set R" "length us = length ps" "\<forall>u\<in>set us. S u \<noteq> None"
    and L: "\<And>u. sends L (GetRequest \<lparr>GetRequest_uuid = u\<rparr>)"
  shows "\<exists>Y. run_client L v (fetch_all ps) X = Inr (Y, ()) \<and> reading v k Y R (F \<union> set us) C S"
  using assms(1-4)
proof (induction ps arbitrary: us X F)
  case (Cons p ps)
  obtain u us' where us: "us = u # us'" using Cons.prems(3) by (cases us) auto
  have sh: "shares v [] (Suc (Suc (2 * length ps + k))) X" using Cons.prems(1) by (simp add: reading_def)
  have at: "\<forall>(p, u)\<in>set R. at (client_at v X) p u" and val: "svalue (w_server X) = S" using Cons.prems(1) by (simp_all add: reading_def)
  have p: "at (client_at v X) p u" using at Cons.prems(2) us by auto
  obtain bs where bs: "S u = Some bs" using Cons.prems(4) us by auto
  have "svalue (w_server X) u = Some bs" using val bs by simp
  from shared.run_fetch [OF sh p this, of L] L obtain Y where Y: "run_client L v (prop_fetch p) X = Inr (Y, ())"
    "shares v [] (2 * length ps + k) Y" "w_server Y = w_server X" "steady (client_at v X) (client_at v Y)"
    "same_nodes (client_at v X) (client_at v Y)" "cvalue (client_at v Y) = (cvalue (client_at v X))(u \<mapsto> bs)" by (auto simp: spares_def)
  have "\<forall>(p, u)\<in>set R. at (client_at v Y) p u" using at at_same [OF _ Y(4)] Y(5) by (auto simp: same_nodes_def)
  moreover have "cview (client_at v Y) = sview (w_server Y)"
    using Cons.prems(1) same_nodes_view [OF Y(5)] Y(3) by (simp add: reading_def)
  ultimately have "reading v (2 * length ps + k) Y R (insert u F) C S"
    using Cons.prems(1) Y(2,3,6) bs by (simp add: reading_def)
  from Cons.IH [OF this, of us'] Cons.prems(2-4) us Y(1) show ?case by (auto simp: run_bindP)
qed auto

lemma values_are_ok:
  assumes "reading v k X R F C S" "set (zip ps us) \<subseteq> set R" "length us = length ps" "set us \<subseteq> F"
    and "map S us = map (\<lambda>i. Some (as_bytes32 i)) is"
  shows "run_client L v (values_are ps is) X = Inr (X, True)"
  using assms(2-5)
proof (induction ps "is" arbitrary: us rule: values_are.induct)
  case (1 p ps i "is")
  obtain u us' where us: "us = u # us'" using "1.prems"(2) by (cases us) auto
  have u: "at (client_at v X) p u" "cvalue (client_at v X) u = Some (as_bytes32 i)"
    using assms(1) "1.prems"(1,3,4) us by (auto simp: reading_def)
  have "length (as_bytes32 i) = 4" by (simp add: as_bytes32_def)
  with shared.run_value [OF u] "1.IH" [of us'] "1.prems" us show ?case by (simp add: run_bindP)
qed simp_all

lemma read_level_ok:
  assumes R: "reading v (2 * length is + k) X R F C S" and p: "(p, u) \<in> set R" and C: "C u = map_of ps" "sorted_wrt (<) (map fst ps)"
    and S: "map S (map snd ps) = map (\<lambda>i. Some (as_bytes32 i)) is" and L: "\<And>u. sends L (GetRequest \<lparr>GetRequest_uuid = u\<rparr>)"
  shows "\<exists>Y qs R' F'. run_client L v (read_level is p) X = Inr (Y, qs, True) \<and> reading v k Y R' F' C S \<and> length qs = length is \<and>
    set (zip qs (map snd ps)) \<subseteq> set R'"
proof -
  have len: "length ps = length is" using arg_cong [OF S, of length] by simp
  from reading_children [OF R p C, of L] obtain A cs where A: "run_client L v (prop_children p) X = Inr (A, cs)" "length cs = length ps"
    "reading v (2 * length is + k) A (zip (map snd cs) (map snd ps) @ R) F C S" by blast
  let ?qs = "map snd cs" and ?us = "map snd ps" and ?R = "zip (map snd cs) (map snd ps) @ R"
  have qs: "length ?qs = length is" "length ?us = length ?qs" "set (zip ?qs ?us) \<subseteq> set ?R" using A(2) len by simp_all
  have "S u \<noteq> None" if "u \<in> set ?us" for u
  proof -
    have "S u \<in> set (map S ?us)" using that by auto
    then show ?thesis unfolding S by auto
  qed
  moreover have "reading v (2 * length ?qs + k) A ?R F C S" using A(3) qs(1) by simp
  ultimately obtain Y where Y: "run_client L v (fetch_all ?qs) A = Inr (Y, ())" "reading v k Y ?R (F \<union> set ?us) C S"
    using fetch_all_ok [OF _ qs(3,2) _ L] by blast
  have "run_client L v (values_are ?qs is) Y = Inr (Y, True)" by (rule values_are_ok [OF Y(2) qs(3,2) _ S]) simp
  then have "run_client L v (read_level is p) X = Inr (Y, ?qs, True)"
    using A(1,2) Y(1) len by (simp add: read_level_def run_bindP first_children_def)
  with Y(2) qs show ?thesis by blast
qed

lemma names_sorted: "''child1'' < ''child2''" "''child2'' < ''child3''" "''child3'' < ''child4''" "''grandchild1'' < ''grandchild2''"
  "''great1'' < ''great2''"
  by code_simp+

lemma first_of_level: "length qs = Suc n \<Longrightarrow> set (zip qs (x # xs)) \<subseteq> R \<Longrightarrow> (qs ! 0, x) \<in> R"
  by (cases qs) auto

lemma read_tree_ok:
  assumes sh: "shares v [] (19 + k) X" and T: "grown_tree (child_uuid (w_server X)) (svalue (w_server X))" and L: "retrieve_requests L"
  shows "\<exists>Y R F. run_client L v read_tree X = Inr (Y, True) \<and>
    reading v k Y R F (child_uuid (w_server X)) (svalue (w_server X))"
proof -
  let ?C = "child_uuid (w_server X)" and ?S = "svalue (w_server X)" and ?b = "\<lambda>i. Some (as_bytes32 i)"
  have send: "\<And>u. sends L (GetRequest \<lparr>GetRequest_uuid = u\<rparr>)" "sends L (ask_all 0)" using L by (simp_all add: retrieve_requests_def)
  from T obtain a b c d e f g h where
    C: "?C 0 = map_of [(''child1'', a), (''child2'', b), (''child3'', c), (''child4'', d)]"
      "?C a = map_of [(''grandchild1'', e), (''grandchild2'', f)]" "?C e = map_of [(''great1'', g), (''great2'', h)]"
    and S: "map ?S [a, b, c, d, e, f, g, h] = map ?b [1, 2, 3, 4, 11, 12, 111, 112]" unfolding grown_tree_def by blast
  have "shares v [] (Suc (Suc (Suc (16 + k)))) X" using sh by (simp add: numeral_eq_Suc)
  from reading_load [OF this send(2)] obtain A B p where A: "run_client L v client_root X = Inr (A, p)"
    "run_client L v (prop_loadChildren True p) A = Inr (B, ())" "reading v (16 + k) B [(p, 0)] {} ?C ?S" by blast
  have "reading v (2 * length [1, 2, 3, 4 :: nat] + (8 + k)) B [(p, 0)] {} ?C ?S" using A(3) by (simp add: numeral_eq_Suc)
  from read_level_ok [OF this, of p 0 "[(''child1'', a), (''child2'', b), (''child3'', c), (''child4'', d)]" L] C(1) S send(1) names_sorted
  obtain D qs R1 F1 where D: "run_client L v (read_level [1, 2, 3, 4] p) B = Inr (D, qs, True)" "reading v (8 + k) D R1 F1 ?C ?S"
    "length qs = Suc 3" "set (zip qs [a, b, c, d]) \<subseteq> set R1" by auto
  have q: "(qs ! 0, a) \<in> set R1" by (rule first_of_level [OF D(3,4)])
  have "reading v (2 * length [11, 12 :: nat] + (4 + k)) D R1 F1 ?C ?S" using D(2) by (simp add: numeral_eq_Suc)
  from read_level_ok [OF this q, of "[(''grandchild1'', e), (''grandchild2'', f)]" L] C(2) S send(1) names_sorted
  obtain E rs R2 F2 where E: "run_client L v (read_level [11, 12] (qs ! 0)) D = Inr (E, rs, True)" "reading v (4 + k) E R2 F2 ?C ?S"
    "length rs = Suc 1" "set (zip rs [e, f]) \<subseteq> set R2" by auto
  have r: "(rs ! 0, e) \<in> set R2" by (rule first_of_level [OF E(3,4)])
  have "reading v (2 * length [111, 112 :: nat] + k) E R2 F2 ?C ?S" using E(2) by (simp add: numeral_eq_Suc)
  from read_level_ok [OF this r, of "[(''great1'', g), (''great2'', h)]" L] C(3) S send(1) names_sorted
  obtain G ts R3 F3 where G: "run_client L v (read_level [111, 112] (rs ! 0)) E = Inr (G, ts, True)" "reading v k G R3 F3 ?C ?S" by auto
  have "run_client L v read_tree X = Inr (G, True)" using A(1,2) D(1) E(1) G(1) by (simp add: read_tree_def run_bindP)
  with G(2) show ?thesis by blast
qed

section \<open>The test passes\<close>

lemma kids_children:
  assumes tr: "tree_inv s" and K: "kids UNIV m (abs_tree s) [''child1'' \<mapsto> x, ''child2'' \<mapsto> y]"
  obtains a b where "child_uuid s 0 = map_of [(''child1'', a), (''child2'', b)]" "child_uuid s a = (\<lambda>_. None)"
    "svalue s 0 \<noteq> None" "svalue s a \<noteq> None" "svalue s b \<noteq> None" "distinct [0, a, b]"
proof -
  obtain a p where a: "child_uuid s 0 ''child1'' = Some a" "kid (abs_tree s) ''child1'' a p" "\<not> is_parent (abs_tree s) a" "svalue s a = Some x"
    by (rule kids_Some [OF tr K, of "''child1''" x]) simp_all
  obtain b q where b: "child_uuid s 0 ''child2'' = Some b" "kid (abs_tree s) ''child2'' b q" "svalue s b = Some y"
    by (rule kids_Some [OF tr K, of "''child2''" y]) simp_all
  have "child_uuid s 0 n = map_of [(''child1'', a), (''child2'', b)] n" for n
    using a(1) b(1) kids_None [OF tr K, of n] by (cases "n = ''child1'' \<or> n = ''child2''") auto
  then have "child_uuid s 0 = map_of [(''child1'', a), (''child2'', b)]" by blast
  moreover have "child_uuid s a n = None" for n
  proof (cases "child_uuid s a n")
    case (Some z)
    with a(3) show ?thesis by (auto simp: child_uuid_view [OF tr] is_parent_view)
  qed
  then have "child_uuid s a = (\<lambda>_. None)" by blast
  moreover obtain r where "tree s 0 = Some r" using tr by (rule tree_root)
  then have "svalue s 0 \<noteq> None" by (simp add: svalue_def abs_tree_Some)
  moreover have "distinct [0, a, b]"
    using kid_not_root [OF tr a(2)] kid_not_root [OF tr b(2)] a(2) b(2) by (auto simp: kid_def)
  ultimately show thesis using that a(4) b(3) by simp
qed

lemma dom_svalue: "dom (svalue s) = dom (abs_tree s)"
  by (auto simp: svalue_def dom_def)

lemma passes_shouldRetrieveTree:
  assumes L: "retrieve_requests L" and wv: "w \<noteq> v"
  shows "passes UNIV (shouldRetrieveTree L w v junk junk') (Suc (33 + Suc 19))
    (\<lambda>A. kids UNIV m A [''child1'' \<mapsto> x, ''child2'' \<mapsto> y]) (\<lambda>A. kids {''rpc''} (m + 6) A (\<lambda>_. None))"
  unfolding passes_def
proof (intro allI impI)
  fix k W assume k: "Suc (33 + Suc 19) + k < 2 ^ 16" and W: "world_ok (Suc (33 + Suc 19) + k) W" "UNIV \<inter> set (conns W) = {}"
    "kids UNIV m (abs_tree (w_server W)) [''child1'' \<mapsto> x, ''child2'' \<mapsto> y]"
  let ?Q = "\<lambda>A. kids {''rpc''} (m + 6) A (\<lambda>_. None)"
  let ?body = "\<lambda>W. bindR (run_client L w grow_tree W) (\<lambda>(W, _). with_client L v junk' (run_client L v read_tree) W)"
  have send: "sends L ask_signin" using L by (simp add: retrieve_requests_def)
  have empty: "conns W = []" using W(2) by simp
  have *: "\<exists>U. ?body V = Inr (U, True) \<and> world_ok k U \<and> conns U = conns V \<and> ?Q (abs_tree (w_server U))"
    if V: "shares w [] (33 + Suc (19 + k)) V" "conns V = conns W @ [w]" "abs_tree (w_server V) = abs_tree (w_server W)" for V
  proof -
    have tr: "tree_inv (w_server V)" using shared.ok_tree [OF V(1)] .
    have K: "kids UNIV m (abs_tree (w_server V)) [''child1'' \<mapsto> x, ''child2'' \<mapsto> y]" using V(3) W(3) by simp
    have cn: "conns V = [w]" using V(2) empty by simp
    obtain a b where "child_uuid (w_server V) 0 = map_of [(''child1'', a), (''child2'', b)]" "child_uuid (w_server V) a = (\<lambda>_. None)"
      "svalue (w_server V) 0 \<noteq> None" "svalue (w_server V) a \<noteq> None" "svalue (w_server V) b \<noteq> None" "distinct [0, a, b]"
      by (rule kids_children [OF tr K])
    from grow_tree_ok [OF V(1) cn L this] obtain X us where X: "run_client L w grow_tree V = Inr (X, ())" "shares w [] (Suc (19 + k)) X"
      "grown_tree (child_uuid (w_server X)) (svalue (w_server X))" "dom (svalue (w_server X)) = dom (svalue (w_server V)) \<union> set us"
      "length us = 6" by blast
    have cnX: "conns X = [w]" using run_client_conns [OF X(1)] cn by simp
    have "few m (abs_tree (w_server V))" using kids_few [OF K] .
    then have "few (m + 6) (abs_tree (w_server X))"
      using card_Un_le [of "dom (svalue (w_server V))" "set us"] card_length [of us] X(4,5) by (simp add: few_def dom_svalue)
    note few = this
    have "\<exists>U. run_client L v read_tree Y = Inr (U, True) \<and> world_ok k U \<and> conns U = conns Y \<and> ?Q (abs_tree (w_server U))"
      if Y: "shares v [] (19 + k) Y" "conns Y = conns X @ [v]" "abs_tree (w_server Y) = abs_tree (w_server X)" for Y
    proof -
      have "child_uuid (w_server Y) u n = child_uuid (w_server X) u n" for u n
        using child_uuid_cong [OF shared.ok_tree [OF X(2)] shared.ok_tree [OF Y(1)]] same_abs [OF Y(3)] by simp
      then have same: "child_uuid (w_server Y) = child_uuid (w_server X)" by blast
      moreover have "svalue (w_server Y) = svalue (w_server X)" using same_abs [OF Y(3)] by simp
      ultimately have "grown_tree (child_uuid (w_server Y)) (svalue (w_server Y))" using X(3) by simp
      from read_tree_ok [OF Y(1) this L] obtain U R F where U: "run_client L v read_tree Y = Inr (U, True)"
        "reading v k U R F (child_uuid (w_server Y)) (svalue (w_server Y))" by blast
      have sh: "shares v [] k U" and C: "child_uuid (w_server U) = child_uuid (w_server X)" and
        S: "svalue (w_server U) = svalue (w_server Y)" using U(2) same by (simp_all add: reading_def)
      have "?Q (abs_tree (w_server U))"
      proof (rule kidsI)
        have "dom (abs_tree (w_server U)) = dom (abs_tree (w_server X))" using S Y(3) by (metis dom_svalue)
        then show "few (m + 6) (abs_tree (w_server U))" using few by (simp add: few_def)
      next
        fix n u z assume "n \<in> {''rpc''}"
        moreover have "child_uuid (w_server X) 0 ''rpc'' = None" using X(3) by (auto simp: grown_tree_def)
        ultimately show "\<not> kid (abs_tree (w_server U)) n u z" using child_kid [OF shared.ok_tree [OF sh], of n u] C by auto
      qed simp
      with U(1) sh run_client_conns [OF U(1)] Y(1) show ?thesis by (auto simp: shares_def)
    qed
    note ** = this
    have "\<exists>U. with_client L v junk' (run_client L v read_tree) X = Inr (U, True) \<and> world_ok k U \<and> conns U = conns X \<and> ?Q (abs_tree (w_server U))"
      by (rule with_client_ok [where k = "19 + k" and K = "[]", OF _ _ send _ _ **]) (use X(2) cnX wv k in \<open>auto simp: shares_def\<close>)
    with X(1) cn cnX show ?thesis by simp
  qed
  show "\<exists>W'. shouldRetrieveTree L w v junk junk' W = Inr (W', True) \<and> world_ok k W' \<and> conns W' = conns W \<and> ?Q (abs_tree (w_server W'))"
    unfolding shouldRetrieveTree_def
    by (rule with_client_ok [where k = "33 + Suc (19 + k)" and K = "[]", OF _ _ send _ _ *]) (use k W(1) empty in simp_all)
qed

end
