(* ===== verification/Threads.thy ===== *)
theory Threads
  imports WorldOps
begin

text \<open>
  Clients that work in threads of their own (the threaded tests of
  \<open>E2ETest/ConcurrentOperationTest.cpp\<close>): the main thread constructs the clients and starts a thread for
  each, while the threads already started go on. The operations of the threads follow one another in
  any order.
\<close>

section \<open>Threads\<close>

text \<open>A thread goes on to the end of its next operation, or access to a node.\<close>

fun turn :: "cum \<Rightarrow> conn \<Rightarrow> 'a prog \<Rightarrow> World \<Rightarrow> fault + (World \<times> 'a prog)" where
  "turn L w (Done a) W = Inr (W, Done a)"
| "turn L w (Fail e) W = Inl e"
| "turn L w (Look g) W = Inr (W, g (client_at w W))"
| "turn L w (Change h p) W = Inr (put_client w (h (client_at w W)) W, p)"
| "turn L w (Invoke op k) W = bindR (world_perform L w op W) (\<lambda>(W, v). Inr (W, k v))"

text \<open>
  The clients that have not been constructed yet, each with what its buffer holds and the program of
  its thread, and the threads that have been started.
\<close>

record 'a Crew =
  cr_world :: World
  cr_waiting :: "(conn \<times> u8 list \<times> 'a prog) list"
  cr_threads :: "(conn \<times> 'a prog) list"

text \<open>What the main thread does next, and what each thread does: all that can happen next.\<close>

fun start_next :: "cum \<Rightarrow> 'a Crew \<Rightarrow> (conn \<times> u8 list \<times> 'a prog) list \<Rightarrow> (fault + 'a Crew) list" where
  "start_next L X [] = []"
| "start_next L X ((w, junk, p) # qs) = [bindR (connect L w junk (cr_world X)) (\<lambda>(W, v).
     case v of RThrow x \<Rightarrow> Inl (Thrown x)
     | _ \<Rightarrow> Inr \<lparr>cr_world = W, cr_waiting = qs, cr_threads = cr_threads X @ [(w, p)]\<rparr>)]"

fun finished :: "'a prog \<Rightarrow> bool" where
  "finished (Done a) = True"
| "finished p = False"

definition take_turn :: "cum \<Rightarrow> 'a Crew \<Rightarrow> conn \<times> 'a prog \<Rightarrow> (fault + 'a Crew) list" where
  "take_turn L X = (\<lambda>(w, p). if finished p then [] else [bindR (turn L w p (cr_world X)) (\<lambda>(W, p').
     Inr (X\<lparr>cr_world := W, cr_threads := um_assign w p' (cr_threads X)\<rparr>))])"

definition successors :: "cum \<Rightarrow> 'a Crew \<Rightarrow> (fault + 'a Crew) list" where
  "successors L X = start_next L X (cr_waiting X) @ concat (map (take_turn L X) (cr_threads X))"

text \<open>
  Whatever happens next, nothing goes wrong, and after finitely many turns nothing is left to do and
  \<open>Q\<close> holds.
\<close>

inductive always_ends :: "cum \<Rightarrow> ('a Crew \<Rightarrow> bool) \<Rightarrow> 'a Crew \<Rightarrow> bool" for L Q where
  "(\<forall>r\<in>set (successors L X). \<exists>Y. r = Inr Y \<and> always_ends L Q Y) \<Longrightarrow> (successors L X = [] \<Longrightarrow> Q X) \<Longrightarrow> always_ends L Q X"

lemma always_ends_measure:
  assumes "I X"
    and "\<And>X r. I X \<Longrightarrow> r \<in> set (successors L X) \<Longrightarrow> \<exists>Y. r = Inr Y \<and> I Y \<and> m Y < (m X :: nat)"
    and "\<And>X. I X \<Longrightarrow> successors L X = [] \<Longrightarrow> Q X"
  shows "always_ends L Q X"
  using assms(1)
proof (induction "m X" arbitrary: X rule: less_induct)
  case less
  show ?case
  proof (rule always_ends.intros)
    show "\<forall>r\<in>set (successors L X). \<exists>Y. r = Inr Y \<and> always_ends L Q Y"
      using less assms(2) by blast
    show "successors L X = [] \<Longrightarrow> Q X" using assms(3) less.prems by blast
  qed
qed

lemma always_ends_mono:
  assumes "always_ends L P X" "\<And>X. P X \<Longrightarrow> Q X"
  shows "always_ends L Q X"
  using assms(1) by induction (auto intro: always_ends.intros assms(2))

text \<open>One operation of a thread.\<close>

lemma turn_bind:
  assumes "run_client L w (on_client p op (\<lambda>v. Done (f v))) W = Inr (W', a)"
  shows "turn L w (bindP (on_client p op (\<lambda>v. Done (f v))) g) W = Inr (W', g a) \<and>
    \<not> finished (bindP (on_client p op (\<lambda>v. Done (f v))) g)"
proof (cases "mClient p")
  case True
  with assms show ?thesis
    by (cases "world_perform L w op W") (auto simp: on_client_def split: result.splits)
qed (use assms in \<open>simp add: on_client_def\<close>)

section \<open>Threads that keep to themselves\<close>

text \<open>
  \<open>mine w A x\<close> says that the node \<open>x\<close> is the business of the client \<open>w\<close>. What a client does then is seen
  by the others only in its own nodes.
\<close>

definition minds :: "(conn \<Rightarrow> atree \<Rightarrow> u64 \<Rightarrow> bool) \<Rightarrow> conn \<Rightarrow> World \<Rightarrow> World \<Rightarrow> bool" where
  "minds mine w W W' \<longleftrightarrow> set (conns W) \<subseteq> set (conns W') \<and>
     (\<forall>x. abs_tree (w_server W) x = abs_tree (w_server W') x \<or>
        (tree (w_server W) x = None \<or> mine w (abs_tree (w_server W)) x) \<and>
        (tree (w_server W') x = None \<or> mine w (abs_tree (w_server W')) x)) \<and>
     (\<forall>n. n_conn n \<noteq> w \<longrightarrow> noted W n \<longrightarrow> \<not> mine w (abs_tree (w_server W)) (n_node n) \<longrightarrow> noted W' n)"

lemma mindsD:
  assumes "minds mine w W W'"
  shows "v \<in> set (conns W) \<Longrightarrow> v \<in> set (conns W')"
    and "noted W n \<Longrightarrow> n_conn n \<noteq> w \<Longrightarrow> \<not> mine w (abs_tree (w_server W)) (n_node n) \<Longrightarrow> noted W' n"
    and "abs_tree (w_server W) x \<noteq> abs_tree (w_server W') x \<Longrightarrow> tree (w_server W) x \<noteq> None \<Longrightarrow> mine w (abs_tree (w_server W)) x"
    and "abs_tree (w_server W) x \<noteq> abs_tree (w_server W') x \<Longrightarrow> tree (w_server W') x \<noteq> None \<Longrightarrow> mine w (abs_tree (w_server W')) x"
  using assms unfolding minds_def by (blast, blast, metis+)

text \<open>The tree changes with what a thread has in it of its own.\<close>

definition own_changes :: "u64 option \<Rightarrow> u64 option \<Rightarrow> atree \<Rightarrow> atree \<Rightarrow> bool" where
  "own_changes own own' A A' \<longleftrightarrow> own' = own \<and> A' = A \<or>
     (\<exists>x. own = None \<and> own' = Some x \<and> A x = None \<and> (\<forall>y. y \<noteq> x \<longrightarrow> A' y = A y)) \<or>
     (\<exists>x. own = Some x \<and> own' = None \<and> A' = A(x := None))"

lemma crew_own:
  assumes "own_changes (own w) o' B B'" "\<forall>x. B x \<noteq> A x \<longrightarrow> (\<exists>w\<in>T. own w = Some x)" "\<forall>w\<in>T. \<forall>x. own w = Some x \<longrightarrow> A x = None" "w \<in> T"
  shows "(\<forall>x. B' x \<noteq> A x \<longrightarrow> (\<exists>v\<in>T. (own(w := o')) v = Some x)) \<and> (\<forall>v\<in>T. \<forall>x. (own(w := o')) v = Some x \<longrightarrow> A x = None)"
proof -
  from assms(1) consider "o' = own w" "B' = B"
    | y where "own w = None" "o' = Some y" "B y = None" "\<forall>z. z \<noteq> y \<longrightarrow> B' z = B z"
    | y where "own w = Some y" "o' = None" "B' = B(y := None)" unfolding own_changes_def by blast
  then show ?thesis
  proof cases
    case 1
    then show ?thesis using assms(2,3) by simp
  next
    case (2 y)
    have y: "A y = None" using 2(3) assms(2,3) by metis
    have "\<exists>v\<in>T. (own(w := o')) v = Some x" if "B' x \<noteq> A x" for x
    proof (cases "x = y")
      case True
      with 2(2) assms(4) show ?thesis by auto
    next
      case False
      with that 2(4) assms(2) obtain v where v: "v \<in> T" "own v = Some x" by metis
      with 2(1) have "v \<noteq> w" by auto
      with v show ?thesis by auto
    qed
    with 2(2) y assms(3) show ?thesis by auto
  next
    case (3 y)
    have y: "A y = None" using 3(1) assms(3,4) by blast
    have "\<exists>v\<in>T. (own(w := o')) v = Some x" if x: "B' x \<noteq> A x" for x
    proof -
      have "x \<noteq> y" using x y 3(3) by auto
      with x 3(3) assms(2) obtain v where v: "v \<in> T" "own v = Some x" by auto
      with 3(1) \<open>x \<noteq> y\<close> have "v \<noteq> w" by auto
      with v show ?thesis by auto
    qed
    with 3(2) assms(3) show ?thesis by auto
  qed
qed

text \<open>
  A workload gives each thread a stage it is in: with at most \<open>n\<close> messages to go, and perhaps one node
  that was not there before. What the others do keeps a thread in its stage, and its own turn takes
  it to a later one.
\<close>

locale workload =
  fixes L :: cum and mine :: "conn \<Rightarrow> atree \<Rightarrow> u64 \<Rightarrow> bool" and ready :: "conn \<Rightarrow> atree \<Rightarrow> bool"
    and stage :: "conn \<Rightarrow> 'a prog \<Rightarrow> nat \<Rightarrow> u64 option \<Rightarrow> World \<Rightarrow> bool"
    and begins :: "conn \<Rightarrow> 'a prog" and cost :: nat and passed :: 'a
  assumes starts: "shares w K k W \<Longrightarrow> ready w (abs_tree (w_server W)) \<Longrightarrow> stage w (begins w) cost None W"
    and over: "stage w (Done a) n own W \<Longrightarrow> own = None \<and> a = passed"
    and ready_stays: "ready w (abs_tree (w_server W)) \<Longrightarrow> v \<noteq> w \<Longrightarrow> minds mine v W W' \<Longrightarrow> ready w (abs_tree (w_server W'))"
    and stage_stays: "stage w p n own W \<Longrightarrow> v \<noteq> w \<Longrightarrow> minds mine v W W' \<Longrightarrow> stage w p n own W'"
    and goes: "stage w p n own W \<Longrightarrow> \<not> finished p \<Longrightarrow> world_ok (n + k) W \<Longrightarrow> w \<in> set (conns W) \<Longrightarrow>
      \<exists>W' p' m own'. turn L w p W = Inr (W', p') \<and> m < n \<and> world_ok (m + k) W' \<and> stage w p' m own' W' \<and>
        minds mine w W W' \<and> conns W' = conns W \<and> own_changes own own' (abs_tree (w_server W)) (abs_tree (w_server W'))"
begin

text \<open>The turns of a whole crew, the supply of messages and what is new in the tree.\<close>

definition crew_ok :: "nat \<Rightarrow> conn list \<Rightarrow> (conn \<Rightarrow> u8 list) \<Rightarrow> conn list \<Rightarrow> atree \<Rightarrow> nat \<Rightarrow> 'a Crew \<Rightarrow> bool" where
  "crew_ok k cs junk ws A m X \<longleftrightarrow> (\<exists>ts vs rest own.
     map fst (cr_threads X) = ts \<and> cr_waiting X = map (\<lambda>w. (w, junk w, begins w)) vs \<and> ts @ vs = ws \<and>
     conns (cr_world X) = cs @ ts \<and> (\<forall>(w, p)\<in>set (cr_threads X). stage w p (rest w) (own w) (cr_world X)) \<and>
     (\<forall>w\<in>set vs. ready w (abs_tree (w_server (cr_world X)))) \<and>
     m = sum_list (map rest ts) + length vs * Suc cost \<and> world_ok (m + k) (cr_world X) \<and>
     (\<forall>x. abs_tree (w_server (cr_world X)) x \<noteq> A x \<longrightarrow> (\<exists>w\<in>set ts. own w = Some x)) \<and>
     (\<forall>w\<in>set ts. \<forall>x. own w = Some x \<longrightarrow> A x = None))"

lemma crew_start:
  assumes X: "crew_ok k cs junk ws A m X" and dis: "distinct (cs @ ws)" and r: "r \<in> set (start_next L X (cr_waiting X))"
    and send: "sends L ask_signin" "m + k < 2 ^ 16"
  shows "\<exists>Y j. r = Inr Y \<and> crew_ok k cs junk ws A j Y \<and> j < m"
proof -
  let ?W = "cr_world X"
  from X obtain ts vs rest own where h: "map fst (cr_threads X) = ts" "cr_waiting X = map (\<lambda>w. (w, junk w, begins w)) vs"
    "ts @ vs = ws" "conns ?W = cs @ ts" "\<forall>(w, p)\<in>set (cr_threads X). stage w p (rest w) (own w) ?W"
    "\<forall>w\<in>set vs. ready w (abs_tree (w_server ?W))" "m = sum_list (map rest ts) + length vs * Suc cost" "world_ok (m + k) ?W"
    "\<forall>x. abs_tree (w_server ?W) x \<noteq> A x \<longrightarrow> (\<exists>w\<in>set ts. own w = Some x)"
    "\<forall>w\<in>set ts. \<forall>x. own w = Some x \<longrightarrow> A x = None" unfolding crew_ok_def by blast
  from r h(2) obtain w us where vs: "vs = w # us" by (cases vs) auto
  let ?m = "sum_list (map rest ts) + cost + length us * Suc cost"
  have m: "m = Suc ?m" using h(7) vs by simp
  have new: "w \<notin> set (conns ?W)" "w \<notin> set ts" "w \<notin> set us" using dis h(3,4) vs by auto
  have ok: "world_ok (Suc (?m + k)) ?W" using h(8) m by simp
  from connect_ok [OF ok new(1) send(1), of "[]" "junk w"] send(2) m obtain V where
    V: "connect L w (junk w) ?W = Inr (V, RUnit)" "shares w [] (?m + k) V" "conns V = conns ?W @ [w]"
      "abs_tree (w_server V) = abs_tree (w_server ?W)" by auto
  have K: "noted V n" if "noted ?W n" for n
    using connect_ok [OF ok new(1) send(1), of "[n]" "junk w"] send(2) m that V(1) by (auto simp: shares_def)
  have minds: "minds mine w ?W V" using K V(3,4) by (auto simp: minds_def)
  let ?Y = "\<lparr>cr_world = V, cr_waiting = map (\<lambda>w. (w, junk w, begins w)) us, cr_threads = cr_threads X @ [(w, begins w)]\<rparr>"
  have "r = Inr ?Y" using r h(2) V(1) vs by simp
  moreover have "crew_ok k cs junk ws A ?m ?Y"
    unfolding crew_ok_def
  proof (rule exI [of _ "ts @ [w]"], rule exI [of _ us], rule exI [of _ "rest(w := cost)"], rule exI [of _ "own(w := None)"], intro conjI)
    have "stage v p (rest v) (own v) V \<and> v \<noteq> w" if "(v, p) \<in> set (cr_threads X)" for v p
    proof -
      have "v \<noteq> w" using that h(1) new(2) by (metis fst_conv image_eqI list.set_map)
      with that h(5) show ?thesis using stage_stays [OF _ _ minds] by blast
    qed
    moreover have "stage w (begins w) cost None V" using starts [OF V(2)] h(6) vs V(4) by simp
    ultimately show "\<forall>(v, p)\<in>set (cr_threads ?Y). stage v p ((rest(w := cost)) v) ((own(w := None)) v) (cr_world ?Y)" by auto
    show "\<forall>v\<in>set us. ready v (abs_tree (w_server (cr_world ?Y)))" using h(6) vs V(4) by simp
    have "sum_list (map (rest(w := cost)) ts) = sum_list (map rest ts)"
      by (rule arg_cong [where f = sum_list]) (use new(2) in auto)
    then show "?m = sum_list (map (rest(w := cost)) (ts @ [w])) + length us * Suc cost" by simp
    show "world_ok (?m + k) (cr_world ?Y)" using V(2) by (simp add: shares_def)
    show "\<forall>x. abs_tree (w_server (cr_world ?Y)) x \<noteq> A x \<longrightarrow> (\<exists>v\<in>set (ts @ [w]). (own(w := None)) v = Some x)"
      using h(9) V(4) new(2) by (simp; metis)
    show "\<forall>v\<in>set (ts @ [w]). \<forall>x. (own(w := None)) v = Some x \<longrightarrow> A x = None" using h(10) by simp
  qed (use h(1,3,4) V(3) vs in simp_all)
  ultimately show ?thesis using m by (intro exI [of _ ?Y] exI [of _ ?m]) simp
qed

lemma crew_turn:
  assumes X: "crew_ok k cs junk ws A m X" and dis: "distinct (cs @ ws)"
    and w: "(w, p) \<in> set (cr_threads X)" "r \<in> set (take_turn L X (w, p))"
  shows "\<exists>Y j. r = Inr Y \<and> crew_ok k cs junk ws A j Y \<and> j < m"
proof -
  let ?W = "cr_world X"
  from X obtain ts vs rest own where h: "map fst (cr_threads X) = ts" "cr_waiting X = map (\<lambda>w. (w, junk w, begins w)) vs"
    "ts @ vs = ws" "conns ?W = cs @ ts" "\<forall>(w, p)\<in>set (cr_threads X). stage w p (rest w) (own w) ?W"
    "\<forall>w\<in>set vs. ready w (abs_tree (w_server ?W))" "m = sum_list (map rest ts) + length vs * Suc cost" "world_ok (m + k) ?W"
    "\<forall>x. abs_tree (w_server ?W) x \<noteq> A x \<longrightarrow> (\<exists>w\<in>set ts. own w = Some x)"
    "\<forall>w\<in>set ts. \<forall>x. own w = Some x \<longrightarrow> A x = None" unfolding crew_ok_def by blast
  have wt: "w \<in> set ts" using w(1) h(1) by (metis fst_conv image_eqI list.set_map)
  have dt: "distinct ts" "distinct (map fst (cr_threads X))" using dis h(1,3) by auto
  obtain ts1 ts2 where sp: "ts = ts1 @ w # ts2" using wt by (auto simp: in_set_conv_decomp)
  have off: "w \<notin> set ts1" "w \<notin> set ts2" using dt(1) sp by auto
  define others where "others = sum_list (map rest ts1) + sum_list (map rest ts2) + length vs * Suc cost"
  have m: "m = rest w + others" using h(7) sp by (simp add: others_def)
  have st: "stage w p (rest w) (own w) ?W" using h(5) w(1) by blast
  have fin: "\<not> finished p" using w(2) by (auto simp: take_turn_def split: if_splits)
  have wc: "w \<in> set (conns ?W)" using wt h(4) by simp
  have "world_ok (rest w + (others + k)) ?W" using h(8) m by (simp add: add.assoc)
  from goes [OF st fin this wc] obtain V p' j own' where V: "turn L w p ?W = Inr (V, p')" "j < rest w"
    "world_ok (j + (others + k)) V" "stage w p' j own' V" "minds mine w ?W V" "conns V = conns ?W"
    "own_changes (own w) own' (abs_tree (w_server ?W)) (abs_tree (w_server V))" by blast
  let ?Y = "X\<lparr>cr_world := V, cr_threads := um_assign w p' (cr_threads X)\<rparr>"
  have "r = Inr ?Y" using w(2) V(1) fin by (simp add: take_turn_def)
  moreover have "crew_ok k cs junk ws A (j + others) ?Y"
    unfolding crew_ok_def
  proof (rule exI [of _ ts], rule exI [of _ vs], rule exI [of _ "rest(w := j)"], rule exI [of _ "own(w := own')"], intro conjI)
    show "map fst (cr_threads ?Y) = ts" using h(1) wt by (simp add: um_assign_fst)
    show "\<forall>(v, q)\<in>set (cr_threads ?Y). stage v q ((rest(w := j)) v) ((own(w := own')) v) (cr_world ?Y)"
    proof clarsimp
      fix v q assume "(v, q) \<in> set (um_assign w p' (cr_threads X))"
      then have "map_of (um_assign w p' (cr_threads X)) v = Some q"
        using dt(2) wt h(1) by (subst map_of_eq_Some_iff) (simp_all add: um_assign_fst)
      then have *: "(if v = w then q = p' else (v, q) \<in> set (cr_threads X))"
        using dt(2) by (auto simp: map_of_um_assign split: if_splits)
      then show "(v = w \<longrightarrow> stage w q j own' V) \<and> (v \<noteq> w \<longrightarrow> stage v q (rest v) (own v) V)"
        using V(4) h(5) stage_stays [OF _ _ V(5)] by fastforce
    qed
    show "\<forall>v\<in>set vs. ready v (abs_tree (w_server (cr_world ?Y)))"
    proof clarsimp
      fix v assume v: "v \<in> set vs"
      with dis h(3) wt have "w \<noteq> v" by auto
      with ready_stays [OF _ _ V(5)] h(6) v show "ready v (abs_tree (w_server V))" by blast
    qed
    have "sum_list (map (rest(w := j)) us) = sum_list (map rest us)" if "w \<notin> set us" for us
      by (rule arg_cong [where f = sum_list]) (use that in auto)
    then show "j + others = sum_list (map (rest(w := j)) ts) + length vs * Suc cost"
      using off by (simp add: sp others_def)
    show "world_ok (j + others + k) (cr_world ?Y)" using V(3) by (simp add: add.assoc)
    show "\<forall>x. abs_tree (w_server (cr_world ?Y)) x \<noteq> A x \<longrightarrow> (\<exists>v\<in>set ts. (own(w := own')) v = Some x)"
      "\<forall>v\<in>set ts. \<forall>x. (own(w := own')) v = Some x \<longrightarrow> A x = None"
      using crew_own [OF V(7) h(9,10) wt] by simp_all
  qed (use h(2,3,4) V(6) in simp_all)
  ultimately show ?thesis using m V(2) by (intro exI [of _ ?Y] exI [of _ "j + others"]) simp
qed

text \<open>When nothing is left to do, every thread has passed and the tree is what it was.\<close>

lemma crew_over:
  assumes X: "crew_ok k cs junk ws A m X" and none: "successors L X = []"
  shows "cr_waiting X = [] \<and> cr_threads X = map (\<lambda>w. (w, Done passed)) ws \<and> conns (cr_world X) = cs @ ws \<and>
    world_ok k (cr_world X) \<and> abs_tree (w_server (cr_world X)) = A"
proof -
  let ?W = "cr_world X"
  from X obtain ts vs rest own where h: "map fst (cr_threads X) = ts" "cr_waiting X = map (\<lambda>w. (w, junk w, begins w)) vs"
    "ts @ vs = ws" "conns ?W = cs @ ts" "\<forall>(w, p)\<in>set (cr_threads X). stage w p (rest w) (own w) ?W" "world_ok (m + k) ?W"
    "\<forall>x. abs_tree (w_server ?W) x \<noteq> A x \<longrightarrow> (\<exists>w\<in>set ts. own w = Some x)" unfolding crew_ok_def by blast
  have vs: "vs = []" using none h(2) by (cases vs) (auto simp: successors_def)
  have fin: "p = Done passed \<and> own w = None" if w: "(w, p) \<in> set (cr_threads X)" for w p
  proof -
    have "take_turn L X (w, p) = []" using none w by (auto simp: successors_def)
    then have "finished p" by (auto simp: take_turn_def split: if_splits)
    then obtain a where "p = Done a" by (cases p) auto
    with h(5) w over show ?thesis by blast
  qed
  have "cr_threads X = map (\<lambda>w. (w, Done passed)) ts"
    unfolding h(1) [symmetric] map_map by (rule map_idI [symmetric]) (use fin in auto)
  moreover have "own w = None" if "w \<in> set ts" for w using that h(1) fin by force
  then have "abs_tree (w_server ?W) = A" using h(7) by (intro ext) force
  ultimately show ?thesis using h vs world_ok_mono by auto
qed

lemma crew_ends:
  assumes ok: "world_ok (length ws * Suc cost + k) W" and dis: "distinct (conns W @ ws)"
    and ready: "\<forall>w\<in>set ws. ready w (abs_tree (w_server W))"
    and send: "sends L ask_signin" "length ws * Suc cost + k < 2 ^ 16"
  shows "always_ends L (\<lambda>X. cr_waiting X = [] \<and> cr_threads X = map (\<lambda>w. (w, Done passed)) ws \<and>
      conns (cr_world X) = conns W @ ws \<and> world_ok k (cr_world X) \<and> abs_tree (w_server (cr_world X)) = abs_tree (w_server W))
    \<lparr>cr_world = W, cr_waiting = map (\<lambda>w. (w, junk w, begins w)) ws, cr_threads = []\<rparr>" (is "always_ends L _ ?X")
proof -
  let ?ok = "\<lambda>m X. crew_ok k (conns W) junk ws (abs_tree (w_server W)) m X \<and> m + k < 2 ^ 16"
  let ?m = "\<lambda>X. LEAST m. ?ok m X"
  have "?ok (length ws * Suc cost) ?X" using ok ready send(2) by (auto simp: crew_ok_def)
  then have "\<exists>m. ?ok m ?X" by blast
  then show ?thesis
  proof (rule always_ends_measure [where m = ?m])
    fix X r assume ex: "\<exists>m. ?ok m X" and r: "r \<in> set (successors L X)"
    from ex have X: "?ok (?m X) X" by (rule LeastI_ex)
    have "\<exists>Y j. r = Inr Y \<and> crew_ok k (conns W) junk ws (abs_tree (w_server W)) j Y \<and> j < ?m X"
      using r X crew_start [OF _ dis _ send(1)] crew_turn [OF _ dis] unfolding successors_def by fastforce
    then obtain Y j where Y: "r = Inr Y" "crew_ok k (conns W) junk ws (abs_tree (w_server W)) j Y" "j < ?m X" by blast
    then have "?ok j Y" using X by simp
    then have "?m Y \<le> j" by (rule Least_le)
    with Y \<open>?ok j Y\<close> show "\<exists>Y. r = Inr Y \<and> (\<exists>m. ?ok m Y) \<and> ?m Y < ?m X" by auto
  qed (use crew_over in blast)
qed

end

end
