(* ===== verification/ThreadTests.thy ===== *)
theory ThreadTests
  imports Threads BasicTests
begin

text \<open>
  The tests of \<open>E2ETest/ConcurrentOperationTest.cpp\<close> whose threads work side by side: each creates and
  deletes its own child of the root, or sends signs of life.
\<close>

section \<open>The tests\<close>

text \<open>The four clients and what their threads do.\<close>

definition shouldConcurrentAddNodeOnSameParent :: "(nat \<Rightarrow> conn) \<Rightarrow> (conn \<Rightarrow> u8 list) \<Rightarrow> World \<Rightarrow> bool Crew" where
  "shouldConcurrentAddNodeOnSameParent w junk W = \<lparr>cr_world = W,
     cr_waiting = map (\<lambda>i. (w i, junk (w i), bindP client_root (\<lambda>r. CreateDelete r (''runner'' @ decimal i)))) [0..<4], cr_threads = []\<rparr>"

definition shouldHeartbeatThreaded :: "(nat \<Rightarrow> conn) \<Rightarrow> (conn \<Rightarrow> u8 list) \<Rightarrow> World \<Rightarrow> bool Crew" where
  "shouldHeartbeatThreaded w junk W = \<lparr>cr_world = W,
     cr_waiting = map (\<lambda>i. (w i, junk (w i), bindP Beat (\<lambda>_. Done True))) [0..<4], cr_threads = []\<rparr>"

text \<open>The threads have ended as they should, and the clients are destroyed in their order.\<close>

fun all_leave :: "conn list \<Rightarrow> World \<Rightarrow> fault + World" where
  "all_leave [] W = Inr W"
| "all_leave (w # ws) W = bindR (leave w W) (all_leave ws)"

definition crew_passes :: "bool Crew \<Rightarrow> bool" where
  "crew_passes X \<longleftrightarrow> cr_waiting X = [] \<and> (\<forall>(w, p)\<in>set (cr_threads X). p = Done True)"

section \<open>Threads that send signs of life\<close>

definition beats :: "cum \<Rightarrow> conn \<Rightarrow> bool prog \<Rightarrow> nat \<Rightarrow> u64 option \<Rightarrow> World \<Rightarrow> bool" where
  "beats L w p n own W \<longleftrightarrow> (\<exists>i. p = bindP (beat_loop i) (\<lambda>_. Done True) \<and> n = 2 * i) \<and> own = None \<and>
     sends L (HearbeatRequest \<lparr>HearbeatRequest_spare = 0\<rparr>)"

text \<open>An operation of a client leaves the notes about the others alone that the requests spare.\<close>

lemma notes_kept:
  assumes "\<And>K. shares w K j W \<Longrightarrow> (\<forall>n\<in>set K. P n) \<Longrightarrow> \<exists>y. run_client L w p W = Inr (y, a) \<and> shares w K k y"
    and "shares w [] j W" "run_client L w p W = Inr (W', a)" "n_conn n \<noteq> w" "noted W n" "P n"
  shows "noted W' n"
proof -
  have "shares w [n] j W" using assms(2,4,5) by (simp add: shares_def)
  from assms(1) [OF this] assms(3,6) show ?thesis by (auto simp: shares_def)
qed

lemma minds_quiet:
  assumes "abs_tree (w_server W') = abs_tree (w_server W)" "conns W' = conns W" "\<And>n. n_conn n \<noteq> w \<Longrightarrow> noted W n \<Longrightarrow> noted W' n"
  shows "minds mine w W W'"
  using assms by (auto simp: minds_def)

lemma beats_turn:
  assumes st: "beats L w p n own W" and fin: "\<not> finished p" and ok: "world_ok (n + k) W" and w: "w \<in> set (conns W)"
  shows "\<exists>W' p' m own'. turn L w p W = Inr (W', p') \<and> m < n \<and> world_ok (m + k) W' \<and> beats L w p' m own' W' \<and>
    minds mine w W W' \<and> conns W' = conns W \<and> own_changes own own' (abs_tree (w_server W)) (abs_tree (w_server W'))"
proof -
  from st obtain i where i: "p = bindP (beat_loop i) (\<lambda>_. Done True)" "n = 2 * i" "own = None"
    "sends L (HearbeatRequest \<lparr>HearbeatRequest_spare = 0\<rparr>)" by (auto simp: beats_def)
  from i(1) fin obtain j where j: "i = Suc j" by (cases i) auto
  have sh: "shares w [] (Suc (Suc (2 * j + k))) W" using ok w i(2) j by (simp add: shares_def)
  have one: "\<exists>y. run_client L w client_beat W = Inr (y, ()) \<and> shares w K (2 * j + k) y"
    if "shares w K (Suc (Suc (2 * j + k))) W" for K
    using shared.run_beat [OF that, of L] i(4) by (auto simp: spares_def)
  from shared.run_beat [OF sh, of L] i(4) obtain V where V: "run_client L w client_beat W = Inr (V, ())"
    "shares w [] (2 * j + k) V" "w_server V = w_server W" by (auto simp: spares_def)
  have p: "p = bindP client_beat (\<lambda>_. bindP (beat_loop j) (\<lambda>_. Done True))" by (simp add: i(1) j bindP_assoc)
  have "turn L w p W = Inr (V, bindP (beat_loop j) (\<lambda>_. Done True))"
    unfolding p client_beat_def by (rule turn_bind [THEN conjunct1]) (use V(1) in \<open>simp add: client_beat_def\<close>)
  moreover have "minds mine w W V"
    using V(3) run_client_conns [OF V(1) w] notes_kept [where P = "\<lambda>_. True", OF one sh V(1)] by (intro minds_quiet) auto
  moreover have "beats L w (bindP (beat_loop j) (\<lambda>_. Done True)) (2 * j) None V" using i(4) by (auto simp: beats_def)
  ultimately show ?thesis using V(2,3) i(2,3) j run_client_conns [OF V(1) w]
    by (intro exI [of _ V] exI [of _ "bindP (beat_loop j) (\<lambda>_. Done True)"] exI [of _ "2 * j"] exI [of _ None])
      (simp add: shares_def own_changes_def)
qed

interpretation beaters: workload L "\<lambda>_ _ _. False" "\<lambda>_ _. sends L (HearbeatRequest \<lparr>HearbeatRequest_spare = 0\<rparr>)" "beats L"
    "\<lambda>_. bindP Beat (\<lambda>_. Done True)" 2000 True
  for L
proof (unfold_locales, goal_cases)
  case (1 w K k W)
  then show ?case unfolding beats_def Beat_def by (intro conjI exI [of _ 1000]) simp_all
next
  case (2 w a n own W)
  then obtain i where i: "Done a = bindP (beat_loop i) (\<lambda>_. Done True)" "own = None" by (auto simp: beats_def)
  then show ?case by (cases i) (auto simp: client_beat_def on_client_def)
next
  case (5 w p n own W k)
  then show ?case by (rule beats_turn)
qed (simp_all add: beats_def)

section \<open>Threads that create and delete a node\<close>

text \<open>The children of the root that have a name.\<close>

definition belongs :: "string \<Rightarrow> atree \<Rightarrow> u64 \<Rightarrow> bool" where
  "belongs n A x \<longleftrightarrow> (\<exists>a. A x = Some a \<and> a_name a = n \<and> a_parent a = Some 0)"

lemma belongs_view: "belongs n (abs_tree s) x \<longleftrightarrow> sview s x = Some (n, Some 0)"
  by (auto simp: belongs_def sview_def)

text \<open>Each client has a name for its node.\<close>

definition mine_by :: "(conn \<Rightarrow> string) \<Rightarrow> conn set \<Rightarrow> conn \<Rightarrow> atree \<Rightarrow> u64 \<Rightarrow> bool" where
  "mine_by name C w A x \<longleftrightarrow> w \<in> C \<and> inj_on name C \<and> belongs (name w) A x"

text \<open>The node of a client is there, without children, or not.\<close>

definition has_own :: "string \<Rightarrow> atree \<Rightarrow> u64 option \<Rightarrow> bool" where
  "has_own n A own \<longleftrightarrow> (\<forall>x. belongs n A x \<longleftrightarrow> own = Some x) \<and> (\<forall>x. own = Some x \<longrightarrow> x \<noteq> 0 \<and> \<not> is_parent A x)"

definition can_add :: "cum \<Rightarrow> (conn \<Rightarrow> string) \<Rightarrow> conn set \<Rightarrow> conn \<Rightarrow> atree \<Rightarrow> bool" where
  "can_add L name C w A \<longleftrightarrow> w \<in> C \<and> inj_on name C \<and> (\<exists>a. A 0 = Some a \<and> a_parent a = None) \<and>
     sends L (ask_create 0 (name w)) \<and> (\<forall>v. sends L (ask_delete v))"

abbreviation handle_of :: "Note \<Rightarrow> Property" where
  "handle_of n \<equiv> make_Property (Some (n_ref n))"

inductive adds :: "cum \<Rightarrow> (conn \<Rightarrow> string) \<Rightarrow> conn set \<Rightarrow> conn \<Rightarrow> bool prog \<Rightarrow> nat \<Rightarrow> u64 option \<Rightarrow> World \<Rightarrow> bool"
  for L name C w where
  adds_fresh: "can_add L name C w (abs_tree (w_server W)) \<Longrightarrow> has_own (name w) (abs_tree (w_server W)) None \<Longrightarrow>
    adds L name C w (bindP client_root (\<lambda>r. create_delete_loop i r (name w))) (4 * i + 1) None W"
| adds_out: "can_add L name C w (abs_tree (w_server W)) \<Longrightarrow> has_own (name w) (abs_tree (w_server W)) None \<Longrightarrow>
    noted W r \<Longrightarrow> n_conn r = w \<Longrightarrow> n_node r = 0 \<Longrightarrow>
    adds L name C w (create_delete_loop i (handle_of r) (name w)) (4 * i) None W"
| adds_in: "can_add L name C w (abs_tree (w_server W)) \<Longrightarrow> has_own (name w) (abs_tree (w_server W)) (Some (n_node d)) \<Longrightarrow>
    noted W r \<Longrightarrow> n_conn r = w \<Longrightarrow> n_node r = 0 \<Longrightarrow> noted W d \<Longrightarrow> n_conn d = w \<Longrightarrow>
    adds L name C w (bindP (prop_destroy (handle_of d)) (\<lambda>_. create_delete_loop i (handle_of r) (name w)))
      (4 * i + 2) (Some (n_node d)) W"

text \<open>What another client does leaves a client in its stage.\<close>

lemma mine_other:
  assumes "mine_by name C v A x" "can_add L name C w A'" "v \<noteq> w"
  shows "\<not> belongs (name w) A x" "can_add L name C w A \<Longrightarrow> x \<noteq> 0"
proof -
  have v: "v \<in> C" "w \<in> C" "inj_on name C" "belongs (name v) A x" using assms(1,2) by (simp_all add: mine_by_def can_add_def)
  then show "\<not> belongs (name w) A x" using assms(3) inj_onD [of name C v w] unfolding belongs_def by force
  show "x \<noteq> 0" if "can_add L name C w A" using v(4) that by (auto simp: can_add_def belongs_def)
qed

lemma belongs_tree: "belongs n (abs_tree s) x \<Longrightarrow> tree s x \<noteq> None"
  by (metis belongs_view option.distinct(1) sview_None)

lemma belongs_stays:
  assumes "minds (mine_by name C) v W W'" "can_add L name C w (abs_tree (w_server W))" "v \<noteq> w"
  shows "belongs (name w) (abs_tree (w_server W')) x \<longleftrightarrow> belongs (name w) (abs_tree (w_server W)) x"
proof (cases "abs_tree (w_server W) x = abs_tree (w_server W') x")
  case False
  have "\<not> belongs (name w) (abs_tree (w_server W)) x"
    using mindsD(3) [OF assms(1) False] mine_other(1) [OF _ assms(2,3)] belongs_tree by blast
  moreover have "\<not> belongs (name w) (abs_tree (w_server W')) x"
    using mindsD(4) [OF assms(1) False] mine_other(1) [OF _ assms(2,3)] belongs_tree by blast
  ultimately show ?thesis by blast
qed (simp add: belongs_def)

lemma can_add_stays:
  assumes "minds (mine_by name C) v W W'" "can_add L name C w (abs_tree (w_server W))" "v \<noteq> w"
  shows "can_add L name C w (abs_tree (w_server W'))"
proof -
  have "abs_tree (w_server W) 0 = abs_tree (w_server W') 0"
  proof (rule ccontr)
    assume ne: "abs_tree (w_server W) 0 \<noteq> abs_tree (w_server W') 0"
    have "tree (w_server W) 0 \<noteq> None" using assms(2) by (auto simp: can_add_def simp flip: abs_tree_None)
    with mindsD(3) [OF assms(1) ne] mine_other(2) [OF _ assms(2,3,2)] show False by blast
  qed
  with assms(2) show ?thesis by (simp add: can_add_def)
qed

lemma parent_stays:
  assumes "minds (mine_by name C) v W W'" "is_parent (abs_tree (w_server W')) x" "x \<noteq> 0"
  shows "is_parent (abs_tree (w_server W)) x"
proof -
  from assms(2) obtain y n where y: "sview (w_server W') y = Some (n, Some x)" by (auto simp: is_parent_view)
  have "abs_tree (w_server W) y = abs_tree (w_server W') y"
  proof (rule ccontr)
    assume ne: "abs_tree (w_server W) y \<noteq> abs_tree (w_server W') y"
    have "tree (w_server W') y \<noteq> None" using y by (metis option.distinct(1) sview_None)
    with mindsD(4) [OF assms(1) ne] y assms(3) show False by (auto simp: mine_by_def belongs_view)
  qed
  with y have "sview (w_server W) y = Some (n, Some x)" by (simp add: sview_def)
  then show ?thesis by (auto simp: is_parent_view)
qed

lemma own_stays:
  assumes "minds (mine_by name C) v W W'" "can_add L name C w (abs_tree (w_server W))" "v \<noteq> w"
    and "has_own (name w) (abs_tree (w_server W)) own"
  shows "has_own (name w) (abs_tree (w_server W')) own"
  using assms(4) belongs_stays [OF assms(1-3)] parent_stays [OF assms(1)] unfolding has_own_def by blast

lemma adds_stays:
  assumes "adds L name C w p n own W" "v \<noteq> w" "minds (mine_by name C) v W W'"
  shows "adds L name C w p n own W'"
proof -
  have root: "noted W' r" if "can_add L name C w (abs_tree (w_server W))" "noted W r" "n_conn r = w" "n_node r = 0" for r
    using mindsD(2) [OF assms(3) that(2)] mine_other(2) [OF _ that(1) assms(2) that(1)] that(3,4) assms(2) by metis
  show ?thesis using assms(1)
  proof cases
    case (adds_fresh i)
    with can_add_stays own_stays assms(2,3) show ?thesis by (blast intro: adds.adds_fresh)
  next
    case (adds_out r i)
    with can_add_stays own_stays assms(2,3) root show ?thesis by (blast intro: adds.adds_out)
  next
    case (adds_in d r i)
    have "belongs (name w) (abs_tree (w_server W)) (n_node d)" using adds_in(5) by (simp add: has_own_def)
    then have "noted W' d" using mindsD(2) [OF assms(3) adds_in(9)] mine_other(1) [OF _ adds_in(4) assms(2)] adds_in(10) assms(2) by metis
    with adds_in can_add_stays own_stays assms(2,3) root show ?thesis by (blast intro: adds.adds_in)
  qed
qed

text \<open>The turns of a client.\<close>

lemma note_again:
  assumes "shares w K k W" "at (client_at w W) (handle_of r) u"
  obtains n where "noted W n" "n_conn n = w" "n_node n = u" "handle_of n = handle_of r"
  using note_taken [OF assms] by metis

lemma note_at: "noted W n \<Longrightarrow> n_conn n = w \<Longrightarrow> at (client_at w W) (handle_of n) (n_node n)"
  using noted_at(1) by metis

abbreviation moves :: "cum \<Rightarrow> (conn \<Rightarrow> string) \<Rightarrow> conn set \<Rightarrow> conn \<Rightarrow> bool prog \<Rightarrow> nat \<Rightarrow> u64 option \<Rightarrow> nat \<Rightarrow> World \<Rightarrow> bool" where
  "moves L name C w p n own k W \<equiv> \<exists>W' p' m own'. turn L w p W = Inr (W', p') \<and> m < n \<and> world_ok (m + k) W' \<and>
     adds L name C w p' m own' W' \<and> minds (mine_by name C) w W W' \<and> conns W' = conns W \<and>
     own_changes own own' (abs_tree (w_server W)) (abs_tree (w_server W'))"

lemma adds_root:
  assumes can: "can_add L name C w (abs_tree (w_server W))" and own: "has_own (name w) (abs_tree (w_server W)) None"
    and ok: "world_ok (4 * i + 1 + k) W" and w: "w \<in> set (conns W)"
  shows "moves L name C w (bindP client_root (\<lambda>r. create_delete_loop i r (name w))) (4 * i + 1) None k W"
proof -
  have sh: "shares w [] (Suc (4 * i + k)) W" using ok w by (simp add: shares_def)
  have one: "\<exists>y a. run_client L w client_root W = Inr (y, a) \<and> shares w K (4 * i + k) y" if "shares w K (Suc (4 * i + k)) W" for K
    using shared.run_root [OF that, of L] by blast
  from shared.run_root [OF sh, of L] obtain V r where V: "run_client L w client_root W = Inr (V, r)" "shares w [] (4 * i + k) V"
    "w_server V = w_server W" "at (client_at w V) r 0" by blast
  obtain n where n: "noted V n" "n_conn n = w" "n_node n = 0" "r = handle_of n" using note_taken [OF V(2,4)] by metis
  have one': "\<exists>y. run_client L w client_root W = Inr (y, r) \<and> shares w K (4 * i + k) y" if "shares w K (Suc (4 * i + k)) W" for K
    using one [OF that] V(1) by auto
  have "turn L w (bindP client_root (\<lambda>r. create_delete_loop i r (name w))) W = Inr (V, create_delete_loop i r (name w))"
    unfolding client_root_def by (rule turn_bind [THEN conjunct1]) (use V(1) in \<open>simp add: client_root_def\<close>)
  moreover have "minds (mine_by name C) w W V"
    using V(3) run_client_conns [OF V(1) w] notes_kept [where P = "\<lambda>_. True", OF one' sh V(1)] by (intro minds_quiet) auto
  moreover have "adds L name C w (create_delete_loop i (handle_of n) (name w)) (4 * i) None V"
    by (rule adds_out) (use can own V(3) n in simp_all)
  ultimately show ?thesis using V(2,3) n(4) run_client_conns [OF V(1) w]
    by (intro exI [of _ V] exI [of _ "create_delete_loop i r (name w)"] exI [of _ "4 * i"] exI [of _ None])
      (simp add: shares_def own_changes_def)
qed

lemma adds_create:
  assumes can: "can_add L name C w (abs_tree (w_server W))" and own: "has_own (name w) (abs_tree (w_server W)) None"
    and r: "noted W r" "n_conn r = w" "n_node r = 0" and ok: "world_ok (4 * Suc j + k) W" and w: "w \<in> set (conns W)"
  shows "moves L name C w (create_delete_loop (Suc j) (handle_of r) (name w)) (4 * Suc j) None k W"
proof -
  let ?s = "w_server W" and ?v = "ucast (mUuidCtr (w_server W)) :: u64" and ?j = "4 * j + 2 + k" and ?h = "handle_of r"
  let ?next = "\<lambda>child. if \<not> to_bool child then Done False
    else bindP (prop_destroy child) (\<lambda>_. create_delete_loop j ?h (name w))"
  have sh: "shares w [] (Suc (Suc ?j)) W" using ok w by (simp add: shares_def numeral_eq_Suc)
  have tr: "tree_inv ?s" using shared.ok_tree [OF sh] .
  have at: "at (client_at w W) ?h 0" using note_at [OF r(1,2)] r(3) by simp
  have "child_uuid ?s 0 (name w) \<noteq> Some x" for x
    using own unfolding has_own_def belongs_view child_uuid_view [OF tr] by blast
  then have free: "child_uuid ?s 0 (name w) = None" by (cases "child_uuid ?s 0 (name w)") auto
  have pub: "known_to_all W 0" using root_known sh by blast
  have fits: "sends L (ask_create 0 (name w)) \<and> spares K (ask_create 0 (name w))" for K
    using can by (simp add: can_add_def spares_def)
  have ses: "session_of ?s w \<noteq> None" using shares_usable [OF sh] by simp
  obtain z where "tree ?s 0 = Some z" using tr by (rule tree_root)
  then have root: "tree ?s 0 \<noteq> None" by simp
  from shared.run_create [OF sh at free pub fits] obtain V q where V: "run_client L w (prop_create (name w) ?h) W = Inr (V, q)"
    "shares w [] ?j V" "does w (ask_create 0 (name w)) ?s (w_server V)" "learns (client_at w W) (client_at w V)"
    "at (client_at w V) q ?v" by blast
  note new = does_created [OF tr ses root free V(3)]
  obtain d where d: "noted V d" "n_conn d = w" "n_node d = ?v" "q = handle_of d" using note_taken [OF V(2,5)] by metis
  obtain r' where r': "noted V r'" "n_conn r' = w" "n_node r' = 0" "handle_of r' = ?h"
    using note_again [OF V(2) at_learns [OF at V(4)]] .
  have one: "\<exists>y. run_client L w (prop_create (name w) ?h) W = Inr (y, q) \<and> shares w K ?j y" if "shares w K (Suc (Suc ?j)) W" for K
    using shared.run_create [OF that at free pub fits] V(1) by auto
  have same: "abs_tree (w_server V) x = abs_tree ?s x" if "x \<noteq> ?v" for x using new(7) that by (metis fun_upd_other)
  have bel: "belongs (name w) (abs_tree (w_server V)) x \<longleftrightarrow> x = ?v" for x
    using own new(4) by (auto simp: has_own_def belongs_view)
  have "turn L w (create_delete_loop (Suc j) ?h (name w)) W = Inr (V, ?next q)"
    unfolding create_delete_loop.simps prop_create_def
    by (rule turn_bind [THEN conjunct1]) (use V(1) in \<open>simp add: prop_create_def\<close>)
  moreover have "?next q = bindP (prop_destroy (handle_of d)) (\<lambda>_. create_delete_loop j (handle_of r') (name w))"
    using d(4) r'(4) by simp
  moreover have "minds (mine_by name C) w W V"
    unfolding minds_def
  proof (intro conjI allI impI)
    fix x show "abs_tree ?s x = abs_tree (w_server V) x \<or> (tree ?s x = None \<or> mine_by name C w (abs_tree ?s) x) \<and>
        (tree (w_server V) x = None \<or> mine_by name C w (abs_tree (w_server V)) x)"
      using same [of x] new(1) bel [of x] can by (cases "x = ?v") (simp_all add: mine_by_def can_add_def)
  next
    fix n assume "n_conn n \<noteq> w" "noted W n"
    then show "noted V n" using notes_kept [where P = "\<lambda>_. True", OF one sh V(1)] by auto
  qed (use run_client_conns [OF V(1) w] in simp)
  moreover have "adds L name C w (bindP (prop_destroy (handle_of d)) (\<lambda>_. create_delete_loop j (handle_of r') (name w)))
      (4 * j + 2) (Some (n_node d)) V"
  proof (rule adds_in)
    show "can_add L name C w (abs_tree (w_server V))" using can same [of 0] new(2) by (simp add: can_add_def)
    show "has_own (name w) (abs_tree (w_server V)) (Some (n_node d))"
      unfolding has_own_def using bel d(3) new(2,6) by auto
  qed (use d r' in simp_all)
  moreover have "own_changes None (Some ?v) (abs_tree ?s) (abs_tree (w_server V))"
    using new(1) same by (auto simp: own_changes_def)
  ultimately show ?thesis using V(2) d(3) run_client_conns [OF V(1) w]
    by (intro exI [of _ V] exI [of _ "?next q"] exI [of _ "4 * j + 2"] exI [of _ "Some ?v"]) (simp add: shares_def)
qed

lemma adds_destroy:
  assumes can: "can_add L name C w (abs_tree (w_server W))" and own: "has_own (name w) (abs_tree (w_server W)) (Some (n_node d))"
    and r: "noted W r" "n_conn r = w" "n_node r = 0" and d: "noted W d" "n_conn d = w"
    and ok: "world_ok (4 * i + 2 + k) W" and w: "w \<in> set (conns W)"
  shows "moves L name C w (bindP (prop_destroy (handle_of d)) (\<lambda>_. create_delete_loop i (handle_of r) (name w)))
    (4 * i + 2) (Some (n_node d)) k W"
proof -
  let ?s = "w_server W" and ?v = "n_node d" and ?h = "handle_of d"
  have sh: "shares w [] (Suc (Suc (4 * i + k))) W" using ok w by (simp add: shares_def)
  have at: "at (client_at w W) ?h ?v" "at (client_at w W) (handle_of r) 0" using note_at [OF d] note_at [OF r(1,2)] r(3) by simp_all
  have v: "?v \<noteq> 0" "\<not> is_parent (abs_tree ?s) ?v" "belongs (name w) (abs_tree ?s) ?v" using own by (simp_all add: has_own_def)
  have fits: "sends L (ask_delete ?v) \<and> spares K (ask_delete ?v)" if "\<forall>n\<in>set K. n_node n \<noteq> ?v" for K
    using can that by (auto simp: can_add_def spares_def)
  from shared.run_destroy [OF sh at(1) v(1,2) fits] obtain V where V: "run_client L w (prop_destroy ?h) W = Inr (V, True)"
    "shares w [] (4 * i + k) V" "does w (ask_delete ?v) ?s (w_server V)" "steady (client_at w W) (client_at w V)"
    "ctree (client_at w V) = (ctree (client_at w W))(?v := None)" using pruned_tree by auto
  have one: "\<exists>y. run_client L w (prop_destroy ?h) W = Inr (y, True) \<and> shares w K (4 * i + k) y"
    if "shares w K (Suc (Suc (4 * i + k))) W" "\<forall>n\<in>set K. n_node n \<noteq> ?v" for K
    using shared.run_destroy [OF that(1) at(1) v(1,2) fits [OF that(2)]] by blast
  have A: "abs_tree (w_server V) = (abs_tree ?s)(?v := None)" using does_deleted(1) [OF V(3) belongs_tree [OF v(3)] v(2)] .
  have "at (client_at w V) (handle_of r) 0" using at(2) V(4,5) v(1) by (auto simp: at_def steady_def)
  then obtain r' where r': "noted V r'" "n_conn r' = w" "n_node r' = 0" "handle_of r' = handle_of r" by (rule note_again [OF V(2)])
  have "turn L w (bindP (prop_destroy ?h) (\<lambda>_. create_delete_loop i (handle_of r) (name w))) W =
      Inr (V, create_delete_loop i (handle_of r') (name w))"
    unfolding prop_destroy_def r'(4) by (rule turn_bind [THEN conjunct1]) (use V(1) in \<open>simp add: prop_destroy_def\<close>)
  moreover have "minds (mine_by name C) w W V"
    unfolding minds_def
  proof (intro conjI allI impI)
    fix x show "abs_tree ?s x = abs_tree (w_server V) x \<or> (tree ?s x = None \<or> mine_by name C w (abs_tree ?s) x) \<and>
        (tree (w_server V) x = None \<or> mine_by name C w (abs_tree (w_server V)) x)"
    proof (cases "x = ?v")
      case True
      have "abs_tree (w_server V) ?v = None" using A by simp
      then have "tree (w_server V) ?v = None" by simp
      with True v(3) can show ?thesis by (simp add: mine_by_def can_add_def)
    qed (simp add: A)
  next
    fix n assume n: "n_conn n \<noteq> w" "noted W n" "\<not> mine_by name C w (abs_tree ?s) (n_node n)"
    with v(3) can have "n_node n \<noteq> ?v" by (auto simp: mine_by_def can_add_def)
    with n show "noted V n" using notes_kept [where P = "\<lambda>n. n_node n \<noteq> ?v", OF one sh V(1)] by blast
  qed (use run_client_conns [OF V(1) w] in simp)
  moreover have "adds L name C w (create_delete_loop i (handle_of r') (name w)) (4 * i) None V"
  proof (rule adds_out)
    show "can_add L name C w (abs_tree (w_server V))" using can v(1) by (simp add: A can_add_def)
    have "\<not> belongs (name w) (abs_tree (w_server V)) x" for x
      using own by (cases "x = ?v") (auto simp: has_own_def belongs_def A)
    then show "has_own (name w) (abs_tree (w_server V)) None" by (simp add: has_own_def)
  qed (use r' in simp_all)
  ultimately show ?thesis using V(2) A run_client_conns [OF V(1) w]
    by (intro exI [of _ V] exI [of _ "create_delete_loop i (handle_of r') (name w)"] exI [of _ "4 * i"] exI [of _ None])
      (simp add: shares_def own_changes_def)
qed

lemma adds_turn:
  assumes "adds L name C w p n own W" "\<not> finished p" "world_ok (n + k) W" "w \<in> set (conns W)"
  shows "moves L name C w p n own k W"
  using assms(1)
proof cases
  case (adds_fresh i)
  with adds_root assms(3,4) show ?thesis by simp
next
  case (adds_out r i)
  with assms(2) obtain j where "i = Suc j" by (cases i) auto
  with adds_out adds_create [where j = j] assms(3,4) show ?thesis by simp
next
  case (adds_in d r i)
  with adds_destroy assms(3,4) show ?thesis by simp
qed


interpretation adders: workload L "mine_by name C" "\<lambda>w A. can_add L name C w A \<and> has_own (name w) A None" "adds L name C"
    "\<lambda>w. bindP client_root (\<lambda>r. CreateDelete r (name w))" 201 True
  for L name C
proof (unfold_locales, goal_cases)
  case (1 w K k W)
  then show ?case using adds_fresh [of L name C w W 50] by (simp add: CreateDelete_def)
next
  case (2 w a n own W)
  then show ?case
  proof cases
    case (adds_out r i)
    then show ?thesis by (cases i) (auto simp: prop_create_def on_client_def)
  qed (auto simp: client_root_def prop_destroy_def on_client_def)
next
  case (3 w W v W')
  then show ?case using can_add_stays own_stays by blast
next
  case (4 w p n own W v W')
  then show ?case by (rule adds_stays)
next
  case (5 w p n own W k)
  then show ?case by (rule adds_turn)
qed

section \<open>The threads end\<close>

lemma all_leave_ok:
  assumes "world_ok k W"
  shows "\<exists>W'. all_leave ws W = Inr W' \<and> world_ok k W' \<and> conns W' = filter (\<lambda>v. v \<notin> set ws) (conns W) \<and>
    abs_tree (w_server W') = abs_tree (w_server W)"
  using assms
proof (induction ws arbitrary: W)
  case (Cons w ws)
  from leave_ok [OF Cons.prems, of "[]" w] obtain V where V: "leave w W = Inr V" "world_ok k V"
    "conns V = filter (\<lambda>v. v \<noteq> w) (conns W)" "abs_tree (w_server V) = abs_tree (w_server W)" by auto
  from Cons.IH [OF V(2)] obtain W' where "all_leave ws V = Inr W'" "world_ok k W'"
    "conns W' = filter (\<lambda>v. v \<notin> set ws) (conns V)" "abs_tree (w_server W') = abs_tree (w_server V)" by blast
  with V show ?case by (auto intro!: filter_cong)
qed simp

text \<open>A crew passes in a world if all its threads do, and the world is the same when it has gone.\<close>

definition crew_restores :: "World \<Rightarrow> bool Crew \<Rightarrow> bool" where
  "crew_restores W X \<longleftrightarrow> crew_passes X \<and> (\<exists>W'. all_leave (map fst (cr_threads X)) (cr_world X) = Inr W' \<and>
     conns W' = conns W \<and> abs_tree (w_server W') = abs_tree (w_server W))"

lemma restoresI:
  assumes "cr_waiting X = []" "cr_threads X = map (\<lambda>w. (w, Done True)) ws" "conns (cr_world X) = conns W @ ws"
    and "world_ok k (cr_world X)" "abs_tree (w_server (cr_world X)) = abs_tree (w_server W)" "distinct (conns W @ ws)"
  shows "crew_restores W X"
proof -
  from all_leave_ok [OF assms(4), of ws] obtain W' where W': "all_leave ws (cr_world X) = Inr W'"
    "conns W' = filter (\<lambda>v. v \<notin> set ws) (conns (cr_world X))" "abs_tree (w_server W') = abs_tree (w_server (cr_world X))" by blast
  have "filter (\<lambda>v. v \<notin> set ws) (conns W @ ws) = conns W"
    using assms(6) by (auto simp: filter_id_conv filter_empty_conv)
  then have "conns W' = conns W" using W'(2) assms(3) by simp
  moreover have "map fst (cr_threads X) = ws" by (simp add: assms(2) o_def)
  ultimately show ?thesis using W'(1,3) assms(1,2,5) by (auto simp: crew_restores_def crew_passes_def)
qed

text \<open>Both tests.\<close>

lemma names_apart: "inj_on (\<lambda>i. ''runner'' @ decimal i) {..<4}"
proof -
  have "{..<4} = {0, 1, 2, 3 :: nat}" by auto
  moreover have "decimal 0 = ''0''" "decimal 1 = ''1''" "decimal 2 = ''2''" "decimal 3 = ''3''" by code_simp+
  ultimately show ?thesis by (simp add: inj_on_def)
qed

lemma four_clients: "length (map w [0..<4]) = 4"
  by simp

lemma heartbeat_threads:
  assumes "world_ok (4 * 2001 + k) W" "4 * 2001 + k < 2 ^ 16" "distinct (conns W @ map w [0..<4])"
    and "sends L ask_signin" "sends L (HearbeatRequest \<lparr>HearbeatRequest_spare = 0\<rparr>)"
  shows "always_ends L (crew_restores W) (shouldHeartbeatThreaded w junk W)"
proof -
  let ?ws = "map w [0..<4]"
  have enough: "world_ok (length ?ws * Suc 2000 + k) W" "length ?ws * Suc 2000 + k < 2 ^ 16"
    using assms(1,2) unfolding four_clients by simp_all
  have "always_ends L (crew_restores W)
    \<lparr>cr_world = W, cr_waiting = map (\<lambda>v. (v, junk v, bindP Beat (\<lambda>_. Done True))) ?ws, cr_threads = []\<rparr>"
    by (rule always_ends_mono [OF beaters.crew_ends [OF enough(1) assms(3) _ assms(4) enough(2)]])
      (use assms(5) restoresI [OF _ _ _ _ _ assms(3)] in blast)+
  then show ?thesis unfolding shouldHeartbeatThreaded_def map_map o_def .
qed

lemma adding_threads:
  assumes ok: "world_ok (4 * 202 + k) W" "4 * 202 + k < 2 ^ 16" and dis: "distinct (conns W @ map w [0..<4])"
    and free: "\<forall>i<4. child_uuid (w_server W) 0 (''runner'' @ decimal i) = None"
    and send: "sends L ask_signin" "\<forall>i<4. sends L (ask_create 0 (''runner'' @ decimal i))" "\<forall>v. sends L (ask_delete v)"
  shows "always_ends L (crew_restores W) (shouldConcurrentAddNodeOnSameParent w junk W)"
proof -
  let ?C = "w ` {..<4}" and ?s = "w_server W"
  define name where "name v = ''runner'' @ decimal (inv_into {..<4} w v)" for v
  have enough: "world_ok (length (map w [0..<4]) * Suc 201 + k) W" "length (map w [0..<4]) * Suc 201 + k < 2 ^ 16"
    using ok unfolding four_clients by simp_all
  have w: "inj_on w {..<4}" using dis by (simp add: distinct_map lessThan_atLeast0)
  then have name: "name (w i) = ''runner'' @ decimal i" if "i < 4" for i using that by (simp add: name_def)
  have tr: "tree_inv ?s" and root: "sview ?s 0 = Some ('''', None)" using ok(1) by (simp_all add: world_ok_def proto_inv_def)
  have inj: "inj_on name ?C"
  proof (rule inj_onI)
    fix x y assume "x \<in> ?C" "y \<in> ?C" "name x = name y"
    then obtain i j where "i < 4" "j < 4" "x = w i" "y = w j" "''runner'' @ decimal i = ''runner'' @ decimal j"
      using name by auto
    with inj_onD [OF names_apart] show "x = y" by auto
  qed
  have "can_add L name ?C v (abs_tree ?s) \<and> has_own (name v) (abs_tree ?s) None" if "v \<in> set (map w [0..<4])" for v
  proof -
    from that obtain i where i: "i < 4" "v = w i" by auto
    with free have "child_uuid ?s 0 (name v) \<noteq> Some x" for x by (simp add: name)
    then have "has_own (name v) (abs_tree ?s) None" by (simp add: has_own_def belongs_view child_uuid_view [OF tr])
    moreover have "\<exists>a. abs_tree ?s 0 = Some a \<and> a_parent a = None" using root by (auto simp: sview_def)
    ultimately show ?thesis using inj i send(2,3) by (auto simp: can_add_def name)
  qed
  then have "always_ends L (crew_restores W)
    \<lparr>cr_world = W, cr_waiting = map (\<lambda>v. (v, junk v, bindP client_root (\<lambda>r. CreateDelete r (name v)))) (map w [0..<4]), cr_threads = []\<rparr>"
    by (intro always_ends_mono [OF adders.crew_ends [OF enough(1) dis _ send(1) enough(2)]])
      (use restoresI [OF _ _ _ _ _ dis] in blast)+
  moreover have "map (\<lambda>v. (v, junk v, bindP client_root (\<lambda>r. CreateDelete r (name v)))) (map w [0..<4]) =
    map (\<lambda>i. (w i, junk (w i), bindP client_root (\<lambda>r. CreateDelete r (''runner'' @ decimal i)))) [0..<4]"
    unfolding map_map o_def by (rule map_cong) (simp_all add: name)
  ultimately show ?thesis by (simp only: shouldConcurrentAddNodeOnSameParent_def)
qed

end
