(* ===== verification/EndToEnd.thy ===== *)
theory EndToEnd
  imports RetrieveTree ThreadTests Samples
begin

text \<open>
  The end-to-end tests (\<open>E2ETest\<close>) as programs of clients of one server.
\<close>

section \<open>Cleaning up\<close>



section \<open>One client at work\<close>

text \<open>
  C18: The sequential tests for concurrent operations pass: the workloads that create and delete a node
  fifty times, that set and fetch a value a thousand times and that send a thousand signs of life,
  each eight times over, find every expectation met and leave the tree as they found it, whatever
  else is in it.
\<close>

theorem single_tests_pass:
  assumes use: "usable w 32040 (s, c)"
    and free: "\<forall>i<8. child_uuid s 0 (''CreateDeleteSingle'' @ decimal i) = None" "child_uuid s 0 ''value'' = None"
    and send: "\<forall>i<8. sends L (ask_create 0 (''CreateDeleteSingle'' @ decimal i))" "sends L (ask_create 0 ''value'')"
      "\<forall>v. sends L (ask_delete v)" "\<forall>v i. sends L (ask_set v (as_bytes32 i))"
      "\<forall>v. sends L (GetRequest \<lparr>GetRequest_uuid = v\<rparr>)" "sends L (HearbeatRequest \<lparr>HearbeatRequest_spare = 0\<rparr>)"
    and test: "t \<in> {shouldSingleAddDeleteNode, shouldSingleSetGet, shouldHeartbeatSingle}"
  shows "\<exists>s' c'. run_pair L w held t (s, c) = Inr ((s', c'), True) \<and> abs_tree s' = abs_tree s"
proof -
  have ok: "usable w (8 * 201 + 0) (s, c)" "usable w (8 * 4005 + 0) (s, c)" "usable w (8 * 2000 + 0) (s, c)"
    by (rule usable_mono [OF use], simp)+
  from served.run_shouldSingleAddDeleteNode [OF ok(1), of L held] free(1) send(1,3)
  have "\<exists>y. run_pair L w held shouldSingleAddDeleteNode (s, c) = Inr (y, True) \<and> abs_tree (fst y) = abs_tree s"
    by (simp del: usable.simps) blast
  moreover from served.run_shouldSingleSetGet [OF ok(2), of L held] free(2) send(2-5)
  have "\<exists>y. run_pair L w held shouldSingleSetGet (s, c) = Inr (y, True) \<and> abs_tree (fst y) = abs_tree s"
    by (simp del: usable.simps) blast
  moreover from served.run_shouldHeartbeatSingle [OF ok(3) send(6), of held]
  have "\<exists>y. run_pair L w held shouldHeartbeatSingle (s, c) = Inr (y, True) \<and> abs_tree (fst y) = abs_tree s"
    by (simp del: usable.simps) blast
  ultimately show ?thesis using test by fastforce
qed

lemma single_tests_pass_witness:
  "\<exists>s' c'. run_pair simple_cum 0 [0] shouldSingleSetGet (sample, holding_client) = Inr ((s', c'), True) \<and>
    abs_tree s' = abs_tree sample"
proof -
  have small: "length (''CreateDeleteSingle'' @ decimal i) < 100" if "i < 8" for i
    using that by (simp add: decimal.simps)
  have "child_uuid sample 0 n = None" if "n \<noteq> ''a''" for n
    using that by (simp add: child_uuid_def sample_tables sample_heap new_Node_def)
  then have free: "child_uuid sample 0 (''CreateDeleteSingle'' @ decimal i) = None" "child_uuid sample 0 ''value'' = None" for i
    by auto
  have "usable 0 32040 (sample, holding_client)" by (rule holding_usable) simp
  from single_tests_pass [OF this, of simple_cum shouldSingleSetGet "[0]"] free sends_create [OF small] show ?thesis
    by (simp add: sends_create sends_delete sends_set sends_get sends_beat as_bytes32_def)
qed

section \<open>Clients at work beside each other\<close>










section \<open>Clients in threads of their own\<close>

text \<open>
  C12: Two tests with threads pass however the operations of the threads follow one another, and whenever
  the main thread gets on with constructing the next client: each of four clients creates and deletes
  a child of the root of its own fifty times, or sends a thousand signs of life. No execution goes
  wrong or goes on for ever; when nothing is left to do every thread has found its expectations met,
  and once the clients are gone the server has the tree it had, and the connections.
\<close>

theorem threaded_tests_pass:
  assumes ok: "world_ok (8004 + k) W" "8004 + k < 2 ^ 16" and dis: "distinct (conns W @ map w [0..<4])"
    and free: "\<forall>i<4. child_uuid (w_server W) 0 (''runner'' @ decimal i) = None"
    and send: "sends L ask_signin" "\<forall>i<4. sends L (ask_create 0 (''runner'' @ decimal i))" "\<forall>v. sends L (ask_delete v)"
      "sends L (HearbeatRequest \<lparr>HearbeatRequest_spare = 0\<rparr>)"
    and test: "X \<in> {shouldConcurrentAddNodeOnSameParent w junk W, shouldHeartbeatThreaded w junk W}"
  shows "always_ends L (crew_restores W) X"
proof -
  have "world_ok (4 * 202 + k) W" using world_ok_mono [OF ok(1)] by simp
  from adding_threads [OF this _ dis free send(1-3)] ok(2)
  have "always_ends L (crew_restores W) (shouldConcurrentAddNodeOnSameParent w junk W)" by simp
  moreover have "always_ends L (crew_restores W) (shouldHeartbeatThreaded w junk W)"
    by (rule heartbeat_threads [OF _ _ dis send(1,4)]) (use ok in simp_all)
  ultimately show ?thesis using test by blast
qed

lemma threaded_tests_pass_witness:
  "always_ends simple_cum (crew_restores \<lparr>w_server = sample, w_clients = []\<rparr>)
     (shouldConcurrentAddNodeOnSameParent (\<lambda>i. i) (\<lambda>_. []) \<lparr>w_server = sample, w_clients = []\<rparr>)"
proof -
  let ?W = "\<lparr>w_server = sample, w_clients = []\<rparr>"
  have "sview sample 0 = Some ('''', None)" by (simp add: sview_def abs_tree_def abs_node_def sample_tables sample_heap new_Node_def)
  then have ok: "world_ok (8004 + 0) ?W" using sample_inv [of 8004] by (simp add: world_ok_def conns_def)
  have small: "length (''runner'' @ decimal i) < 100" if "i < 4" for i
    using that by (simp add: decimal.simps)
  have free: "child_uuid (w_server ?W) 0 (''runner'' @ decimal i) = None" for i
    by (simp add: child_uuid_def sample_tables sample_heap new_Node_def)
  show ?thesis
    by (rule threaded_tests_pass [OF ok, where w = "\<lambda>i. i" and junk = "\<lambda>_. []"])
      (use free sends_create [OF small] in \<open>simp_all add: sends_signin sends_delete sends_beat conns_def\<close>)
qed

end
