(* ===== verification/Dump.thy ===== *)
theory Dump
  imports Protocol
begin

text \<open>
  The functions \<open>str\<close> of \<open>interface/protocol.hpp\<close>, which append a message to a log line in a
  notation like JSON; both programs log every message this way. The printers of integers, strings
  and vectors come from the \<open>cum\<close> library and are the parameter \<open>str_lib\<close>.

  What is shown is the nesting of what is printed: \<open>prints P b pr\<close> says that \<open>pr\<close> only appends, and
  that on values of \<open>P\<close> the braces it appends have the balance \<open>b\<close> (opened minus closed). The
  library's printers are assumed to be balanced (\<open>str_ok\<close>). The printer of \<open>Cause\<close> closes a brace
  it has not opened, and so does every message with a cause.
\<close>

section \<open>The library\<close>

type_synonym 'a printer = "string option \<Rightarrow> 'a \<Rightarrow> string \<Rightarrow> bool \<Rightarrow> string"

record str_lib =
  str_u8 :: "u8 printer"
  str_u16 :: "u16 printer"
  str_u32 :: "u32 printer"
  str_u64 :: "u64 printer"
  str_String :: "String printer"
  str_vec_u8 :: "Buffer printer"
  str_vec_u64 :: "u64Array printer"
  str_vec_NamedNode :: "NamedNode printer \<Rightarrow> NamedNodeList printer"
  str_vec_Message :: "PropertyTreeMessage printer \<Rightarrow> PropertyTreeMessageArray printer"

section \<open>The printers\<close>

text \<open>\<open>dq\<close> is the character \<open>\"\<close>.\<close>

definition dq :: string where
  "dq = [CHR 0x22]"

definition open_object :: "string option \<Rightarrow> string \<Rightarrow> string" where
  "open_object pName pCtx = (case pName of
     None \<Rightarrow> pCtx @ ''{''
   | Some n \<Rightarrow> pCtx @ dq @ n @ dq @ '':{'')"

definition close_object :: "string \<Rightarrow> bool \<Rightarrow> string" where
  "close_object pCtx pIsLast = (let pCtx = pCtx @ ''}'' in if \<not> pIsLast then pCtx @ '','' else pCtx)"

text \<open>
  \<open>!(--nMandatory+nOptional)\<close> at the \<open>i\<close>-th of \<open>nMandatory\<close> fields; no struct has optional fields.
\<close>

definition last_field :: "nat \<Rightarrow> nat \<Rightarrow> bool" where
  "last_field nMandatory i \<longleftrightarrow> nMandatory - i = 0"

definition str_Cause :: "Cause printer" where
  "str_Cause pName pIe pCtx pIsLast =
     (let pCtx = (case pName of None \<Rightarrow> pCtx | Some n \<Rightarrow> pCtx @ dq @ n @ dq @ '':'');
          pCtx = pCtx @ (case pIe of
             OK \<Rightarrow> dq @ ''OK'' @ dq
           | NOT_FOUND \<Rightarrow> dq @ ''NOT_FOUND'' @ dq
           | ALREADY_EXIST \<Rightarrow> dq @ ''ALREADY_EXIST'' @ dq
           | NOT_PERMITTED \<Rightarrow> dq @ ''NOT_PERMITTED'' @ dq
           | NOT_EMPTY \<Rightarrow> dq @ ''NOT_EMPTY'' @ dq
           | NO_HANDLER \<Rightarrow> dq @ ''NO_HANDLER'' @ dq
           | UNNAMED _ \<Rightarrow> []);
          pCtx = pCtx @ ''}''
      in if \<not> pIsLast then pCtx @ '','' else pCtx)"

definition str_NamedNode :: "str_lib \<Rightarrow> NamedNode printer" where
  "str_NamedNode L pName pIe pCtx pIsLast =
     (let pCtx = open_object pName pCtx;
          pCtx = str_String L (Some ''name'') (NamedNode_name pIe) pCtx (last_field 3 1);
          pCtx = str_u64 L (Some ''uuid'') (NamedNode_uuid pIe) pCtx (last_field 3 2);
          pCtx = str_u64 L (Some ''parentUuid'') (NamedNode_parentUuid pIe) pCtx (last_field 3 3)
      in close_object pCtx pIsLast)"

definition str_SigninRequest :: "str_lib \<Rightarrow> SigninRequest printer" where
  "str_SigninRequest L pName pIe pCtx pIsLast =
     (let pCtx = open_object pName pCtx;
          pCtx = str_u8 L (Some ''spare'') (SigninRequest_spare pIe) pCtx (last_field 1 1)
      in close_object pCtx pIsLast)"

definition str_SigninAccept :: "str_lib \<Rightarrow> SigninAccept printer" where
  "str_SigninAccept L pName pIe pCtx pIsLast =
     (let pCtx = open_object pName pCtx;
          pCtx = str_u32 L (Some ''sessionId'') (SigninAccept_sessionId pIe) pCtx (last_field 1 1)
      in close_object pCtx pIsLast)"

definition str_CreateRequest :: "str_lib \<Rightarrow> CreateRequest printer" where
  "str_CreateRequest L pName pIe pCtx pIsLast =
     (let pCtx = open_object pName pCtx;
          pCtx = str_String L (Some ''name'') (CreateRequest_name pIe) pCtx (last_field 2 1);
          pCtx = str_u64 L (Some ''parentUuid'') (CreateRequest_parentUuid pIe) pCtx (last_field 2 2)
      in close_object pCtx pIsLast)"

definition str_CreateAccept :: "str_lib \<Rightarrow> CreateAccept printer" where
  "str_CreateAccept L pName pIe pCtx pIsLast =
     (let pCtx = open_object pName pCtx;
          pCtx = str_u64 L (Some ''uuid'') (CreateAccept_uuid pIe) pCtx (last_field 1 1)
      in close_object pCtx pIsLast)"

definition str_CreateReject :: "str_lib \<Rightarrow> CreateReject printer" where
  "str_CreateReject L pName pIe pCtx pIsLast =
     (let pCtx = open_object pName pCtx;
          pCtx = str_Cause (Some ''cause'') (CreateReject_cause pIe) pCtx (last_field 1 1)
      in close_object pCtx pIsLast)"

definition str_GetRequest :: "str_lib \<Rightarrow> GetRequest printer" where
  "str_GetRequest L pName pIe pCtx pIsLast =
     (let pCtx = open_object pName pCtx;
          pCtx = str_u64 L (Some ''uuid'') (GetRequest_uuid pIe) pCtx (last_field 1 1)
      in close_object pCtx pIsLast)"

definition str_GetAccept :: "str_lib \<Rightarrow> GetAccept printer" where
  "str_GetAccept L pName pIe pCtx pIsLast =
     (let pCtx = open_object pName pCtx;
          pCtx = str_vec_u8 L (Some ''data'') (GetAccept_data pIe) pCtx (last_field 1 1)
      in close_object pCtx pIsLast)"

definition str_GetReject :: "str_lib \<Rightarrow> GetReject printer" where
  "str_GetReject L pName pIe pCtx pIsLast =
     (let pCtx = open_object pName pCtx;
          pCtx = str_Cause (Some ''cause'') (GetReject_cause pIe) pCtx (last_field 1 1)
      in close_object pCtx pIsLast)"

definition str_TreeInfoRequest :: "str_lib \<Rightarrow> TreeInfoRequest printer" where
  "str_TreeInfoRequest L pName pIe pCtx pIsLast =
     (let pCtx = open_object pName pCtx;
          pCtx = str_u64 L (Some ''parentUuid'') (TreeInfoRequest_parentUuid pIe) pCtx (last_field 3 1);
          pCtx = str_String L (Some ''name'') (TreeInfoRequest_name pIe) pCtx (last_field 3 2);
          pCtx = str_u8 L (Some ''recursive'') (TreeInfoRequest_recursive pIe) pCtx (last_field 3 3)
      in close_object pCtx pIsLast)"

definition str_TreeInfoResponse :: "str_lib \<Rightarrow> TreeInfoResponse printer" where
  "str_TreeInfoResponse L pName pIe pCtx pIsLast =
     (let pCtx = open_object pName pCtx;
          pCtx = str_vec_NamedNode L (str_NamedNode L) (Some ''nodeToAddList'') (TreeInfoResponse_nodeToAddList pIe) pCtx (last_field 1 1)
      in close_object pCtx pIsLast)"

definition str_TreeInfoErrorResponse :: "str_lib \<Rightarrow> TreeInfoErrorResponse printer" where
  "str_TreeInfoErrorResponse L pName pIe pCtx pIsLast =
     (let pCtx = open_object pName pCtx;
          pCtx = str_Cause (Some ''cause'') (TreeInfoErrorResponse_cause pIe) pCtx (last_field 1 1)
      in close_object pCtx pIsLast)"

definition str_TreeUpdateNotification :: "str_lib \<Rightarrow> TreeUpdateNotification printer" where
  "str_TreeUpdateNotification L pName pIe pCtx pIsLast =
     (let pCtx = open_object pName pCtx;
          pCtx = str_vec_NamedNode L (str_NamedNode L) (Some ''nodeToAddList'') (TreeUpdateNotification_nodeToAddList pIe) pCtx (last_field 2 1);
          pCtx = str_vec_u64 L (Some ''nodeToDelete'') (TreeUpdateNotification_nodeToDelete pIe) pCtx (last_field 2 2)
      in close_object pCtx pIsLast)"

definition str_DeleteRequest :: "str_lib \<Rightarrow> DeleteRequest printer" where
  "str_DeleteRequest L pName pIe pCtx pIsLast =
     (let pCtx = open_object pName pCtx;
          pCtx = str_u64 L (Some ''uuid'') (DeleteRequest_uuid pIe) pCtx (last_field 1 1)
      in close_object pCtx pIsLast)"

definition str_DeleteResponse :: "str_lib \<Rightarrow> DeleteResponse printer" where
  "str_DeleteResponse L pName pIe pCtx pIsLast =
     (let pCtx = open_object pName pCtx;
          pCtx = str_Cause (Some ''cause'') (DeleteResponse_cause pIe) pCtx (last_field 1 1)
      in close_object pCtx pIsLast)"

definition str_SetValueRequest :: "str_lib \<Rightarrow> SetValueRequest printer" where
  "str_SetValueRequest L pName pIe pCtx pIsLast =
     (let pCtx = open_object pName pCtx;
          pCtx = str_u64 L (Some ''uuid'') (SetValueRequest_uuid pIe) pCtx (last_field 2 1);
          pCtx = str_vec_u8 L (Some ''data'') (SetValueRequest_data pIe) pCtx (last_field 2 2)
      in close_object pCtx pIsLast)"

definition str_SetValueAccept :: "str_lib \<Rightarrow> SetValueAccept printer" where
  "str_SetValueAccept L pName pIe pCtx pIsLast =
     (let pCtx = open_object pName pCtx;
          pCtx = str_u8 L (Some ''spare'') (SetValueAccept_spare pIe) pCtx (last_field 1 1)
      in close_object pCtx pIsLast)"

definition str_SetValueReject :: "str_lib \<Rightarrow> SetValueReject printer" where
  "str_SetValueReject L pName pIe pCtx pIsLast =
     (let pCtx = open_object pName pCtx;
          pCtx = str_Cause (Some ''cause'') (SetValueReject_cause pIe) pCtx (last_field 1 1)
      in close_object pCtx pIsLast)"

definition str_SubscribeRequest :: "str_lib \<Rightarrow> SubscribeRequest printer" where
  "str_SubscribeRequest L pName pIe pCtx pIsLast =
     (let pCtx = open_object pName pCtx;
          pCtx = str_u64 L (Some ''uuid'') (SubscribeRequest_uuid pIe) pCtx (last_field 1 1)
      in close_object pCtx pIsLast)"

definition str_SubscribeResponse :: "str_lib \<Rightarrow> SubscribeResponse printer" where
  "str_SubscribeResponse L pName pIe pCtx pIsLast =
     (let pCtx = open_object pName pCtx;
          pCtx = str_Cause (Some ''cause'') (SubscribeResponse_cause pIe) pCtx (last_field 1 1)
      in close_object pCtx pIsLast)"

definition str_UnsubscribeRequest :: "str_lib \<Rightarrow> UnsubscribeRequest printer" where
  "str_UnsubscribeRequest L pName pIe pCtx pIsLast =
     (let pCtx = open_object pName pCtx;
          pCtx = str_u64 L (Some ''uuid'') (UnsubscribeRequest_uuid pIe) pCtx (last_field 1 1)
      in close_object pCtx pIsLast)"

definition str_UnsubscribeResponse :: "str_lib \<Rightarrow> UnsubscribeResponse printer" where
  "str_UnsubscribeResponse L pName pIe pCtx pIsLast =
     (let pCtx = open_object pName pCtx;
          pCtx = str_Cause (Some ''cause'') (UnsubscribeResponse_cause pIe) pCtx (last_field 1 1)
      in close_object pCtx pIsLast)"

definition str_UpdateNotification :: "str_lib \<Rightarrow> UpdateNotification printer" where
  "str_UpdateNotification L pName pIe pCtx pIsLast =
     (let pCtx = open_object pName pCtx;
          pCtx = str_u64 L (Some ''uuid'') (UpdateNotification_uuid pIe) pCtx (last_field 2 1);
          pCtx = str_vec_u8 L (Some ''data'') (UpdateNotification_data pIe) pCtx (last_field 2 2)
      in close_object pCtx pIsLast)"

definition str_RpcRequest :: "str_lib \<Rightarrow> RpcRequest printer" where
  "str_RpcRequest L pName pIe pCtx pIsLast =
     (let pCtx = open_object pName pCtx;
          pCtx = str_u64 L (Some ''uuid'') (RpcRequest_uuid pIe) pCtx (last_field 2 1);
          pCtx = str_vec_u8 L (Some ''param'') (RpcRequest_param pIe) pCtx (last_field 2 2)
      in close_object pCtx pIsLast)"

definition str_RpcAccept :: "str_lib \<Rightarrow> RpcAccept printer" where
  "str_RpcAccept L pName pIe pCtx pIsLast =
     (let pCtx = open_object pName pCtx;
          pCtx = str_vec_u8 L (Some ''value'') (RpcAccept_value pIe) pCtx (last_field 1 1)
      in close_object pCtx pIsLast)"

definition str_RpcReject :: "str_lib \<Rightarrow> RpcReject printer" where
  "str_RpcReject L pName pIe pCtx pIsLast =
     (let pCtx = open_object pName pCtx;
          pCtx = str_Cause (Some ''cause'') (RpcReject_cause pIe) pCtx (last_field 1 1)
      in close_object pCtx pIsLast)"

definition str_HearbeatRequest :: "str_lib \<Rightarrow> HearbeatRequest printer" where
  "str_HearbeatRequest L pName pIe pCtx pIsLast =
     (let pCtx = open_object pName pCtx;
          pCtx = str_u8 L (Some ''spare'') (HearbeatRequest_spare pIe) pCtx (last_field 1 1)
      in close_object pCtx pIsLast)"

definition str_HearbeatResponse :: "str_lib \<Rightarrow> HearbeatResponse printer" where
  "str_HearbeatResponse L pName pIe pCtx pIsLast =
     (let pCtx = open_object pName pCtx;
          pCtx = str_u8 L (Some ''spare'') (HearbeatResponse_spare pIe) pCtx (last_field 1 1)
      in close_object pCtx pIsLast)"

fun str_alternative :: "str_lib \<Rightarrow> PropertyTreeMessages \<Rightarrow> string \<Rightarrow> string" where
  "str_alternative L (SigninRequest x) pCtx = str_SigninRequest L (Some ''SigninRequest'') x pCtx True"
| "str_alternative L (SigninAccept x) pCtx = str_SigninAccept L (Some ''SigninAccept'') x pCtx True"
| "str_alternative L (CreateRequest x) pCtx = str_CreateRequest L (Some ''CreateRequest'') x pCtx True"
| "str_alternative L (CreateAccept x) pCtx = str_CreateAccept L (Some ''CreateAccept'') x pCtx True"
| "str_alternative L (CreateReject x) pCtx = str_CreateReject L (Some ''CreateReject'') x pCtx True"
| "str_alternative L (GetRequest x) pCtx = str_GetRequest L (Some ''GetRequest'') x pCtx True"
| "str_alternative L (GetAccept x) pCtx = str_GetAccept L (Some ''GetAccept'') x pCtx True"
| "str_alternative L (GetReject x) pCtx = str_GetReject L (Some ''GetReject'') x pCtx True"
| "str_alternative L (TreeInfoRequest x) pCtx = str_TreeInfoRequest L (Some ''TreeInfoRequest'') x pCtx True"
| "str_alternative L (TreeInfoResponse x) pCtx = str_TreeInfoResponse L (Some ''TreeInfoResponse'') x pCtx True"
| "str_alternative L (TreeInfoErrorResponse x) pCtx = str_TreeInfoErrorResponse L (Some ''TreeInfoErrorResponse'') x pCtx True"
| "str_alternative L (TreeUpdateNotification x) pCtx = str_TreeUpdateNotification L (Some ''TreeUpdateNotification'') x pCtx True"
| "str_alternative L (DeleteRequest x) pCtx = str_DeleteRequest L (Some ''DeleteRequest'') x pCtx True"
| "str_alternative L (DeleteResponse x) pCtx = str_DeleteResponse L (Some ''DeleteResponse'') x pCtx True"
| "str_alternative L (SetValueRequest x) pCtx = str_SetValueRequest L (Some ''SetValueRequest'') x pCtx True"
| "str_alternative L (SetValueAccept x) pCtx = str_SetValueAccept L (Some ''SetValueAccept'') x pCtx True"
| "str_alternative L (SetValueReject x) pCtx = str_SetValueReject L (Some ''SetValueReject'') x pCtx True"
| "str_alternative L (SubscribeRequest x) pCtx = str_SubscribeRequest L (Some ''SubscribeRequest'') x pCtx True"
| "str_alternative L (SubscribeResponse x) pCtx = str_SubscribeResponse L (Some ''SubscribeResponse'') x pCtx True"
| "str_alternative L (UnsubscribeRequest x) pCtx = str_UnsubscribeRequest L (Some ''UnsubscribeRequest'') x pCtx True"
| "str_alternative L (UnsubscribeResponse x) pCtx = str_UnsubscribeResponse L (Some ''UnsubscribeResponse'') x pCtx True"
| "str_alternative L (UpdateNotification x) pCtx = str_UpdateNotification L (Some ''UpdateNotification'') x pCtx True"
| "str_alternative L (RpcRequest x) pCtx = str_RpcRequest L (Some ''RpcRequest'') x pCtx True"
| "str_alternative L (RpcAccept x) pCtx = str_RpcAccept L (Some ''RpcAccept'') x pCtx True"
| "str_alternative L (RpcReject x) pCtx = str_RpcReject L (Some ''RpcReject'') x pCtx True"
| "str_alternative L (HearbeatRequest x) pCtx = str_HearbeatRequest L (Some ''HearbeatRequest'') x pCtx True"
| "str_alternative L (HearbeatResponse x) pCtx = str_HearbeatResponse L (Some ''HearbeatResponse'') x pCtx True"

text \<open>A variant prints its name without quotes, and its alternative under the name of its type.\<close>

definition open_variant :: "string option \<Rightarrow> string \<Rightarrow> string" where
  "open_variant pName pCtx = (case pName of None \<Rightarrow> pCtx @ ''{'' | Some n \<Rightarrow> pCtx @ n @ '':{'')"

definition str_PropertyTreeMessages :: "str_lib \<Rightarrow> PropertyTreeMessages printer" where
  "str_PropertyTreeMessages L pName pIe pCtx pIsLast =
     close_object (str_alternative L pIe (open_variant pName pCtx)) pIsLast"

definition str_PropertyTreeMessage :: "str_lib \<Rightarrow> PropertyTreeMessage printer" where
  "str_PropertyTreeMessage L pName pIe pCtx pIsLast =
     (let pCtx = open_object pName pCtx;
          pCtx = str_u16 L (Some ''transactionId'') (transactionId pIe) pCtx (last_field 2 1);
          pCtx = str_PropertyTreeMessages L (Some ''message'') (message pIe) pCtx (last_field 2 2)
      in close_object pCtx pIsLast)"

fun str_protocol_alternative :: "str_lib \<Rightarrow> PropertyTreeProtocol \<Rightarrow> string \<Rightarrow> string" where
  "str_protocol_alternative L (PropertyTreeMessage x) pCtx =
     str_PropertyTreeMessage L (Some ''PropertyTreeMessage'') x pCtx True"
| "str_protocol_alternative L (PropertyTreeMessageArray xs) pCtx =
     str_vec_Message L (str_PropertyTreeMessage L) (Some ''PropertyTreeMessageArray'') xs pCtx True"

definition str_PropertyTreeProtocol :: "str_lib \<Rightarrow> PropertyTreeProtocol printer" where
  "str_PropertyTreeProtocol L pName pIe pCtx pIsLast =
     close_object (str_protocol_alternative L pIe (open_variant pName pCtx)) pIsLast"

section \<open>Balance of braces\<close>

definition balance :: "string \<Rightarrow> int" where
  "balance s = int (count_list s CHR ''{'') - int (count_list s CHR ''}'')"

definition brace_free :: "string \<Rightarrow> bool" where
  "brace_free s \<longleftrightarrow> CHR ''{'' \<notin> set s \<and> CHR ''}'' \<notin> set s"

text \<open>The messages whose node names have no braces.\<close>

fun brace_free_message :: "PropertyTreeMessages \<Rightarrow> bool" where
  "brace_free_message (CreateRequest x) = (brace_free (CreateRequest_name x))"
| "brace_free_message (TreeInfoRequest x) = (brace_free (TreeInfoRequest_name x))"
| "brace_free_message (TreeInfoResponse x) = (list_all (\<lambda>e. brace_free (NamedNode_name e)) (TreeInfoResponse_nodeToAddList x))"
| "brace_free_message (TreeUpdateNotification x) = (list_all (\<lambda>e. brace_free (NamedNode_name e)) (TreeUpdateNotification_nodeToAddList x))"
| "brace_free_message _ = True"

text \<open>The messages with a field of type \<open>Cause\<close>.\<close>

fun has_cause :: "PropertyTreeMessages \<Rightarrow> bool" where
  "has_cause (CreateReject _) = True"
| "has_cause (GetReject _) = True"
| "has_cause (TreeInfoErrorResponse _) = True"
| "has_cause (DeleteResponse _) = True"
| "has_cause (SetValueReject _) = True"
| "has_cause (SubscribeResponse _) = True"
| "has_cause (UnsubscribeResponse _) = True"
| "has_cause (RpcReject _) = True"
| "has_cause _ = False"

definition appends :: "(string \<Rightarrow> string) \<Rightarrow> int \<Rightarrow> bool" where
  "appends f b \<longleftrightarrow> (\<exists>t. balance t = b \<and> (\<forall>ctx. f ctx = ctx @ t))"

fun ok_name :: "string option \<Rightarrow> bool" where
  "ok_name None = True"
| "ok_name (Some n) = (balance n = 0)"

definition prints :: "('a \<Rightarrow> bool) \<Rightarrow> int \<Rightarrow> 'a printer \<Rightarrow> bool" where
  "prints P b pr \<longleftrightarrow> (\<forall>x name fin. P x \<longrightarrow> ok_name name \<longrightarrow> appends (\<lambda>ctx. pr name x ctx fin) b)"

definition str_ok :: "str_lib \<Rightarrow> bool" where
  "str_ok L \<longleftrightarrow>
     prints (\<lambda>_. True) 0 (str_u8 L) \<and> prints (\<lambda>_. True) 0 (str_u16 L) \<and>
     prints (\<lambda>_. True) 0 (str_u32 L) \<and> prints (\<lambda>_. True) 0 (str_u64 L) \<and>
     prints brace_free 0 (str_String L) \<and>
     prints (\<lambda>_. True) 0 (str_vec_u8 L) \<and> prints (\<lambda>_. True) 0 (str_vec_u64 L) \<and>
     (\<forall>P pr. prints P 0 pr \<longrightarrow> prints (list_all P) 0 (str_vec_NamedNode L pr)) \<and>
     (\<forall>P pr. prints P 0 pr \<longrightarrow> prints (list_all P) 0 (str_vec_Message L pr))"

lemma balance_append [simp]: "balance (s @ t) = balance s + balance t"
  by (simp add: balance_def)

lemma balance_consts [simp]: "balance [] = 0" "balance dq = 0" "balance '','' = 0" "balance ''{'' = 1"
  "balance ''}'' = - 1" "balance '':{'' = 1" "balance '':'' = 0"
  by (simp_all add: balance_def dq_def)

lemma str_scalars:
  assumes "str_ok L"
  shows "prints (\<lambda>_. True) 0 (str_u8 L)" "prints (\<lambda>_. True) 0 (str_u16 L)"
    "prints (\<lambda>_. True) 0 (str_u32 L)" "prints (\<lambda>_. True) 0 (str_u64 L)" "prints brace_free 0 (str_String L)"
    "prints (\<lambda>_. True) 0 (str_vec_u8 L)" "prints (\<lambda>_. True) 0 (str_vec_u64 L)"
  using assms by (simp_all add: str_ok_def)

lemma str_vec_NamedNode_prints:
  "str_ok L \<Longrightarrow> prints P 0 pr \<Longrightarrow> prints (list_all P) 0 (str_vec_NamedNode L pr)"
  by (simp add: str_ok_def)

lemma str_vec_Message_prints:
  "str_ok L \<Longrightarrow> prints P 0 pr \<Longrightarrow> prints (list_all P) 0 (str_vec_Message L pr)"
  by (simp add: str_ok_def)

lemma printsD: "prints P b pr \<Longrightarrow> P x \<Longrightarrow> ok_name name \<Longrightarrow> appends (\<lambda>ctx. pr name x ctx fin) b"
  by (simp add: prints_def)

lemma printsI:
  "(\<And>x name fin. P x \<Longrightarrow> ok_name name \<Longrightarrow> appends (\<lambda>ctx. pr name x ctx fin) b) \<Longrightarrow> prints P b pr"
  by (simp add: prints_def)

lemma appends_const: "balance t = b \<Longrightarrow> appends (\<lambda>ctx. ctx @ t) b"
  by (auto simp: appends_def)

lemma appends_then: "appends f b \<Longrightarrow> appends g c \<Longrightarrow> appends (\<lambda>ctx. g (f ctx)) (b + c)"
  unfolding appends_def by (elim exE conjE, rule_tac x = "t @ ta" in exI) simp

lemma prints_Cause: "prints (\<lambda>_. True) (- 1) str_Cause"
proof (rule printsI)
  fix x name fin assume name: "ok_name name"
  have quoted: "balance (case x of OK \<Rightarrow> dq @ ''OK'' @ dq | NOT_FOUND \<Rightarrow> dq @ ''NOT_FOUND'' @ dq
      | ALREADY_EXIST \<Rightarrow> dq @ ''ALREADY_EXIST'' @ dq | NOT_PERMITTED \<Rightarrow> dq @ ''NOT_PERMITTED'' @ dq
      | NOT_EMPTY \<Rightarrow> dq @ ''NOT_EMPTY'' @ dq | NO_HANDLER \<Rightarrow> dq @ ''NO_HANDLER'' @ dq
      | UNNAMED _ \<Rightarrow> []) = 0" (is "balance ?q = 0")
    by (simp add: balance_def dq_def split: Cause.split)
  have "str_Cause name x ctx fin =
      ctx @ (case name of None \<Rightarrow> [] | Some n \<Rightarrow> dq @ n @ dq @ '':'') @ ?q @ ''}'' @ (if fin then [] else '','')" for ctx
    by (simp add: str_Cause_def split: option.split)
  moreover have "balance (case name of None \<Rightarrow> [] | Some n \<Rightarrow> dq @ n @ dq @ '':'') = 0"
    using name by (cases name) simp_all
  then have "balance ((case name of None \<Rightarrow> [] | Some n \<Rightarrow> dq @ n @ dq @ '':'') @ ?q @ ''}'' @
      (if fin then [] else '','')) = - 1"
    by (simp only: balance_append quoted) simp
  ultimately show "appends (\<lambda>ctx. str_Cause name x ctx fin) (- 1)"
    by (simp only:) (rule appends_const)
qed

lemma appends_open_object: "ok_name name \<Longrightarrow> appends (open_object name) 1"
  unfolding open_object_def [abs_def] by (cases name) (simp_all add: appends_const)

lemma appends_open_variant: "ok_name name \<Longrightarrow> appends (open_variant name) 1"
  unfolding open_variant_def [abs_def] by (cases name) (simp_all add: appends_const)

lemma appends_close_object: "appends (\<lambda>ctx. close_object ctx fin) (- 1)"
  using appends_then [OF appends_const [of "''}''"] appends_const [of "if fin then [] else '',''"]]
  by (cases fin) (simp_all add: close_object_def)

lemma prints_eq: "prints P b pr \<Longrightarrow> (\<And>x. Q x \<Longrightarrow> P x) \<Longrightarrow> b = c \<Longrightarrow> prints Q c pr"
  by (simp add: prints_def)

text \<open>A struct prints its fields one after the other between braces.\<close>

lemma appends_braces:
  assumes "ok_name name" "appends f b"
  shows "appends (\<lambda>ctx. close_object (f (open_object name ctx)) fin) b"
  using appends_then [OF appends_then [OF appends_open_object [OF assms(1)] assms(2)] appends_close_object]
  by simp

lemma prints_struct1:
  assumes "prints P b pr" "balance ka = 0"
  shows "prints (\<lambda>x. P (fa x)) b (\<lambda>name x ctx fin.
    let ctx = open_object name ctx; ctx = pr (Some ka) (fa x) ctx la in close_object ctx fin)"
  unfolding Let_def using assms by (intro printsI appends_braces) (auto intro: printsD)

lemma prints_struct2:
  assumes "prints P b pr" "prints Q b' pr'" "balance ka = 0" "balance kb = 0"
  shows "prints (\<lambda>x. P (fa x) \<and> Q (fb x)) (b + b') (\<lambda>name x ctx fin.
    let ctx = open_object name ctx; ctx = pr (Some ka) (fa x) ctx la; ctx = pr' (Some kb) (fb x) ctx lb
    in close_object ctx fin)"
  unfolding Let_def
proof (intro printsI, elim conjE)
  fix x name fin assume "P (fa x)" "Q (fb x)" "ok_name name"
  with assms have "appends (\<lambda>ctx. pr (Some ka) (fa x) ctx la) b" "appends (\<lambda>ctx. pr' (Some kb) (fb x) ctx lb) b'"
    by (auto intro: printsD)
  from appends_braces [OF \<open>ok_name name\<close> appends_then [OF this]]
  show "appends (\<lambda>ctx. close_object (pr' (Some kb) (fb x) (pr (Some ka) (fa x) (open_object name ctx) la) lb) fin)
    (b + b')" .
qed

lemma prints_struct3:
  assumes "prints P b pr" "prints Q b' pr'" "prints R b'' pr''"
    "balance ka = 0" "balance kb = 0" "balance kc = 0"
  shows "prints (\<lambda>x. P (fa x) \<and> Q (fb x) \<and> R (fc x)) (b + b' + b'') (\<lambda>name x ctx fin.
    let ctx = open_object name ctx; ctx = pr (Some ka) (fa x) ctx la; ctx = pr' (Some kb) (fb x) ctx lb;
      ctx = pr'' (Some kc) (fc x) ctx lc in close_object ctx fin)"
  unfolding Let_def
proof (intro printsI, elim conjE)
  fix x name fin assume "P (fa x)" "Q (fb x)" "R (fc x)" "ok_name name"
  with assms have "appends (\<lambda>ctx. pr (Some ka) (fa x) ctx la) b" "appends (\<lambda>ctx. pr' (Some kb) (fb x) ctx lb) b'"
    "appends (\<lambda>ctx. pr'' (Some kc) (fc x) ctx lc) b''"
    by (auto intro: printsD)
  from appends_braces [OF \<open>ok_name name\<close> appends_then [OF appends_then [OF this(1,2)] this(3)]]
  show "appends (\<lambda>ctx. close_object (pr'' (Some kc) (fc x) (pr' (Some kb) (fb x)
    (pr (Some ka) (fa x) (open_object name ctx) la) lb) lc) fin) (b + b' + b'')" .
qed

lemma printed_alternative:
  assumes "prints P b pr" "P x" "balance k = 0" "\<And>ctx. str_alternative L (K x) ctx = pr (Some k) x ctx True"
  shows "appends (str_alternative L (K x)) b"
proof -
  have "appends (\<lambda>ctx. pr (Some k) x ctx True) b"
    by (rule printsD [OF assms(1,2)]) (simp add: assms(3))
  with assms(4) show ?thesis by (simp add: appends_def)
qed

lemma prints_NamedNode:
  assumes "str_ok L"
  shows "prints (\<lambda>x. brace_free (NamedNode_name x)) 0 (str_NamedNode L)"
  unfolding str_NamedNode_def [abs_def]
  by (rule prints_eq [OF prints_struct3 [where fa = NamedNode_name and ka = "''name''" and fb = NamedNode_uuid and kb = "''uuid''" and fc = NamedNode_parentUuid and kc = "''parentUuid''",
    OF str_scalars(5) [OF assms] str_scalars(4) [OF assms] str_scalars(4) [OF assms]]])
    (simp_all add: balance_def)

lemma prints_NamedNodeList:
  "str_ok L \<Longrightarrow> prints (list_all (\<lambda>e. brace_free (NamedNode_name e))) 0 (str_vec_NamedNode L (str_NamedNode L))"
  by (rule str_vec_NamedNode_prints) (auto intro: prints_NamedNode)

lemma prints_SigninRequest:
  assumes "str_ok L"
  shows "prints (\<lambda>x. True) 0 (str_SigninRequest L)"
  unfolding str_SigninRequest_def [abs_def]
  by (rule prints_eq [OF prints_struct1 [where fa = SigninRequest_spare and ka = "''spare''",
    OF str_scalars(1) [OF assms]]])
    (simp_all add: balance_def)

lemma prints_SigninAccept:
  assumes "str_ok L"
  shows "prints (\<lambda>x. True) 0 (str_SigninAccept L)"
  unfolding str_SigninAccept_def [abs_def]
  by (rule prints_eq [OF prints_struct1 [where fa = SigninAccept_sessionId and ka = "''sessionId''",
    OF str_scalars(3) [OF assms]]])
    (simp_all add: balance_def)

lemma prints_CreateRequest:
  assumes "str_ok L"
  shows "prints (\<lambda>x. brace_free (CreateRequest_name x)) 0 (str_CreateRequest L)"
  unfolding str_CreateRequest_def [abs_def]
  by (rule prints_eq [OF prints_struct2 [where fa = CreateRequest_name and ka = "''name''" and fb = CreateRequest_parentUuid and kb = "''parentUuid''",
    OF str_scalars(5) [OF assms] str_scalars(4) [OF assms]]])
    (simp_all add: balance_def)

lemma prints_CreateAccept:
  assumes "str_ok L"
  shows "prints (\<lambda>x. True) 0 (str_CreateAccept L)"
  unfolding str_CreateAccept_def [abs_def]
  by (rule prints_eq [OF prints_struct1 [where fa = CreateAccept_uuid and ka = "''uuid''",
    OF str_scalars(4) [OF assms]]])
    (simp_all add: balance_def)

lemma prints_CreateReject:
  assumes "str_ok L"
  shows "prints (\<lambda>x. True) (- 1) (str_CreateReject L)"
  unfolding str_CreateReject_def [abs_def]
  by (rule prints_eq [OF prints_struct1 [where fa = CreateReject_cause and ka = "''cause''",
    OF prints_Cause]])
    (simp_all add: balance_def)

lemma prints_GetRequest:
  assumes "str_ok L"
  shows "prints (\<lambda>x. True) 0 (str_GetRequest L)"
  unfolding str_GetRequest_def [abs_def]
  by (rule prints_eq [OF prints_struct1 [where fa = GetRequest_uuid and ka = "''uuid''",
    OF str_scalars(4) [OF assms]]])
    (simp_all add: balance_def)

lemma prints_GetAccept:
  assumes "str_ok L"
  shows "prints (\<lambda>x. True) 0 (str_GetAccept L)"
  unfolding str_GetAccept_def [abs_def]
  by (rule prints_eq [OF prints_struct1 [where fa = GetAccept_data and ka = "''data''",
    OF str_scalars(6) [OF assms]]])
    (simp_all add: balance_def)

lemma prints_GetReject:
  assumes "str_ok L"
  shows "prints (\<lambda>x. True) (- 1) (str_GetReject L)"
  unfolding str_GetReject_def [abs_def]
  by (rule prints_eq [OF prints_struct1 [where fa = GetReject_cause and ka = "''cause''",
    OF prints_Cause]])
    (simp_all add: balance_def)

lemma prints_TreeInfoRequest:
  assumes "str_ok L"
  shows "prints (\<lambda>x. brace_free (TreeInfoRequest_name x)) 0 (str_TreeInfoRequest L)"
  unfolding str_TreeInfoRequest_def [abs_def]
  by (rule prints_eq [OF prints_struct3 [where fa = TreeInfoRequest_parentUuid and ka = "''parentUuid''" and fb = TreeInfoRequest_name and kb = "''name''" and fc = TreeInfoRequest_recursive and kc = "''recursive''",
    OF str_scalars(4) [OF assms] str_scalars(5) [OF assms] str_scalars(1) [OF assms]]])
    (simp_all add: balance_def)

lemma prints_TreeInfoResponse:
  assumes "str_ok L"
  shows "prints (\<lambda>x. list_all (\<lambda>e. brace_free (NamedNode_name e)) (TreeInfoResponse_nodeToAddList x)) 0 (str_TreeInfoResponse L)"
  unfolding str_TreeInfoResponse_def [abs_def]
  by (rule prints_eq [OF prints_struct1 [where fa = TreeInfoResponse_nodeToAddList and ka = "''nodeToAddList''",
    OF prints_NamedNodeList [OF assms]]])
    (simp_all add: balance_def)

lemma prints_TreeInfoErrorResponse:
  assumes "str_ok L"
  shows "prints (\<lambda>x. True) (- 1) (str_TreeInfoErrorResponse L)"
  unfolding str_TreeInfoErrorResponse_def [abs_def]
  by (rule prints_eq [OF prints_struct1 [where fa = TreeInfoErrorResponse_cause and ka = "''cause''",
    OF prints_Cause]])
    (simp_all add: balance_def)

lemma prints_TreeUpdateNotification:
  assumes "str_ok L"
  shows "prints (\<lambda>x. list_all (\<lambda>e. brace_free (NamedNode_name e)) (TreeUpdateNotification_nodeToAddList x)) 0 (str_TreeUpdateNotification L)"
  unfolding str_TreeUpdateNotification_def [abs_def]
  by (rule prints_eq [OF prints_struct2 [where fa = TreeUpdateNotification_nodeToAddList and ka = "''nodeToAddList''" and fb = TreeUpdateNotification_nodeToDelete and kb = "''nodeToDelete''",
    OF prints_NamedNodeList [OF assms] str_scalars(7) [OF assms]]])
    (simp_all add: balance_def)

lemma prints_DeleteRequest:
  assumes "str_ok L"
  shows "prints (\<lambda>x. True) 0 (str_DeleteRequest L)"
  unfolding str_DeleteRequest_def [abs_def]
  by (rule prints_eq [OF prints_struct1 [where fa = DeleteRequest_uuid and ka = "''uuid''",
    OF str_scalars(4) [OF assms]]])
    (simp_all add: balance_def)

lemma prints_DeleteResponse:
  assumes "str_ok L"
  shows "prints (\<lambda>x. True) (- 1) (str_DeleteResponse L)"
  unfolding str_DeleteResponse_def [abs_def]
  by (rule prints_eq [OF prints_struct1 [where fa = DeleteResponse_cause and ka = "''cause''",
    OF prints_Cause]])
    (simp_all add: balance_def)

lemma prints_SetValueRequest:
  assumes "str_ok L"
  shows "prints (\<lambda>x. True) 0 (str_SetValueRequest L)"
  unfolding str_SetValueRequest_def [abs_def]
  by (rule prints_eq [OF prints_struct2 [where fa = SetValueRequest_uuid and ka = "''uuid''" and fb = SetValueRequest_data and kb = "''data''",
    OF str_scalars(4) [OF assms] str_scalars(6) [OF assms]]])
    (simp_all add: balance_def)

lemma prints_SetValueAccept:
  assumes "str_ok L"
  shows "prints (\<lambda>x. True) 0 (str_SetValueAccept L)"
  unfolding str_SetValueAccept_def [abs_def]
  by (rule prints_eq [OF prints_struct1 [where fa = SetValueAccept_spare and ka = "''spare''",
    OF str_scalars(1) [OF assms]]])
    (simp_all add: balance_def)

lemma prints_SetValueReject:
  assumes "str_ok L"
  shows "prints (\<lambda>x. True) (- 1) (str_SetValueReject L)"
  unfolding str_SetValueReject_def [abs_def]
  by (rule prints_eq [OF prints_struct1 [where fa = SetValueReject_cause and ka = "''cause''",
    OF prints_Cause]])
    (simp_all add: balance_def)

lemma prints_SubscribeRequest:
  assumes "str_ok L"
  shows "prints (\<lambda>x. True) 0 (str_SubscribeRequest L)"
  unfolding str_SubscribeRequest_def [abs_def]
  by (rule prints_eq [OF prints_struct1 [where fa = SubscribeRequest_uuid and ka = "''uuid''",
    OF str_scalars(4) [OF assms]]])
    (simp_all add: balance_def)

lemma prints_SubscribeResponse:
  assumes "str_ok L"
  shows "prints (\<lambda>x. True) (- 1) (str_SubscribeResponse L)"
  unfolding str_SubscribeResponse_def [abs_def]
  by (rule prints_eq [OF prints_struct1 [where fa = SubscribeResponse_cause and ka = "''cause''",
    OF prints_Cause]])
    (simp_all add: balance_def)

lemma prints_UnsubscribeRequest:
  assumes "str_ok L"
  shows "prints (\<lambda>x. True) 0 (str_UnsubscribeRequest L)"
  unfolding str_UnsubscribeRequest_def [abs_def]
  by (rule prints_eq [OF prints_struct1 [where fa = UnsubscribeRequest_uuid and ka = "''uuid''",
    OF str_scalars(4) [OF assms]]])
    (simp_all add: balance_def)

lemma prints_UnsubscribeResponse:
  assumes "str_ok L"
  shows "prints (\<lambda>x. True) (- 1) (str_UnsubscribeResponse L)"
  unfolding str_UnsubscribeResponse_def [abs_def]
  by (rule prints_eq [OF prints_struct1 [where fa = UnsubscribeResponse_cause and ka = "''cause''",
    OF prints_Cause]])
    (simp_all add: balance_def)

lemma prints_UpdateNotification:
  assumes "str_ok L"
  shows "prints (\<lambda>x. True) 0 (str_UpdateNotification L)"
  unfolding str_UpdateNotification_def [abs_def]
  by (rule prints_eq [OF prints_struct2 [where fa = UpdateNotification_uuid and ka = "''uuid''" and fb = UpdateNotification_data and kb = "''data''",
    OF str_scalars(4) [OF assms] str_scalars(6) [OF assms]]])
    (simp_all add: balance_def)

lemma prints_RpcRequest:
  assumes "str_ok L"
  shows "prints (\<lambda>x. True) 0 (str_RpcRequest L)"
  unfolding str_RpcRequest_def [abs_def]
  by (rule prints_eq [OF prints_struct2 [where fa = RpcRequest_uuid and ka = "''uuid''" and fb = RpcRequest_param and kb = "''param''",
    OF str_scalars(4) [OF assms] str_scalars(6) [OF assms]]])
    (simp_all add: balance_def)

lemma prints_RpcAccept:
  assumes "str_ok L"
  shows "prints (\<lambda>x. True) 0 (str_RpcAccept L)"
  unfolding str_RpcAccept_def [abs_def]
  by (rule prints_eq [OF prints_struct1 [where fa = RpcAccept_value and ka = "''value''",
    OF str_scalars(6) [OF assms]]])
    (simp_all add: balance_def)

lemma prints_RpcReject:
  assumes "str_ok L"
  shows "prints (\<lambda>x. True) (- 1) (str_RpcReject L)"
  unfolding str_RpcReject_def [abs_def]
  by (rule prints_eq [OF prints_struct1 [where fa = RpcReject_cause and ka = "''cause''",
    OF prints_Cause]])
    (simp_all add: balance_def)

lemma prints_HearbeatRequest:
  assumes "str_ok L"
  shows "prints (\<lambda>x. True) 0 (str_HearbeatRequest L)"
  unfolding str_HearbeatRequest_def [abs_def]
  by (rule prints_eq [OF prints_struct1 [where fa = HearbeatRequest_spare and ka = "''spare''",
    OF str_scalars(1) [OF assms]]])
    (simp_all add: balance_def)

lemma prints_HearbeatResponse:
  assumes "str_ok L"
  shows "prints (\<lambda>x. True) 0 (str_HearbeatResponse L)"
  unfolding str_HearbeatResponse_def [abs_def]
  by (rule prints_eq [OF prints_struct1 [where fa = HearbeatResponse_spare and ka = "''spare''",
    OF str_scalars(1) [OF assms]]])
    (simp_all add: balance_def)

lemmas printed_alternatives =
  printed_alternative [OF prints_SigninRequest, where K = SigninRequest and k = "''SigninRequest''"]
  printed_alternative [OF prints_SigninAccept, where K = SigninAccept and k = "''SigninAccept''"]
  printed_alternative [OF prints_CreateRequest, where K = CreateRequest and k = "''CreateRequest''"]
  printed_alternative [OF prints_CreateAccept, where K = CreateAccept and k = "''CreateAccept''"]
  printed_alternative [OF prints_CreateReject, where K = CreateReject and k = "''CreateReject''"]
  printed_alternative [OF prints_GetRequest, where K = GetRequest and k = "''GetRequest''"]
  printed_alternative [OF prints_GetAccept, where K = GetAccept and k = "''GetAccept''"]
  printed_alternative [OF prints_GetReject, where K = GetReject and k = "''GetReject''"]
  printed_alternative [OF prints_TreeInfoRequest, where K = TreeInfoRequest and k = "''TreeInfoRequest''"]
  printed_alternative [OF prints_TreeInfoResponse, where K = TreeInfoResponse and k = "''TreeInfoResponse''"]
  printed_alternative [OF prints_TreeInfoErrorResponse, where K = TreeInfoErrorResponse and k = "''TreeInfoErrorResponse''"]
  printed_alternative [OF prints_TreeUpdateNotification, where K = TreeUpdateNotification and k = "''TreeUpdateNotification''"]
  printed_alternative [OF prints_DeleteRequest, where K = DeleteRequest and k = "''DeleteRequest''"]
  printed_alternative [OF prints_DeleteResponse, where K = DeleteResponse and k = "''DeleteResponse''"]
  printed_alternative [OF prints_SetValueRequest, where K = SetValueRequest and k = "''SetValueRequest''"]
  printed_alternative [OF prints_SetValueAccept, where K = SetValueAccept and k = "''SetValueAccept''"]
  printed_alternative [OF prints_SetValueReject, where K = SetValueReject and k = "''SetValueReject''"]
  printed_alternative [OF prints_SubscribeRequest, where K = SubscribeRequest and k = "''SubscribeRequest''"]
  printed_alternative [OF prints_SubscribeResponse, where K = SubscribeResponse and k = "''SubscribeResponse''"]
  printed_alternative [OF prints_UnsubscribeRequest, where K = UnsubscribeRequest and k = "''UnsubscribeRequest''"]
  printed_alternative [OF prints_UnsubscribeResponse, where K = UnsubscribeResponse and k = "''UnsubscribeResponse''"]
  printed_alternative [OF prints_UpdateNotification, where K = UpdateNotification and k = "''UpdateNotification''"]
  printed_alternative [OF prints_RpcRequest, where K = RpcRequest and k = "''RpcRequest''"]
  printed_alternative [OF prints_RpcAccept, where K = RpcAccept and k = "''RpcAccept''"]
  printed_alternative [OF prints_RpcReject, where K = RpcReject and k = "''RpcReject''"]
  printed_alternative [OF prints_HearbeatRequest, where K = HearbeatRequest and k = "''HearbeatRequest''"]
  printed_alternative [OF prints_HearbeatResponse, where K = HearbeatResponse and k = "''HearbeatResponse''"]

lemma alternative_appends:
  assumes "str_ok L" "brace_free_message m"
  shows "appends (str_alternative L m) (if has_cause m then - 1 else 0)"
  using assms by (cases m) (auto intro!: printed_alternatives simp: balance_def)

lemma appends_variant:
  assumes "ok_name name" "appends f b"
  shows "appends (\<lambda>ctx. close_object (f (open_variant name ctx)) fin) b"
  using appends_then [OF appends_then [OF appends_open_variant [OF assms(1)] assms(2)] appends_close_object]
  by simp

lemma prints_message:
  assumes "str_ok L" "\<And>m. P m \<Longrightarrow> brace_free_message (message m) \<and> has_cause (message m) = h"
  shows "prints P (if h then - 1 else 0) (str_PropertyTreeMessage L)"
proof -
  have msgs: "prints (\<lambda>m. brace_free_message m \<and> has_cause m = h) (if h then - 1 else 0) (str_PropertyTreeMessages L)"
    unfolding str_PropertyTreeMessages_def [abs_def]
  proof (intro printsI appends_variant)
    fix x assume "brace_free_message x \<and> has_cause x = h"
    with alternative_appends [OF assms(1), of x] show "appends (str_alternative L x) (if h then - 1 else 0)" by simp
  qed
  show ?thesis
    unfolding str_PropertyTreeMessage_def [abs_def]
    by (rule prints_eq [OF prints_struct2 [where fa = transactionId and fb = message
        and ka = "''transactionId''" and kb = "''message''", OF str_scalars(2) [OF assms(1)] msgs]])
      (use assms(2) in \<open>simp_all add: balance_def\<close>)
qed

lemma protocol_appends:
  assumes "str_ok L" "ok_name name"
    and "case p of PropertyTreeMessage m \<Rightarrow> brace_free_message (message m) \<and> has_cause (message m) = h
      | PropertyTreeMessageArray ms \<Rightarrow>
          \<not> h \<and> list_all (\<lambda>m. brace_free_message (message m) \<and> \<not> has_cause (message m)) ms"
  shows "appends (\<lambda>ctx. str_PropertyTreeProtocol L name p ctx fin) (if h then - 1 else 0)"
proof -
  have "appends (str_protocol_alternative L p) (if h then - 1 else 0)"
  proof (cases p)
    case (PropertyTreeMessage m)
    have "prints (\<lambda>m. brace_free_message (message m) \<and> has_cause (message m) = h) (if h then - 1 else 0)
        (str_PropertyTreeMessage L)" using assms(1) by (rule prints_message) simp
    from printsD [OF this, of m "Some ''PropertyTreeMessage''" True] assms(3) PropertyTreeMessage
    show ?thesis by (simp add: appends_def balance_def)
  next
    case (PropertyTreeMessageArray ms)
    have "prints (\<lambda>m. brace_free_message (message m) \<and> \<not> has_cause (message m)) (if False then - 1 else 0)
        (str_PropertyTreeMessage L)" using assms(1) by (rule prints_message) simp
    then have "prints (\<lambda>m. brace_free_message (message m) \<and> \<not> has_cause (message m)) 0
        (str_PropertyTreeMessage L)" by simp
    from printsD [OF str_vec_Message_prints [OF assms(1) this], of ms "Some ''PropertyTreeMessageArray''" True]
      assms(3) PropertyTreeMessageArray
    show ?thesis by (simp add: appends_def balance_def)
  qed
  from appends_variant [OF assms(2) this] show ?thesis
    unfolding str_PropertyTreeProtocol_def .
qed

section \<open>A library that satisfies the assumptions\<close>

fun print_list :: "'a printer \<Rightarrow> 'a list \<Rightarrow> string \<Rightarrow> string" where
  "print_list pr [] ctx = ctx"
| "print_list pr (x # xs) ctx = print_list pr xs (pr None x ctx True)"

definition simple_str :: str_lib where
  "simple_str = \<lparr>str_u8 = (\<lambda>_ _ ctx _. ctx @ ''0''), str_u16 = (\<lambda>_ _ ctx _. ctx @ ''0''),
     str_u32 = (\<lambda>_ _ ctx _. ctx @ ''0''), str_u64 = (\<lambda>_ _ ctx _. ctx @ ''0''),
     str_String = (\<lambda>_ s ctx _. ctx @ s), str_vec_u8 = (\<lambda>_ _ ctx _. ctx @ ''[]''),
     str_vec_u64 = (\<lambda>_ _ ctx _. ctx @ ''[]''),
     str_vec_NamedNode = (\<lambda>pr _ xs ctx _. print_list pr xs ctx),
     str_vec_Message = (\<lambda>pr _ xs ctx _. print_list pr xs ctx)\<rparr>"

lemma appends_list: "prints P 0 pr \<Longrightarrow> list_all P xs \<Longrightarrow> appends (print_list pr xs) 0"
proof (induction xs)
  case Nil
  then show ?case by (simp add: appends_def)
next
  case (Cons x xs)
  then have "appends (\<lambda>ctx. pr None x ctx True) 0" "appends (print_list pr xs) 0"
    by (auto intro: printsD)
  from appends_then [OF this] show ?case by (simp add: appends_def)
qed

lemma simple_str_ok: "str_ok simple_str"
proof -
  have "balance s = 0" if "brace_free s" for s
    using that by (simp add: balance_def brace_free_def count_list_0_iff)
  moreover have "appends (\<lambda>ctx. ctx @ ''0'') 0" "appends (\<lambda>ctx. ctx @ ''[]'') 0"
    by (simp_all add: appends_const balance_def)
  ultimately show ?thesis
    by (simp add: str_ok_def simple_str_def prints_def appends_list appends_const)
qed

section \<open>Property\<close>

text \<open>
  C31: Whatever printers the library provides, as long as they are balanced themselves, dumping a
  message only appends to the log line, and the braces it appends are balanced unless the message
  carries a \<open>Cause\<close>, in which case there is one closing brace too many.
\<close>

theorem dump_nesting:
  assumes "str_ok L" "brace_free_message (message m)"
  shows "\<exists>t. (\<forall>ctx. str_PropertyTreeProtocol L (Some ''root'') (PropertyTreeMessage m) ctx True = ctx @ t) \<and>
    balance t = (if has_cause (message m) then - 1 else 0)"
  using protocol_appends [OF assms(1), where name = "Some ''root''" and p = "PropertyTreeMessage m"
      and h = "has_cause (message m)" and fin = True] assms(2)
  by (auto simp: appends_def balance_def)

lemma dump_nesting_witness:
  "\<exists>t. (\<forall>ctx. str_PropertyTreeProtocol simple_str (Some ''root'')
       (PropertyTreeMessage \<lparr>transactionId = 3, message = CreateReject \<lparr>CreateReject_cause = ALREADY_EXIST\<rparr>\<rparr>)
       ctx True = ctx @ t) \<and> balance t = - 1"
  using dump_nesting [OF simple_str_ok, of
      "\<lparr>transactionId = 3, message = CreateReject \<lparr>CreateReject_cause = ALREADY_EXIST\<rparr>\<rparr>"]
  by simp

end
